(* ===== verification/Prelude.thy ===== *)
theory Prelude
  imports Main "HOL-Library.Word"
begin

text \<open>
  Shared vocabulary of the development: C integer types, C run-time failures as values,
  byte-addressed memory with little-endian access, and the collections of rewrite rules
  that the component theories add to.

  A C object of an unsigned type of width \<open>w\<close> is a \<open>w word\<close>; a C \<open>int\<close> is an
  \<open>int\<close> in the range of 32 bits whose arithmetic is range-checked, because signed
  overflow is undefined in C. A call that may fail returns \<open>c_error + 'a\<close>; a loop that may
  not end is a \<open>partial_function (option)\<close> whose value \<open>None\<close> means that it does not
  return.
\<close>

unbundle bit_operations_syntax

section \<open>Types\<close>

type_synonym u8 = "8 word"
type_synonym u16 = "16 word"
type_synonym u32 = "32 word"
type_synonym u64 = "64 word"
type_synonym addr = "64 word"
type_synonym mem = "64 word \<Rightarrow> 8 word"

datatype c_error =
    Assert_fail            \<comment> \<open>a failed \<open>assert\<close>\<close>
  | Panic string           \<comment> \<open>\<open>panic\<close>, \<open>panic_on\<close>, \<open>bug\<close>\<close>
  | Exit int               \<comment> \<open>\<open>exit(code)\<close> or \<open>halt(code)\<close>\<close>
  | Int_overflow           \<comment> \<open>overflow of a signed C integer\<close>
  | Div_by_zero
  | Out_of_bounds          \<comment> \<open>an access outside of the object\<close>
  | Null_deref
  | Bad_va_arg             \<comment> \<open>\<open>va_arg\<close> of the wrong type or past the last argument\<close>

section \<open>Collections of rules\<close>

named_theorems c_simps \<open>unfolding rules of the C-level helper operations\<close>
named_theorems mem_simps \<open>reading memory after a write\<close>
named_theorems step_defs \<open>definitions of the operations of a component\<close>

section \<open>Sequencing of fallible calls\<close>

definition rbind :: "'e + 'a \<Rightarrow> ('a \<Rightarrow> 'e + 'b) \<Rightarrow> 'e + 'b" where
  "rbind r f = (case r of Inl e \<Rightarrow> Inl e | Inr x \<Rightarrow> f x)"

definition guard :: "bool \<Rightarrow> 'e \<Rightarrow> 'e + unit" where
  "guard b e = (if b then Inr () else Inl e)"

lemma rbind_simps [simp]: "rbind (Inl e) f = Inl e" "rbind (Inr x) f = f x"
  by (simp_all add: rbind_def)

lemma guard_simps [simp]: "guard True e = Inr ()" "guard False e = Inl e"
  by (simp_all add: guard_def)

lemma rbind_Inr_iff: "rbind r f = Inr y \<longleftrightarrow> (\<exists>x. r = Inr x \<and> f x = Inr y)"
  by (cases r) auto

lemma rbind_Inl_iff: "rbind r f = Inl e \<longleftrightarrow> r = Inl e \<or> (\<exists>x. r = Inr x \<and> f x = Inl e)"
  by (cases r) auto

lemma guard_Inr_iff [simp]: "guard b e = Inr u \<longleftrightarrow> b"
  by (auto simp: guard_def)

section \<open>C \<open>int\<close>: range-checked 32-bit arithmetic\<close>

definition s32_min :: int where "s32_min = - (2 ^ 31)"
definition s32_max :: int where "s32_max = 2 ^ 31 - 1"

definition in_s32 :: "int \<Rightarrow> bool" where
  "in_s32 i \<longleftrightarrow> s32_min \<le> i \<and> i \<le> s32_max"

definition s32 :: "int \<Rightarrow> c_error + int" where
  \<comment> \<open>the result of a signed operation: out of range is undefined behaviour\<close>
  "s32 i = (if in_s32 i then Inr i else Inl Int_overflow)"

lemma in_s32_iff: "in_s32 i \<longleftrightarrow> - 2147483648 \<le> i \<and> i \<le> 2147483647"
  by (simp add: in_s32_def s32_min_def s32_max_def)

lemma in_s32_of_nat: "in_s32 (int n) \<longleftrightarrow> n < 2 ^ 31"
  by (auto simp: in_s32_iff)

lemma s32_Inr [simp]: "in_s32 i \<Longrightarrow> s32 i = Inr i"
  by (simp add: s32_def)

lemma s32_Inr_iff: "s32 i = Inr j \<longleftrightarrow> in_s32 i \<and> j = i"
  by (auto simp: s32_def)

definition int_of_word :: "'a::len word \<Rightarrow> int" where
  \<comment> \<open>conversion of an unsigned value to \<open>int\<close>: the low 32 bits, read as two's complement\<close>
  "int_of_word w = sint (ucast w :: 32 word)"

lemma int_of_word_eq:
  "LENGTH('a::len) \<ge> 32 \<Longrightarrow>
     int_of_word (w :: 'a word) = take_bit 32 (uint w + 2 ^ 31) - 2 ^ 31"
  by (simp add: int_of_word_def sint_uint unsigned_ucast_eq signed_take_bit_eq_take_bit_shift
      take_bit_eq_mod mod_simps)

lemma int_of_word_small:
  fixes w :: "'a::len word"
  assumes "LENGTH('a) \<ge> 32" and "uint w < 2 ^ 31"
  shows "int_of_word w = uint w"
  using assms by (simp add: int_of_word_eq take_bit_int_eq_self)

lemma int_of_word_negative:
  fixes w :: "'a::len word"
  assumes "LENGTH('a) \<ge> 32" and "2 ^ 31 \<le> uint w" and "uint w < 2 ^ 32"
  shows "int_of_word w = uint w - 2 ^ 32"
proof -
  have "take_bit 32 (uint w + 2 ^ 31) = uint w + 2 ^ 31 - 2 ^ 32"
    unfolding take_bit_eq_mod
    by (rule int_mod_pos_eq [where q = 1]) (use assms in auto)
  with assms(1) show ?thesis by (simp add: int_of_word_eq)
qed

definition c_div :: "int \<Rightarrow> int \<Rightarrow> int" where
  \<comment> \<open>C's \<open>/\<close> truncates towards zero\<close>
  "c_div a b = sgn a * sgn b * (\<bar>a\<bar> div \<bar>b\<bar>)"

definition c_mod :: "int \<Rightarrow> int \<Rightarrow> int" where
  "c_mod a b = a - b * c_div a b"

lemma c_div_nonneg: "0 \<le> a \<Longrightarrow> 0 < b \<Longrightarrow> c_div a b = a div b"
  by (cases "a = 0") (auto simp: c_div_def)

lemma c_mod_nonneg: "0 \<le> a \<Longrightarrow> 0 < b \<Longrightarrow> c_mod a b = a mod b"
  by (simp add: c_mod_def c_div_nonneg minus_mult_div_eq_mod)

lemma c_mod_c_div: "b * c_div a b + c_mod a b = a"
  by (simp add: c_mod_def)

section \<open>Loops that may fail\<close>

fun rfold :: "('a \<Rightarrow> 's \<Rightarrow> 'e + 's) \<Rightarrow> 'a list \<Rightarrow> 's \<Rightarrow> 'e + 's" where
  "rfold f [] s = Inr s"
| "rfold f (x # xs) s = rbind (f x s) (rfold f xs)"

lemma rfold_append [simp]: "rfold f (xs @ ys) s = rbind (rfold f xs s) (rfold f ys)"
  by (induction xs arbitrary: s) (auto simp: rbind_def split: sum.splits)

lemma rfold_fold: "(\<And>x s. x \<in> set xs \<Longrightarrow> f x s = Inr (g x s)) \<Longrightarrow> rfold f xs s = Inr (fold g xs s)"
  by (induction xs arbitrary: s) simp_all

lemma rfold_fails:
  assumes "k < n" and "\<And>i s. i < k \<Longrightarrow> \<exists>s'. f i s = Inr s'" and "\<And>s. f k s = Inl e"
  shows "rfold f [0..<n] s = Inl e"
proof -
  have "\<exists>s'. rfold f [0..<k] s = Inr s'" using assms(2)
  proof (induction k)
    case (Suc k)
    then obtain s1 where "rfold f [0..<k] s = Inr s1" by auto
    moreover obtain s2 where "f k s1 = Inr s2" using Suc.prems by blast
    ultimately show ?case by simp
  qed simp
  moreover have "[0..<n] = [0..<k] @ k # [Suc k..<n]"
        using assms(1) upt_add_eq_append [of 0 k "n - k"] by (simp add: upt_conv_Cons)
  ultimately show ?thesis using assms(3) by auto
qed

lemma rfold_Inl: "rfold f xs s = Inl e \<Longrightarrow> (\<And>x s e. f x s = Inl e \<Longrightarrow> P e) \<Longrightarrow> P e"
  by (induction xs arbitrary: s) (auto simp: rbind_def split: sum.splits)

lemma rfold_inv:
  assumes "P 0 s" and "\<And>i s. i < n \<Longrightarrow> P i s \<Longrightarrow> \<exists>s'. f i s = Inr s' \<and> P (Suc i) s'"
  shows "\<exists>s'. rfold f [0..<n] s = Inr s' \<and> P n s'"
  using assms(2)
proof (induction n)
  case 0
  then show ?case using assms(1) by simp
next
  case (Suc n)
  then obtain s1 where "rfold f [0..<n] s = Inr s1" "P n s1" by (metis less_Suc_eq)
  moreover obtain s2 where "f n s1 = Inr s2" "P (Suc n) s2" using Suc.prems [of n s1] calculation by auto
  ultimately show ?case by simp
qed

section \<open>Words\<close>

lemma unat_lt_2p: "unat (w :: 'a::len word) < 2 ^ LENGTH('a)"
  by (fact unsigned_less)

lemma uint_less_of_unat: "unat (w :: 'a::len word) < k \<Longrightarrow> uint w < int k"
  by (metis of_nat_less_iff uint_nat)

lemma unat_add_nat_le_iff:
  assumes "0 \<le> n"
  shows "unat (w :: 'a::len word) + nat n \<le> k \<longleftrightarrow> uint w + n \<le> int k"
proof -
  have "int (unat w + nat n) = uint w + n" using assms by simp
  then show ?thesis by (metis of_nat_le_iff)
qed

lemma unat_add_no_wrap:
  fixes a b :: "'a::len word"
  assumes "unat a + unat b < 2 ^ LENGTH('a)"
  shows "unat (a + b) = unat a + unat b"
  using assms by (simp add: unat_word_ariths)

lemma unat_Suc_lt:
  fixes i n :: "'a::len word"
  assumes "i < n"
  shows "unat (i + 1) = Suc (unat i)"
proof -
  from assms have "unat i < unat n" by (simp add: word_less_nat_alt)
  moreover have "unat n < 2 ^ LENGTH('a)" by simp
  ultimately have "Suc (unat i) < 2 ^ LENGTH('a)" by linarith
  then show ?thesis by (simp add: unat_word_ariths)
qed

lemma word_less_sub_add:
  fixes a d n :: "'a::len word"
  shows "a - d < n \<longleftrightarrow> (\<exists>k. k < n \<and> a = d + k)"
  by (metis add_diff_cancel_left' diff_add_cancel add.commute)

lemma unat_of_nat_lt: "n < 2 ^ LENGTH('a) \<Longrightarrow> unat (of_nat n :: 'a::len word) = n"
  by (simp add: unat_of_nat take_bit_nat_eq_self)

lemma unat_neg_of_nat:
  assumes "0 < d" and "d < 2 ^ 64"
  shows "unat (- of_nat d :: 64 word) = 2 ^ 64 - d"
proof -
  have "(of_nat (2 ^ 64) :: 64 word) = 0" by simp
  then have "- of_nat d = (of_nat (2 ^ 64 - d) :: 64 word)"
    using assms(2) by (subst of_nat_diff) auto
  moreover have "unat (of_nat (2 ^ 64 - d) :: 64 word) = 2 ^ 64 - d"
    using assms by (intro unat_of_nat_lt) simp
  ultimately show ?thesis by (simp only:)
qed

section \<open>Byte memory, little endian\<close>

fun read_bytes :: "mem \<Rightarrow> addr \<Rightarrow> nat \<Rightarrow> u8 list" where
  "read_bytes m a 0 = []"
| "read_bytes m a (Suc n) = m a # read_bytes m (a + 1) n"

fun write_bytes :: "mem \<Rightarrow> addr \<Rightarrow> u8 list \<Rightarrow> mem" where
  "write_bytes m a [] = m"
| "write_bytes m a (b # bs) = (write_bytes m (a + 1) bs)(a := b)"

fun bytes_of_word :: "nat \<Rightarrow> 'a::len word \<Rightarrow> u8 list" where
  "bytes_of_word 0 w = []"
| "bytes_of_word (Suc n) w = ucast w # bytes_of_word n (drop_bit 8 w)"

fun word_of_bytes :: "u8 list \<Rightarrow> 'a::len word" where
  "word_of_bytes [] = 0"
| "word_of_bytes (b # bs) = ucast b OR push_bit 8 (word_of_bytes bs)"

lemma read_bytes_numeral [c_simps]:
  "read_bytes m a (numeral k) = m a # read_bytes m (a + 1) (pred_numeral k)"
  by (simp add: numeral_eq_Suc)

lemma bytes_of_word_numeral [c_simps]:
  "bytes_of_word (numeral k) w = ucast w # bytes_of_word (pred_numeral k) (drop_bit 8 w)"
  by (simp add: numeral_eq_Suc)

definition load :: "nat \<Rightarrow> mem \<Rightarrow> addr \<Rightarrow> 'a::len word" where
  "load n m a = word_of_bytes (read_bytes m a n)"

definition store :: "nat \<Rightarrow> mem \<Rightarrow> addr \<Rightarrow> 'a::len word \<Rightarrow> mem" where
  "store n m a w = write_bytes m a (bytes_of_word n w)"

definition in_region :: "addr \<Rightarrow> nat \<Rightarrow> addr \<Rightarrow> bool" where
  \<comment> \<open>the \<open>n\<close> addresses from \<open>a\<close> on, which may wrap around\<close>
  "in_region a n x \<longleftrightarrow> unat (x - a) < n"

lemma length_read_bytes [simp]: "length (read_bytes m a n) = n"
  by (induction n arbitrary: a) auto

lemma length_bytes_of_word [simp]: "length (bytes_of_word n w) = n"
  by (induction n arbitrary: w) auto

lemma nth_read_bytes: "i < n \<Longrightarrow> read_bytes m a n ! i = m (a + of_nat i)"
proof (induction n arbitrary: a i)
  case (Suc n)
  then show ?case by (cases i) (auto simp: ac_simps)
qed simp

lemma read_bytes_cong:
  "(\<And>i. i < n \<Longrightarrow> m (a + of_nat i) = m' (a' + of_nat i)) \<Longrightarrow>
     read_bytes m a n = read_bytes m' a' n"
  by (rule nth_equalityI) (auto simp: nth_read_bytes)

lemma read_bytes_append:
  "read_bytes m a (i + j) = read_bytes m a i @ read_bytes m (a + of_nat i) j"
  by (induction i arbitrary: a) (auto simp: ac_simps)

lemma unat_add_one_sub:
  fixes x a :: addr
  assumes "x \<noteq> a"
  shows "unat (x - a) = Suc (unat (x - (a + 1)))"
proof -
  from assms have "x - a \<noteq> 0" by simp
  then have "0 < unat (x - a)" by (simp add: unat_gt_0)
  then have "unat (x - a - 1) = unat (x - a) - 1"
    by (metis \<open>x - a \<noteq> 0\<close> unat_minus_one)
  with \<open>0 < unat (x - a)\<close> show ?thesis by (simp add: algebra_simps)
qed

lemma write_bytes_apply:
  "length bs \<le> 2 ^ 64 \<Longrightarrow>
     write_bytes m a bs x = (if in_region a (length bs) x then bs ! unat (x - a) else m x)"
proof (induction bs arbitrary: a)
  case Nil
  then show ?case by (simp add: in_region_def)
next
  case (Cons b bs)
  show ?case
  proof (cases "x = a")
    case False
    then have "unat (x - a) = Suc (unat (x - (a + 1)))" by (rule unat_add_one_sub)
    with False Cons show ?thesis by (simp add: in_region_def)
  qed (simp add: in_region_def)
qed

lemma store_other [mem_simps]:
  "n \<le> 2 ^ 64 \<Longrightarrow> \<not> in_region a n x \<Longrightarrow> store n m a w x = m x"
  by (simp add: store_def write_bytes_apply)

lemma read_write_bytes [mem_simps]:
  "length bs \<le> 2 ^ 64 \<Longrightarrow> read_bytes (write_bytes m a bs) a (length bs) = bs"
proof (rule nth_equalityI)
  fix i assume "length bs \<le> 2 ^ 64" "i < length (read_bytes (write_bytes m a bs) a (length bs))"
  then show "read_bytes (write_bytes m a bs) a (length bs) ! i = bs ! i"
    by (simp add: nth_read_bytes write_bytes_apply in_region_def unat_of_nat_lt)
qed simp

lemma read_write_bytes_other [mem_simps]:
  assumes "length bs \<le> 2 ^ 64"
    and "\<And>i. i < n \<Longrightarrow> \<not> in_region a (length bs) (a' + of_nat i)"
  shows "read_bytes (write_bytes m a bs) a' n = read_bytes m a' n"
  using assms by (intro read_bytes_cong) (simp add: write_bytes_apply)

lemma word_of_bytes_bytes_of_word:
  "word_of_bytes (bytes_of_word n (w :: 'a::len word)) = take_bit (8 * n) w"
proof (induction n arbitrary: w)
  case (Suc n)
  have "ucast (ucast w :: u8) OR push_bit 8 (take_bit (8 * n) (drop_bit 8 w))
      = take_bit (8 * Suc n) w"
    by (rule bit_word_eqI)
      (auto simp: bit_simps bit_or_iff not_less le_Suc_ex intro: bit_imp_possible_bit)
  with Suc.IH show ?case by simp
qed simp

lemma load_store_same [mem_simps]:
  fixes w :: "'a::len word" and v :: "'a::len word"
  assumes "n \<le> 2 ^ 64"
  shows "load n (store n m a w) a = take_bit (8 * n) w"
proof -
  have "read_bytes (store n m a w) a n = bytes_of_word n w"
    using read_write_bytes [of "bytes_of_word n w" m a] assms by (simp add: store_def)
  then show ?thesis by (simp add: load_def word_of_bytes_bytes_of_word)
qed

section \<open>Byte sequences in memory\<close>

lemma unat_offset:
  fixes p :: addr
  assumes "unat p + j < 2 ^ 64"
  shows "unat (p + of_nat j) = unat p + j"
  using assms by (subst unat_add_no_wrap) (simp_all add: unat_of_nat_lt)

definition stored :: "mem \<Rightarrow> addr \<Rightarrow> u8 list \<Rightarrow> bool" where
  "stored m p w \<longleftrightarrow> read_bytes m p (length w) = w"

lemma stored_Nil [simp]: "stored m p []"
  by (simp add: stored_def)

lemma stored_Cons [simp]: "stored m p (c # w) \<longleftrightarrow> m p = c \<and> stored m (p + 1) w"
  by (simp add: stored_def)

lemma stored_append: "stored m p (v @ w) \<longleftrightarrow> stored m p v \<and> stored m (p + of_nat (length v)) w"
  by (induction v arbitrary: p) (auto simp: ac_simps)

lemma write_bytes_snoc:
  assumes "length bs < 2 ^ 64"
  shows "write_bytes m a (bs @ [c]) = (write_bytes m a bs)(a + of_nat (length bs) := c)"
proof
  fix x
  have "x = a + of_nat (length bs) \<longleftrightarrow> unat (x - a) = length bs"
  proof
    assume "unat (x - a) = length bs"
    then have "x - a = of_nat (length bs)" by (metis of_nat_unat ucast_id)
    then show "x = a + of_nat (length bs)" by (metis diff_add_cancel add.commute)
  qed (use assms in \<open>simp add: unat_of_nat_lt\<close>)
  then show "write_bytes m a (bs @ [c]) x = ((write_bytes m a bs)(a + of_nat (length bs) := c)) x"
    using assms by (auto simp: write_bytes_apply in_region_def nth_append)
qed

lemma write_bytes_append:
  "length bs + length cs < 2 ^ 64 \<Longrightarrow>
     write_bytes m a (bs @ cs) = write_bytes (write_bytes m a bs) (a + of_nat (length bs)) cs"
proof (induction cs rule: rev_induct)
  case (snoc c cs)
  then show ?case
    using write_bytes_snoc [of "bs @ cs" m a c] write_bytes_snoc [of cs "write_bytes m a bs" "a + of_nat (length bs)" c]
    by (simp add: ac_simps)
qed simp

lemma load_stored: "stored m a (bytes_of_word n (w :: 'a::len word)) \<Longrightarrow> load n m a = take_bit (8 * n) w"
  by (simp add: load_def stored_def word_of_bytes_bytes_of_word)

lemma stored_write: "length bs \<le> 2 ^ 64 \<Longrightarrow> stored (write_bytes m a bs) a bs"
  by (simp add: stored_def read_write_bytes)

lemma stored_write_other:
  "stored m a' cs \<Longrightarrow> length bs \<le> 2 ^ 64 \<Longrightarrow>
     (\<And>i. i < length cs \<Longrightarrow> \<not> in_region a (length bs) (a' + of_nat i)) \<Longrightarrow> stored (write_bytes m a bs) a' cs"
  by (simp add: stored_def read_write_bytes_other)

lemma write_bytes_nat:
  assumes "b + length bs \<le> 2 ^ 64"
  shows "write_bytes m (of_nat b) bs a =
    (if b \<le> unat a \<and> unat a < b + length bs then bs ! (unat a - b) else m a)"
proof (cases "bs = []")
  case False
  then have b: "unat (of_nat b :: addr) = b" using assms by (intro unat_of_nat_lt) (cases bs; simp)
  have "unat (a - of_nat b) = (if b \<le> unat a then unat a - b else unat a + 2 ^ 64 - b)"
    unfolding unat_sub_if_size b by (simp add: word_size)
  moreover have "unat a < 2 ^ 64" using unat_lt_2p [of a] by simp
  moreover have "length bs \<le> 2 ^ 64" using assms by simp
  ultimately show ?thesis using assms by (auto simp: write_bytes_apply in_region_def)
qed auto

lemma write_bytes_offset:
  assumes "b + length bs \<le> 2 ^ 64"
  shows "write_bytes m (base + of_nat b) bs a =
    (if b \<le> unat (a - base) \<and> unat (a - base) < b + length bs then bs ! (unat (a - base) - b) else m a)"
proof -
  have "write_bytes m (base + of_nat b) bs a = write_bytes (\<lambda>a. m (base + a)) (of_nat b) bs (a - base)"
    using assms by (simp add: write_bytes_apply in_region_def diff_diff_eq)
  then show ?thesis using write_bytes_nat [OF assms, of "\<lambda>a. m (base + a)" "a - base"] by simp
qed

lemma load_cong: "(\<And>i. i < n \<Longrightarrow> m (a + of_nat i) = m' (a + of_nat i)) \<Longrightarrow> load n m a = load n m' a"
  unfolding load_def by (rule arg_cong [OF read_bytes_cong])

end
