(* ===== verification/Klib_String.thy ===== *)
theory Klib_String
  imports Prelude "HOL-Library.List_Lexorder"
begin

text \<open>
  \<open>abstract-machine/klib/src/string.c\<close>: the string and memory routines of klib, on the byte
  memory of the prelude. A pointer is an address, \<open>NULL\<close> is 0, and every address can be
  read and written, as on the bare machine that klib runs on. A \<open>size_t\<close> is a \<open>64 word\<close>;
  the \<open>int\<close> loop counters of \<open>memmove\<close>, \<open>strcmp\<close> and \<open>strncmp\<close> are range-checked integers.
  Whether a plain \<open>char\<close> is signed depends on the target, so the routines that compute with
  one take that as their first argument.
\<close>

section \<open>The routines\<close>

definition c_NULL :: addr where "c_NULL = 0"

definition char_val :: "bool \<Rightarrow> u8 \<Rightarrow> int" where
  \<comment> \<open>the value of a plain \<open>char\<close> promoted to \<open>int\<close>\<close>
  "char_val sgnd b = (if sgnd then sint b else uint b)"

partial_function (option) strlen_loop :: "mem \<Rightarrow> addr \<Rightarrow> u64 \<Rightarrow> u64 option" where
  "strlen_loop m s i = (if m (s + i) \<noteq> 0 then strlen_loop m s (i + 1) else Some i)"

definition strlen :: "mem \<Rightarrow> addr \<Rightarrow> u64 option" where
  "strlen m s = strlen_loop m s 0"

function copy_loop :: "mem \<Rightarrow> addr \<Rightarrow> addr \<Rightarrow> u64 \<Rightarrow> u64 \<Rightarrow> mem" where
  \<comment> \<open>\<open>for (; i < n; ++i) d[i] = s[i];\<close>\<close>
  "copy_loop m d s i n =
     (if i < n then copy_loop (m(d + i := m (s + i))) d s (i + 1) n else m)"
  by pat_completeness auto
termination
  by (relation "measure (\<lambda>(m, d, s, i, n). unat n - unat i)")
    (auto simp: unat_Suc_lt word_less_nat_alt intro!: diff_less_mono2)

declare copy_loop.simps [simp del]

definition strcpy :: "mem \<Rightarrow> addr \<Rightarrow> addr \<Rightarrow> (c_error + mem \<times> addr) option" where
  "strcpy m dst src =
     (if dst = c_NULL \<or> src = c_NULL then Some (Inl Assert_fail)
      else case strlen m src of
             None \<Rightarrow> None
           | Some len \<Rightarrow>
               (let m' = copy_loop m dst src 0 len in Some (Inr (m'(dst + len := 0), dst))))"

function strncpy_copy :: "mem \<Rightarrow> addr \<Rightarrow> addr \<Rightarrow> u64 \<Rightarrow> u64 \<Rightarrow> mem \<times> u64" where
  \<comment> \<open>\<open>for (i = 0; i < n && src[i] != '\0'; i++) dst[i] = src[i];\<close>\<close>
  "strncpy_copy m dst src i n =
     (if i < n \<and> m (src + i) \<noteq> 0
      then strncpy_copy (m(dst + i := m (src + i))) dst src (i + 1) n else (m, i))"
  by pat_completeness auto
termination
  by (relation "measure (\<lambda>(m, d, s, i, n). unat n - unat i)")
    (auto simp: unat_Suc_lt word_less_nat_alt intro!: diff_less_mono2)

function fill_loop :: "mem \<Rightarrow> addr \<Rightarrow> u8 \<Rightarrow> u64 \<Rightarrow> u64 \<Rightarrow> mem" where
  \<comment> \<open>\<open>for (; i < n; i++) dst[i] = c;\<close>\<close>
  "fill_loop m d c i n = (if i < n then fill_loop (m(d + i := c)) d c (i + 1) n else m)"
  by pat_completeness auto
termination
  by (relation "measure (\<lambda>(m, d, c, i, n). unat n - unat i)")
    (auto simp: unat_Suc_lt word_less_nat_alt intro!: diff_less_mono2)

declare strncpy_copy.simps [simp del] fill_loop.simps [simp del]

definition strncpy :: "mem \<Rightarrow> addr \<Rightarrow> addr \<Rightarrow> u64 \<Rightarrow> mem \<times> addr" where
  "strncpy m dst src n =
     (case strncpy_copy m dst src 0 n of (m', i) \<Rightarrow> (fill_loop m' dst 0 i n, dst))"

partial_function (option) strcat_loop ::
  "mem \<Rightarrow> addr \<Rightarrow> addr \<Rightarrow> u64 \<Rightarrow> u64 \<Rightarrow> (mem \<times> u64) option" where
  "strcat_loop m dst src dst_len i =
     (if m (src + i) \<noteq> 0
      then strcat_loop (m(dst + (dst_len + i) := m (src + i))) dst src dst_len (i + 1)
      else Some (m, i))"

definition strcat :: "mem \<Rightarrow> addr \<Rightarrow> addr \<Rightarrow> (mem \<times> addr) option" where
  "strcat m dst src =
     (case strlen m dst of
        None \<Rightarrow> None
      | Some dst_len \<Rightarrow>
          (case strcat_loop m dst src dst_len 0 of
             None \<Rightarrow> None
           | Some (m', i) \<Rightarrow> Some (m'(dst + (dst_len + i) := 0), dst)))"

function strcmp_loop :: "bool \<Rightarrow> mem \<Rightarrow> addr \<Rightarrow> addr \<Rightarrow> int \<Rightarrow> c_error + int" where
  \<comment> \<open>the counter is an \<open>int\<close>: \<open>++i\<close> past \<open>INT_MAX\<close> is undefined\<close>
  "strcmp_loop sgnd m s1 s2 i =
     (let a = m (s1 + of_int i); b = m (s2 + of_int i)
      in if a = b
         then if a = 0 then Inr 0
              else if i < s32_max then strcmp_loop sgnd m s1 s2 (i + 1) else Inl Int_overflow
         else Inr (char_val sgnd a - char_val sgnd b))"
  by pat_completeness auto
termination
  by (relation "measure (\<lambda>(c, m, s1, s2, i). nat (s32_max - i))") auto

definition strcmp :: "bool \<Rightarrow> mem \<Rightarrow> addr \<Rightarrow> addr \<Rightarrow> c_error + int" where
  "strcmp sgnd m s1 s2 =
     (if s1 = c_NULL \<or> s2 = c_NULL then Inl Assert_fail else strcmp_loop sgnd m s1 s2 0)"

function strncmp_loop ::
  "bool \<Rightarrow> mem \<Rightarrow> addr \<Rightarrow> addr \<Rightarrow> u64 \<Rightarrow> int \<Rightarrow> c_error + int" where
  \<comment> \<open>\<open>i < n\<close> and \<open>i == n\<close> compare the \<open>int\<close> converted to \<open>size_t\<close>\<close>
  "strncmp_loop sgnd m s1 s2 n i =
     (let a = m (s1 + of_int i); b = m (s2 + of_int i)
      in if (of_int i :: u64) < n \<and> a = b
         then if a = 0 then Inr 0
              else if i < s32_max then strncmp_loop sgnd m s1 s2 n (i + 1) else Inl Int_overflow
         else if (of_int i :: u64) = n then Inr 0
         else Inr (char_val sgnd a - char_val sgnd b))"
  by pat_completeness auto
termination
  by (relation "measure (\<lambda>(c, m, s1, s2, n, i). nat (s32_max - i))") auto

declare strcmp_loop.simps [simp del] strncmp_loop.simps [simp del]

definition strncmp :: "bool \<Rightarrow> mem \<Rightarrow> addr \<Rightarrow> addr \<Rightarrow> u64 \<Rightarrow> c_error + int" where
  "strncmp sgnd m s1 s2 n =
     (if s1 = c_NULL \<or> s2 = c_NULL then Inr 0 else strncmp_loop sgnd m s1 s2 n 0)"

definition memset :: "mem \<Rightarrow> addr \<Rightarrow> int \<Rightarrow> u64 \<Rightarrow> mem \<times> addr" where
  "memset m s c n = (if s = c_NULL then (m, s) else (fill_loop m s (of_int c) 0 n, s))"

function move_up :: "mem \<Rightarrow> addr \<Rightarrow> addr \<Rightarrow> u64 \<Rightarrow> int \<Rightarrow> c_error + mem" where
  \<comment> \<open>\<open>for (int i = 0; i < n; ++i) d[i] = s[i];\<close>\<close>
  "move_up m d s n i =
     (if (of_int i :: u64) < n
      then let m' = m(d + of_int i := m (s + of_int i))
           in if i < s32_max then move_up m' d s n (i + 1) else Inl Int_overflow
      else Inr m)"
  by pat_completeness auto
termination
  by (relation "measure (\<lambda>(m, d, s, n, i). nat (s32_max - i))") auto

function move_down :: "mem \<Rightarrow> addr \<Rightarrow> addr \<Rightarrow> int \<Rightarrow> mem" where
  \<comment> \<open>\<open>for (int i = n - 1; i >= 0; --i) d[i] = s[i];\<close>\<close>
  "move_down m d s i =
     (if 0 \<le> i then move_down (m(d + of_int i := m (s + of_int i))) d s (i - 1) else m)"
  by pat_completeness auto
termination
  by (relation "measure (\<lambda>(m, d, s, i). nat (i + 1))") auto

declare move_up.simps [simp del] move_down.simps [simp del]

definition memmove :: "mem \<Rightarrow> addr \<Rightarrow> addr \<Rightarrow> u64 \<Rightarrow> c_error + mem \<times> addr" where
  "memmove m dst src n =
     (if dst = c_NULL \<or> src = c_NULL then Inr (m, c_NULL)
      else if n = 0 then Inr (m, dst)
      else if dst < src
           then rbind (move_up m dst src n 0) (\<lambda>m'. Inr (m', dst))
           else Inr (move_down m dst src (int_of_word (n - 1)), dst))"

definition memcpy :: "mem \<Rightarrow> addr \<Rightarrow> addr \<Rightarrow> u64 \<Rightarrow> mem \<times> addr" where
  \<comment> \<open>the NULL case also prints an error line\<close>
  "memcpy m out inp n =
     (if out = c_NULL \<or> inp = c_NULL then (m, c_NULL) else (copy_loop m out inp 0 n, out))"

function memcmp_loop :: "bool \<Rightarrow> mem \<Rightarrow> addr \<Rightarrow> addr \<Rightarrow> u64 \<Rightarrow> u64 \<Rightarrow> int" where
  "memcmp_loop sgnd m a b i n =
     (if i < n
      then if m (a + i) \<noteq> m (b + i)
           then char_val sgnd (m (a + i)) - char_val sgnd (m (b + i))
           else memcmp_loop sgnd m a b (i + 1) n
      else 0)"
  by pat_completeness auto
termination
  by (relation "measure (\<lambda>(c, m, a, b, i, n). unat n - unat i)")
    (auto simp: unat_Suc_lt word_less_nat_alt intro!: diff_less_mono2)

declare memcmp_loop.simps [simp del]

definition memcmp :: "bool \<Rightarrow> mem \<Rightarrow> addr \<Rightarrow> addr \<Rightarrow> u64 \<Rightarrow> int" where
  "memcmp sgnd m s1 s2 n = memcmp_loop sgnd m s1 s2 0 n"

section \<open>C strings and \<open>strlen\<close>\<close>

definition cstr :: "mem \<Rightarrow> addr \<Rightarrow> u8 list \<Rightarrow> bool" where
  \<comment> \<open>\<open>s\<close> points to the bytes \<open>xs\<close>, none of them zero, followed by a zero byte\<close>
  "cstr m s xs \<longleftrightarrow> length xs < 2 ^ 64 \<and> 0 \<notin> set xs \<and>
     read_bytes m s (length xs) = xs \<and> m (s + of_nat (length xs)) = 0"

lemma cstr_iff:
  "cstr m s xs \<longleftrightarrow> length xs < 2 ^ 64 \<and>
     (\<forall>i < length xs. m (s + of_nat i) = xs ! i \<and> xs ! i \<noteq> 0) \<and>
     m (s + of_nat (length xs)) = 0"
  by (auto simp: cstr_def list_eq_iff_nth_eq nth_read_bytes in_set_conv_nth)

lemma cstr_nth: "cstr m s xs \<Longrightarrow> i < length xs \<Longrightarrow> m (s + of_nat i) = xs ! i \<and> xs ! i \<noteq> 0"
  by (simp add: cstr_iff)

lemma cstr_end: "cstr m s xs \<Longrightarrow> m (s + of_nat (length xs)) = 0"
  by (simp add: cstr_def)

lemma cstr_length: "cstr m s xs \<Longrightarrow> length xs < 2 ^ 64"
  by (simp add: cstr_def)

lemma cstr_read_iff:
  "cstr m s (read_bytes m s n) \<longleftrightarrow> n < 2 ^ 64 \<and> (\<forall>i < n. m (s + of_nat i) \<noteq> 0) \<and> m (s + of_nat n) = 0"
  by (auto simp: cstr_iff nth_read_bytes)

lemma cstr_unique: "cstr m s xs \<Longrightarrow> cstr m s ys \<Longrightarrow> xs = ys"
proof -
  assume x: "cstr m s xs" and y: "cstr m s ys"
  have "length xs = length ys"
    using x y cstr_nth cstr_end by (metis linorder_neqE_nat)
  with x y show ?thesis by (metis cstr_def)
qed

lemma strlen_loop_cstr:
  assumes "cstr m s xs" and "i \<le> length xs"
  shows "strlen_loop m s (of_nat i) = Some (of_nat (length xs))"
  using assms(2)
proof (induction i rule: inc_induct)
  case base
  show ?case using assms(1) by (simp add: strlen_loop.simps cstr_end)
next
  case (step i)
  from step.hyps(2) assms(1) have "m (s + of_nat i) \<noteq> 0" using cstr_nth by metis
  with step.IH show ?case by (simp add: strlen_loop.simps [of m s "of_nat i"] add.commute)
qed

lemma strlen_loop_Some:
  assumes "strlen_loop m s i = Some n"
  shows "m (s + n) = 0 \<and> (\<forall>k < unat (n - i). m (s + i + of_nat k) \<noteq> 0)"
proof (rule strlen_loop.raw_induct [where P = "\<lambda>m s i n. m (s + n) = 0 \<and>
     (\<forall>k < unat (n - i). m (s + i + of_nat k) \<noteq> 0)", OF _ assms])
  fix f and m :: mem and s :: addr and i n :: u64
  assume IH: "\<And>m s i n. f m s i = Some n \<Longrightarrow>
      m (s + n) = 0 \<and> (\<forall>k < unat (n - i). m (s + i + of_nat k) \<noteq> 0)"
    and eq: "(if m (s + i) \<noteq> 0 then f m s (i + 1) else Some i) = Some n"
  show "m (s + n) = 0 \<and> (\<forall>k < unat (n - i). m (s + i + of_nat k) \<noteq> 0)"
  proof (cases "m (s + i) = 0")
    case False
    with eq IH have z: "m (s + n) = 0"
      and nz: "\<And>k. k < unat (n - (i + 1)) \<Longrightarrow> m (s + (i + 1) + of_nat k) \<noteq> 0" by auto
    from False z have "n \<noteq> i" by auto
    then have u: "unat (n - i) = Suc (unat (n - (i + 1)))" by (rule unat_add_one_sub)
    have "m (s + i + of_nat k) \<noteq> 0" if "k < unat (n - i)" for k
      using that u False nz [of "k - 1"] by (cases k) (auto simp: algebra_simps)
    with z show ?thesis by blast
  qed (use eq in auto)
qed

lemma strlen_cstr: "cstr m s xs \<Longrightarrow> strlen m s = Some (of_nat (length xs))"
  using strlen_loop_cstr [of m s xs 0] by (simp add: strlen_def)

lemma strlen_Some_iff: "strlen m s = Some n \<longleftrightarrow> cstr m s (read_bytes m s (unat n))"
proof
  assume "strlen m s = Some n"
  then have "m (s + n) = 0" "\<forall>k < unat n. m (s + of_nat k) \<noteq> 0"
    using strlen_loop_Some [of m s 0 n] by (simp_all add: strlen_def)
  moreover have "unat n < 2 ^ 64" using unat_lt_2p [of n] by simp
  ultimately show "cstr m s (read_bytes m s (unat n))" by (simp add: cstr_read_iff)
next
  assume "cstr m s (read_bytes m s (unat n))"
  then show "strlen m s = Some n" using strlen_cstr by fastforce
qed

lemma strlen_None_iff: "strlen m s = None \<longleftrightarrow> (\<forall>a. m a \<noteq> 0)"
proof
  assume none: "strlen m s = None"
  show "\<forall>a. m a \<noteq> 0"
  proof (rule ccontr)
    assume "\<not> (\<forall>a. m a \<noteq> 0)"
    then obtain a where "m a = 0" by blast
    then have ex: "m (s + of_nat (unat (a - s))) = 0" by simp
    define n where "n = (LEAST k. m (s + of_nat k) = 0)"
    have z: "m (s + of_nat n) = 0" unfolding n_def using ex by (rule LeastI)
    have nz: "\<forall>k < n. m (s + of_nat k) \<noteq> 0" unfolding n_def using not_less_Least by blast
    have "n \<le> unat (a - s)" unfolding n_def using ex by (rule Least_le)
    then have "n < 2 ^ 64" using unat_lt_2p [of "a - s"] by simp
    with z nz have "cstr m s (read_bytes m s n)" by (simp add: cstr_read_iff)
    then show False using none strlen_cstr by fastforce
  qed
next
  assume nz: "\<forall>a. m a \<noteq> 0"
  show "strlen m s = None"
  proof (cases "strlen m s")
    case (Some n)
    then have "cstr m s (read_bytes m s (unat n))" by (simp add: strlen_Some_iff)
    then show ?thesis using nz cstr_end by metis
  qed simp
qed

section \<open>Copying\<close>

definition copied :: "mem \<Rightarrow> addr \<Rightarrow> addr \<Rightarrow> u64 \<Rightarrow> mem" where
  \<comment> \<open>the memory after \<open>n\<close> bytes at \<open>s\<close> have been copied to \<open>d\<close>, as if through a buffer\<close>
  "copied m d s n = (\<lambda>x. if x - d < n then m (s + (x - d)) else m x)"

definition upward_safe :: "addr \<Rightarrow> addr \<Rightarrow> u64 \<Rightarrow> bool" where
  \<comment> \<open>an upward copy never overwrites a source byte that it has still to read\<close>
  "upward_safe d s n \<longleftrightarrow> (\<forall>j k. j < k \<and> k < n \<longrightarrow> d + j \<noteq> s + k)"

definition no_wrap :: "addr \<Rightarrow> u64 \<Rightarrow> bool" where
  "no_wrap a n \<longleftrightarrow> unat a + unat n \<le> 2 ^ 64"

lemma no_wrap_unat: "no_wrap a n \<Longrightarrow> k < n \<Longrightarrow> unat (a + k) = unat a + unat k"
  by (rule unat_add_no_wrap) (simp add: no_wrap_def word_less_nat_alt)

lemma word_plus_one_le:
  fixes i y n :: u64
  assumes "i < n"
  shows "i + 1 \<le> y \<longleftrightarrow> i < y"
  using unat_Suc_lt [OF assms] by (simp add: word_less_nat_alt word_le_nat_alt Suc_le_eq)

lemma copy_loop_result:
  assumes "upward_safe d s n"
  shows "copy_loop m d s i n x =
    (if i \<le> x - d \<and> x - d < n then m (s + (x - d)) else m x)"
  using assms
proof (induction m d s i n rule: copy_loop.induct)
  case (1 m d s i n)
  show ?case
  proof (cases "i < n")
    case False
    then have "\<not> (i \<le> x - d \<and> x - d < n)" by (meson le_less_trans not_less)
    then show ?thesis using False by (auto simp: copy_loop.simps [of m d s i n])
  next
    case True
    let ?m = "m(d + i := m (s + i))"
    have IH: "copy_loop ?m d s (i + 1) n x =
        (if i < x - d \<and> x - d < n then ?m (s + (x - d)) else ?m x)"
      using "1.IH" [OF True "1.prems"] word_plus_one_le [OF True] by (simp only:)
    have step: "copy_loop m d s i n = copy_loop ?m d s (i + 1) n"
      using True by (subst copy_loop.simps) simp
    have src: "?m (s + (x - d)) = m (s + (x - d))" if "i < x - d" "x - d < n"
    proof -
      have "d + i \<noteq> s + (x - d)" using "1.prems" that unfolding upward_safe_def by blast
      then show ?thesis by (intro fun_upd_other) (rule not_sym)
    qed
    consider "x = d + i" | "x \<noteq> d + i" "x - d \<noteq> i" by (metis add.commute diff_add_cancel)
    then show ?thesis
    proof cases
      case 1
      then show ?thesis using True IH step by simp
    next
      case 2
      then have "?m x = m x" "i \<le> x - d \<longleftrightarrow> i < x - d" by auto
      then show ?thesis using IH src by (auto simp: step simp del: fun_upd_apply)
    qed
  qed
qed

lemma copy_loop_copied: "upward_safe d s n \<Longrightarrow> copy_loop m d s 0 n = copied m d s n"
  by (rule ext) (simp add: copy_loop_result copied_def)

lemma move_up_copy_loop:
  assumes "unat n < 2 ^ 31" and "0 \<le> i" and "i \<le> uint n"
  shows "move_up m d s n i = Inr (copy_loop m d s (of_int i) n)"
  using assms
proof (induction m d s n i rule: move_up.induct)
  case (1 m d s n i)
  have n31: "uint n < 2147483648" using uint_less_of_unat [OF "1.prems"(1)] by simp
  have "uint (of_int i :: u64) = i"
    using "1.prems"(2,3) n31 by (simp only: uint_word_of_int) (simp add: take_bit_int_eq_self)
  then have i_lt: "(of_int i :: u64) < n \<longleftrightarrow> i < uint n"
    by (simp only: word_less_def)
  show ?case
  proof (cases "i < uint n")
    case True
    let ?m = "m(d + of_int i := m (s + of_int i))"
    have lt: "(of_int i :: u64) < n" using True by (simp only: i_lt)
    have le: "i < s32_max" using True n31 by (simp add: s32_max_def)
    have "0 \<le> i + 1" "i + 1 \<le> uint n" using "1.prems"(2) True by linarith+
    then have IH: "move_up ?m d s n (i + 1) = Inr (copy_loop ?m d s (of_int (i + 1)) n)"
      by (rule "1.IH" [OF lt refl le "1.prems"(1)])
    have "copy_loop m d s (of_int i) n = copy_loop ?m d s (of_int i + 1) n"
      by (subst copy_loop.simps) (simp only: lt if_True)
    moreover have "move_up m d s n i = move_up ?m d s n (i + 1)"
      by (subst move_up.simps) (simp only: lt le if_True Let_def)
    ultimately show ?thesis by (simp only: IH of_int_add of_int_1)
  next
    case False
    then have "\<not> (of_int i :: u64) < n" using i_lt by blast
    then show ?thesis
      by (subst move_up.simps, subst copy_loop.simps) (simp only: if_False)
  qed
qed

lemma move_down_result:
  assumes "\<And>j k. k < j \<Longrightarrow> unat j \<le> nat i \<Longrightarrow> d + j \<noteq> s + k" and "i < 2 ^ 31"
  shows "move_down m d s i x = (if int (unat (x - d)) \<le> i then m (s + (x - d)) else m x)"
  using assms
proof (induction m d s i rule: move_down.induct)
  case (1 m d s i)
  show ?case
  proof (cases "0 \<le> i")
    case False
    then have "\<not> int (unat (x - d)) \<le> i" by linarith
    then show ?thesis using False by (simp add: move_down.simps [of m d s i])
  next
    case True
    let ?i = "of_int i :: u64"
    let ?m = "m(d + ?i := m (s + ?i))"
    have ui: "unat ?i = nat i"
      using True "1.prems"(2) by (simp add: unat_eq_nat_uint uint_word_of_int take_bit_int_eq_self)
    have IH: "move_down ?m d s (i - 1) x =
        (if int (unat (x - d)) \<le> i - 1 then ?m (s + (x - d)) else ?m x)"
      using "1.prems" by (intro "1.IH" [OF True]) auto
    have step: "move_down m d s i = move_down ?m d s (i - 1)"
      using True by (subst move_down.simps) simp
    have src: "?m (s + (x - d)) = m (s + (x - d))" if "int (unat (x - d)) \<le> i - 1"
    proof -
      from that True have "unat (x - d) < nat i" by linarith
      then have "x - d < ?i" by (simp add: word_less_nat_alt ui)
      then have "d + ?i \<noteq> s + (x - d)" using "1.prems"(1) ui by simp
      then show ?thesis by (intro fun_upd_other) (rule not_sym)
    qed
    show ?thesis
    proof (cases "x = d + ?i")
      case x: True
      then have "unat (x - d) = nat i" using ui by simp
      then show ?thesis using True IH step x by simp
    next
      case False
      then have "x - d \<noteq> ?i" by (metis add.commute diff_add_cancel)
      then have "unat (x - d) \<noteq> nat i" using ui by (metis word_unat_eq_iff)
      then have "int (unat (x - d)) \<le> i \<longleftrightarrow> int (unat (x - d)) \<le> i - 1"
        using True by linarith
      moreover have "?m x = m x" using False by (rule fun_upd_other)
      ultimately show ?thesis using IH src by (auto simp: step simp del: fun_upd_apply)
    qed
  qed
qed

lemma upward_safe_below: "no_wrap d n \<Longrightarrow> no_wrap s n \<Longrightarrow> d \<le> s \<Longrightarrow> upward_safe d s n"
  unfolding upward_safe_def
proof (intro allI impI notI)
  fix j k
  assume w: "no_wrap d n" "no_wrap s n" and le: "d \<le> s"
    and jk: "j < k \<and> k < n" and eq: "d + j = s + k"
  from jk have "j < n" by auto
  with w jk have "unat (d + j) = unat d + unat j" "unat (s + k) = unat s + unat k"
    by (auto intro: no_wrap_unat)
  with eq le jk show False by (simp add: word_less_nat_alt word_le_nat_alt)
qed

lemma memmove_result:
  assumes "dst \<noteq> c_NULL" and "src \<noteq> c_NULL" and small: "unat n < 2 ^ 31"
    and wd: "no_wrap dst n" and ws: "no_wrap src n"
  shows "memmove m dst src n = Inr (copied m dst src n, dst)"
proof (cases "n = 0 \<or> dst < src")
  case True
  have z: "copied m dst src 0 = m" by (simp add: copied_def)
  have up: "move_up m dst src n 0 = Inr (copied m dst src n)" if "dst < src"
    using move_up_copy_loop [OF small, of 0 m dst src] copy_loop_copied [OF upward_safe_below [OF wd ws]]
      that by simp
  from True show ?thesis
    using assms(1,2) z up by (auto simp: memmove_def)
next
  case False
  define i where "i = int_of_word (n - 1)"
  have pos: "0 < unat n" using False by (simp add: unat_gt_0)
  have un: "unat (n - 1) = unat n - 1" using False by (metis unat_minus_one)
  have "uint (n - 1) < 2 ^ 31" using uint_less_of_unat [of "n - 1" "2 ^ 31"] un small by simp
  then have "i = uint (n - 1)" unfolding i_def by (intro int_of_word_small) auto
  then have i: "i = int (unat n - 1)" using un uint_nat [of "n - 1"] by simp
  have "dst + j \<noteq> src + k" if "k < j" "unat j \<le> nat i" for j k
  proof
    assume eq: "dst + j = src + k"
    have "unat j < unat n" using that(2) i pos by linarith
    then have j: "j < n" by (simp add: word_less_nat_alt)
    with that(1) have "k < n" by auto
    with j wd ws have "unat (dst + j) = unat dst + unat j" "unat (src + k) = unat src + unat k"
      by (auto intro: no_wrap_unat)
    then show False using eq that(1) False by (auto simp: word_less_nat_alt)
  qed
  then have "move_down m dst src i x = (if int (unat (x - dst)) \<le> i then m (src + (x - dst)) else m x)"
    for x using small i by (intro move_down_result) auto
  moreover have "int (unat (x - dst)) \<le> i \<longleftrightarrow> x - dst < n" for x
    using i pos unfolding word_less_nat_alt by linarith
  ultimately have "move_down m dst src i = copied m dst src n"
    unfolding copied_def by (intro ext) (simp only:)
  then show ?thesis using False assms(1,2) by (simp add: memmove_def i_def)
qed

lemma memmove_int_truncation:
  assumes "dst \<noteq> c_NULL" and "src \<noteq> c_NULL" and "src \<le> dst"
    and "2 ^ 31 < unat n" and "unat n \<le> 2 ^ 32"
  shows "memmove m dst src n = Inr (m, dst)"
proof -
  have "n \<noteq> 0" using assms(4) by auto
  then have "unat (n - 1) = unat n - 1" by (metis unat_minus_one)
  then have "uint (n - 1) = int (unat n) - 1" using assms(4) uint_nat [of "n - 1"] by linarith
  moreover have "2147483648 < unat n" "unat n \<le> 4294967296" using assms(4,5) by simp_all
  ultimately have "2147483648 \<le> uint (n - 1)" "uint (n - 1) < 4294967296" by linarith+
  then have "int_of_word (n - 1) < 0" using int_of_word_negative [of "n - 1"] by simp
  then have "move_down m dst src (int_of_word (n - 1)) = m"
    by (subst move_down.simps) simp
  with assms(1-3) \<open>n \<noteq> 0\<close> show ?thesis by (simp add: memmove_def leD)
qed

lemma memcpy_result:
  assumes "out \<noteq> c_NULL" and "inp \<noteq> c_NULL" and "upward_safe out inp n"
  shows "memcpy m out inp n = (copied m out inp n, out)"
  using assms by (simp add: memcpy_def copy_loop_copied)

text \<open>
  The contract that the copying routines share: where the routine is used as intended, the
  target holds the old contents of the source and nothing else has changed.
\<close>

locale byte_copier =
  fixes copy :: "mem \<Rightarrow> addr \<Rightarrow> addr \<Rightarrow> u64 \<Rightarrow> mem"
    and ok :: "addr \<Rightarrow> addr \<Rightarrow> u64 \<Rightarrow> bool"
  assumes copy_copied: "ok d s n \<Longrightarrow> copy m d s n = copied m d s n"
begin

lemma copy_target: "ok d s n \<Longrightarrow> k < n \<Longrightarrow> copy m d s n (d + k) = m (s + k)"
  by (simp add: copy_copied copied_def)

lemma copy_frame: "ok d s n \<Longrightarrow> \<not> in_region d (unat n) x \<Longrightarrow> copy m d s n x = m x"
  by (simp add: copy_copied copied_def in_region_def word_less_nat_alt)

lemma copy_read_bytes:
  assumes "ok d s n"
  shows "read_bytes (copy m d s n) d (unat n) = read_bytes m s (unat n)"
proof (rule read_bytes_cong)
  fix i assume "i < unat n"
  then have "(of_nat i :: u64) < n"
    using unat_lt_2p [of n] by (simp add: word_less_nat_alt unat_of_nat_lt)
  then show "copy m d s n (d + of_nat i) = m (s + of_nat i)"
    by (rule copy_target [OF assms])
qed

lemma copy_cstr:
  assumes "ok d s n" and "cstr m s xs" and "length xs < unat n"
  shows "cstr (copy m d s n) d xs"
proof -
  have "copy m d s n (d + of_nat i) = m (s + of_nat i)" if "i \<le> length xs" for i
    using that assms unat_lt_2p [of n]
    by (intro copy_target) (simp_all add: word_less_nat_alt unat_of_nat_lt)
  with assms(2) show ?thesis by (auto simp: cstr_iff)
qed

end

definition memcpy_mem :: "mem \<Rightarrow> addr \<Rightarrow> addr \<Rightarrow> u64 \<Rightarrow> mem" where
  "memcpy_mem m d s n = fst (memcpy m d s n)"

definition memmove_mem :: "mem \<Rightarrow> addr \<Rightarrow> addr \<Rightarrow> u64 \<Rightarrow> mem" where
  "memmove_mem m d s n = (case memmove m d s n of Inl e \<Rightarrow> m | Inr (m', p) \<Rightarrow> m')"

interpretation memcpy: byte_copier memcpy_mem
  "\<lambda>d s n. d \<noteq> c_NULL \<and> s \<noteq> c_NULL \<and> upward_safe d s n"
  by unfold_locales (simp add: memcpy_mem_def memcpy_result)

interpretation memmove: byte_copier memmove_mem
  "\<lambda>d s n. d \<noteq> c_NULL \<and> s \<noteq> c_NULL \<and> unat n < 2 ^ 31 \<and> no_wrap d n \<and> no_wrap s n"
  by unfold_locales (simp add: memmove_mem_def memmove_result)

section \<open>Building strings\<close>

lemma of_nat_less_word: "i < n \<Longrightarrow> n < 2 ^ 64 \<Longrightarrow> (of_nat i :: u64) < of_nat n"
  by (simp add: word_less_nat_alt unat_of_nat_lt)

lemma copied_cstr_terminated:
  assumes x: "cstr m src xs"
  shows "cstr ((copied m dst src (of_nat (length xs)))(dst + of_nat (length xs) := 0)) dst xs"
proof -
  let ?n = "of_nat (length xs) :: u64"
  have "copied m dst src ?n (dst + of_nat i) = xs ! i" and "dst + of_nat i \<noteq> dst + ?n"
    if "i < length xs" for i
    using that cstr_nth [OF x] of_nat_less_word [OF that cstr_length [OF x]]
    by (auto simp: copied_def)
  with x show ?thesis by (auto simp: cstr_iff)
qed

lemma strcpy_result:
  assumes "dst \<noteq> c_NULL" and "src \<noteq> c_NULL" and x: "cstr m src xs"
    and "upward_safe dst src (of_nat (length xs))"
  shows "strcpy m dst src =
    Some (Inr ((copied m dst src (of_nat (length xs)))(dst + of_nat (length xs) := 0), dst))"
  using assms by (simp add: strcpy_def strlen_cstr copy_loop_copied)

definition upward_safe_nul :: "addr \<Rightarrow> addr \<Rightarrow> u64 \<Rightarrow> bool" where
  \<comment> \<open>as \<open>upward_safe\<close>, for a source whose terminator at \<open>s + n\<close> is read too\<close>
  "upward_safe_nul d s n \<longleftrightarrow> (\<forall>j k. j < k \<and> k \<le> n \<longrightarrow> d + j \<noteq> s + k)"

lemma upward_safe_nul_imp: "upward_safe_nul d s n \<Longrightarrow> upward_safe d s n"
  unfolding upward_safe_nul_def upward_safe_def by (meson order_less_imp_le)

lemma strcat_loop_copy:
  assumes "i \<le> len" and len: "len < 2 ^ 64"
    and "\<And>k. i \<le> k \<Longrightarrow> k < len \<Longrightarrow> m (src + of_nat k) \<noteq> 0" and "m (src + of_nat len) = 0"
    and safe: "upward_safe_nul (dst + dl) src (of_nat len)"
  shows "strcat_loop m dst src dl (of_nat i) =
    Some (copy_loop m (dst + dl) src (of_nat i) (of_nat len), of_nat len)"
  using assms(1,3,4)
proof (induction i arbitrary: m rule: inc_induct)
  case base
  then show ?case
    by (simp add: strcat_loop.simps [of m dst src dl "of_nat len"]
        copy_loop.simps [of m _ _ "of_nat len"])
next
  case (step i)
  let ?i = "of_nat i :: u64" and ?n = "of_nat len :: u64"
  let ?m = "m(dst + (dl + ?i) := m (src + ?i))"
  have lt: "?i < ?n" using step.hyps(2) len by (rule of_nat_less_word)
  have nz: "m (src + ?i) \<noteq> 0" using step.prems(1) step.hyps(2) by simp
  have later: "?m (src + of_nat k) = m (src + of_nat k)" if "i < k" "k \<le> len" for k
  proof -
    have "?i < of_nat k" using that len by (intro of_nat_less_word) auto
    moreover have "(of_nat k :: u64) \<le> ?n"
      using that len by (simp add: word_le_nat_alt unat_of_nat_lt)
    ultimately show ?thesis
      using safe unfolding upward_safe_nul_def by (intro fun_upd_other) (metis add.assoc)
  qed
  have "strcat_loop m dst src dl ?i = strcat_loop ?m dst src dl (of_nat (Suc i))"
    using nz by (subst strcat_loop.simps) (simp add: add.commute del: fun_upd_apply)
  moreover have "copy_loop m (dst + dl) src ?i ?n = copy_loop ?m (dst + dl) src (of_nat (Suc i)) ?n"
    using lt by (subst copy_loop.simps) (simp add: add.commute add.left_commute del: fun_upd_apply)
  moreover have "strcat_loop ?m dst src dl (of_nat (Suc i)) =
      Some (copy_loop ?m (dst + dl) src (of_nat (Suc i)) ?n, ?n)"
  proof (rule step.IH)
    fix k assume "Suc i \<le> k" "k < len"
    then show "?m (src + of_nat k) \<noteq> 0" using later [of k] step.prems(1) [of k] by simp
  next
    show "?m (src + of_nat len) = 0" using later [of len] step.hyps(2) step.prems(2) by simp
  qed
  ultimately show ?case by (simp only:)
qed

lemma strcat_result:
  assumes x: "cstr m dst xs" and y: "cstr m src ys"
    and safe: "upward_safe_nul (dst + of_nat (length xs)) src (of_nat (length ys))"
  shows "strcat m dst src = Some ((copied m (dst + of_nat (length xs)) src (of_nat (length ys)))
    (dst + of_nat (length xs) + of_nat (length ys) := 0), dst)"
proof -
  have "strcat_loop m dst src (of_nat (length xs)) (of_nat 0) =
      Some (copied m (dst + of_nat (length xs)) src (of_nat (length ys)), of_nat (length ys))"
    using cstr_nth [OF y] cstr_end [OF y] cstr_length [OF y]
      copy_loop_copied [OF upward_safe_nul_imp [OF safe]] strcat_loop_copy [OF _ _ _ _ safe, of 0 m]
    by simp
  then show ?thesis
    by (simp add: strcat_def strlen_cstr [OF x] add.assoc)
qed

lemma cstr_append:
  assumes pre: "\<And>i. i < length xs \<Longrightarrow> m (s + of_nat i) = xs ! i \<and> xs ! i \<noteq> 0"
    and y: "cstr m (s + of_nat (length xs)) ys" and len: "length xs + length ys < 2 ^ 64"
  shows "cstr m s (xs @ ys)"
  unfolding cstr_iff
proof (intro conjI allI impI)
  fix i assume i: "i < length (xs @ ys)"
  have "s + of_nat i = s + of_nat (length xs) + of_nat (i - length xs)" if "\<not> i < length xs"
    using that by (simp add: of_nat_diff)
  then show "m (s + of_nat i) = (xs @ ys) ! i" "(xs @ ys) ! i \<noteq> 0"
    using pre [of i] cstr_nth [OF y, of "i - length xs"] i by (auto simp: nth_append)
next
  show "m (s + of_nat (length (xs @ ys))) = 0" using cstr_end [OF y] by (simp add: add.assoc)
qed (use len in simp)

lemma strcat_cstr:
  assumes x: "cstr m dst xs" and y: "cstr m src ys" and len: "length xs + length ys < 2 ^ 64"
    and safe: "upward_safe_nul (dst + of_nat (length xs)) src (of_nat (length ys))"
  shows "\<exists>m'. strcat m dst src = Some (m', dst) \<and> cstr m' dst (xs @ ys)"
proof -
  let ?lx = "of_nat (length xs) :: u64" and ?ly = "of_nat (length ys) :: u64"
  let ?m' = "(copied m (dst + ?lx) src ?ly)(dst + ?lx + ?ly := 0)"
  have "cstr ?m' (dst + ?lx) ys" using y by (rule copied_cstr_terminated)
  moreover have "?m' (dst + of_nat i) = xs ! i \<and> xs ! i \<noteq> 0" if i: "i < length xs" for i
  proof -
    have lx: "unat ?lx = length xs" and li: "unat (of_nat i :: u64) = i"
      and ly: "unat ?ly = length ys" and lxy: "unat (?lx + ?ly) = length xs + length ys"
      using len i by (simp_all add: unat_of_nat_lt flip: of_nat_add)
    have "\<not> of_nat i - ?lx < ?ly \<and> of_nat i \<noteq> ?lx + ?ly"
    proof -
      have "of_nat i - ?lx = - of_nat (length xs - i)" using i by (simp add: of_nat_diff)
      moreover have "unat (- of_nat (length xs - i) :: u64) = 2 ^ 64 - (length xs - i)"
        using i len by (intro unat_neg_of_nat) auto
      ultimately show ?thesis
        using ly li lxy i len by (auto simp: word_less_nat_alt word_unat_eq_iff)
    qed
    then show ?thesis
      using cstr_nth [OF x i] by (auto simp: copied_def algebra_simps)
  qed
  ultimately have "cstr ?m' dst (xs @ ys)"
    using len by (intro cstr_append) blast+
  then show ?thesis using strcat_result [OF x y safe] by blast
qed

text \<open>Appending a non-empty string to itself overwrites its terminator and never ends.\<close>

lemma strcat_loop_self:
  assumes ret: "strcat_loop m dst src dl i = Some r" and "dst = src" and "dl \<noteq> 0"
    and "\<And>k. k < unat dl \<Longrightarrow> m (src + i + of_nat k) \<noteq> 0"
  shows False
proof -
  define window where "window m src dl i \<longleftrightarrow> (\<forall>k < unat dl. m (src + i + of_nat k) \<noteq> (0::u8))"
    for m :: mem and src :: addr and dl i :: u64
  have "dst = src \<longrightarrow> dl \<noteq> 0 \<longrightarrow> \<not> window m src dl i"
  proof (rule strcat_loop.raw_induct [where P = "\<lambda>m dst src dl i r.
      dst = src \<longrightarrow> dl \<noteq> 0 \<longrightarrow> \<not> window m src dl i", OF _ ret], intro impI notI)
    fix f and m :: mem and dst src :: addr and dl i :: u64 and r
    let ?m = "m(dst + (dl + i) := m (src + i))"
    assume IH: "\<And>m dst src dl i r. f m dst src dl i = Some r \<Longrightarrow>
        dst = src \<longrightarrow> dl \<noteq> 0 \<longrightarrow> \<not> window m src dl i"
      and eq: "(if m (src + i) \<noteq> 0 then f ?m dst src dl (i + 1) else Some (m, i)) = Some r"
      and self: "dst = src" and dl: "dl \<noteq> 0" and w: "window m src dl i"
    have pos: "0 < unat dl" using dl by (simp add: unat_gt_0)
    have z: "m (src + i) \<noteq> 0" using w [unfolded window_def, rule_format, OF pos] by simp
    have "window ?m src dl (i + 1)"
      unfolding window_def
    proof (intro allI impI)
      fix k assume k: "k < unat dl"
      have a: "src + (i + 1) + of_nat k = src + i + of_nat (Suc k)" by (simp add: ac_simps)
      show "?m (src + (i + 1) + of_nat k) \<noteq> 0"
      proof (cases "Suc k < unat dl")
        case True
        then have "m (src + i + of_nat (Suc k)) \<noteq> 0" using w unfolding window_def by blast
        then show ?thesis using z unfolding a by (simp only: fun_upd_apply) presburger
      next
        case False
        then have "unat dl = Suc k" using k by simp
        then have "dl = of_nat (Suc k)" by (metis of_nat_unat ucast_id)
        then have "src + i + of_nat (Suc k) = dst + (dl + i)" using self by (simp add: ac_simps)
        then show ?thesis using z unfolding a by (simp only: fun_upd_apply) presburger
      qed
    qed
    moreover have "f ?m dst src dl (i + 1) = Some r" using eq z by (simp only: if_True simp_thms)
    ultimately show False using IH self dl by blast
  qed
  then show False using assms(2-4) unfolding window_def by blast
qed

lemma strcat_self_diverges:
  assumes x: "cstr m s xs" and "xs \<noteq> []"
  shows "strcat m s s = None"
proof -
  let ?n = "of_nat (length xs) :: u64"
  have n: "unat ?n = length xs" using cstr_length [OF x] by (simp add: unat_of_nat_lt)
  have "?n \<noteq> 0" using n assms(2) by (metis length_0_conv unat_0)
  moreover have "\<And>k. k < unat ?n \<Longrightarrow> m (s + 0 + of_nat k) \<noteq> 0"
    using cstr_nth [OF x] n by simp
  ultimately have "strcat_loop m s s ?n 0 = None"
    using strcat_loop_self by (metis not_None_eq)
  then show ?thesis by (simp add: strcat_def strlen_cstr [OF x])
qed

section \<open>Comparing\<close>

fun bytes_cmp :: "bool \<Rightarrow> u8 list \<Rightarrow> u8 list \<Rightarrow> int" where
  \<comment> \<open>the difference at the first mismatch; the end of a string counts as a zero byte\<close>
  "bytes_cmp sgnd [] [] = 0"
| "bytes_cmp sgnd [] (y # ys) = char_val sgnd 0 - char_val sgnd y"
| "bytes_cmp sgnd (x # xs) [] = char_val sgnd x - char_val sgnd 0"
| "bytes_cmp sgnd (x # xs) (y # ys) =
     (if x = y then bytes_cmp sgnd xs ys else char_val sgnd x - char_val sgnd y)"

lemma char_val_eq_iff [simp]: "char_val sgnd a = char_val sgnd b \<longleftrightarrow> a = b"
  by (auto simp: char_val_def intro: unsigned_word_eqI signed_word_eqI)

lemma bytes_cmp_zero: "0 \<notin> set xs \<Longrightarrow> 0 \<notin> set ys \<Longrightarrow> bytes_cmp sgnd xs ys = 0 \<longleftrightarrow> xs = ys"
  by (induction sgnd xs ys rule: bytes_cmp.induct) auto

lemma bytes_cmp_zero_same_length: "length xs = length ys \<Longrightarrow> bytes_cmp sgnd xs ys = 0 \<longleftrightarrow> xs = ys"
  by (induction xs ys rule: list_induct2) auto

lemma bytes_cmp_less:
  "0 \<notin> set xs \<Longrightarrow> 0 \<notin> set ys \<Longrightarrow> bytes_cmp False xs ys < 0 \<longleftrightarrow> xs < ys"
proof (induction False xs ys rule: bytes_cmp.induct)
  case (2 y ys)
  then have "uint y \<noteq> 0" by (simp add: uint_0_iff)
  then have "0 < uint y" using uint_ge_0 [of y] by linarith
  then show ?case by (simp add: char_val_def)
next
  case (4 x xs y ys)
  then show ?case by (auto simp: char_val_def word_less_def)
qed (auto simp: char_val_def)

lemma bytes_cmp_antisym: "bytes_cmp sgnd ys xs = - bytes_cmp sgnd xs ys"
  by (induction sgnd xs ys rule: bytes_cmp.induct) auto

lemma strcmp_loop_cstr:
  "cstr m (a + of_int i) xs \<Longrightarrow> cstr m (b + of_int i) ys \<Longrightarrow> 0 \<le> i \<Longrightarrow>
   i + int (min (length xs) (length ys)) \<le> s32_max \<Longrightarrow>
     strcmp_loop sgnd m a b i = Inr (bytes_cmp sgnd xs ys)"
proof (induction sgnd xs ys arbitrary: i rule: bytes_cmp.induct)
  case (1 sgnd)
  then show ?case by (subst strcmp_loop.simps) (simp add: cstr_def)
next
  case (2 sgnd y ys)
  then show ?case by (subst strcmp_loop.simps) (auto simp: cstr_def Let_def)
next
  case (3 sgnd x xs)
  then show ?case by (subst strcmp_loop.simps) (auto simp: cstr_def Let_def)
next
  case (4 sgnd x xs y ys)
  have xy: "m (a + of_int i) = x" "m (b + of_int i) = y" "x \<noteq> 0"
    using 4 by (auto simp: cstr_def)
  have tl: "cstr m (a + of_int (i + 1)) xs" "cstr m (b + of_int (i + 1)) ys"
    using "4.prems"(1,2) by (auto simp: cstr_def add.assoc)
  show ?case
  proof (cases "x = y")
    case True
    have "strcmp_loop sgnd m a b (i + 1) = Inr (bytes_cmp sgnd xs ys)"
      using "4.prems" tl by (intro "4.IH" True) auto
    then show ?thesis using True xy "4.prems"
      by (subst strcmp_loop.simps) (auto simp: Let_def)
  next
    case False
    then show ?thesis using xy by (subst strcmp_loop.simps) (auto simp: Let_def)
  qed
qed

lemma strcmp_result:
  assumes "s1 \<noteq> c_NULL" and "s2 \<noteq> c_NULL" and "cstr m s1 xs" and "cstr m s2 ys"
    and "min (length xs) (length ys) < 2 ^ 31"
  shows "strcmp sgnd m s1 s2 = Inr (bytes_cmp sgnd xs ys)"
  using assms strcmp_loop_cstr [of m s1 0 xs s2 ys sgnd]
  by (simp add: strcmp_def s32_max_def)

lemma memcmp_loop_bytes:
  assumes "i \<le> n" and "n < 2 ^ 64"
  shows "memcmp_loop sgnd m a b (of_nat i) (of_nat n) =
    bytes_cmp sgnd (read_bytes m (a + of_nat i) (n - i)) (read_bytes m (b + of_nat i) (n - i))"
  using assms(1)
proof (induction i rule: inc_induct)
  case base
  then show ?case by (subst memcmp_loop.simps) simp
next
  case (step i)
  have lt: "(of_nat i :: u64) < of_nat n" using step.hyps(2) assms(2) by (rule of_nat_less_word)
  have "n - i = Suc (n - Suc i)" using step.hyps by simp
  then show ?case using step.IH lt
    by (subst memcmp_loop.simps) (simp add: ac_simps)
qed

lemma memcmp_result:
  "memcmp sgnd m s1 s2 n = bytes_cmp sgnd (read_bytes m s1 (unat n)) (read_bytes m s2 (unat n))"
  using memcmp_loop_bytes [of 0 "unat n" sgnd m s1 s2] unat_lt_2p [of n] by (simp add: memcmp_def)

section \<open>Properties\<close>

text \<open>\<open>strlen\<close> returns \<open>n\<close> exactly when the bytes \<open>s[0..n-1]\<close> are non-zero and \<open>s[n]\<close> is
  the terminator, and it fails to return exactly when no address at all holds a zero byte.\<close>

theorem strlen_spec:
  "(strlen m s = Some n \<longleftrightarrow> cstr m s (read_bytes m s (unat n))) \<and>
   (strlen m s = None \<longleftrightarrow> (\<forall>a. m a \<noteq> 0))"
  by (simp add: strlen_Some_iff strlen_None_iff)

text \<open>C6: for fewer than \<open>2^31\<close> bytes and regions that do not wrap, \<open>memmove\<close> returns \<open>dst\<close>,
  the target holds the bytes the source held before the call, however the two regions
  overlap, and no byte outside of the target changes.\<close>

theorem memmove_correct:
  assumes "dst \<noteq> c_NULL" and "src \<noteq> c_NULL" and "unat n < 2 ^ 31"
    and "no_wrap dst n" and "no_wrap src n"
  shows "\<exists>m'. memmove m dst src n = Inr (m', dst) \<and>
    read_bytes m' dst (unat n) = read_bytes m src (unat n) \<and>
    (\<forall>x. \<not> in_region dst (unat n) x \<longrightarrow> m' x = m x)"
proof -
  have "memmove m dst src n = Inr (memmove_mem m dst src n, dst)"
    using memmove_result [OF assms] by (simp add: memmove_mem_def)
  then show ?thesis
    using assms memmove.copy_read_bytes [of dst src n m] memmove.copy_frame [of dst src n _ m] by blast
qed

definition demo_mem :: mem where
  "demo_mem = write_bytes (\<lambda>a. 0) 100 [104, 101, 108, 108, 111, 0, 104, 101, 121, 0]"

theorem memmove_correct_witness:
  "\<exists>m'. memmove demo_mem 102 100 5 = Inr (m', 102) \<and>
     read_bytes m' 102 5 = [104, 101, 108, 108, 111] \<and> m' 107 = 101"
proof -
  obtain m' where m': "memmove demo_mem 102 100 5 = Inr (m', 102)"
      "read_bytes m' 102 (unat (5 :: u64)) = read_bytes demo_mem 100 (unat (5 :: u64))"
      "\<forall>x. \<not> in_region 102 (unat (5 :: u64)) x \<longrightarrow> m' x = demo_mem x"
    using memmove_correct [of 102 100 5 demo_mem] by (auto simp: c_NULL_def no_wrap_def)
  have "read_bytes demo_mem 100 (unat (5 :: u64)) = [104, 101, 108, 108, 111]"
    by (simp add: demo_mem_def c_simps)
  moreover have "m' 107 = 101"
    using m'(3) by (auto simp: in_region_def demo_mem_def)
  ultimately show ?thesis using m'(1,2) by simp
qed

text \<open>The downward loop of \<open>memmove\<close> counts in an \<open>int\<close>: for \<open>dst \<ge> src\<close> and more than
  \<open>2^31\<close> (up to \<open>2^32\<close>) bytes, \<open>n - 1\<close> becomes negative, and the call returns \<open>dst\<close> as if it
  had succeeded without copying a single byte.\<close>

theorem memmove_large_copies_nothing:
  assumes "dst \<noteq> c_NULL" and "src \<noteq> c_NULL" and "src \<le> dst"
    and "2 ^ 31 < unat n" and "unat n \<le> 2 ^ 32"
  shows "memmove m dst src n = Inr (m, dst)"
  using assms by (rule memmove_int_truncation)

theorem memmove_large_copies_nothing_witness:
  "memmove demo_mem 200 100 0x90000000 = Inr (demo_mem, 200) \<and> demo_mem 100 \<noteq> demo_mem 200"
  using memmove_large_copies_nothing [of 200 100 "0x90000000" demo_mem]
  by (simp add: c_NULL_def demo_mem_def)

text \<open>On two strings whose shorter one has fewer than \<open>2^31\<close> bytes, \<open>strcmp\<close> returns a
  value that is zero exactly for equal strings, that changes its sign when the arguments are
  swapped and that, where a plain \<open>char\<close> is unsigned, is negative exactly when the first
  string precedes the second one in the lexicographic order of their bytes.\<close>

theorem strcmp_correct:
  assumes "s1 \<noteq> c_NULL" and "s2 \<noteq> c_NULL" and "cstr m s1 xs" and "cstr m s2 ys"
    and "min (length xs) (length ys) < 2 ^ 31"
  shows "\<exists>r. strcmp sgnd m s1 s2 = Inr r \<and> strcmp sgnd m s2 s1 = Inr (- r) \<and>
    (r = 0 \<longleftrightarrow> xs = ys) \<and> (\<not> sgnd \<longrightarrow> (r < 0 \<longleftrightarrow> xs < ys))"
proof -
  have "0 \<notin> set xs" "0 \<notin> set ys" using assms(3,4) by (simp_all add: cstr_def)
  then show ?thesis
    using strcmp_result [OF assms] strcmp_result [OF assms(2,1,4,3)] assms(5)
    by (simp add: bytes_cmp_antisym [of sgnd ys xs] bytes_cmp_zero bytes_cmp_less min.commute)
qed

lemma demo_cstrs: "cstr demo_mem 100 [104, 101, 108, 108, 111]" "cstr demo_mem 106 [104, 101, 121]"
  by (simp_all add: cstr_def demo_mem_def c_simps)

theorem strcmp_correct_witness:
  "\<exists>r. strcmp False demo_mem 100 106 = Inr r \<and> r < 0"
  using strcmp_correct [of 100 106 demo_mem _ _ False, OF _ _ demo_cstrs]
  by (auto simp: c_NULL_def)

text \<open>\<open>strcat\<close> of two strings, whose target region does not run into bytes of the source
  still to be read, leaves at \<open>dst\<close> the concatenation; appending a non-empty string to
  itself never returns.\<close>

theorem strcat_correct:
  assumes x: "cstr m dst xs" and y: "cstr m src ys"
  shows "(length xs + length ys < 2 ^ 64 \<longrightarrow>
      upward_safe_nul (dst + of_nat (length xs)) src (of_nat (length ys)) \<longrightarrow>
        (\<exists>m'. strcat m dst src = Some (m', dst) \<and> cstr m' dst (xs @ ys))) \<and>
    (xs \<noteq> [] \<longrightarrow> strcat m dst dst = None)"
  using strcat_cstr [OF x y] strcat_self_diverges [OF x] by blast

theorem strcat_correct_witness:
  "strcat demo_mem 100 100 = None \<and>
   (\<exists>m'. strcat demo_mem 106 112 = Some (m', 106) \<and> cstr m' 106 [104, 101, 121])"
proof -
  have e: "cstr demo_mem 112 []" by (simp add: cstr_def demo_mem_def)
  have "upward_safe_nul (106 + of_nat (length [104, 101, 121 :: u8])) 112 (of_nat (length ([] :: u8 list)))"
    by (auto simp: upward_safe_nul_def)
  then show ?thesis
    using strcat_correct [OF demo_cstrs(2) e] strcat_correct [OF demo_cstrs(1) demo_cstrs(1)] by simp
qed

end
