(* ===== verification/Klib_Stdlib.thy ===== *)
theory Klib_Stdlib
  imports Klib_String
begin

text \<open>
  \<open>abstract-machine/klib/src/stdlib.c\<close>: the pseudo-random numbers, \<open>abs\<close>, \<open>atoi\<close> and the
  allocator stubs of klib. The static variable \<open>next\<close> (an \<open>unsigned long\<close>, 64 bits) is passed
  in and returned.
\<close>

section \<open>Pseudo-random numbers\<close>

definition rand :: "u64 \<Rightarrow> u64 \<times> int" where
  "rand nxt =
     (let nxt' = nxt * 1103515245 + 12345
      in (nxt', uint ((ucast (nxt' div 65536) :: u32) mod 32768)))"

definition srand :: "u32 \<Rightarrow> u64" where
  "srand seed = ucast seed"

section \<open>\<open>abs\<close>, \<open>atoi\<close>, \<open>malloc\<close>, \<open>free\<close>\<close>

definition c_abs :: "int \<Rightarrow> c_error + int" where
  "c_abs x = (if x < 0 then s32 (- x) else Inr x)"

partial_function (option) atoi_skip :: "mem \<Rightarrow> addr \<Rightarrow> addr option" where
  \<comment> \<open>\<open>while (*nptr == ' ') nptr++;\<close>\<close>
  "atoi_skip m p = (if m p = 32 then atoi_skip m (p + 1) else Some p)"

definition is_digit :: "u8 \<Rightarrow> bool" where
  "is_digit c \<longleftrightarrow> 48 \<le> c \<and> c \<le> 57"

definition atoi_step :: "int \<Rightarrow> u8 \<Rightarrow> c_error + int" where
  \<comment> \<open>\<open>x * 10 + *nptr - '0'\<close>, evaluated from left to right\<close>
  "atoi_step x c = rbind (s32 (x * 10)) (\<lambda>y. rbind (s32 (y + uint c)) (\<lambda>z. s32 (z - 48)))"

partial_function (option) atoi_digits :: "mem \<Rightarrow> addr \<Rightarrow> int \<Rightarrow> (c_error + int) option" where
  "atoi_digits m p x =
     (if is_digit (m p)
      then (case atoi_step x (m p) of
              Inl e \<Rightarrow> Some (Inl e)
            | Inr x' \<Rightarrow> atoi_digits m (p + 1) x')
      else Some (Inr x))"

definition atoi :: "mem \<Rightarrow> addr \<Rightarrow> (c_error + int) option" where
  "atoi m nptr = (case atoi_skip m nptr of None \<Rightarrow> None | Some p \<Rightarrow> atoi_digits m p 0)"

definition malloc :: "u64 \<Rightarrow> c_error + addr" where
  \<comment> \<open>on every target but the host, \<open>malloc\<close> panics\<close>
  "malloc sz = Inl (Panic ''Not implemented'')"

definition free :: "mem \<Rightarrow> addr \<Rightarrow> mem" where
  "free m ptr = m"

section \<open>Decimal numerals\<close>

definition digit_val :: "u8 \<Rightarrow> nat" where
  "digit_val c = unat c - 48"

definition digit_char :: "nat \<Rightarrow> u8" where
  "digit_char d = of_nat (48 + d)"

definition dec_value :: "u8 list \<Rightarrow> nat" where
  "dec_value ds = foldl (\<lambda>x c. x * 10 + digit_val c) 0 ds"

fun dec_rev :: "nat \<Rightarrow> u8 list" where
  \<comment> \<open>the decimal digits of a positive number, the least significant one first\<close>
  "dec_rev n = (if n = 0 then [] else digit_char (n mod 10) # dec_rev (n div 10))"

declare dec_rev.simps [simp del]

definition dec_nat :: "nat \<Rightarrow> u8 list" where
  "dec_nat n = (if n = 0 then [48] else rev (dec_rev n))"

definition dec_int :: "int \<Rightarrow> u8 list" where
  "dec_int i = (if i < 0 then 45 # dec_nat (nat (- i)) else dec_nat (nat i))"

lemma unat_digit_char: "d < 10 \<Longrightarrow> unat (digit_char d) = 48 + d"
  by (simp add: digit_char_def unat_of_nat take_bit_nat_eq_self del: of_nat_add)

lemma digit_val_char [simp]: "d < 10 \<Longrightarrow> digit_val (digit_char d) = d"
  by (simp add: digit_val_def unat_digit_char)

lemma is_digit_char [simp]: "d < 10 \<Longrightarrow> is_digit (digit_char d)"
  by (simp add: is_digit_def word_le_nat_alt unat_digit_char)

lemma is_digit_bounds: "is_digit c \<Longrightarrow> 48 \<le> unat c \<and> unat c \<le> 57"
  by (simp add: is_digit_def word_le_nat_alt)

lemma dec_rev_0 [simp]: "dec_rev 0 = []"
  by (subst dec_rev.simps) simp

lemma dec_rev_pos: "0 < n \<Longrightarrow> dec_rev n = digit_char (n mod 10) # dec_rev (n div 10)"
  by (subst dec_rev.simps) simp

lemma dec_value_Nil [simp]: "dec_value [] = 0"
  by (simp add: dec_value_def)

lemma dec_value_snoc [simp]: "dec_value (ds @ [c]) = dec_value ds * 10 + digit_val c"
  by (simp add: dec_value_def)

lemma dec_value_rev: "dec_value (rev (dec_rev n)) = n"
proof (induction n rule: dec_rev.induct)
  case (1 n)
  then show ?case by (cases "n = 0") (simp_all add: dec_rev_pos)
qed

lemma set_dec_rev: "c \<in> set (dec_rev n) \<Longrightarrow> is_digit c"
proof (induction n rule: dec_rev.induct)
  case (1 n)
  then show ?case by (cases "n = 0") (auto simp: dec_rev_pos)
qed

lemma dec_value_nat: "dec_value (dec_nat n) = n"
  by (simp add: dec_nat_def dec_value_rev) (simp add: dec_value_def digit_val_def)

lemma set_dec_nat: "c \<in> set (dec_nat n) \<Longrightarrow> is_digit c"
  by (auto simp: dec_nat_def is_digit_def split: if_splits dest: set_dec_rev)

lemma length_dec_rev: "n < 10 ^ k \<Longrightarrow> length (dec_rev n) \<le> k"
proof (induction k arbitrary: n)
  case (Suc k)
  then have "n div 10 < 10 ^ k" by (simp add: less_mult_imp_div_less mult.commute)
  with Suc.IH show ?case by (cases "n = 0") (auto simp: dec_rev_pos)
qed simp

lemma length_dec_nat: "n < 10 ^ Suc k \<Longrightarrow> length (dec_nat n) \<le> Suc k"
  using length_dec_rev [of n "Suc k"] by (simp add: dec_nat_def)

lemma length_dec_nat_pos: "0 < length (dec_nat n)"
  by (simp add: dec_nat_def dec_rev_pos)

section \<open>What \<open>atoi\<close> reads\<close>

lemma foldl_dec_mono: "(x::nat) \<le> foldl (\<lambda>x c. x * 10 + digit_val c) x ds"
proof (induction ds arbitrary: x)
  case (Cons c ds)
  have "x \<le> x * 10 + digit_val c" by simp
  also have "\<dots> \<le> foldl (\<lambda>x c. x * 10 + digit_val c) (x * 10 + digit_val c) ds" by (rule Cons.IH)
  finally show ?case by simp
qed simp

lemma atoi_step_ok:
  assumes "is_digit c" and "0 \<le> x" and "x * 10 + int (digit_val c) \<le> 2147483599"
  shows "atoi_step x c = Inr (x * 10 + int (digit_val c))"
proof -
  have "int (unat c) = 48 + int (digit_val c)"
    using is_digit_bounds [OF assms(1)] by (simp add: digit_val_def)
  then have "uint c = 48 + int (digit_val c)" by simp
  then show ?thesis using assms(2,3) by (simp add: atoi_step_def in_s32_iff)
qed

lemma atoi_digits_result:
  assumes "\<And>i. i < length ds \<Longrightarrow> m (p + of_nat i) = ds ! i"
    and "\<forall>c \<in> set ds. is_digit c" and "\<not> is_digit (m (p + of_nat (length ds)))"
    and "foldl (\<lambda>x c. x * 10 + digit_val c) x ds \<le> 2147483599"
  shows "atoi_digits m p (int x) = Some (Inr (int (foldl (\<lambda>x c. x * 10 + digit_val c) x ds)))"
  using assms
proof (induction ds arbitrary: p x)
  case Nil
  then show ?case by (subst atoi_digits.simps) simp
next
  case (Cons c ds)
  let ?x = "x * 10 + digit_val c"
  have c: "m p = c" "is_digit c" using Cons.prems(1) [of 0] Cons.prems(2) by auto
  have "?x \<le> foldl (\<lambda>x c. x * 10 + digit_val c) ?x ds" by (rule foldl_dec_mono)
  then have "atoi_step (int x) c = Inr (int ?x)"
    using Cons.prems(4) atoi_step_ok [OF c(2), of "int x"] by simp
  moreover have "atoi_digits m (p + 1) (int ?x) =
      Some (Inr (int (foldl (\<lambda>x c. x * 10 + digit_val c) ?x ds)))"
  proof (rule Cons.IH)
    show "m (p + 1 + of_nat i) = ds ! i" if "i < length ds" for i
      using Cons.prems(1) [of "Suc i"] that by (simp add: ac_simps)
  qed (use Cons.prems in \<open>auto simp: ac_simps\<close>)
  ultimately show ?case using c by (subst atoi_digits.simps) simp
qed

lemma atoi_skip_result:
  assumes "\<And>i. i < k \<Longrightarrow> m (p + of_nat i) = 32" and "m (p + of_nat k) \<noteq> 32"
  shows "atoi_skip m p = Some (p + of_nat k)"
  using assms
proof (induction k arbitrary: p)
  case 0
  then show ?case by (subst atoi_skip.simps) simp
next
  case (Suc k)
  have "atoi_skip m (p + 1) = Some (p + 1 + of_nat k)"
  proof (rule Suc.IH)
    show "m (p + 1 + of_nat i) = 32" if "i < k" for i
      using Suc.prems(1) [of "Suc i"] that by (simp add: ac_simps)
    show "m (p + 1 + of_nat k) \<noteq> 32" using Suc.prems(2) by (simp add: ac_simps)
  qed
  with Suc.prems(1) [of 0] show ?case by (subst atoi_skip.simps) (simp add: ac_simps)
qed

lemma atoi_result:
  assumes str: "cstr m p (replicate k 32 @ ds @ rest)"
    and ds: "\<forall>c \<in> set ds. is_digit c" and rest: "rest = [] \<or> \<not> is_digit (hd rest)"
    and sp: "ds @ rest = [] \<or> hd (ds @ rest) \<noteq> 32" and val: "dec_value ds \<le> 2147483599"
  shows "atoi m p = Some (Inr (int (dec_value ds)))"
proof -
  let ?xs = "replicate k 32 @ ds @ rest"
  have at: "m (p + of_nat i) = (if i < length ?xs then ?xs ! i else 0)" if "i \<le> length ?xs" for i
    using that cstr_nth [OF str, of i] cstr_end [OF str] by (cases "i = length ?xs") simp_all
  have "m (p + of_nat k) \<noteq> 32"
    using at [of k] sp by (cases "ds @ rest") (auto simp: nth_append)
  moreover have "m (p + of_nat i) = 32" if "i < k" for i
    using at [of i] that by (simp add: nth_append)
  ultimately have "atoi_skip m p = Some (p + of_nat k)" by (intro atoi_skip_result) auto
  moreover have "atoi_digits m (p + of_nat k) (int 0) = Some (Inr (int (dec_value ds)))"
    unfolding dec_value_def
  proof (rule atoi_digits_result [OF _ ds])
    show "m (p + of_nat k + of_nat i) = ds ! i" if "i < length ds" for i
      using at [of "k + i"] that by (simp add: nth_append add.assoc)
    have "m (p + of_nat k + of_nat (length ds)) = (if rest = [] then 0 else hd rest)"
      using at [of "k + length ds"] by (cases rest) (simp_all add: nth_append add.assoc)
    then show "\<not> is_digit (m (p + of_nat k + of_nat (length ds)))"
      using rest by (auto simp: is_digit_def)
  qed (use val in \<open>simp add: dec_value_def\<close>)
  ultimately show ?thesis by (simp add: atoi_def)
qed

section \<open>Properties\<close>

lemma rand_range: "0 \<le> snd (rand nxt) \<and> snd (rand nxt) \<le> 32767"
proof -
  have "(ucast ((nxt * 1103515245 + 12345) div 65536) :: u32) mod 32768 < 32768"
    by (rule word_mod_less_divisor) simp
  then have "uint ((ucast ((nxt * 1103515245 + 12345) div 65536) :: u32) mod 32768) < uint (32768 :: u32)"
    by (simp only: word_less_def)
  then show ?thesis by (simp add: rand_def Let_def)
qed

text \<open>C7: on a string of blanks, decimal digits and a rest that does not begin with a digit,
  \<open>atoi\<close> returns the value of the digits, as long as it is at most \<open>INT_MAX - 48\<close>.\<close>

theorem atoi_correct:
  assumes "cstr m p (replicate k 32 @ ds @ rest)"
    and "\<forall>c \<in> set ds. is_digit c" and "rest = [] \<or> \<not> is_digit (hd rest)"
    and "ds @ rest = [] \<or> hd (ds @ rest) \<noteq> 32" and "dec_value ds \<le> 2147483599"
  shows "atoi m p = Some (Inr (int (dec_value ds)))"
  using assms by (rule atoi_result)

theorem atoi_correct_witness:
  "atoi (write_bytes (\<lambda>a. 0) 100 [32, 52, 50, 97]) 100 = Some (Inr 42)"
  using atoi_correct [of "write_bytes (\<lambda>a. 0) 100 [32, 52, 50, 97]" 100 1 "[52, 50]" "[97]"]
  by (simp add: cstr_def c_simps is_digit_def dec_value_def digit_val_def)

text \<open>The order of evaluation of \<open>x * 10 + *nptr - '0'\<close> overflows an \<open>int\<close> on the decimal
  representation of \<open>INT_MAX\<close> itself, and the sign of a number is not read at all.\<close>

lemma atoi_int_max_overflows:
  "atoi (write_bytes (\<lambda>a. 0) 100 [50, 49, 52, 55, 52, 56, 51, 54, 52, 55]) 100 =
     Some (Inl Int_overflow)"
  by (simp add: atoi_def atoi_skip.simps atoi_digits.simps is_digit_def atoi_step_def in_s32_iff
      s32_def)

lemma atoi_ignores_sign: "atoi (write_bytes (\<lambda>a. 0) 100 [45, 53]) 100 = Some (Inr 0)"
  by (simp add: atoi_def atoi_skip.simps atoi_digits.simps is_digit_def)

end
