(* ===== verification/Klib_Stdio.thy ===== *)
theory Klib_Stdio
  imports Klib_Stdlib
begin

text \<open>
  \<open>abstract-machine/klib/src/stdio.c\<close>: number conversion and the formatter behind \<open>printf\<close> and
  \<open>sprintf\<close>. A \<open>va_list\<close> is the list of the arguments still to be read. The local arrays of
  \<open>vsprintf\<close> and \<open>printf\<close> live at frame addresses that are parameters (\<open>fr\<close>, \<open>buf\<close>). The
  static function \<open>putch\<close> of the platform is the list of the characters written.
\<close>

section \<open>Conversion of numbers\<close>

definition BUF_SIZE :: nat where "BUF_SIZE = 1024"

function swap_str :: "mem \<Rightarrow> addr \<Rightarrow> int \<Rightarrow> int \<Rightarrow> mem" where
  "swap_str m str l r =
     (if l \<le> r
      then swap_str (m(str + of_int l := m (str + of_int r), str + of_int r := m (str + of_int l)))
             str (l + 1) (r - 1)
      else m)"
  by pat_completeness auto
termination by (relation "measure (\<lambda>(m, str, l, r). nat (r - l + 1))") auto

function put_digits :: "mem \<Rightarrow> addr \<Rightarrow> int \<Rightarrow> int \<Rightarrow> mem \<times> int" where
  \<comment> \<open>\<open>while (num != 0) { str[i++] = num % 10 + '0'; num /= 10; }\<close>\<close>
  "put_digits m str i num =
     (if num \<noteq> 0
      then put_digits (m(str + of_int i := of_int (c_mod num 10 + 48))) str (i + 1) (c_div num 10)
      else (m, i))"
  by pat_completeness auto
termination
  by (relation "measure (\<lambda>(m, str, i, num). nat \<bar>num\<bar>)") (auto simp: c_div_def abs_mult)

declare swap_str.simps [simp del] put_digits.simps [simp del]

definition int_min_text :: "u8 list" where
  \<comment> \<open>\<open>-2147483648\<close>, stored character by character\<close>
  "int_min_text = [45, 50, 49, 52, 55, 52, 56, 51, 54, 52, 56, 0]"

definition int_to_str :: "mem \<Rightarrow> addr \<Rightarrow> int \<Rightarrow> c_error + mem" where
  "int_to_str m str num =
     (if str = c_NULL then Inl Assert_fail
      else if num = s32_min then Inr (write_bytes m str int_min_text)
      else
        let (m1, i, num1, l) =
              (if num = 0 then (m(str := 48), 1, num, 0)
               else if num < 0 then (m(str := 45), 1, - num, 1)
               else (m, 0, num, 0));
            (m2, i2) = put_digits m1 str i num1;
            m3 = m2(str + of_int i2 := 0)
        in Inr (swap_str m3 str l (i2 - 1)))"

definition uint_to_str :: "mem \<Rightarrow> addr \<Rightarrow> u32 \<Rightarrow> mem" where
  "uint_to_str m str num =
     (if num = 0 then m(str := 48, str + 1 := 0)
      else
        let (m2, i2) = put_digits m str 0 (uint num);
            m3 = m2(str + of_int i2 := 0)
        in swap_str m3 str 0 (i2 - 1))"

section \<open>The formatter\<close>

datatype va_arg = VA_int int | VA_ptr addr | VA_u32 u32 | VA_u64 u64
  \<comment> \<open>an argument has the type it was passed with; reading it with \<open>va_arg\<close> as another one is undefined in C\<close>

type_synonym fmt_state = "mem \<times> addr \<times> va_arg list \<times> int"
  \<comment> \<open>memory, \<open>fmt\<close>, \<open>ap\<close>, \<open>out_index\<close>\<close>

definition zero_buf :: "mem \<Rightarrow> addr \<Rightarrow> mem" where
  \<comment> \<open>\<open>char s[BUF_SIZE] = {};\<close>\<close>
  "zero_buf m a = write_bytes m a (replicate BUF_SIZE 0)"

definition emit_str :: "mem \<Rightarrow> addr \<Rightarrow> addr \<Rightarrow> int \<Rightarrow> (c_error + mem \<times> int) option" where
  \<comment> \<open>\<open>strcpy(out + out_index, s); out_index += strlen(s);\<close>\<close>
  "emit_str m out s out_index =
     Option.bind (strcpy m (out + of_int out_index) s) (\<lambda>r. case r of
       Inl e \<Rightarrow> Some (Inl e)
     | Inr (m', _) \<Rightarrow>
         Option.bind (strlen m' s) (\<lambda>len.
           Some (rbind (s32 (out_index + int_of_word len)) (\<lambda>j. Inr (m', j)))))"

definition emit_char :: "mem \<Rightarrow> addr \<Rightarrow> u8 \<Rightarrow> int \<Rightarrow> c_error + mem \<times> int" where
  \<comment> \<open>\<open>out[out_index++] = c;\<close>\<close>
  "emit_char m out c out_index =
     rbind (s32 (out_index + 1)) (\<lambda>j. Inr (m(out + of_int out_index := c), j))"

definition vsprintf_conv ::
  "addr \<Rightarrow> addr \<Rightarrow> mem \<Rightarrow> u8 \<Rightarrow> va_arg list \<Rightarrow> int \<Rightarrow> (c_error + mem \<times> va_arg list \<times> int) option" where
  \<comment> \<open>the \<open>switch\<close> on the character after a per cent sign\<close>
  "vsprintf_conv fr out m c ap out_index =
     (if c = 100 then
        (case ap of
           VA_int num # ap' \<Rightarrow>
             (case int_to_str (zero_buf m fr) fr num of
                Inl e \<Rightarrow> Some (Inl e)
              | Inr m1 \<Rightarrow>
                  map_option (\<lambda>r. rbind r (\<lambda>(m2, j). Inr (m2, ap', j))) (emit_str m1 out fr out_index))
         | _ \<Rightarrow> Some (Inl Bad_va_arg))
      else if c = 115 then
        (case ap of
           VA_ptr str # ap' \<Rightarrow>
             map_option (\<lambda>r. rbind r (\<lambda>(m2, j). Inr (m2, ap', j))) (emit_str m out str out_index)
         | _ \<Rightarrow> Some (Inl Bad_va_arg))
      else if c = 117 then
        (case ap of
           VA_u64 num # ap' \<Rightarrow>
             map_option (\<lambda>r. rbind r (\<lambda>(m2, j). Inr (m2, ap', j)))
               (emit_str (uint_to_str (zero_buf m fr) fr (ucast num)) out fr out_index)
         | _ \<Rightarrow> Some (Inl Bad_va_arg))
      else Some (rbind (emit_char m out c out_index) (\<lambda>(m2, j). Inr (m2, ap, j))))"

definition vsprintf_step :: "addr \<Rightarrow> addr \<Rightarrow> fmt_state \<Rightarrow> (c_error + fmt_state) option" where
  \<comment> \<open>one round of the loop; \<open>fmt\<close> is advanced once more after a conversion\<close>
  "vsprintf_step fr out st =
     (case st of (m, fmt, ap, out_index) \<Rightarrow>
        if m fmt = 37 then
          map_option (\<lambda>r. rbind r (\<lambda>(m2, ap', j). Inr (m2, fmt + 1 + 1, ap', j)))
            (vsprintf_conv fr out m (m (fmt + 1)) ap out_index)
        else Some (rbind (emit_char m out (m fmt) out_index) (\<lambda>(m2, j). Inr (m2, fmt + 1, ap, j))))"

partial_function (option) vsprintf_loop ::
  "addr \<Rightarrow> addr \<Rightarrow> fmt_state \<Rightarrow> (c_error + mem \<times> int) option" where
  "vsprintf_loop fr out st =
     (if fst st (fst (snd st)) \<noteq> 0
      then Option.bind (vsprintf_step fr out st) (\<lambda>r. case r of
             Inl e \<Rightarrow> Some (Inl e) | Inr st' \<Rightarrow> vsprintf_loop fr out st')
      else (case st of (m, fmt, ap, out_index) \<Rightarrow>
              Some (Inr (m(out + of_int out_index := 0), out_index))))"

definition vsprintf ::
  "addr \<Rightarrow> mem \<Rightarrow> addr \<Rightarrow> addr \<Rightarrow> va_arg list \<Rightarrow> (c_error + mem \<times> int) option" where
  "vsprintf fr m out fmt ap = vsprintf_loop fr out (m, fmt, ap, 0)"

definition sprintf ::
  "addr \<Rightarrow> mem \<Rightarrow> addr \<Rightarrow> addr \<Rightarrow> va_arg list \<Rightarrow> (c_error + mem \<times> int) option" where
  "sprintf fr m out fmt ap = vsprintf fr m out fmt ap"

definition putch_all :: "mem \<Rightarrow> addr \<Rightarrow> int \<Rightarrow> u8 list" where
  \<comment> \<open>\<open>for (int i = 0; i < num; ++i) putch(out[i]);\<close>\<close>
  "putch_all m out num = map (\<lambda>i. m (out + of_int i)) [0 .. num - 1]"

definition printf ::
  "addr \<Rightarrow> addr \<Rightarrow> mem \<Rightarrow> addr \<Rightarrow> va_arg list \<Rightarrow> (c_error + mem \<times> u8 list \<times> int) option" where
  \<comment> \<open>\<open>buf\<close> is the address of the local array \<open>out\<close>; also returns the characters written\<close>
  "printf buf fr m fmt ap =
     map_option (\<lambda>r. rbind r (\<lambda>(m', num). Inr (m', putch_all m' buf num, num)))
       (vsprintf fr (zero_buf m buf) buf fmt ap)"

definition snprintf :: "c_error + int" where
  "snprintf = Inl (Panic ''Not implemented'')"

definition vsnprintf :: "c_error + int" where
  "vsnprintf = Inl (Panic ''Not implemented'')"

section \<open>Conversion is correct\<close>

lemma not_in_region_pred: "n < 2 ^ 64 \<Longrightarrow> \<not> in_region (a + 1) n a"
  using unat_neg_of_nat [of 1] by (simp add: in_region_def)

lemma write_bytes_commute:
  assumes "length bs < 2 ^ 64"
  shows "write_bytes (m(a := b)) (a + 1) bs = (write_bytes m (a + 1) bs)(a := b)"
  using assms by (auto simp: write_bytes_apply not_in_region_pred)

lemma put_digits_result:
  assumes "0 \<le> num" and "num < 2 ^ 32"
  shows "put_digits m str i num =
    (write_bytes m (str + of_int i) (dec_rev (nat num)), i + int (length (dec_rev (nat num))))"
  using assms
proof (induction m str i num rule: put_digits.induct)
  case (1 m str i num)
  show ?case
  proof (cases "num = 0")
    case True
    then show ?thesis by (subst put_digits.simps) simp
  next
    case False
    let ?c = "of_int (c_mod num 10 + 48) :: u8"
    let ?m = "m(str + of_int i := ?c)"
    have "c_mod num 10 + 48 = int (48 + nat num mod 10)"
      using "1.prems"(1) by (simp add: c_mod_nonneg zmod_int)
    then have c: "?c = digit_char (nat num mod 10)"
      by (simp only: digit_char_def of_int_of_nat_eq)
    have d: "c_div num 10 = num div 10" "nat num div 10 = nat (num div 10)"
      using "1.prems"(1) by (simp_all add: c_div_nonneg nat_div_distrib)
    have "length (dec_rev (nat (num div 10))) \<le> 10"
      using "1.prems" by (intro length_dec_rev) auto
    then have len: "length (dec_rev (nat (num div 10))) < 2 ^ 64" by simp
    have "put_digits ?m str (i + 1) (num div 10) =
        (write_bytes ?m (str + of_int (i + 1)) (dec_rev (nat (num div 10))),
         i + 1 + int (length (dec_rev (nat (num div 10)))))"
      using "1.IH" [OF False] "1.prems" d(1) by (simp del: fun_upd_apply)
    moreover have "str + of_int (i + 1) = str + of_int i + 1" by simp
    ultimately show ?thesis
      using False "1.prems" len c d
      by (subst put_digits.simps) (simp add: dec_rev_pos write_bytes_commute flip: add.assoc del: fun_upd_apply)
  qed
qed

lemma uint_of_int_small: "0 \<le> k \<Longrightarrow> k < 2 ^ 64 \<Longrightarrow> uint (of_int k :: addr) = k"
  by (simp add: uint_word_of_int take_bit_int_eq_self)

lemma offset_eq_iff:
  fixes x str :: addr and k :: int
  assumes "0 \<le> k" and "k < 2 ^ 64"
  shows "x = str + of_int k \<longleftrightarrow> uint (x - str) = k"
proof
  assume "x = str + of_int k"
  then show "uint (x - str) = k" using assms by (simp add: uint_of_int_small)
next
  assume "uint (x - str) = k"
  then have "x - str = of_int k" by (metis word_of_int_uint)
  then show "x = str + of_int k" by (metis add.commute diff_add_cancel)
qed

lemma swap_str_result:
  assumes "0 \<le> l" and "r < 2 ^ 31"
  shows "swap_str m str l r x =
    (if l \<le> uint (x - str) \<and> uint (x - str) \<le> r
     then m (str + of_int (l + r - uint (x - str))) else m x)"
  using assms
proof (induction m str l r rule: swap_str.induct)
  case (1 m str l r)
  show ?case
  proof (cases "l \<le> r")
    case False
    then show ?thesis by (subst swap_str.simps) auto
  next
    case True
    let ?m = "m(str + of_int l := m (str + of_int r), str + of_int r := m (str + of_int l))"
    let ?k = "uint (x - str)"
    have step: "swap_str m str l r x = swap_str ?m str (l + 1) (r - 1) x"
      using True by (subst swap_str.simps) (simp only: if_True)
    have IH: "swap_str ?m str (l + 1) (r - 1) x =
        (if l + 1 \<le> ?k \<and> ?k \<le> r - 1 then ?m (str + of_int (l + r - ?k)) else ?m x)"
      using "1.IH" [OF True] "1.prems" by (simp del: fun_upd_apply)
    have at: "x = str + of_int j \<longleftrightarrow> ?k = j" if "0 \<le> j" "j \<le> r" for j
      using that "1.prems" by (intro offset_eq_iff) auto
    have ne: "str + of_int i = str + of_int j \<longleftrightarrow> i = j"
      if "0 \<le> i" "i \<le> r" "0 \<le> j" "j \<le> r" for i j
    proof -
      have "uint (of_int i :: addr) = i" "uint (of_int j :: addr) = j"
        using that "1.prems" by (simp_all add: uint_of_int_small)
      then show ?thesis by (metis add_left_cancel)
    qed
    consider "?k = l" | "?k = r" "l < r" | "l < ?k" "?k < r" | "?k < l \<or> r < ?k"
      using True by linarith
    then show ?thesis
    proof cases
      case 1
      then show ?thesis using True step IH at [of l] at [of r] "1.prems" by auto
    next
      case 2
      then show ?thesis using True step IH at [of l] at [of r] "1.prems" by auto
    next
      case 3
      have "?m (str + of_int (l + r - ?k)) = m (str + of_int (l + r - ?k))"
        using 3 "1.prems" True ne [of "l + r - ?k" l] ne [of "l + r - ?k" r] by (simp only: fun_upd_apply) auto
      then show ?thesis using 3 step IH by (simp del: fun_upd_apply)
    next
      case 4
      then have "?m x = m x" using at [of l] at [of r] "1.prems" True by auto
      then show ?thesis using 4 step IH by (auto simp del: fun_upd_apply)
    qed
  qed
qed

lemma digits_reversed:
  assumes "0 \<le> l" and "l \<le> 1" and "0 < num" and "num < 2 ^ 32"
    and run: "put_digits m str l num = (m2, i2)"
  defines "m4 \<equiv> swap_str (m2(str + of_int i2 := 0)) str l (i2 - 1)"
  shows "cstr m4 (str + of_int l) (dec_nat (nat num))"
    and "\<And>x. \<not> in_region (str + of_int l) 11 x \<Longrightarrow> m4 x = m x"
proof -
  let ?bs = "dec_rev (nat num)" and ?a = "str + of_int l"
  define k where "k = length ?bs"
  have k: "k \<le> 10" unfolding k_def using assms(4) by (intro length_dec_rev) auto
  have m2: "m2 = write_bytes m ?a ?bs" and i2: "i2 = l + int k"
    using run put_digits_result [of num m str l] assms(3,4) by (simp_all add: k_def)
  let ?m3 = "m2(str + of_int i2 := 0)"
  have sw: "m4 x = (if l \<le> uint (x - str) \<and> uint (x - str) \<le> i2 - 1
      then ?m3 (str + of_int (l + (i2 - 1) - uint (x - str))) else ?m3 x)" for x
    unfolding m4_def using assms(1,2) i2 k by (intro swap_str_result) auto
  have off: "uint (?a + of_nat j - str) = l + int j" if "j \<le> 11" for j
    using that assms(1,2) uint_of_int_small [of "l + int j"] by (simp add: add_diff_eq)
  have a2: "str + of_int i2 = ?a + of_nat k" using i2 by simp
  have low: "?m3 (?a + of_nat j) = ?bs ! j" if "j < k" for j
  proof -
    have "?a + of_nat j \<noteq> ?a + of_nat k" using off [of j] off [of k] that k by auto
    moreover have "unat (of_nat j :: addr) = j" using that k by (intro unat_of_nat_lt) simp
    ultimately show ?thesis
      using that k by (simp add: a2 m2 write_bytes_apply in_region_def k_def [symmetric])
  qed
  have dec: "dec_nat (nat num) = rev ?bs" using assms(3) by (simp add: dec_nat_def)
  have "m4 (?a + of_nat j) = rev ?bs ! j" if "j < k" for j
  proof -
    have eq: "str + of_int (l + (i2 - 1) - (l + int j)) = ?a + of_nat (k - 1 - j)"
      using that i2 by (simp add: of_nat_diff algebra_simps)
    have u: "uint (?a + of_nat j - str) = l + int j" using off [of j] that k by simp
    have "m4 (?a + of_nat j) = ?m3 (str + of_int (l + (i2 - 1) - (l + int j)))"
      using sw [of "?a + of_nat j"] that i2 unfolding u by simp
    then have "m4 (?a + of_nat j) = ?m3 (?a + of_nat (k - 1 - j))" unfolding eq .
    then show ?thesis using low [of "k - 1 - j"] that by (simp add: rev_nth k_def)
  qed
  moreover have "m4 (?a + of_nat k) = 0"
    using sw [of "?a + of_nat k"] off [of k] k i2 a2 by simp
  moreover have "rev ?bs ! j \<noteq> 0" if "j < k" for j
  proof -
    have "rev ?bs ! j \<in> set (rev ?bs)" using that by (intro nth_mem) (simp add: k_def)
    then have "is_digit (rev ?bs ! j)" by (simp add: set_dec_rev)
    then show ?thesis by (auto simp: is_digit_def)
  qed
  ultimately show "cstr m4 ?a (dec_nat (nat num))"
    using k unfolding dec cstr_iff by (auto simp: k_def)
  show "m4 x = m x" if x: "\<not> in_region ?a 11 x" for x
  proof -
    have "11 \<le> unat (x - ?a)" using x by (simp add: in_region_def)
    then have nr: "\<not> in_region ?a k x" using k by (simp add: in_region_def)
    have "\<not> (l \<le> uint (x - str) \<and> uint (x - str) \<le> l + int k)"
    proof
      assume r: "l \<le> uint (x - str) \<and> uint (x - str) \<le> l + int k"
      define j where "j = nat (uint (x - str) - l)"
      have "j \<le> 10" and j: "uint (x - str) = l + int j" using r k by (auto simp: j_def)
      have "x = str + of_int (l + int j)"
        using j r k assms(1,2) by (subst offset_eq_iff) auto
      then have "x - ?a = of_nat j" by simp
      then show False using \<open>11 \<le> unat (x - ?a)\<close> \<open>j \<le> 10\<close> by (simp add: unat_of_nat_lt)
    qed
    moreover from this have "x \<noteq> str + of_int i2"
      using i2 k assms(1,2) offset_eq_iff [of i2 x str] by auto
    ultimately show ?thesis
      using sw [of x] i2 nr k by (auto simp: m2 write_bytes_apply k_def [symmetric])
  qed
qed

lemma in_region_mono: "in_region a n x \<Longrightarrow> n \<le> k \<Longrightarrow> in_region a k x"
  by (simp add: in_region_def)

lemma in_region_Suc: "in_region (a + 1) n x \<Longrightarrow> n < 2 ^ 64 \<Longrightarrow> in_region a (Suc n) x"
  using unat_add_one_sub [of x a] by (cases "x = a") (auto simp: in_region_def)

lemma cstr_Cons: "m a = c \<Longrightarrow> c \<noteq> 0 \<Longrightarrow> cstr m (a + 1) xs \<Longrightarrow> Suc (length xs) < 2 ^ 64 \<Longrightarrow> cstr m a (c # xs)"
  by (simp add: cstr_def add.assoc)

lemma cstr_singleton: "c \<noteq> 0 \<Longrightarrow> m a = c \<Longrightarrow> m (a + 1) = 0 \<Longrightarrow> cstr m a [c]"
  by (simp add: cstr_def)

lemma int_to_str_result:
  assumes "str \<noteq> c_NULL" and "in_s32 num"
  shows "\<exists>m'. int_to_str m str num = Inr m' \<and> cstr m' str (dec_int num) \<and>
    (\<forall>x. \<not> in_region str 12 x \<longrightarrow> m' x = m x)"
proof -
  consider "num = s32_min" | "num = 0" | "num < 0" "num \<noteq> s32_min" | "0 < num" by linarith
  then show ?thesis
  proof cases
    case 1
    have d: "dec_int num = [45, 50, 49, 52, 55, 52, 56, 51, 54, 52, 56]"
      by (simp add: 1 s32_min_def dec_int_def dec_nat_def dec_rev_pos digit_char_def)
    have "int_to_str m str num = Inr (write_bytes m str int_min_text)"
      using assms 1 by (simp add: int_to_str_def)
    moreover have "cstr (write_bytes m str int_min_text) str (dec_int num)"
      unfolding d by (simp add: cstr_def int_min_text_def add.assoc)
    moreover have "write_bytes m str int_min_text x = m x" if "\<not> in_region str 12 x" for x
    proof -
      have "length int_min_text = 12" by (simp add: int_min_text_def)
      then show ?thesis using that by (subst write_bytes_apply) simp_all
    qed
    ultimately show ?thesis by blast
  next
    case 2
    let ?m' = "swap_str (m(str := 48, str + 1 := 0)) str 0 0"
    have run: "int_to_str m str num = Inr ?m'"
      using assms 2 by (simp add: int_to_str_def s32_min_def put_digits.simps Let_def)
    have "?m' = m(str := 48, str + 1 := 0)"
      by (subst swap_str.simps, subst swap_str.simps) (simp add: fun_upd_twist)
    moreover have "x \<noteq> str" "x \<noteq> str + 1" if "\<not> in_region str 12 x" for x
      using that by (auto simp: in_region_def)
    ultimately show ?thesis
      using run 2 by (auto simp: dec_int_def dec_nat_def intro!: cstr_singleton)
  next
    case 3
    obtain m2 i2 where run: "put_digits (m(str := 45)) str 1 (- num) = (m2, i2)" by fastforce
    let ?m4 = "swap_str (m2(str + of_int i2 := 0)) str 1 (i2 - 1)"
    have eq: "int_to_str m str num = Inr ?m4"
      using assms 3 run by (simp add: int_to_str_def)
    have b: "0 < - num" "- num < 2 ^ 32" using 3 assms(2) by (auto simp: in_s32_iff)
    note r = digits_reversed [OF _ _ b run, simplified]
    have "\<not> in_region (str + 1) 11 str" by (rule not_in_region_pred) simp
    then have "?m4 str = 45" using r(2) [of str] by simp
    moreover have "length (dec_nat (nat (- num))) \<le> Suc 9"
      using b by (intro length_dec_nat) simp
    ultimately have "cstr ?m4 str (dec_int num)"
      using r(1) b 3
      by (auto simp: dec_int_def intro!: cstr_Cons)
    moreover have "?m4 x = m x" if "\<not> in_region str 12 x" for x
    proof -
      have "\<not> in_region (str + 1) 11 x" using that in_region_Suc [of str 11 x] by auto
      moreover have "x \<noteq> str" using that by (auto simp: in_region_def)
      ultimately show ?thesis using r(2) [of x] by simp
    qed
    ultimately show ?thesis using eq by blast
  next
    case 4
    obtain m2 i2 where run: "put_digits m str 0 num = (m2, i2)" by fastforce
    have eq: "int_to_str m str num = Inr (swap_str (m2(str + of_int i2 := 0)) str 0 (i2 - 1))"
      using assms 4 run by (simp add: int_to_str_def s32_min_def)
    have b: "num < 2 ^ 32" using assms(2) by (auto simp: in_s32_iff)
    note r = digits_reversed [OF _ _ 4 b run, simplified]
    show ?thesis using eq r 4 in_region_mono [of str 11 _ 12] by (auto simp: dec_int_def)
  qed
qed

lemma uint_to_str_result:
  "cstr (uint_to_str m str num) str (dec_nat (unat num)) \<and>
   (\<forall>x. \<not> in_region str 12 x \<longrightarrow> uint_to_str m str num x = m x)"
proof (cases "num = 0")
  case True
  have "x \<noteq> str" "x \<noteq> str + 1" if "\<not> in_region str 12 x" for x
    using that by (auto simp: in_region_def)
  then show ?thesis
    using True by (auto simp: uint_to_str_def dec_nat_def intro!: cstr_singleton)
next
  case False
  obtain m2 i2 where run: "put_digits m str 0 (uint num) = (m2, i2)" by fastforce
  have eq: "uint_to_str m str num = swap_str (m2(str + of_int i2 := 0)) str 0 (i2 - 1)"
    using False run by (simp add: uint_to_str_def)
  have pos: "0 < uint num" using False uint_ge_0 [of num] by (simp add: uint_0_iff order_less_le)
  have b: "uint num < 2 ^ 32" using uint_less_of_unat [OF unat_lt_2p [of num]] by simp
  note r = digits_reversed [OF _ _ pos b run, simplified]
  show ?thesis using eq r in_region_mono [of str 11 _ 12] by auto
qed

section \<open>The formatter against its specification\<close>

datatype fmt_arg = A_int int | A_str "u8 list" | A_uint u32 | A_u64 u64

text \<open>What the code prints is first described conversion by conversion, those that it takes for ordinary characters included.
  What a format string means by the C standard is \<open>format\<close> below.\<close>

fun klib_format :: "u8 list \<Rightarrow> fmt_arg list \<Rightarrow> u8 list option" where
  \<comment> \<open>the text that the code prints; \<open>None\<close> for a missing argument, an argument of the
    wrong type, or a per cent sign at the end\<close>
  "klib_format [] as = Some []"
| "klib_format (c # cs) as =
     (if c \<noteq> 37 then map_option ((#) c) (klib_format cs as)
      else case cs of
        [] \<Rightarrow> None
      | d # ds \<Rightarrow>
          if d = 100 then
            (case as of A_int i # as' \<Rightarrow> map_option ((@) (dec_int i)) (klib_format ds as') | _ \<Rightarrow> None)
          else if d = 115 then
            (case as of A_str xs # as' \<Rightarrow> map_option ((@) xs) (klib_format ds as') | _ \<Rightarrow> None)
          else if d = 117 then
            (case as of A_u64 w # as' \<Rightarrow>
               map_option ((@) (dec_nat (unat w mod 2 ^ 32))) (klib_format ds as') | _ \<Rightarrow> None)
          else map_option ((#) d) (klib_format ds as))"

definition cstr_outside :: "(addr \<Rightarrow> bool) \<Rightarrow> mem \<Rightarrow> addr \<Rightarrow> u8 list \<Rightarrow> bool" where
  \<comment> \<open>a string none of whose bytes (nor its terminator) lies in the area \<open>W\<close>\<close>
  "cstr_outside W m p xs \<longleftrightarrow> cstr m p xs \<and> (\<forall>i \<le> length xs. \<not> W (p + of_nat i))"

fun arg_ok :: "(addr \<Rightarrow> bool) \<Rightarrow> mem \<Rightarrow> va_arg \<Rightarrow> fmt_arg \<Rightarrow> bool" where
  "arg_ok W m (VA_int i) (A_int j) \<longleftrightarrow> i = j \<and> in_s32 i"
| "arg_ok W m (VA_ptr p) (A_str xs) \<longleftrightarrow> p \<noteq> c_NULL \<and> cstr_outside W m p xs"
| "arg_ok W m (VA_u64 v) (A_u64 w) \<longleftrightarrow> v = w"
| "arg_ok W m (VA_u32 v) (A_uint w) \<longleftrightarrow> v = w"
| "arg_ok W m _ _ \<longleftrightarrow> False"

definition fmt_area :: "addr \<Rightarrow> addr \<Rightarrow> nat \<Rightarrow> addr \<Rightarrow> bool" where
  \<comment> \<open>the bytes that the formatter may write: the output buffer and its local array\<close>
  "fmt_area fr out cap x \<longleftrightarrow> in_region out cap x \<or> in_region fr BUF_SIZE x"

definition fmt_layout :: "addr \<Rightarrow> addr \<Rightarrow> nat \<Rightarrow> bool" where
  "fmt_layout fr out cap \<longleftrightarrow> out \<noteq> c_NULL \<and> fr \<noteq> c_NULL \<and> unat out + cap \<le> 2 ^ 64 \<and> cap < 2 ^ 31 \<and>
     (\<forall>x. in_region out cap x \<longrightarrow> \<not> in_region fr BUF_SIZE x)"

lemma cstr_cong:
  "(\<And>i. i \<le> length xs \<Longrightarrow> m' (p + of_nat i) = m (p + of_nat i)) \<Longrightarrow> cstr m p xs \<Longrightarrow> cstr m' p xs"
  by (simp add: cstr_iff)

lemma in_region_offset: "n < cap \<Longrightarrow> cap \<le> 2 ^ 64 \<Longrightarrow> in_region a cap (a + of_nat n)"
  by (simp add: in_region_def unat_of_nat_lt)

lemma emit_str_ok:
  assumes out: "out \<noteq> c_NULL" "unat out + cap \<le> 2 ^ 64" "cap < 2 ^ 31"
    and s: "s \<noteq> c_NULL" "cstr m s xs" "\<And>i. i \<le> length xs \<Longrightarrow> \<not> in_region out cap (s + of_nat i)"
    and fits: "n + length xs < cap"
  shows "\<exists>m'. emit_str m out s (int n) = Some (Inr (m', int (n + length xs))) \<and>
    read_bytes m' out (n + length xs) = read_bytes m out n @ xs \<and>
    (\<forall>x. \<not> in_region out cap x \<longrightarrow> m' x = m x)"
proof -
  let ?d = "out + of_nat n" and ?len = "of_nat (length xs) :: u64"
  let ?m' = "(copied m ?d s ?len)(?d + ?len := 0)"
  have cap: "cap \<le> 2 ^ 64" using out(3) by simp
  have len: "unat ?len = length xs" using cstr_length [OF s(2)] by (simp add: unat_of_nat_lt)
  have "unat ?d = unat out + n"
    using out(2) fits cap by (subst unat_add_no_wrap) (simp_all add: unat_of_nat_lt)
  then have dnz: "?d \<noteq> c_NULL" using out(1) by (auto simp: c_NULL_def unat_gt_0)
  have in_out: "in_region out cap (?d + k)" if "k \<le> ?len" for k
  proof -
    have "unat k \<le> length xs" using that len by (simp add: word_le_nat_alt)
    then have "in_region out cap (out + of_nat (n + unat k))"
      using fits cap by (intro in_region_offset) auto
    then show ?thesis by (simp add: add.assoc)
  qed
  have src: "\<not> in_region out cap (s + k)" if "k \<le> ?len" for k
  proof -
    have "unat k \<le> length xs" using that len by (simp add: word_le_nat_alt)
    then show ?thesis using s(3) [of "unat k"] by simp
  qed
  have safe: "upward_safe ?d s ?len"
    unfolding upward_safe_def using in_out src
    by (metis (no_types) less_imp_le order_less_trans)
  have frame: "?m' x = m x" if "\<not> in_region out cap x" for x
  proof -
    have "x \<noteq> ?d + k" if "k \<le> ?len" for k using in_out [OF that] \<open>\<not> in_region out cap x\<close> by auto
    then have "\<not> x - ?d < ?len" "x \<noteq> ?d + ?len"
      by (metis add.commute diff_add_cancel less_imp_le, blast)
    then show ?thesis by (simp add: copied_def)
  qed
  have run: "strcpy m ?d s = Some (Inr (?m', ?d))"
    using strcpy_result [OF dnz s(1,2) safe] .
  have "cstr ?m' s xs" using s(2,3) frame by (intro cstr_cong [OF _ s(2)]) blast
  then have sl: "strlen ?m' s = Some ?len" by (rule strlen_cstr)
  have il: "int_of_word ?len = int (length xs)"
    using fits out(3) len uint_nat [of ?len] by (subst int_of_word_small) simp_all
  have "in_s32 (int n + int (length xs))" using fits out(3) by (simp add: in_s32_iff)
  then have emit: "emit_str m out s (int n) = Some (Inr (?m', int (n + length xs)))"
    using run sl il by (simp add: emit_str_def)
  have old: "read_bytes ?m' out n = read_bytes m out n"
  proof (rule read_bytes_cong)
    fix i assume i: "i < n"
    have o: "out + of_nat i - ?d = - of_nat (n - i)" using i by (simp add: of_nat_diff)
    have u: "unat (- of_nat (n - i) :: addr) = 2 ^ 64 - (n - i)"
      using i fits cap by (intro unat_neg_of_nat) auto
    have "length xs < 2 ^ 64 - (n - i)" using fits out(3) by simp
    then have "\<not> out + of_nat i - ?d < ?len" and ne: "out + of_nat i - ?d \<noteq> ?len"
      using u len unfolding o word_less_nat_alt by (linarith, metis nat_neq_iff)
    then have "out + of_nat i \<noteq> ?d + ?len" by (metis add_diff_cancel_left')
    with \<open>\<not> out + of_nat i - ?d < ?len\<close> show "?m' (out + of_nat i) = m (out + of_nat i)"
      by (simp add: copied_def)
  qed
  have "cstr ?m' ?d xs" using copied_cstr_terminated [OF s(2)] by simp
  then have "read_bytes ?m' ?d (length xs) = xs" by (simp add: cstr_def)
  with old have "read_bytes ?m' out (n + length xs) = read_bytes m out n @ xs"
    by (simp add: read_bytes_append)
  then show ?thesis using emit frame by blast
qed

lemma read_bytes_upd_end:
  assumes "n < 2 ^ 64"
  shows "read_bytes (m(out + of_nat n := c)) out n = read_bytes m out n"
proof (rule read_bytes_cong)
  fix i assume "i < n"
  then have "(of_nat i :: addr) \<noteq> of_nat n"
    using assms by (simp add: word_unat_eq_iff unat_of_nat_lt)
  then show "(m(out + of_nat n := c)) (out + of_nat i) = m (out + of_nat i)" by simp
qed

lemma emit_char_ok:
  assumes "Suc n < cap" and "cap < 2 ^ 31"
  shows "\<exists>m'. emit_char m out c (int n) = Inr (m', int (Suc n)) \<and>
    read_bytes m' out (Suc n) = read_bytes m out n @ [c] \<and>
    (\<forall>x. \<not> in_region out cap x \<longrightarrow> m' x = m x)"
proof -
  let ?m' = "m(out + of_nat n := c)"
  have "in_s32 (int n + 1)" using assms by (simp add: in_s32_iff)
  then have "emit_char m out c (int n) = Inr (?m', int (Suc n))"
    by (simp add: emit_char_def add.commute)
  moreover have "read_bytes ?m' out n = read_bytes m out n"
    using assms by (intro read_bytes_upd_end) simp
  then have "read_bytes ?m' out (n + 1) = read_bytes m out n @ [c]"
    by (simp only: read_bytes_append) simp
  moreover have "?m' x = m x" if "\<not> in_region out cap x" for x
    using that in_region_offset [of n cap out] assms by auto
  ultimately show ?thesis by auto
qed

definition emitted :: "addr \<Rightarrow> addr \<Rightarrow> nat \<Rightarrow> mem \<Rightarrow> nat \<Rightarrow> u8 list \<Rightarrow> mem \<Rightarrow> bool" where
  \<comment> \<open>from \<open>m\<close> to \<open>m'\<close> the text at \<open>out\<close> has grown by \<open>t\<close>, and nothing outside of the
    formatter's area has changed\<close>
  "emitted fr out cap m n t m' \<longleftrightarrow> read_bytes m' out (n + length t) = read_bytes m out n @ t \<and>
     (\<forall>x. \<not> fmt_area fr out cap x \<longrightarrow> m' x = m x)"

lemma emitted_trans:
  "emitted fr out cap m n t m1 \<Longrightarrow> emitted fr out cap m1 (n + length t) t' m' \<Longrightarrow>
     emitted fr out cap m n (t @ t') m'"
  by (simp add: emitted_def add.assoc)

lemma emit_str_emitted:
  assumes "fmt_layout fr out cap" and "s \<noteq> c_NULL" and "cstr m s xs"
    and "\<And>i. i \<le> length xs \<Longrightarrow> \<not> in_region out cap (s + of_nat i)" and "n + length xs < cap"
  shows "\<exists>m'. emit_str m out s (int n) = Some (Inr (m', int (n + length xs))) \<and>
    emitted fr out cap m n xs m'"
proof -
  from assms(1) have "out \<noteq> c_NULL" "unat out + cap \<le> 2 ^ 64" "cap < 2 ^ 31"
    by (auto simp: fmt_layout_def)
  from emit_str_ok [OF this assms(2-5)] show ?thesis
    by (auto simp: emitted_def fmt_area_def)
qed

text \<open>Strings that the formatter builds in its local array.\<close>

lemma emit_local_emitted:
  assumes lay: "fmt_layout fr out cap" and str: "cstr m1 fr xs" and len: "length xs \<le> 11"
    and frame: "\<And>x. \<not> in_region fr BUF_SIZE x \<Longrightarrow> m1 x = m x" and fits: "n + length xs < cap"
  shows "\<exists>m'. emit_str m1 out fr (int n) = Some (Inr (m', int (n + length xs))) \<and>
    emitted fr out cap m n xs m'"
proof -
  have loc: "in_region fr BUF_SIZE (fr + of_nat i)" if "i \<le> length xs" for i
    using that len by (intro in_region_offset) (auto simp: BUF_SIZE_def)
  have apart: "\<not> in_region out cap (fr + of_nat i)" if "i \<le> length xs" for i
    using loc [OF that] lay by (auto simp: fmt_layout_def)
  have "fr \<noteq> c_NULL" using lay by (simp add: fmt_layout_def)
  from emit_str_emitted [OF lay this str apart fits] obtain m' where
    run: "emit_str m1 out fr (int n) = Some (Inr (m', int (n + length xs)))"
    and e: "emitted fr out cap m1 n xs m'" by blast
  have "read_bytes m1 out n = read_bytes m out n"
  proof (rule read_bytes_cong)
    fix i assume "i < n"
    then have "in_region out cap (out + of_nat i)"
      using fits lay by (intro in_region_offset) (auto simp: fmt_layout_def)
    then show "m1 (out + of_nat i) = m (out + of_nat i)"
      using frame lay by (auto simp: fmt_layout_def)
  qed
  then have "emitted fr out cap m n xs m'"
    using e frame by (auto simp: emitted_def fmt_area_def)
  with run show ?thesis by blast
qed

lemma zero_buf_other: "\<not> in_region a BUF_SIZE x \<Longrightarrow> zero_buf m a x = m x"
  by (simp add: zero_buf_def write_bytes_apply BUF_SIZE_def)

lemma length_dec_int:
  assumes "in_s32 i"
  shows "length (dec_int i) \<le> 11"
proof -
  have "nat (- i) \<le> 2147483648" "nat i \<le> 2147483648"
    using assms unfolding in_s32_iff by linarith+
  then have "nat (- i) < 10 ^ Suc 9" "nat i < 10 ^ Suc 9" by simp_all
  from this [THEN length_dec_nat] show ?thesis by (auto simp: dec_int_def)
qed

lemma cstr_outside_Cons:
  assumes "cstr_outside W m p (c # cs)"
  shows "m p = c" "c \<noteq> 0" "\<not> W p" "cstr_outside W m (p + 1) cs"
proof -
  have "\<not> W (p + of_nat i)" if "i \<le> Suc (length cs)" for i
    using assms that by (simp add: cstr_outside_def)
  from this [of 0] this [of "Suc i" for i]
  have "\<not> W p" "\<And>i. i \<le> length cs \<Longrightarrow> \<not> W (p + 1 + of_nat i)" by (simp_all add: add.assoc)
  with assms show "m p = c" "c \<noteq> 0" "\<not> W p" "cstr_outside W m (p + 1) cs"
    by (simp_all add: cstr_outside_def cstr_def add.assoc)
qed

lemma vsprintf_loop_step:
  "m p \<noteq> 0 \<Longrightarrow> vsprintf_step fr out (m, p, ap, j) = Some (Inr st') \<Longrightarrow>
     vsprintf_loop fr out (m, p, ap, j) = vsprintf_loop fr out st'"
  by (subst vsprintf_loop.simps) simp

lemma vsprintf_conv_int:
  assumes lay: "fmt_layout fr out cap" and "in_s32 i" and "n + length (dec_int i) < cap"
  shows "\<exists>m'. vsprintf_conv fr out m 100 (VA_int i # ap) (int n) =
      Some (Inr (m', ap, int (n + length (dec_int i)))) \<and> emitted fr out cap m n (dec_int i) m'"
proof -
  have "fr \<noteq> c_NULL" using lay by (simp add: fmt_layout_def)
  from int_to_str_result [OF this assms(2), of "zero_buf m fr"] obtain m1 where
    m1: "int_to_str (zero_buf m fr) fr i = Inr m1" "cstr m1 fr (dec_int i)"
      "\<And>x. \<not> in_region fr 12 x \<Longrightarrow> m1 x = zero_buf m fr x" by blast
  have "m1 x = m x" if "\<not> in_region fr BUF_SIZE x" for x
    using that m1(3) [of x] in_region_mono [of fr 12 x BUF_SIZE]
    by (auto simp: zero_buf_other BUF_SIZE_def)
  from emit_local_emitted [OF lay m1(2) length_dec_int [OF assms(2)] this assms(3)] m1(1)
  show ?thesis by (auto simp: vsprintf_conv_def)
qed

lemma vsprintf_conv_uint:
  assumes lay: "fmt_layout fr out cap" and "n + length (dec_nat (unat w mod 2 ^ 32)) < cap"
  shows "\<exists>m'. vsprintf_conv fr out m 117 (VA_u64 w # ap) (int n) =
      Some (Inr (m', ap, int (n + length (dec_nat (unat w mod 2 ^ 32))))) \<and>
      emitted fr out cap m n (dec_nat (unat w mod 2 ^ 32)) m'"
proof -
  have u: "unat (ucast w :: u32) = unat w mod 2 ^ 32"
    by (simp add: unsigned_ucast_eq take_bit_eq_mod)
  let ?m1 = "uint_to_str (zero_buf m fr) fr (ucast w)"
  have str: "cstr ?m1 fr (dec_nat (unat w mod 2 ^ 32))"
    and frame12: "\<And>x. \<not> in_region fr 12 x \<Longrightarrow> ?m1 x = zero_buf m fr x"
    using uint_to_str_result [of "zero_buf m fr" fr "ucast w"] by (auto simp only: u)
  have "?m1 x = m x" if "\<not> in_region fr BUF_SIZE x" for x
    using that frame12 [of x] in_region_mono [of fr 12 x BUF_SIZE]
    by (auto simp: zero_buf_other BUF_SIZE_def)
  then have frame: "\<And>x. \<not> in_region fr BUF_SIZE x \<Longrightarrow> ?m1 x = m x" by blast
  have len: "length (dec_nat (unat w mod 2 ^ 32)) \<le> 11"
  proof -
    have "unat w mod 2 ^ 32 < 2 ^ 32" by (rule mod_less_divisor) simp
    then have "unat w mod 2 ^ 32 < 10 ^ Suc 10" by simp
    from length_dec_nat [OF this] show ?thesis by simp
  qed
  from emit_local_emitted [OF lay str len frame assms(2)] obtain m' where
    run: "emit_str ?m1 out fr (int n) =
      Some (Inr (m', int (n + length (dec_nat (unat w mod 2 ^ 32)))))"
    and e: "emitted fr out cap m n (dec_nat (unat w mod 2 ^ 32)) m'" by blast
  show ?thesis using run e by (auto simp: vsprintf_conv_def)
qed

lemma vsprintf_conv_str:
  assumes "fmt_layout fr out cap" and "arg_ok (fmt_area fr out cap) m (VA_ptr p) (A_str xs)"
    and "n + length xs < cap"
  shows "\<exists>m'. vsprintf_conv fr out m 115 (VA_ptr p # ap) (int n) =
      Some (Inr (m', ap, int (n + length xs))) \<and> emitted fr out cap m n xs m'"
proof -
  have "p \<noteq> c_NULL" "cstr m p xs" "\<And>i. i \<le> length xs \<Longrightarrow> \<not> in_region out cap (p + of_nat i)"
    using assms(2) by (auto simp: cstr_outside_def fmt_area_def)
  from emit_str_emitted [OF assms(1) this assms(3)] obtain m' where
    run: "emit_str m out p (int n) = Some (Inr (m', int (n + length xs)))"
    and e: "emitted fr out cap m n xs m'" by blast
  show ?thesis using run e by (auto simp: vsprintf_conv_def)
qed

lemma emit_char_emitted:
  assumes "fmt_layout fr out cap" and "Suc n < cap"
  shows "\<exists>m'. emit_char m out c (int n) = Inr (m', int (Suc n)) \<and> emitted fr out cap m n [c] m'"
  using emit_char_ok [OF assms(2), of m out c] assms(1)
  by (auto simp: emitted_def fmt_area_def fmt_layout_def)

lemma vsprintf_conv_other:
  assumes "fmt_layout fr out cap" and "Suc n < cap" and "c \<noteq> 100" "c \<noteq> 115" "c \<noteq> 117"
  shows "\<exists>m'. vsprintf_conv fr out m c ap (int n) = Some (Inr (m', ap, int (Suc n))) \<and>
      emitted fr out cap m n [c] m'"
proof -
  from emit_char_emitted [OF assms(1,2)] obtain m' where
    "emit_char m out c (int n) = Inr (m', int (Suc n))" "emitted fr out cap m n [c] m'" by blast
  then show ?thesis using assms(3-5) by (auto simp: vsprintf_conv_def)
qed

lemma arg_ok_cong:
  "(\<And>x. \<not> W x \<Longrightarrow> m' x = m x) \<Longrightarrow> arg_ok W m v a \<Longrightarrow> arg_ok W m' v a"
  by (cases "(W, m, v, a)" rule: arg_ok.cases) (auto simp: cstr_outside_def intro: cstr_cong)

lemma cstr_outside_cong:
  "(\<And>x. \<not> W x \<Longrightarrow> m' x = m x) \<Longrightarrow> cstr_outside W m p xs \<Longrightarrow> cstr_outside W m' p xs"
  by (auto simp: cstr_outside_def intro: cstr_cong)

definition conv_ok :: "addr \<Rightarrow> addr \<Rightarrow> nat \<Rightarrow> mem \<Rightarrow> u8 \<Rightarrow> va_arg list \<Rightarrow> nat \<Rightarrow> u8 list \<Rightarrow> va_arg list \<Rightarrow> bool" where
  \<comment> \<open>the conversion \<open>c\<close> appends \<open>t\<close> and leaves the arguments \<open>ap'\<close>\<close>
  "conv_ok fr out cap m c ap n t ap' \<longleftrightarrow> (\<exists>m'.
     vsprintf_conv fr out m c ap (int n) = Some (Inr (m', ap', int (n + length t))) \<and>
     emitted fr out cap m n t m')"

lemma format_conv:
  assumes "fmt_layout fr out cap" and "klib_format (37 # d # ds) as = Some tx"
    and "list_all2 (arg_ok (fmt_area fr out cap) m) ap as" and "n + length tx < cap"
  shows "\<exists>t tx' as' ap'. tx = t @ tx' \<and> klib_format ds as' = Some tx' \<and>
    list_all2 (arg_ok (fmt_area fr out cap) m) ap' as' \<and> conv_ok fr out cap m d ap n t ap'"
proof -
  consider "d = 100" | "d = 115" | "d = 117" | "d \<noteq> 100" "d \<noteq> 115" "d \<noteq> 117" by blast
  then show ?thesis
  proof cases
    case 1
    then obtain i as' tx' where a: "as = A_int i # as'" "tx = dec_int i @ tx'" "klib_format ds as' = Some tx'"
      using assms(2) by (auto split: list.splits fmt_arg.splits)
    with assms(3) obtain ap' where b: "ap = VA_int i # ap'" "in_s32 i"
      "list_all2 (arg_ok (fmt_area fr out cap) m) ap' as'"
      by (auto simp: list_all2_Cons2 elim: arg_ok.elims)
    have "conv_ok fr out cap m d ap n (dec_int i) ap'"
      using vsprintf_conv_int [OF assms(1) b(2), of n m ap'] assms(4) a b 1 by (simp add: conv_ok_def)
    with a b show ?thesis by blast
  next
    case 2
    then obtain xs as' tx' where a: "as = A_str xs # as'" "tx = xs @ tx'" "klib_format ds as' = Some tx'"
      using assms(2) by (auto split: list.splits fmt_arg.splits)
    with assms(3) obtain p ap' where b: "ap = VA_ptr p # ap'"
      "arg_ok (fmt_area fr out cap) m (VA_ptr p) (A_str xs)"
      "list_all2 (arg_ok (fmt_area fr out cap) m) ap' as'"
      by (auto simp: list_all2_Cons2 elim!: arg_ok.elims)
    have "conv_ok fr out cap m d ap n xs ap'"
      using vsprintf_conv_str [OF assms(1) b(2), of n ap'] assms(4) a b(1) 2 by (simp add: conv_ok_def)
    with a b show ?thesis by blast
  next
    case 3
    then obtain w as' tx' where a: "as = A_u64 w # as'"
      "tx = dec_nat (unat w mod 2 ^ 32) @ tx'" "klib_format ds as' = Some tx'"
      using assms(2) by (auto split: list.splits fmt_arg.splits)
    with assms(3) obtain ap' where b: "ap = VA_u64 w # ap'"
      "list_all2 (arg_ok (fmt_area fr out cap) m) ap' as'"
      by (auto simp: list_all2_Cons2 elim: arg_ok.elims)
    have "conv_ok fr out cap m d ap n (dec_nat (unat w mod 2 ^ 32)) ap'"
      using vsprintf_conv_uint [OF assms(1), of n w m ap'] assms(4) a(2) b(1) 3
      by (simp only: conv_ok_def) simp
    with a b show ?thesis by blast
  next
    case 4
    then obtain tx' where a: "tx = [d] @ tx'" "klib_format ds as = Some tx'"
      using assms(2) by auto
    have "conv_ok fr out cap m d ap n [d] ap"
      using vsprintf_conv_other [OF assms(1) _ 4, of n m ap] assms(4) a by (simp add: conv_ok_def)
    with a assms(3) show ?thesis by blast
  qed
qed

lemma vsprintf_loop_end:
  assumes lay: "fmt_layout fr out cap" and nul: "m fmt = 0" and n: "n < cap"
  shows "\<exists>m'. vsprintf_loop fr out (m, fmt, ap, int n) = Some (Inr (m', int n)) \<and>
    m' (out + of_nat n) = 0 \<and> emitted fr out cap m n [] m'"
proof -
  let ?m' = "m(out + of_nat n := 0)"
  have "vsprintf_loop fr out (m, fmt, ap, int n) = Some (Inr (?m', int n))"
    using nul by (subst vsprintf_loop.simps) simp
  moreover have cap: "cap < 2 ^ 31" using lay by (simp add: fmt_layout_def)
  have "emitted fr out cap m n [] ?m'"
    unfolding emitted_def
  proof (intro conjI allI impI)
    show "read_bytes ?m' out (n + length []) = read_bytes m out n @ []"
      using cap n by (simp add: read_bytes_upd_end)
    fix x assume "\<not> fmt_area fr out cap x"
    then show "?m' x = m x"
      using in_region_offset [of n cap out] cap n by (auto simp: fmt_area_def)
  qed
  ultimately show ?thesis by auto
qed

lemma vsprintf_loop_ok:
  assumes "fmt_layout fr out cap" and "klib_format cs args = Some tx"
    and "list_all2 (arg_ok (fmt_area fr out cap) m) ap args"
    and "cstr_outside (fmt_area fr out cap) m fmt cs" and "n + length tx < cap"
  shows "\<exists>m'. vsprintf_loop fr out (m, fmt, ap, int n) = Some (Inr (m', int (n + length tx))) \<and>
    m' (out + of_nat (n + length tx)) = 0 \<and> emitted fr out cap m n tx m'"
  using assms(2-5)
proof (induction "length cs" arbitrary: cs args tx m ap fmt n rule: less_induct)
  case less
  let ?W = "fmt_area fr out cap"
  show ?case
  proof (cases cs)
    case Nil
    have "m fmt = 0" using less.prems(3) Nil by (simp add: cstr_outside_def cstr_def)
    then show ?thesis using vsprintf_loop_end [OF assms(1), of m fmt n ap] less.prems(1,4) Nil by simp
  next
    case (Cons c ds)
    have "cstr_outside ?W m fmt (c # ds)" using less.prems(3) Cons by simp
    note c = cstr_outside_Cons [OF this]
    show ?thesis
    proof (cases "c = 37")
      case False
      then obtain tx' where t: "tx = [c] @ tx'" "klib_format ds args = Some tx'"
        using less.prems(1) Cons by auto
      have "Suc n < cap" using less.prems(4) t by simp
      from emit_char_emitted [OF assms(1) this] obtain m1 where
        m1: "emit_char m out c (int n) = Inr (m1, int (Suc n))" "emitted fr out cap m n [c] m1" by blast
      then have same: "\<And>x. \<not> ?W x \<Longrightarrow> m1 x = m x" by (simp add: emitted_def)
      have "vsprintf_loop fr out (m, fmt, ap, int n) = vsprintf_loop fr out (m1, fmt + 1, ap, int (Suc n))"
        using c m1(1) False by (intro vsprintf_loop_step) (simp_all add: vsprintf_step_def)
      moreover have "\<exists>m'. vsprintf_loop fr out (m1, fmt + 1, ap, int (Suc n)) =
            Some (Inr (m', int (Suc n + length tx'))) \<and>
          m' (out + of_nat (Suc n + length tx')) = 0 \<and> emitted fr out cap m1 (Suc n) tx' m'"
      proof (rule less.hyps [OF _ t(2)])
        show "list_all2 (arg_ok ?W m1) ap args"
          by (rule list_all2_mono [OF less.prems(2)]) (rule arg_ok_cong [OF same])
        show "cstr_outside ?W m1 (fmt + 1) ds" by (rule cstr_outside_cong [OF same c(4)])
      qed (insert Cons less.prems(4) t, simp_all)
      ultimately show ?thesis
        using emitted_trans [OF m1(2)] t(1) by auto
    next
      case True
      then obtain d es where ds: "ds = d # es"
        using less.prems(1) Cons by (cases ds) auto
      have "cstr_outside ?W m (fmt + 1) (d # es)" using c(4) ds by simp
      note d = cstr_outside_Cons [OF this]
      from format_conv [OF assms(1) _ less.prems(2,4), of d es] obtain t tx' args' ap' where
        t: "tx = t @ tx'" "klib_format es args' = Some tx'" "list_all2 (arg_ok ?W m) ap' args'"
          "conv_ok fr out cap m d ap n t ap'"
        using less.prems(1) Cons True ds by blast
      from t(4) obtain m1 where
        m1: "vsprintf_conv fr out m d ap (int n) = Some (Inr (m1, ap', int (n + length t)))"
          "emitted fr out cap m n t m1" by (auto simp: conv_ok_def)
      then have same: "\<And>x. \<not> ?W x \<Longrightarrow> m1 x = m x" by (simp add: emitted_def)
      have "vsprintf_loop fr out (m, fmt, ap, int n) =
          vsprintf_loop fr out (m1, fmt + 1 + 1, ap', int (n + length t))"
        using c d(1) m1(1) True by (intro vsprintf_loop_step) (simp_all add: vsprintf_step_def)
      moreover have "\<exists>m'. vsprintf_loop fr out (m1, fmt + 1 + 1, ap', int (n + length t)) =
            Some (Inr (m', int (n + length t + length tx'))) \<and>
          m' (out + of_nat (n + length t + length tx')) = 0 \<and> emitted fr out cap m1 (n + length t) tx' m'"
      proof (rule less.hyps [OF _ t(2)])
        show "list_all2 (arg_ok ?W m1) ap' args'"
          by (rule list_all2_mono [OF t(3)]) (rule arg_ok_cong [OF same])
        show "cstr_outside ?W m1 (fmt + 1 + 1) es" by (rule cstr_outside_cong [OF same d(4)])
      qed (insert Cons ds less.prems(4) t, simp_all)
      ultimately show ?thesis
        using emitted_trans [OF m1(2)] t(1) by (auto simp: add.assoc)
    qed
  qed
qed

section \<open>The meaning of a format string\<close>

definition hex_digit :: "nat \<Rightarrow> u8" where
  "hex_digit d = of_nat (if d < 10 then 48 + d else 87 + d)"

fun hex_nat :: "nat \<Rightarrow> u8 list" where
  "hex_nat n = (if n < 16 then [hex_digit n] else hex_nat (n div 16) @ [hex_digit (n mod 16)])"

declare hex_nat.simps [simp del]

fun format :: "u8 list \<Rightarrow> fmt_arg list \<Rightarrow> u8 list option" where
  \<comment> \<open>the conversions \<open>d\<close>, \<open>s\<close>, \<open>u\<close>, \<open>c\<close>, \<open>x\<close> and the per cent sign as in the C standard, without flags, widths and
    length modifiers; \<open>None\<close> where it leaves the behaviour undefined, and for the other conversions\<close>
  "format [] as = Some []"
| "format (c # cs) as =
     (if c \<noteq> 37 then map_option ((#) c) (format cs as)
      else case cs of
        [] \<Rightarrow> None
      | d # ds \<Rightarrow>
          if d = 37 then map_option ((#) 37) (format ds as)
          else case as of
            A_int i # as' \<Rightarrow>
              if d = 100 then map_option ((@) (dec_int i)) (format ds as')
              else if d = 99 then map_option ((#) (word_of_int i)) (format ds as')
              else None
          | A_str xs # as' \<Rightarrow> if d = 115 then map_option ((@) xs) (format ds as') else None
          | A_uint w # as' \<Rightarrow>
              if d = 117 then map_option ((@) (dec_nat (unat w))) (format ds as')
              else if d = 120 then map_option ((@) (hex_nat (unat w))) (format ds as')
              else None
          | _ \<Rightarrow> None)"

fun conversions :: "u8 list \<Rightarrow> u8 list" where
  \<comment> \<open>the characters after the per cent signs\<close>
  "conversions [] = []"
| "conversions (c # cs) = (if c = 37 then (case cs of [] \<Rightarrow> [] | d # ds \<Rightarrow> d # conversions ds) else conversions cs)"

lemma format_implemented:
  assumes "format cs as = Some tx" and "set (conversions cs) \<subseteq> {37, 100, 115}"
  shows "klib_format cs as = Some tx"
  using assms
proof (induction cs as arbitrary: tx rule: format.induct)
  case (2 c cs as)
  show ?case
  proof (cases "c = 37")
    case False
    then show ?thesis using "2.IH"(1) "2.prems" by auto
  next
    case True
    then obtain d ds where cs: "cs = d # ds" using "2.prems"(1) by (cases cs) auto
    then have d: "d \<in> {37, 100, 115}" and ds: "set (conversions ds) \<subseteq> {37, 100, 115}"
      using "2.prems"(2) True by auto
    show ?thesis
    proof (cases "d = 37")
      case d37: True
      then show ?thesis using "2.IH"(2) [of d ds] "2.prems"(1) ds True cs by auto
    next
      case False
      then obtain a as' where as: "as = a # as'" using "2.prems"(1) True cs by (cases as) auto
      show ?thesis
        using "2.IH"(3) [of d ds a as'] "2.IH"(5) [of d ds a as'] "2.prems"(1) ds True cs as d False
        by (cases a) (auto split: if_splits)
    qed
  qed
qed simp

lemma sprintf_prints:
  assumes "fmt_layout fr out cap" and "klib_format cs args = Some tx" and "length tx < cap"
    and "list_all2 (arg_ok (fmt_area fr out cap) m) ap args"
    and "cstr_outside (fmt_area fr out cap) m fmt cs"
  shows "\<exists>m'. sprintf fr m out fmt ap = Some (Inr (m', int (length tx))) \<and>
    read_bytes m' out (length tx) = tx \<and> m' (out + of_nat (length tx)) = 0 \<and>
    (\<forall>x. \<not> fmt_area fr out cap x \<longrightarrow> m' x = m x)"
proof -
  have "0 + length tx < cap" using assms(3) by simp
  from vsprintf_loop_ok [OF assms(1,2,4,5) this] show ?thesis
    by (auto simp: sprintf_def vsprintf_def emitted_def)
qed

text \<open>The other conversions: \<open>c\<close> and \<open>x\<close> print their own letter and leave their argument for the next conversion, a flag
  or a width ends the conversion and what follows is text, and \<open>u\<close> reads an \<open>unsigned int\<close> as 64 bits.\<close>

lemma char_conversion_prints_letter:
  "format [37, 99] [A_int i] = Some [word_of_int i]" "klib_format [37, 99] [A_int i] = Some [99]"
  "format [37, 99, 37, 100] [A_int i, A_int j] = Some (word_of_int i # dec_int j)"
  "klib_format [37, 99, 37, 100] [A_int i, A_int j] = Some (99 # dec_int i)"
  by simp_all

lemma hex_conversion_prints_letter:
  "klib_format [37, 120] [A_uint w] = Some [120]" "klib_format [37, 48, 52, 120] [A_uint w] = Some [48, 52, 120]"
  by simp_all

lemma unsigned_conversion_reads_64_bits:
  assumes "m fmt = 37" and "m (fmt + 1) = 117"
  shows "sprintf fr m out fmt (VA_u32 w # ap) = Some (Inl Bad_va_arg)"
  using assms by (simp add: sprintf_def vsprintf_def vsprintf_loop.simps [of fr out "(m, fmt, VA_u32 w # ap, 0)"]
      vsprintf_step_def vsprintf_conv_def)

section \<open>Properties\<close>

text \<open>C4: for a format string whose conversions are among \<open>%d\<close>, \<open>%s\<close> and \<open>%%\<close>: when the C standard gives it
  and the arguments a meaning (\<open>format\<close> gives a text), the text
  and its terminator fit the output buffer, and neither the format string nor a string argument
  overlaps what the formatter writes, \<open>sprintf\<close> returns, stores exactly that text with its
  terminator at \<open>out\<close>, returns its length, and changes nothing outside of the output buffer and
  its own stack array. The other conversions are not those of the standard
  (\<open>char_conversion_prints_letter\<close>, \<open>hex_conversion_prints_letter\<close>, \<open>unsigned_conversion_reads_64_bits\<close>).\<close>
theorem sprintf_correct:
  assumes "fmt_layout fr out cap" and "format cs args = Some tx" and "set (conversions cs) \<subseteq> {37, 100, 115}"
    and "length tx < cap" and "list_all2 (arg_ok (fmt_area fr out cap) m) ap args"
    and "cstr_outside (fmt_area fr out cap) m fmt cs"
  shows "\<exists>m'. sprintf fr m out fmt ap = Some (Inr (m', int (length tx))) \<and>
    read_bytes m' out (length tx) = tx \<and> m' (out + of_nat (length tx)) = 0 \<and>
    (\<forall>x. \<not> fmt_area fr out cap x \<longrightarrow> m' x = m x)"
  by (rule sprintf_prints [OF assms(1) format_implemented [OF assms(2,3)] assms(4-6)])

definition sum_mem :: mem where
  \<comment> \<open>\<open>"%d+%s"\<close> at 64 and \<open>"ab"\<close> at 96\<close>
  "sum_mem = write_bytes (write_bytes (\<lambda>_. 0) 64 [37, 100, 43, 37, 115, 0]) 96 [97, 98, 0]"

theorem sprintf_correct_witness:
  "\<exists>m'. sprintf 8192 sum_mem 4096 64 [VA_int (- 17), VA_ptr 96] = Some (Inr (m', 6)) \<and>
    read_bytes m' 4096 6 = [45, 49, 55, 43, 97, 98]"
proof -
  have lay: "fmt_layout 8192 4096 64"
    by (auto simp: fmt_layout_def in_region_def c_NULL_def BUF_SIZE_def word_less_nat_alt unat_sub_if_size word_size)
  have d: "dec_int (- 17) = [45, 49, 55]" by code_simp
  have f: "format [37, 100, 43, 37, 115] [A_int (- 17), A_str [97, 98]] = Some [45, 49, 55, 43, 97, 98]"
    by (simp add: d)
  have o: "\<not> fmt_area 8192 4096 64 (64 + of_nat i)" "\<not> fmt_area 8192 4096 64 (96 + of_nat i)"
    if "i \<le> 5" for i
    using that by (auto simp: fmt_area_def in_region_def BUF_SIZE_def unat_sub_if_size word_size
        unat_of_nat_lt unat_word_ariths)
  have "cstr sum_mem 64 [37, 100, 43, 37, 115]" "cstr sum_mem 96 [97, 98]"
    by (simp_all add: cstr_def sum_mem_def c_simps)
  then have c: "cstr_outside (fmt_area 8192 4096 64) sum_mem 64 [37, 100, 43, 37, 115]"
      "cstr_outside (fmt_area 8192 4096 64) sum_mem 96 [97, 98]"
    using o by (simp_all add: cstr_outside_def)
  have a: "list_all2 (arg_ok (fmt_area 8192 4096 64) sum_mem) [VA_int (- 17), VA_ptr 96]
      [A_int (- 17), A_str [97, 98]]"
    using c(2) by (simp add: in_s32_iff c_NULL_def)
  from sprintf_correct [OF lay f _ _ a c(1)] show ?thesis by (auto simp: c_simps)
qed

text \<open>A per cent sign at the end of the format string: the terminator is taken for the conversion
  character, copied, and stepped over, so that the loop goes on with the bytes behind the string.\<close>

lemma vsprintf_trailing_percent:
  assumes "m p = 37" and "m (p + 1) = 0" and "in_s32 (j + 1)"
  shows "vsprintf_loop fr out (m, p, ap, j) =
    vsprintf_loop fr out (m(out + of_int j := 0), p + 1 + 1, ap, j + 1)"
  using assms by (subst vsprintf_loop.simps) (simp add: vsprintf_step_def vsprintf_conv_def emit_char_def)

text \<open>A number that \<open>int_to_str\<close> has written is read back by \<open>atoi\<close>; the upper bound is where the
  arithmetic of \<open>atoi\<close> overflows.\<close>

lemma int_to_str_cstr:
  assumes "str \<noteq> c_NULL" and "in_s32 num"
  shows "\<exists>m'. int_to_str m str num = Inr m' \<and> cstr m' str (dec_int num)"
  using int_to_str_result [OF assms] by blast

end
