(* ===== verification/Int64.thy ===== *)
theory Int64
  imports Prelude "HOL-Library.Signed_Division"
begin

text \<open>
  \<open>abstract-machine/klib/src/int64.c\<close>: 64-bit division for machines whose compiler calls run-time
  routines for it. A \<open>udwords\<close> union is the 64-bit word itself, read and written through its two
  32-bit halves; a \<open>du_int *rem\<close> result is the second component of a pair, which the callers that
  pass a null pointer drop. Division by zero is an error. The \<open>__builtin_clz\<close> and
  \<open>__builtin_ctz\<close> of the divider are the file's own \<open>__clzsi2\<close> and \<open>__ctzsi2\<close>, which is what a
  compiler without such instructions calls for them.
\<close>

section \<open>Halves of a double word\<close>

definition low :: "u64 \<Rightarrow> u32" where "low w = ucast w"

definition high :: "u64 \<Rightarrow> u32" where "high w = ucast (drop_bit 32 w)"

definition dword :: "u32 \<Rightarrow> u32 \<Rightarrow> u64" where
  "dword h l = push_bit 32 (ucast h) OR ucast l"

definition c_not :: "bool \<Rightarrow> u32" where
  \<comment> \<open>a comparison used as a number\<close>
  "c_not b = (if b then 1 else 0)"

section \<open>Bit counting\<close>

definition clzsi2 :: "u32 \<Rightarrow> u32" where
  "clzsi2 a =
     (let x = a;
          t = push_bit 4 (c_not (x AND 0xFFFF0000 = 0));
          x = drop_bit (unat (16 - t)) x;
          r = t;
          t = push_bit 3 (c_not (x AND 0xFF00 = 0));
          x = drop_bit (unat (8 - t)) x;
          r = r + t;
          t = push_bit 2 (c_not (x AND 0xF0 = 0));
          x = drop_bit (unat (4 - t)) x;
          r = r + t;
          t = push_bit 1 (c_not (x AND 0xC = 0));
          x = drop_bit (unat (2 - t)) x;
          r = r + t
      in r + ((2 - x) AND - c_not (x AND 2 = 0)))"

definition ctzsi2 :: "u32 \<Rightarrow> u32" where
  "ctzsi2 a =
     (let x = a;
          t = push_bit 4 (c_not (x AND 0x0000FFFF = 0));
          x = drop_bit (unat t) x;
          r = t;
          t = push_bit 3 (c_not (x AND 0x00FF = 0));
          x = drop_bit (unat t) x;
          r = r + t;
          t = push_bit 2 (c_not (x AND 0x0F = 0));
          x = drop_bit (unat t) x;
          r = r + t;
          t = push_bit 1 (c_not (x AND 0x3 = 0));
          x = drop_bit (unat t) x;
          x = x AND 3;
          r = r + t
      in r + ((2 - drop_bit 1 x) AND - c_not (x AND 1 = 0)))"

definition clzdi2 :: "u64 \<Rightarrow> u32" where
  "clzdi2 a =
     (let f = - c_not (high a = 0)
      in clzsi2 ((high a AND NOT f) OR (low a AND f)) + (f AND 32))"

definition ctzdi2 :: "u64 \<Rightarrow> u32" where
  "ctzdi2 a =
     (let f = - c_not (low a = 0)
      in ctzsi2 ((high a AND f) OR (low a AND NOT f)) + (f AND 32))"

section \<open>Division\<close>

definition udiv_step :: "u64 \<Rightarrow> u64 \<times> u64 \<times> u32 \<Rightarrow> u64 \<times> u64 \<times> u32" where
  \<comment> \<open>one round of the shift-and-subtract loop: \<open>r\<close>, \<open>q\<close> and \<open>carry\<close>\<close>
  "udiv_step d st =
     (case st of (r, q, carry) \<Rightarrow>
        let r_high = push_bit 1 (high r) OR drop_bit 31 (low r);
            r_low = push_bit 1 (low r) OR drop_bit 31 (high q);
            q_high = push_bit 1 (high q) OR drop_bit 31 (low q);
            q_low = push_bit 1 (low q) OR carry;
            r1 = dword r_high r_low;
            q1 = dword q_high q_low;
            s = signed_drop_bit 63 (d - r1 - 1)
        in (r1 - (d AND s), q1, ucast (s AND 1)))"

fun udiv_loop :: "nat \<Rightarrow> u64 \<Rightarrow> u64 \<times> u64 \<times> u32 \<Rightarrow> u64 \<times> u64 \<times> u32" where
  "udiv_loop 0 d st = st"
| "udiv_loop (Suc sr) d st = udiv_loop sr d (udiv_step d st)"

definition udiv_finish :: "u32 \<Rightarrow> u64 \<Rightarrow> u64 \<Rightarrow> u64 \<Rightarrow> u64 \<times> u64" where
  "udiv_finish sr d r q =
     (case udiv_loop (unat sr) d (r, q, 0) of (r', q', carry) \<Rightarrow>
        (push_bit 1 q' OR ucast carry, r'))"

definition udivmoddi4 :: "u64 \<Rightarrow> u64 \<Rightarrow> c_error + u64 \<times> u64" where
  "udivmoddi4 a b =
     (let nh = high a; nl = low a; dh = high b; dl = low b;
          shl = (\<lambda>x k. push_bit (unat k) x); shr = (\<lambda>x k. drop_bit (unat k) x)
      in
      if nh = 0 then
        if dh = 0 then
          (if dl = 0 then Inl Div_by_zero else Inr (ucast (nl div dl), ucast (nl mod dl)))
        else Inr (0, ucast nl)
      else if dl = 0 then
        if dh = 0 then Inl Div_by_zero
        else if nl = 0 then Inr (ucast (nh div dh), dword (nh mod dh) 0)
        else if dh AND (dh - 1) = 0 then
          Inr (ucast (shr nh (ctzsi2 dh)), dword (nh AND (dh - 1)) nl)
        else
          let sr = clzsi2 dh - clzsi2 nh in
          if sr > 30 then Inr (0, a)
          else
            let sr = sr + 1 in
            Inr (udiv_finish sr b
              (dword (shr nh sr) (shl nh (32 - sr) OR shr nl sr))
              (dword (shl nl (32 - sr)) 0))
      else if dh = 0 then
        if dl AND (dl - 1) = 0 then
          if dl = 1 then Inr (a, ucast (nl AND (dl - 1)))
          else
            let sr = ctzsi2 dl in
            Inr (dword (shr nh sr) (shl nh (32 - sr) OR shr nl sr), ucast (nl AND (dl - 1)))
        else
          let sr = 1 + 32 + clzsi2 dl - clzsi2 nh in
          if sr = 32 then Inr (udiv_finish sr b (dword 0 nh) (dword nl 0))
          else if sr < 32 then
            Inr (udiv_finish sr b
              (dword (shr nh sr) (shl nh (32 - sr) OR shr nl sr))
              (dword (shl nl (32 - sr)) 0))
          else
            Inr (udiv_finish sr b
              (dword 0 (shr nh (sr - 32)))
              (dword (shl nh (64 - sr) OR shr nl (sr - 32)) (shl nl (64 - sr))))
      else
        let sr = clzsi2 dh - clzsi2 nh in
        if sr > 31 then Inr (0, a)
        else
          let sr = sr + 1 in
          if sr = 32 then Inr (udiv_finish sr b (dword 0 nh) (dword nl 0))
          else
            Inr (udiv_finish sr b
              (dword (shr nh sr) (shl nh (32 - sr) OR shr nl sr))
              (dword (shl nl (32 - sr)) 0)))"

definition s64 :: "int \<Rightarrow> c_error + u64" where
  \<comment> \<open>the result of an operation on \<open>di_int\<close>, as the word that represents it\<close>
  "s64 i = (if - (2 ^ 63) \<le> i \<and> i < 2 ^ 63 then Inr (word_of_int i) else Inl Int_overflow)"

definition sub64 :: "u64 \<Rightarrow> u64 \<Rightarrow> c_error + u64" where "sub64 a b = s64 (sint a - sint b)"
definition mul64 :: "u64 \<Rightarrow> u64 \<Rightarrow> c_error + u64" where "mul64 a b = s64 (sint a * sint b)"

definition divdi3 :: "u64 \<Rightarrow> u64 \<Rightarrow> c_error + u64" where
  \<comment> \<open>\<open>a\<close> and \<open>b\<close> are read as two's complement; \<open>__udivmoddi4\<close> returns an unsigned number, so the last line wraps\<close>
  "divdi3 a b =
     (let s_a = signed_drop_bit 63 a;
          s_b = signed_drop_bit 63 b
      in rbind (sub64 (a XOR s_a) s_a) (\<lambda>a.
         rbind (sub64 (b XOR s_b) s_b) (\<lambda>b.
         let s_a = s_a XOR s_b
         in rbind (udivmoddi4 a b) (\<lambda>(q, _). Inr ((q XOR s_a) - s_a)))))"

definition divmoddi4 :: "u64 \<Rightarrow> u64 \<Rightarrow> c_error + u64 \<times> u64" where
  "divmoddi4 a b = rbind (divdi3 a b) (\<lambda>d. rbind (mul64 d b) (\<lambda>p. rbind (sub64 a p) (\<lambda>rem. Inr (d, rem))))"

definition moddi3 :: "u64 \<Rightarrow> u64 \<Rightarrow> c_error + u64" where
  "moddi3 a b =
     (let s = signed_drop_bit 63 b
      in rbind (sub64 (b XOR s) s) (\<lambda>b.
         let s = signed_drop_bit 63 a
         in rbind (sub64 (a XOR s) s) (\<lambda>a.
            rbind (udivmoddi4 a b) (\<lambda>(_, r). sub64 (r XOR s) s))))"

definition udivdi3 :: "u64 \<Rightarrow> u64 \<Rightarrow> c_error + u64" where
  "udivdi3 a b = rbind (udivmoddi4 a b) (\<lambda>(q, _). Inr q)"

definition umoddi3 :: "u64 \<Rightarrow> u64 \<Rightarrow> c_error + u64" where
  "umoddi3 a b = rbind (udivmoddi4 a b) (\<lambda>(_, r). Inr r)"

section \<open>Halves as numbers\<close>

lemma unat_shr_nat: "unat (drop_bit n (x :: 'a::len word)) = unat x div 2 ^ n"
  by (subst unat_drop_bit_eq) (rule drop_bit_eq_div)

lemma unat_high: "unat (high w) = unat w div 2 ^ 32"
  using unat_lt_2p [of w]
  by (simp add: high_def unsigned_ucast_eq unat_shr_nat take_bit_eq_mod less_mult_imp_div_less
      del: drop_bit_eq_div)

lemma unat_low: "unat (low w) = unat w mod 2 ^ 32"
  by (simp add: low_def unsigned_ucast_eq take_bit_eq_mod)

lemma bit_dword: "bit (dword h l) n \<longleftrightarrow> (if n < 32 then bit l n else n < 64 \<and> bit h (n - 32))"
  by (auto simp: dword_def bit_simps dest: bit_imp_le_length)

lemma bit_high: "bit (high w) n \<longleftrightarrow> n < 32 \<and> bit w (n + 32)"
  by (auto simp: high_def bit_simps add.commute dest: bit_imp_le_length)

lemma bit_low: "bit (low w) n \<longleftrightarrow> n < 32 \<and> bit w n"
  by (auto simp: low_def bit_simps dest: bit_imp_le_length)

lemma dword_high_low [simp]: "dword (high w) (low w) = w"
  by (rule bit_word_eqI) (auto simp: bit_dword bit_high bit_low)

lemma high_dword [simp]: "high (dword h l) = h"
  by (rule bit_word_eqI) (auto simp: bit_dword bit_high)

lemma low_dword [simp]: "low (dword h l) = l"
  by (rule bit_word_eqI) (auto simp: bit_dword bit_low)

lemma unat_dword: "unat (dword h l) = unat h * 2 ^ 32 + unat l"
proof -
  have "unat (dword h l) = unat (high (dword h l)) * 2 ^ 32 + unat (low (dword h l))"
    unfolding unat_high unat_low by simp
  then show ?thesis by simp
qed

lemma high_zero_iff: "high w = 0 \<longleftrightarrow> unat w < 2 ^ 32"
  by (simp add: unat_eq_0 [symmetric] unat_high div_eq_0_iff)

section \<open>Bit counting is correct\<close>

lemma and_high_mask_eq_0:
  fixes x :: u32
  assumes "unat x < 2 ^ (h + h)" and "h + h \<le> 32"
  shows "x AND push_bit h (mask h) = 0 \<longleftrightarrow> unat x < 2 ^ h"
proof -
  have "x AND push_bit h (mask h) = push_bit h (drop_bit h x)"
  proof (rule bit_word_eqI)
    fix n assume "n < LENGTH(32)"
    have "n < h + h" if b: "bit x n" for n
    proof (rule ccontr)
      assume "\<not> n < h + h"
      then have that: "h + h \<le> n" by simp
      have "take_bit n (unat x) = unat x"
        using assms(1) that by (intro take_bit_nat_eq_self) (meson order_less_le_trans one_le_numeral power_increasing)
      then have "take_bit n x = x" by (simp add: word_unat_eq_iff unsigned_take_bit_eq)
      then show False using b by (metis bit_take_bit_iff less_irrefl)
    qed
    then show "bit (x AND push_bit h (mask h)) n = bit (push_bit h (drop_bit h x)) n"
      using \<open>n < LENGTH(32)\<close> by (auto simp: bit_simps) (metis less_diff_conv2 not_le)?
  qed
  also have "push_bit h (drop_bit h x) = 0 \<longleftrightarrow> drop_bit h x = 0"
  proof -
    have "drop_bit h (push_bit h (drop_bit h x)) = drop_bit h x"
      by (rule bit_word_eqI) (auto simp: bit_simps dest: bit_imp_le_length)
    then show ?thesis by (metis drop_bit_of_0 push_bit_of_0)
  qed
  also have "\<dots> \<longleftrightarrow> unat x < 2 ^ h"
    by (simp add: unat_eq_0 [symmetric] unat_shr_nat div_eq_0_iff)
  finally show ?thesis .
qed

lemma unat_and_mask: "unat ((x :: u32) AND mask h) = unat x mod 2 ^ h"
  by (simp only: take_bit_eq_mask [symmetric] unsigned_take_bit_eq) (rule take_bit_eq_mod)

lemma and_low_mask_eq_0: "(x :: u32) AND mask h = 0 \<longleftrightarrow> unat x mod 2 ^ h = 0"
  by (simp only: unat_eq_0 [symmetric] unat_and_mask)

lemma unat_c_not_shift: "k \<le> 4 \<Longrightarrow> unat (push_bit k (c_not b)) = (if b then 2 ^ k else 0)"
proof -
  assume "k \<le> 4"
  then consider "k = 0" | "k = 1" | "k = 2" | "k = 3" | "k = 4" by linarith
  then show ?thesis by cases (simp_all add: c_not_def)
qed

definition clz_inv :: "u32 \<Rightarrow> nat \<Rightarrow> u32 \<Rightarrow> u32 \<Rightarrow> bool" where
  \<comment> \<open>\<open>x\<close> is a shifted right by \<open>s\<close>, has at most \<open>w\<close> bits, and \<open>r = 32 - w - s\<close>\<close>
  "clz_inv a w x r \<longleftrightarrow> x \<noteq> 0 \<and> unat x < 2 ^ w \<and>
     (\<exists>s. unat x = unat a div 2 ^ s \<and> unat r + w + s = 32)"

lemma clz_step:
  fixes x r t :: u32
  assumes "clz_inv a (h + h) x r" and "h = 2 ^ k" and "k \<le> 4"
    and "t = push_bit k (c_not (x AND push_bit h (mask h) = 0))"
  shows "clz_inv a h (drop_bit (unat (of_nat h - t)) x) (r + t)"
proof -
  have "h \<le> 16" using assms(2,3) power_increasing [of k 4 "2::nat"] by simp
  then have small: "x AND push_bit h (mask h) = 0 \<longleftrightarrow> unat x < 2 ^ h"
    using assms(1) by (intro and_high_mask_eq_0) (auto simp: clz_inv_def)
  have t: "unat t = (if unat x < 2 ^ h then h else 0)"
    using assms(2-4) small by (simp add: unat_c_not_shift)
  have uh: "unat (of_nat h :: u32) = h" using \<open>h \<le> 16\<close> by (simp add: unat_of_nat_lt)
  obtain s where s: "unat x = unat a div 2 ^ s" "unat r + (h + h) + s = 32" "x \<noteq> 0"
      "unat x < 2 ^ (h + h)"
    using assms(1) by (auto simp: clz_inv_def)
  show ?thesis
  proof (cases "unat x < 2 ^ h")
    case True
    then have th: "t = of_nat h" using t uh by (simp add: word_unat_eq_iff)
    have "unat (r + of_nat h) = unat r + h"
      using s uh by (subst unat_add_no_wrap) simp_all
    then show ?thesis using True s th by (auto simp: clz_inv_def intro!: exI [of _ s])
  next
    case False
    then have "t = 0" using t by (simp add: unat_eq_0)
    moreover have "unat x div 2 ^ h < 2 ^ h"
      using s(4) by (simp add: power_add less_mult_imp_div_less)
    moreover have "drop_bit h x \<noteq> 0"
      using False by (simp add: unat_eq_0 [symmetric] unat_shr_nat div_eq_0_iff)
    moreover have "unat (drop_bit h x) = unat a div 2 ^ (s + h)"
      using s(1) by (simp only: unat_shr_nat power_add div_mult2_eq)
    ultimately show ?thesis
      using s(2) uh by (auto simp: clz_inv_def unat_shr_nat intro!: exI [of _ "s + h"])
  qed
qed

lemma clzsi2_correct:
  assumes "a \<noteq> 0"
  shows "unat (clzsi2 a) \<le> 31 \<and> 2 ^ (31 - unat (clzsi2 a)) \<le> unat a \<and>
    unat a < 2 ^ (32 - unat (clzsi2 a))"
proof -
  have m: "push_bit 16 (mask 16) = (0xFFFF0000 :: u32)" "push_bit 8 (mask 8) = (0xFF00 :: u32)"
    "push_bit 4 (mask 4) = (0xF0 :: u32)" "push_bit 2 (mask 2) = (0xC :: u32)"
    by (simp_all add: mask_eq_exp_minus_1)
  have i0: "clz_inv a (16 + 16) a 0"
    using assms unat_lt_2p [of a] by (auto simp: clz_inv_def intro!: exI [of _ 0])
  obtain t1 where t1: "t1 = push_bit 4 (c_not (a AND push_bit 16 (mask 16) = 0))" by blast
  obtain x1 where x1: "x1 = drop_bit (unat (of_nat 16 - t1)) a" by blast
  have i1: "clz_inv a (8 + 8) x1 (0 + t1)" using clz_step [OF i0 _ _ t1] x1 by simp
  obtain t2 where t2: "t2 = push_bit 3 (c_not (x1 AND push_bit 8 (mask 8) = 0))" by blast
  obtain x2 where x2: "x2 = drop_bit (unat (of_nat 8 - t2)) x1" by blast
  have i2: "clz_inv a (4 + 4) x2 (0 + t1 + t2)" using clz_step [OF i1 _ _ t2] x2 by simp
  obtain t3 where t3: "t3 = push_bit 2 (c_not (x2 AND push_bit 4 (mask 4) = 0))" by blast
  obtain x3 where x3: "x3 = drop_bit (unat (of_nat 4 - t3)) x2" by blast
  have i3: "clz_inv a (2 + 2) x3 (0 + t1 + t2 + t3)" using clz_step [OF i2 _ _ t3] x3 by simp
  obtain t4 where t4: "t4 = push_bit 1 (c_not (x3 AND push_bit 2 (mask 2) = 0))" by blast
  obtain x4 where x4: "x4 = drop_bit (unat (of_nat 2 - t4)) x3" by blast
  obtain r where r: "r = 0 + t1 + t2 + t3 + t4" by blast
  have i4: "clz_inv a 2 x4 r" using clz_step [OF i3 _ _ t4] x4 r by simp
  have eq: "clzsi2 a = r + ((2 - x4) AND - c_not (x4 AND 2 = 0))"
    unfolding clzsi2_def Let_def m [symmetric] r x4 t4 x3 t3 x2 t2 x1 t1 by simp
  obtain s where s: "unat x4 = unat a div 2 ^ s" "unat r + 2 + s = 32"
    using i4 by (auto simp: clz_inv_def)
  have "unat x4 = 1 \<or> unat x4 = 2 \<or> unat x4 = 3"
    using i4 by (auto simp: clz_inv_def unat_eq_0 [symmetric])
  then have "x4 = 1 \<or> x4 = 2 \<or> x4 = 3" by (auto simp: word_unat_eq_iff)
  then have clz: "clzsi2 a = (if x4 = 1 then r + 1 else r)"
    unfolding eq by (auto simp: c_not_def)
  have "unat r \<le> 30" using s(2) by simp
  then have "unat (r + 1) = unat r + 1" by (subst unat_add_no_wrap) simp_all
  then have u: "unat (clzsi2 a) = (if x4 = 1 then 31 - s else 30 - s)"
    using clz s(2) by (cases "x4 = 1") simp_all
  have lo: "unat x4 * 2 ^ s \<le> unat a" and hi: "unat a < (unat x4 + 1) * 2 ^ s"
    using s(1) by (simp_all add: dividend_less_div_times)
  show ?thesis
  proof (cases "x4 = 1")
    case True
    then show ?thesis using u s(2) lo hi by (simp add: Suc_diff_le)
  next
    case False
    then have "2 \<le> unat x4" "unat x4 \<le> 3"
      using \<open>x4 = 1 \<or> x4 = 2 \<or> x4 = 3\<close> by auto
    then have "2 * 2 ^ s \<le> unat a" "unat a < 4 * 2 ^ s"
      using lo hi order_trans mult_le_mono1 by (metis, metis add_le_mono1 less_le_trans mult_le_mono1 numeral_plus_one semiring_norm(2) semiring_norm(5) semiring_norm(8))
    then show ?thesis using u s(2) False by (simp add: Suc_diff_le)
  qed
qed

definition ctz_inv :: "u32 \<Rightarrow> nat \<Rightarrow> u32 \<Rightarrow> u32 \<Rightarrow> bool" where
  \<comment> \<open>\<open>x\<close> is \<open>a\<close> without \<open>r\<close> zero bits, and one of its low \<open>w\<close> bits is set\<close>
  "ctz_inv a w x r \<longleftrightarrow> unat x mod 2 ^ w \<noteq> 0 \<and> unat r + w \<le> 32 \<and> unat a = unat x * 2 ^ unat r"

lemma ctz_step:
  fixes x r t :: u32
  assumes "ctz_inv a (h + h) x r" and "h = 2 ^ k" and "k \<le> 4"
    and "t = push_bit k (c_not (x AND mask h = 0))"
  shows "ctz_inv a h (drop_bit (unat t) x) (r + t)"
proof -
  have "h \<le> 16" using assms(2,3) power_increasing [of k 4 "2::nat"] by simp
  have t: "unat t = (if unat x mod 2 ^ h = 0 then h else 0)"
    using assms(2-4) by (simp add: unat_c_not_shift and_low_mask_eq_0)
  show ?thesis
  proof (cases "unat x mod 2 ^ h = 0")
    case True
    then have d: "unat x div 2 ^ h * 2 ^ h = unat x" by (simp add: mod_0_imp_dvd)
    have r: "unat (r + t) = unat r + h"
      using assms(1) t True by (subst unat_add_no_wrap) (auto simp: ctz_inv_def)
    have "unat x mod 2 ^ (h + h) = 2 ^ h * (unat x div 2 ^ h mod 2 ^ h) + unat x mod 2 ^ h"
      by (simp add: power_add mod_mult2_eq)
    then have "unat x div 2 ^ h mod 2 ^ h \<noteq> 0" using assms(1) True by (auto simp: ctz_inv_def)
    moreover have "unat a = unat x div 2 ^ h * 2 ^ (unat r + h)"
      using assms(1) d by (simp add: ctz_inv_def power_add ac_simps)
    ultimately show ?thesis
      using assms(1) t True r by (simp add: ctz_inv_def unat_shr_nat)
  next
    case False
    then have "t = 0" using t by (simp add: unat_eq_0)
    then show ?thesis using False assms(1) by (simp add: ctz_inv_def)
  qed
qed

lemma ctzsi2_correct:
  assumes "a \<noteq> 0"
  shows "unat (ctzsi2 a) \<le> 31 \<and> (\<exists>k. odd k \<and> unat a = k * 2 ^ unat (ctzsi2 a))"
proof -
  have m: "mask 16 = (0x0000FFFF :: u32)" "mask 8 = (0x00FF :: u32)" "mask 4 = (0x0F :: u32)"
    "mask 2 = (0x3 :: u32)"
    by (simp_all add: mask_eq_exp_minus_1)
  have i0: "ctz_inv a (16 + 16) a 0"
    using assms unat_lt_2p [of a] by (auto simp: ctz_inv_def unat_eq_0)
  obtain t1 where t1: "t1 = push_bit 4 (c_not (a AND mask 16 = 0))" by blast
  obtain x1 where x1: "x1 = drop_bit (unat t1) a" by blast
  have i1: "ctz_inv a (8 + 8) x1 (0 + t1)" using ctz_step [OF i0 _ _ t1] x1 by simp
  obtain t2 where t2: "t2 = push_bit 3 (c_not (x1 AND mask 8 = 0))" by blast
  obtain x2 where x2: "x2 = drop_bit (unat t2) x1" by blast
  have i2: "ctz_inv a (4 + 4) x2 (0 + t1 + t2)" using ctz_step [OF i1 _ _ t2] x2 by simp
  obtain t3 where t3: "t3 = push_bit 2 (c_not (x2 AND mask 4 = 0))" by blast
  obtain x3 where x3: "x3 = drop_bit (unat t3) x2" by blast
  have i3: "ctz_inv a (2 + 2) x3 (0 + t1 + t2 + t3)" using ctz_step [OF i2 _ _ t3] x3 by simp
  obtain t4 where t4: "t4 = push_bit 1 (c_not (x3 AND mask 2 = 0))" by blast
  obtain x4 where x4: "x4 = drop_bit (unat t4) x3" by blast
  obtain r where r: "r = 0 + t1 + t2 + t3 + t4" by blast
  have i4: "ctz_inv a 2 x4 r" using ctz_step [OF i3 _ _ t4] x4 r by simp
  obtain y where y: "y = x4 AND mask 2" by blast
  have eq: "ctzsi2 a = r + ((2 - drop_bit 1 y) AND - c_not (y AND 1 = 0))"
    unfolding ctzsi2_def Let_def m [symmetric] y r x4 t4 x3 t3 x2 t2 x1 t1 by simp
  have uy: "unat y = unat x4 mod 4"
    unfolding y unat_and_mask by simp
  then have "unat y = 1 \<or> unat y = 2 \<or> unat y = 3"
    using i4 by (auto simp: ctz_inv_def)
  then have cases: "y = 1 \<or> y = 2 \<or> y = 3" by (auto simp: word_unat_eq_iff)
  then have ctz: "ctzsi2 a = (if y = 2 then r + 1 else r)"
    unfolding eq by (auto simp: c_not_def)
  have a: "unat a = unat x4 * 2 ^ unat r" and rle: "unat r \<le> 30" using i4 by (auto simp: ctz_inv_def)
  show ?thesis
  proof (cases "y = 2")
    case True
    then have "unat x4 mod 4 = 2" using uy by simp
    then have "unat x4 = (2 * (unat x4 div 4) + 1) * 2"
      by presburger
    then obtain k where k: "unat x4 = (2 * k + 1) * 2" by blast
    have "unat (r + 1) = Suc (unat r)" using rle by (subst unat_add_no_wrap) simp_all
    then have u: "unat (ctzsi2 a) = Suc (unat r)" using True ctz by simp
    have "unat a = (2 * k + 1) * 2 ^ unat (ctzsi2 a)" unfolding a k u by simp
    moreover have "odd (2 * k + 1)" by simp
    moreover have "unat (ctzsi2 a) \<le> 31" using u rle by linarith
    ultimately show ?thesis by blast
  next
    case False
    then have "odd (unat x4 mod 4)" using cases uy by auto
    then have "odd (unat x4)" by presburger
    then show ?thesis using a ctz False rle by auto
  qed
qed

section \<open>The shift-and-subtract loop\<close>

lemma word_le_1_cases: "(c :: 'a::len word) \<le> 1 \<Longrightarrow> c = 0 \<or> c = 1"
  by (metis (no_types) le_less word_less_1 word_less_nat_alt)

lemma dword_shift_gen:
  assumes "0 < k" and "k < 32"
  shows "dword (push_bit k (high r) OR drop_bit (32 - k) (low r))
      (push_bit k (low r) OR drop_bit (32 - k) (high q)) = push_bit k r OR drop_bit (64 - k) q"
proof (rule bit_word_eqI)
  fix n assume "n < LENGTH(64)"
  then show "bit (dword (push_bit k (high r) OR drop_bit (32 - k) (low r))
      (push_bit k (low r) OR drop_bit (32 - k) (high q))) n = bit (push_bit k r OR drop_bit (64 - k) q) n"
    using assms
    by (auto simp: bit_dword bit_high bit_low bit_simps not_less dest: bit_imp_le_length
        intro: arg_cong [where f = "bit _", THEN iffD1, rotated])
qed

lemma dword_shift:
  "dword (push_bit 1 (high r) OR drop_bit 31 (low r)) (push_bit 1 (low r) OR drop_bit 31 (high q)) =
     push_bit 1 r OR drop_bit 63 q"
  using dword_shift_gen [of 1 r q] by simp

lemma dword_shift_carry:
  assumes "c \<le> 1"
  shows "dword (push_bit 1 (high q) OR drop_bit 31 (low q)) (push_bit 1 (low q) OR c) =
     push_bit 1 q OR ucast c"
  using word_le_1_cases [OF assms] dword_shift [of q 0] dword_shift [of q "0x8000000000000000"]
  by (auto simp: high_def)

lemma unat_shift_in:
  fixes w x :: u64
  assumes "x \<le> 1"
  shows "unat (push_bit 1 w OR x) = (2 * unat w) mod 2 ^ 64 + unat x"
proof -
  have sh: "unat (push_bit 1 w) = (2 * unat w) mod 2 ^ 64"
    unfolding unsigned_push_bit_eq unfolding push_bit_eq_mult take_bit_eq_mod
    by (simp add: mult.commute)
  from word_le_1_cases [OF assms] show ?thesis
  proof
    assume "x = 0" then show ?thesis using sh by simp
  next
    assume x: "x = 1"
    have "push_bit 1 w AND 1 = 0" by (simp add: and_one_eq mod_2_eq_odd)
    then have "push_bit 1 w OR 1 = push_bit 1 w + 1"
      using word_plus_and_or [of "push_bit 1 w" 1] by simp
    moreover have "(2 * unat w) mod 2 ^ 64 + 1 < 2 ^ 64"
    proof -
      have "even ((2 * unat w) mod 2 ^ 64)" by (simp add: dvd_mod)
      then obtain k where k: "(2 * unat w) mod 2 ^ 64 = 2 * k" by (elim evenE)
      have "(2 * unat w) mod 2 ^ 64 < 2 ^ 64" by (rule mod_less_divisor) simp
      then have "k < 2 ^ 63" unfolding k by simp
      then show ?thesis unfolding k by simp
    qed
    ultimately show ?thesis using sh x by (simp add: unat_add_no_wrap)
  qed
qed

lemma sign_mask: "signed_drop_bit 63 (w :: u64) = (if 2 ^ 63 \<le> unat w then - 1 else 0)"
proof -
  have "bit w 63 \<longleftrightarrow> 2 ^ 63 \<le> unat w"
  proof -
    have "bit w 63 \<longleftrightarrow> bit (unat w) 63" by (simp add: bit_unsigned_iff)
    then have "bit w 63 \<longleftrightarrow> odd (unat w div 2 ^ 63)" by (simp only: bit_iff_odd)
    moreover have "unat w div 2 ^ 63 < 2" using unat_lt_2p [of w] by (simp add: less_mult_imp_div_less)
    ultimately show ?thesis
      by (cases "2 ^ 63 \<le> unat w") (auto simp: div_greater_zero_iff less_2_cases_iff)
  qed
  moreover have "signed_drop_bit 63 w = (if bit w 63 then - 1 else 0)"
  proof (rule bit_word_eqI)
    fix n
    show "bit (signed_drop_bit 63 w) n = bit (if bit w 63 then - 1 else 0 :: u64) n" if "n < LENGTH(64)"
      using that by (cases n) (auto simp: bit_simps)
  qed
  ultimately show ?thesis by simp
qed

lemma sign_bound: "2 ^ 63 \<le> uint (w :: u64) \<longleftrightarrow> 2 ^ 63 \<le> unat w"
proof -
  have "2 ^ 63 \<le> uint w \<longleftrightarrow> 0x8000000000000000 \<le> w" by (simp add: word_le_def)
  also have "\<dots> \<longleftrightarrow> 2 ^ 63 \<le> unat w" by (simp add: word_le_nat_alt)
  finally show ?thesis .
qed

lemma sub_mask:
  fixes d r :: u64
  assumes "unat r < 2 * unat d" and "unat d \<le> 2 ^ 63 \<or> 2 ^ 63 \<le> unat r"
  shows "signed_drop_bit 63 (d - r - 1) = (if d \<le> r then - 1 else 0)"
proof -
  obtain D R where DR: "D = unat d" "R = unat r" by blast
  have u: "uint (d - r - 1) = (int D - int R - 1) mod 2 ^ 64"
    by (simp add: DR uint_word_ariths mod_simps)
  have b: "D < 2 ^ 64" "R < 2 ^ 64"
    using unat_lt_2p [of d] unat_lt_2p [of r] by (simp_all add: DR)
  have a: "R < 2 * D" "D \<le> 2 ^ 63 \<or> 2 ^ 63 \<le> R" using assms by (simp_all add: DR)
  show ?thesis
  proof (cases "d \<le> r")
    case True
    then have le: "D \<le> R" by (simp add: word_le_nat_alt DR)
    then have "uint (d - r - 1) = int D - int R - 1 + 2 ^ 64"
      unfolding u using b by (intro int_mod_pos_eq [where q = "- 1"]) auto
    then have "2 ^ 63 \<le> uint (d - r - 1)" using a b by auto
    then have "2 ^ 63 \<le> unat (d - r - 1)" by (simp only: sign_bound)
    with True show ?thesis by (simp only: sign_mask if_True)
  next
    case False
    then have lt: "R < D" by (simp add: word_le_nat_alt DR)
    then have "uint (d - r - 1) = int D - int R - 1"
      unfolding u using b by (intro mod_pos_pos_trivial) auto
    then have "\<not> 2 ^ 63 \<le> uint (d - r - 1)" using a b lt by auto
    then have nle: "\<not> 2 ^ 63 \<le> unat (d - r - 1)" by (simp only: sign_bound simp_thms)
    have "signed_drop_bit 63 (d - r - 1) = 0" by (subst sign_mask) (rule if_not_P [OF nle])
    then show ?thesis using if_not_P [OF False] by (rule trans [OF _ sym])
  qed
qed

definition loop_inv :: "nat \<Rightarrow> nat \<Rightarrow> nat \<Rightarrow> u64 \<times> u64 \<times> u32 \<Rightarrow> bool" where
  \<comment> \<open>with \<open>k\<close> rounds to go: the high \<open>k\<close> bits of \<open>q\<close> are still to be divided, its low bits and
    the carry are the quotient so far\<close>
  "loop_inv n d k st \<longleftrightarrow> (case st of (r, q, c) \<Rightarrow>
     k < 64 \<and> unat r < d \<and> c \<le> 1 \<and>
     (d > 2 ^ 63 \<longrightarrow> k = 0 \<or> k = 1 \<and> 2 ^ 62 \<le> unat r \<and> unat r < 2 ^ 63) \<and>
     (\<exists>qt ql. unat q = qt * 2 ^ (64 - k) + ql \<and> ql < 2 ^ (64 - k) \<and> qt < 2 ^ k \<and>
        n = d * ((2 * ql + unat c) * 2 ^ k) + unat r * 2 ^ k + qt))"

lemma udiv_step_eq:
  fixes r q d :: u64 and c :: u32
  assumes "c \<le> 1" and "unat r < unat d"
    and "unat d > 2 ^ 63 \<longrightarrow> 2 ^ 62 \<le> unat r \<and> unat r < 2 ^ 63"
    and "r1 = push_bit 1 r OR drop_bit 63 q"
  shows "unat r1 = 2 * unat r + unat q div 2 ^ 63"
    and "udiv_step d (r, q, c) = (if d \<le> r1 then r1 - d else r1, push_bit 1 q OR ucast c, if d \<le> r1 then 1 else 0)"
proof -
  have b: "unat (drop_bit 63 q) = unat q div 2 ^ 63" by (rule unat_shr_nat)
  moreover have b1: "unat q div 2 ^ 63 < 2" using unat_lt_2p [of q] by (simp add: less_mult_imp_div_less)
  ultimately have "drop_bit 63 q \<le> 1" by (simp add: word_le_nat_alt)
  then have "unat r1 = (2 * unat r) mod 2 ^ 64 + unat q div 2 ^ 63"
    unfolding assms(4) by (simp only: unat_shift_in b)
  moreover have "unat r < 2 ^ 63" using assms(2,3) by linarith
  then have "2 * unat r < 2 ^ 64" by simp
  ultimately show u: "unat r1 = 2 * unat r + unat q div 2 ^ 63" by simp
  have "signed_drop_bit 63 (d - r1 - 1) = (if d \<le> r1 then - 1 else 0)"
    using u b1 assms(2,3) by (intro sub_mask) auto
  then show "udiv_step d (r, q, c) = (if d \<le> r1 then r1 - d else r1, push_bit 1 q OR ucast c, if d \<le> r1 then 1 else 0)"
    unfolding udiv_step_def prod.case Let_def dword_shift dword_shift_carry [OF assms(1)]
      assms(4) [symmetric]
    by simp
qed

lemma loop_inv_step:
  assumes "loop_inv n (unat d) (Suc k) st"
  shows "loop_inv n (unat d) k (udiv_step d st)"
proof -
  obtain r q c where st: "st = (r, q, c)" by (cases st)
  let ?K = "63 - k"
  obtain qt ql where k: "k < 63" and rd: "unat r < unat d" and c1: "c \<le> 1"
    and big: "unat d > 2 ^ 63 \<longrightarrow> k = 0 \<and> 2 ^ 62 \<le> unat r \<and> unat r < 2 ^ 63"
    and q: "unat q = qt * 2 ^ ?K + ql" "ql < 2 ^ ?K" "qt < 2 ^ Suc k"
    and n: "n = unat d * ((2 * ql + unat c) * 2 ^ Suc k) + unat r * 2 ^ Suc k + qt"
    using assms unfolding loop_inv_def st by auto
  have pow: "(2::nat) ^ 63 = 2 ^ ?K * 2 ^ k" "(2::nat) ^ (64 - k) = 2 * 2 ^ ?K" "(2::nat) ^ 64 = 2 * 2 ^ ?K * 2 ^ k"
    using k by (simp_all flip: power_add power_Suc add: Suc_diff_le)
  obtain b qt' where b: "b = qt div 2 ^ k" "qt' = qt mod 2 ^ k" "qt = b * 2 ^ k + qt'" "qt' < 2 ^ k" "b < 2"
    using q(3) by (metis div_mult_mod_eq mod_less_divisor less_mult_imp_div_less power_Suc zero_less_numeral zero_less_power)
  obtain r1 where r1: "r1 = push_bit 1 r OR drop_bit 63 q" by blast
  have "unat q div 2 ^ 63 = b"
    using q(2) b(1) unfolding q(1) pow(1) by (simp add: div_mult2_eq)
  with udiv_step_eq [OF c1 rd _ r1] big have ur: "unat r1 = 2 * unat r + b"
    and step: "udiv_step d st = (if d \<le> r1 then r1 - d else r1, push_bit 1 q OR ucast c, if d \<le> r1 then 1 else 0)"
    by (auto simp: st)
  have uc: "unat (ucast c :: u64) = unat c" using c1 by (auto dest: word_le_1_cases)
  have c1': "(ucast c :: u64) \<le> 1" using c1 by (auto dest: word_le_1_cases)
  have "2 * unat q = b * 2 ^ 64 + (qt' * (2 * 2 ^ ?K) + 2 * ql)"
    unfolding q(1) b(3) pow(3) by (simp add: algebra_simps)
  moreover have "qt' * (2 * 2 ^ ?K) + 2 * ql < 2 ^ 64"
  proof -
    have "qt' * (2 * 2 ^ ?K) + 2 * ql < (qt' + 1) * (2 * 2 ^ ?K)" using q(2) by simp
    also have "\<dots> \<le> 2 ^ k * (2 * 2 ^ ?K)" using b(4) by (intro mult_right_mono) auto
    finally show ?thesis unfolding pow(3) by (simp add: ac_simps)
  qed
  ultimately have "(2 * unat q) mod 2 ^ 64 = qt' * (2 * 2 ^ ?K) + 2 * ql" by simp
  then have uq: "unat (push_bit 1 q OR ucast c) = qt' * 2 ^ (64 - k) + (2 * ql + unat c)"
    unfolding unat_shift_in [OF c1'] uc pow(2) by simp
  have ul: "2 * ql + unat c < 2 ^ (64 - k)"
    using q(2) c1 unfolding pow(2) by (auto dest: word_le_1_cases)
  obtain c' where c': "c' = (if d \<le> r1 then 1 else 0 :: nat)" by blast
  have ur': "unat (if d \<le> r1 then r1 - d else r1) + c' * unat d = 2 * unat r + b"
    using ur by (simp add: c' unat_sub word_le_nat_alt)
  have lt: "unat (if d \<le> r1 then r1 - d else r1) < unat d"
    using ur' ur rd b(5) by (auto simp: c' word_le_nat_alt split: if_splits)
  have nn: "n = unat d * ((2 * (2 * ql + unat c) + c') * 2 ^ k) +
      unat (if d \<le> r1 then r1 - d else r1) * 2 ^ k + qt'"
  proof -
    have "n = unat d * (2 * (2 * ql + unat c)) * 2 ^ k + (2 * unat r + b) * 2 ^ k + qt'"
      unfolding n b(3) by (simp add: algebra_simps)
    then show ?thesis unfolding ur' [symmetric] by (simp add: algebra_simps)
  qed
  have uc': "unat (if d \<le> r1 then 1 else 0 :: u32) = c'" by (simp add: c')
  show ?thesis
    unfolding step loop_inv_def prod.case uq uc'
    using k lt big ul b(4) nn by (intro conjI exI [of _ qt'] exI [of _ "2 * ql + unat c"]) auto
qed

lemma udiv_loop_inv:
  "loop_inv n (unat d) k st \<Longrightarrow> loop_inv n (unat d) 0 (udiv_loop k d st)"
  by (induction k arbitrary: st) (auto simp: loop_inv_step)

lemma udiv_finish_correct:
  assumes "loop_inv (unat a) (unat d) (unat sr) (r, q, 0)"
  shows "udiv_finish sr d r q = (a div d, a mod d)"
proof -
  obtain r' q' c where run: "udiv_loop (unat sr) d (r, q, 0) = (r', q', c)" by (metis prod.exhaust)
  have "loop_inv (unat a) (unat d) 0 (r', q', c)"
    using udiv_loop_inv [OF assms] run by simp
  then have r: "unat r' < unat d" and c: "c \<le> 1"
    and n: "unat a = unat d * (2 * unat q' + unat c) + unat r'"
    by (auto simp: loop_inv_def)
  have uc: "unat (ucast c :: u64) = unat c" "(ucast c :: u64) \<le> 1"
    using c by (auto dest: word_le_1_cases)
  obtain s where s: "s = 2 * unat q' + unat c" by blast
  have "s \<le> unat d * s" using r by (cases "unat d") simp_all
  moreover have "unat a < 2 ^ 64" using unat_lt_2p [of a] by simp
  ultimately have "s < 2 ^ 64" using n unfolding s [symmetric] by linarith
  then have "2 * unat q' + unat c < 2 ^ 64" by (simp only: s)
  then have "unat (push_bit 1 q' OR ucast c) = 2 * unat q' + unat c"
    unfolding unat_shift_in [OF uc(2)] uc(1) by simp
  also have "\<dots> = unat a div unat d" and "unat r' = unat a mod unat d"
    using r unfolding n by simp_all
  ultimately have "push_bit 1 q' OR ucast c = a div d" "r' = a mod d"
    by (simp_all only: word_unat_eq_iff unat_div unat_mod)
  then show ?thesis by (simp only: udiv_finish_def run prod.case)
qed

lemma loop_inv_start:
  assumes "0 < unat sr" and "unat sr < 64" and "unat a div 2 ^ unat sr < unat d"
    and "unat d > 2 ^ 63 \<longrightarrow> unat sr = 1 \<and> 2 ^ 63 \<le> unat a"
  shows "loop_inv (unat a) (unat d) (unat sr)
    (drop_bit (unat sr) a, push_bit (64 - unat sr) a, 0)"
proof -
  let ?k = "unat sr"
  have pow: "(2::nat) ^ 64 = 2 ^ ?k * 2 ^ (64 - ?k)" using assms(2) by (simp flip: power_add)
  have "unat (push_bit (64 - ?k) a) = (unat a * 2 ^ (64 - ?k)) mod 2 ^ 64"
    unfolding unsigned_push_bit_eq unfolding push_bit_eq_mult take_bit_eq_mod by simp
  also have "\<dots> = (unat a mod 2 ^ ?k) * 2 ^ (64 - ?k)"
    unfolding pow by (simp only: mult_mod_left)
  finally have q: "unat (push_bit (64 - ?k) a) = (unat a mod 2 ^ ?k) * 2 ^ (64 - ?k) + 0" by simp
  have n: "unat a = unat (drop_bit ?k a) * 2 ^ ?k + unat a mod 2 ^ ?k"
    unfolding unat_shr_nat by (rule div_mult_mod_eq [symmetric])
  have "unat a < 2 ^ 64" using unat_lt_2p [of a] by simp
  then have big: "2 ^ 62 \<le> unat (drop_bit ?k a) \<and> unat (drop_bit ?k a) < 2 ^ 63" if "unat d > 2 ^ 63"
    using assms(4) that unfolding unat_shr_nat by auto
  show ?thesis
    unfolding loop_inv_def prod.case
  proof (intro conjI exI)
    show "unat (push_bit (64 - ?k) a) = (unat a mod 2 ^ ?k) * 2 ^ (64 - ?k) + 0" by (rule q)
    show "unat a = unat d * ((2 * 0 + unat 0) * 2 ^ ?k) + unat (drop_bit ?k a) * 2 ^ ?k + unat a mod 2 ^ ?k"
      using n by simp
  qed (use assms big in \<open>simp_all add: unat_shr_nat\<close>)
qed

lemma quotient_start:
  assumes "0 < unat sr" and "unat sr < 64" and "unat a div 2 ^ unat sr < unat d"
    and "unat d > 2 ^ 63 \<longrightarrow> unat sr = 1 \<and> 2 ^ 63 \<le> unat a"
  shows "udiv_finish sr d (drop_bit (unat sr) a) (push_bit (64 - unat sr) a) = (a div d, a mod d)"
  by (rule udiv_finish_correct [OF loop_inv_start [OF assms]])

lemma bit_u64_add: "bit (a :: u64) (n + k) \<Longrightarrow> n + k < 64"
  using bit_imp_le_length [of a "n + k"] by simp

lemma halves_shift_small:
  assumes k: "0 < k" "k < 32"
  shows "dword (drop_bit k (high a)) (push_bit (32 - k) (high a) OR drop_bit k (low a)) = drop_bit k a"
    and "dword (push_bit (32 - k) (low a)) 0 = push_bit (64 - k) a"
proof -
  show "dword (drop_bit k (high a)) (push_bit (32 - k) (high a) OR drop_bit k (low a)) = drop_bit k a"
  proof (rule bit_word_eqI)
    fix n
    show "bit (dword (drop_bit k (high a)) (push_bit (32 - k) (high a) OR drop_bit k (low a))) n =
        bit (drop_bit k a) n"
      using k bit_u64_add [of a n k]
      by (cases "n + k < 64") (auto simp: bit_dword bit_high bit_low bit_simps not_less add.commute)
  qed
  show "dword (push_bit (32 - k) (low a)) 0 = push_bit (64 - k) a"
    using k by (auto intro!: bit_word_eqI simp: bit_dword bit_low bit_simps split: if_splits)
qed

lemma halves_shift_32:
  "dword 0 (high a) = drop_bit 32 a" "dword (low a) 0 = push_bit 32 a"
proof -
  show "dword 0 (high a) = drop_bit 32 a"
  proof (rule bit_word_eqI)
    fix n show "bit (dword 0 (high a)) n = bit (drop_bit 32 a) n"
      using bit_u64_add [of a n 32]
      by (cases "n < 32") (auto simp: bit_dword bit_high bit_simps add.commute)
  qed
  show "dword (low a) 0 = push_bit 32 a"
    by (auto intro!: bit_word_eqI simp: bit_dword bit_low bit_simps split: if_splits)
qed

lemma halves_shift_large:
  assumes k: "32 < k" "k < 64"
  shows "dword 0 (drop_bit (k - 32) (high a)) = drop_bit k a"
    and "dword (push_bit (64 - k) (high a) OR drop_bit (k - 32) (low a)) (push_bit (64 - k) (low a)) =
      push_bit (64 - k) a"
proof -
  show "dword 0 (drop_bit (k - 32) (high a)) = drop_bit k a"
  proof (rule bit_word_eqI)
    fix n show "bit (dword 0 (drop_bit (k - 32) (high a))) n = bit (drop_bit k a) n"
      using k bit_u64_add [of a n k]
      by (cases "n + k < 64") (auto simp: bit_dword bit_high bit_simps add.commute)
  qed
  show "dword (push_bit (64 - k) (high a) OR drop_bit (k - 32) (low a)) (push_bit (64 - k) (low a)) =
      push_bit (64 - k) a"
  proof -
    have "32 - (64 - k) = k - 32" using k by simp
    then show ?thesis using k dword_shift_gen [of "64 - k" a 0] by (simp add: high_def)
  qed
qed

lemma power_of_two:
  assumes "x \<noteq> 0" and "x AND (x - 1) = (0 :: u32)"
  shows "unat x = 2 ^ unat (ctzsi2 x)"
proof -
  obtain k where k: "odd k" "unat x = k * 2 ^ unat (ctzsi2 x)" using ctzsi2_correct [OF assms(1)] by blast
  let ?c = "unat (ctzsi2 x)"
  obtain j where j: "k = 2 * j + 1" using k(1) by (elim oddE)
  have "unat (x - 1) = unat x - 1" using assms(1) by (simp add: unat_minus_one)
  then have "unat (drop_bit ?c (x - 1)) = (k * 2 ^ ?c - 1) div 2 ^ ?c"
    unfolding unat_shr_nat k(2) by simp
  also have "\<dots> = k - 1"
  proof -
    have "k * 2 ^ ?c - 1 = (k - 1) * 2 ^ ?c + (2 ^ ?c - 1)"
      unfolding j by (simp add: algebra_simps)
    moreover have "((k - 1) * 2 ^ ?c + (2 ^ ?c - 1)) div 2 ^ ?c = (k - 1) + (2 ^ ?c - 1) div 2 ^ ?c"
      by (rule div_mult_self3) simp
    ultimately show ?thesis by simp
  qed
  finally have "unat (drop_bit ?c (x - 1)) = 2 * j" by (simp add: j)
  moreover have "unat (drop_bit ?c x) = 2 * j + 1" unfolding unat_shr_nat k(2) j by simp
  moreover have "drop_bit ?c x AND drop_bit ?c (x - 1) = 0"
    using assms(2) by (metis drop_bit_and drop_bit_of_0)
  ultimately have "(2 * j + 1) AND (2 * j) = 0"
    by (metis unsigned_0 unsigned_and_eq)
  then have "j = 0" by (subst (asm) and_rec) simp
  then show ?thesis using k(2) j by simp
qed

section \<open>The division is correct\<close>

lemma unat_halves: "unat a = unat (high a) * 2 ^ 32 + unat (low a)"
  by (metis dword_high_low unat_dword)

lemma unat_lt_u32: "unat (x :: u32) < 2 ^ 32"
  using unat_lt_2p [of x] by simp

lemma unat_ucast_u64 [simp]: "unat (ucast (x :: u32) :: u64) = unat x"
  using unat_lt_u32 [of x] by (simp add: unsigned_ucast_eq take_bit_nat_eq_self)

lemma clz_diff:
  assumes "x \<noteq> 0" and "y \<noteq> 0"
  shows "unat (clzsi2 x) \<le> 31" "unat (clzsi2 y) \<le> 31"
    and "clzsi2 x - clzsi2 y > 30 \<Longrightarrow> unat y < unat x \<or> unat x = 1"
    and "unat (clzsi2 y) \<le> unat (clzsi2 x) \<or> unat y < unat x"
    and "unat (clzsi2 y) \<le> unat (clzsi2 x) \<Longrightarrow>
      unat (clzsi2 x - clzsi2 y) = unat (clzsi2 x) - unat (clzsi2 y)"
    and "unat (clzsi2 x) < unat (clzsi2 y) \<Longrightarrow> 31 < clzsi2 x - clzsi2 y"
proof -
  note cx = clzsi2_correct [OF assms(1)] and cy = clzsi2_correct [OF assms(2)]
  show bx: "unat (clzsi2 x) \<le> 31" and bY: "unat (clzsi2 y) \<le> 31" using cx cy by blast+
  show lt: "unat (clzsi2 y) \<le> unat (clzsi2 x) \<or> unat y < unat x"
  proof (rule disjCI)
    assume "\<not> unat y < unat x"
    then have "2 ^ (31 - unat (clzsi2 x)) < (2::nat) ^ (32 - unat (clzsi2 y))"
      using cx cy by linarith
    then have "31 - unat (clzsi2 x) < 32 - unat (clzsi2 y)" by simp
    then show "unat (clzsi2 y) \<le> unat (clzsi2 x)" using bx bY by linarith
  qed
  show diff: "unat (clzsi2 x - clzsi2 y) = unat (clzsi2 x) - unat (clzsi2 y)"
    if "unat (clzsi2 y) \<le> unat (clzsi2 x)"
    using that by (simp add: unat_sub word_le_nat_alt)
  show "31 < clzsi2 x - clzsi2 y" if lt: "unat (clzsi2 x) < unat (clzsi2 y)"
  proof -
    have "unat (clzsi2 x - clzsi2 y) = 2 ^ 32 + unat (clzsi2 x) - unat (clzsi2 y)"
      using lt bY by (simp add: unat_sub_if' word_le_nat_alt)
    then show ?thesis using bY by (simp add: word_less_nat_alt)
  qed
  show "unat y < unat x \<or> unat x = 1" if "clzsi2 x - clzsi2 y > 30"
  proof (cases "unat (clzsi2 y) \<le> unat (clzsi2 x)")
    case True
    then have "30 < unat (clzsi2 x) - unat (clzsi2 y)"
      using that diff by (simp add: word_less_nat_alt)
    then have "unat (clzsi2 x) = 31" using bx by linarith
    then show ?thesis using cx by simp
  qed (use lt in blast)
qed

lemma udiv_hi_case:
  \<comment> \<open>a divisor of more than 32 bits: the shift never loses the leading bit\<close>
  assumes "high a \<noteq> 0" and "high d \<noteq> 0" and le: "unat (clzsi2 (high a)) \<le> unat (clzsi2 (high d))"
    and sr: "unat sr = unat (clzsi2 (high d)) - unat (clzsi2 (high a)) + 1"
  shows "udiv_finish sr d (drop_bit (unat sr) a) (push_bit (64 - unat sr) a) = (a div d, a mod d)"
proof (rule quotient_start)
  let ?x = "unat (clzsi2 (high d))" and ?y = "unat (clzsi2 (high a))"
  note cd = clzsi2_correct [OF assms(2)] and ca = clzsi2_correct [OF assms(1)]
  show "0 < unat sr" using sr by simp
  show "unat sr < 64" using sr cd by linarith
  have "unat a < (unat (high a) + 1) * 2 ^ 32" using unat_halves [of a] unat_lt_u32 [of "low a"] by simp
  also have "\<dots> \<le> 2 ^ (32 - ?y) * 2 ^ 32" using ca by (intro mult_right_mono) auto
  also have "\<dots> = 2 ^ (63 - ?x) * 2 ^ unat sr"
  proof -
    have "32 - ?y + 32 = 63 - ?x + unat sr" using ca cd le sr by linarith
    then show ?thesis by (simp only: power_add [symmetric])
  qed
  finally have "unat a div 2 ^ unat sr < 2 ^ (63 - ?x)" by (rule less_mult_imp_div_less)
  also have "(2::nat) ^ (63 - ?x) = 2 ^ (31 - ?x) * 2 ^ 32"
  proof -
    have "63 - ?x = 31 - ?x + 32" using cd by linarith
    then show ?thesis by (simp only: power_add [symmetric])
  qed
  also have "\<dots> \<le> unat (high d) * 2 ^ 32" using cd by (intro mult_right_mono) auto
  also have "\<dots> \<le> unat d" using unat_halves [of d] by simp
  finally show "unat a div 2 ^ unat sr < unat d" .
  show "2 ^ 63 < unat d \<longrightarrow> unat sr = 1 \<and> 2 ^ 63 \<le> unat a"
  proof
    assume "2 ^ 63 < unat d"
    then have "2 ^ 31 \<le> unat (high d)"
      unfolding unat_high using div_le_mono [of "2 ^ 63" "unat d" "2 ^ 32"] by simp
    then have "(2::nat) ^ 31 < 2 ^ (32 - ?x)" using cd by linarith
    then have "31 < 32 - ?x" by (simp only: power_strict_increasing_iff one_less_numeral_iff semiring_norm)
    then have x0: "?x = 0" by simp
    then have "2 ^ 31 \<le> unat (high a)" using ca le by simp
    then have "2 ^ 63 \<le> unat a" using unat_halves [of a] by simp
    then show "unat sr = 1 \<and> 2 ^ 63 \<le> unat a" using sr le x0 by simp
  qed
qed

lemma udiv_lo_case:
  \<comment> \<open>a divisor of at most 32 bits, not a power of two\<close>
  assumes "high a \<noteq> 0" and "high d = 0" and "1 < unat (low d)"
    and sr: "unat sr = 33 + unat (clzsi2 (low d)) - unat (clzsi2 (high a))"
  shows "2 \<le> unat sr \<and> unat sr < 64 \<and>
    udiv_finish sr d (drop_bit (unat sr) a) (push_bit (64 - unat sr) a) = (a div d, a mod d)"
proof -
  let ?x = "unat (clzsi2 (low d))" and ?y = "unat (clzsi2 (high a))"
  have "low d \<noteq> 0" using assms(3) by auto
  note cd = clzsi2_correct [OF this] and ca = clzsi2_correct [OF assms(1)]
  have ud: "unat d = unat (low d)" using unat_halves [of d] assms(2) by simp
  have "?x \<noteq> 31" using cd assms(3) by auto
  then have rng: "2 \<le> unat sr" "unat sr < 64" using sr ca cd by linarith+
  have "unat a < (unat (high a) + 1) * 2 ^ 32" using unat_halves [of a] unat_lt_u32 [of "low a"] by simp
  also have "\<dots> \<le> 2 ^ (32 - ?y) * 2 ^ 32" using ca by (intro mult_right_mono) auto
  also have "\<dots> = 2 ^ (31 - ?x) * 2 ^ unat sr"
  proof -
    have "32 - ?y + 32 = 31 - ?x + unat sr" using ca cd sr by linarith
    then show ?thesis by (simp only: power_add [symmetric])
  qed
  finally have "unat a div 2 ^ unat sr < 2 ^ (31 - ?x)" by (rule less_mult_imp_div_less)
  also have "\<dots> \<le> unat d" using cd ud by simp
  finally have "unat a div 2 ^ unat sr < unat d" .
  moreover have "\<not> 2 ^ 63 < unat d" using ud unat_lt_u32 [of "low d"] by simp
  ultimately show ?thesis using rng by (auto intro!: quotient_start)
qed

lemma shift_values:
  "0 < unat sr \<Longrightarrow> unat sr < 32 \<Longrightarrow> unat (32 - sr) = 32 - unat (sr :: u32)"
  "32 < unat sr \<Longrightarrow> unat sr < 64 \<Longrightarrow> unat (64 - sr) = 64 - unat sr"
  "32 < unat sr \<Longrightarrow> unat (sr - 32) = unat sr - 32"
  by (simp_all add: unat_sub word_le_nat_alt)

lemma dword_eqI: "unat q = unat a div unat d \<Longrightarrow> unat r = unat a mod unat d \<Longrightarrow>
    (q, r) = (a div d, a mod (d :: u64))"
  by (simp add: word_unat_eq_iff unat_div unat_mod)

text \<open>The branches of the divider, one lemma each.\<close>

lemma udivmoddi4_0X:
  assumes "high a = 0" and "b \<noteq> 0"
  shows "udivmoddi4 a b = Inr (a div b, a mod b)"
proof (cases "high b = 0")
  case True
  then have ub: "unat b = unat (low b)" "low b \<noteq> 0"
    using unat_halves [of b] assms(2) by (auto simp: word_unat_eq_iff)
  have ua: "unat a = unat (low a)" using unat_halves [of a] assms(1) by simp
  have "(ucast (low a div low b), ucast (low a mod low b)) = (a div b, a mod b)"
    by (rule dword_eqI) (simp_all add: ua ub(1) unat_div unat_mod)
  then show ?thesis using assms(1) True ub(2) by (simp add: udivmoddi4_def Let_def)
next
  case False
  have "unat a < 2 ^ 32" using assms(1) by (simp add: high_zero_iff)
  moreover have "2 ^ 32 \<le> unat b" using False by (simp add: high_zero_iff)
  ultimately have "(0, ucast (low a)) = (a div b, a mod b)"
    by (intro dword_eqI) (simp_all add: unat_low)
  then show ?thesis using assms(1) False by (simp add: udivmoddi4_def Let_def)
qed

lemma and_pred_mod:
  fixes x n :: u32
  assumes "unat x = 2 ^ k" and "k < 32"
  shows "unat (n AND (x - 1)) = unat n mod unat x" "unat (drop_bit k n) = unat n div unat x"
proof -
  have "x = of_nat (unat x)" by simp
  also have "\<dots> = 2 ^ k" unfolding assms(1) by simp
  finally have "x = 2 ^ k" .
  then have "x - 1 = mask k" by (simp add: mask_eq_exp_minus_1)
  then show "unat (n AND (x - 1)) = unat n mod unat x" by (simp only: unat_and_mask assms(1))
  show "unat (drop_bit k n) = unat n div unat x" by (simp only: unat_shr_nat assms(1))
qed

lemma udivmoddi4_K0:
  assumes "high a \<noteq> 0" and "low b = 0" and "high b \<noteq> 0"
  shows "udivmoddi4 a b = Inr (a div b, a mod b)"
proof -
  have ub: "unat b = unat (high b) * 2 ^ 32" using unat_halves [of b] assms(2) by simp
  have ua: "unat a = unat (high a) * 2 ^ 32 + unat (low a)" by (rule unat_halves)
  have l32: "unat (low a) < 2 ^ 32" by (rule unat_lt_u32)
  have q: "unat a div unat b = unat (high a) div unat (high b)"
    unfolding ub ua mult.commute [of "unat (high b)" "2 ^ 32"] div_mult2_eq using l32 by simp
  have r: "unat a mod unat b = (unat (high a) mod unat (high b)) * 2 ^ 32 + unat (low a)"
    unfolding ub ua mult.commute [of "unat (high b)" "2 ^ 32"] mod_mult2_eq using l32 by simp
  consider "low a = 0" | "low a \<noteq> 0" "high b AND (high b - 1) = 0"
    | "low a \<noteq> 0" "high b AND (high b - 1) \<noteq> 0" by blast
  then show ?thesis
  proof cases
    case 1
    have "(ucast (high a div high b), dword (high a mod high b) 0) = (a div b, a mod b)"
      by (rule dword_eqI) (simp_all add: q r 1 unat_dword unat_div unat_mod)
    then show ?thesis using assms 1 by (simp add: udivmoddi4_def Let_def)
  next
    case 2
    have c: "unat (ctzsi2 (high b)) < 32" using ctzsi2_correct [OF assms(3)] by simp
    note p = and_pred_mod [OF power_of_two [OF assms(3) 2(2)] c, of "high a"]
    have "(ucast (drop_bit (unat (ctzsi2 (high b))) (high a)), dword (high a AND (high b - 1)) (low a)) =
        (a div b, a mod b)"
      by (rule dword_eqI) (simp_all add: q r p unat_dword)
    then show ?thesis using assms 2 by (simp add: udivmoddi4_def Let_def)
  next
    case 3
    note cd = clz_diff [OF assms(3,1)]
    have ne1: "unat (high b) \<noteq> 1"
    proof
      assume "unat (high b) = 1"
      then have "high b = 1" by (simp add: word_unat_eq_iff)
      with 3(2) show False by simp
    qed
    show ?thesis
    proof (cases "clzsi2 (high b) - clzsi2 (high a) > 30")
      case True
      then have "unat (high a) < unat (high b)" using cd(3) ne1 by blast
      then have "unat a < unat b" using ua ub l32 by simp
      then have "(0, a) = (a div b, a mod b)" by (intro dword_eqI) simp_all
      then show ?thesis using assms 3 True by (simp add: udivmoddi4_def Let_def)
    next
      case False
      let ?sr = "clzsi2 (high b) - clzsi2 (high a) + 1"
      have le: "unat (clzsi2 (high a)) \<le> unat (clzsi2 (high b))"
        using False cd(6) by (force simp: word_less_nat_alt)
      have sr: "unat ?sr = unat (clzsi2 (high b)) - unat (clzsi2 (high a)) + 1"
        using cd(1) cd(5) [OF le] by (subst unat_add_no_wrap) simp_all
      moreover have "unat (clzsi2 (high b)) - unat (clzsi2 (high a)) \<le> 30"
        using False cd(5) [OF le] by (simp add: word_less_nat_alt)
      ultimately have s: "0 < unat ?sr" "unat ?sr < 32" by linarith+
      have "udiv_finish ?sr b (drop_bit (unat ?sr) a) (push_bit (64 - unat ?sr) a) = (a div b, a mod b)"
        by (rule udiv_hi_case [OF assms(1,3) le sr])
      then show ?thesis
        using assms 3 False
        by (simp only: udivmoddi4_def Let_def shift_values(1) [OF s] halves_shift_small [OF s] if_False if_True simp_thms)
    qed
  qed
qed

lemma udivmoddi4_Klo_power:
  assumes "high a \<noteq> 0" and "low b \<noteq> 0" and "high b = 0" and pw: "low b AND (low b - 1) = 0"
  shows "udivmoddi4 a b = Inr (a div b, a mod b)"
proof -
  have ub: "unat b = unat (low b)" using unat_halves [of b] assms(3) by simp
  let ?c = "unat (ctzsi2 (low b))"
  note pow = power_of_two [OF assms(2) pw]
  have c: "?c < 32" using ctzsi2_correct [OF assms(2)] by simp
  have "unat a mod unat b = unat (low a) mod 2 ^ ?c"
  proof -
    have "unat a = unat (low a) + 2 ^ ?c * (unat (high a) * 2 ^ (32 - ?c))"
      using unat_halves [of a] c by (simp flip: power_add)
    then show ?thesis unfolding ub pow by (metis mod_mult_self2)
  qed
  then have r: "unat (ucast (low a AND (low b - 1)) :: u64) = unat a mod unat b"
    using and_pred_mod(1) [OF pow c] by (simp add: pow)
  show ?thesis
  proof (cases "low b = 1")
    case one: True
    then have "(a, ucast (low a AND (low b - 1))) = (a div b, a mod b)"
      by (intro dword_eqI r) (simp add: ub)
    then show ?thesis using assms pw one by (simp add: udivmoddi4_def Let_def)
  next
    case False
    have "?c \<noteq> 0"
    proof
      assume "?c = 0"
      then have "unat (low b) = 1" using pow by simp
      with False show False by (simp add: word_unat_eq_iff)
    qed
    then have s: "0 < ?c" by simp
    have "(drop_bit ?c a, ucast (low a AND (low b - 1))) = (a div b, a mod b)"
      by (intro dword_eqI r) (simp add: ub pow unat_shr_nat)
    then show ?thesis
      using assms pw False
      by (simp only: udivmoddi4_def Let_def shift_values(1) [OF s c] halves_shift_small [OF s c]
          if_False if_True simp_thms)
  qed
qed

lemma udivmoddi4_Klo_general:
  assumes "high a \<noteq> 0" and "low b \<noteq> 0" and "high b = 0" and np: "low b AND (low b - 1) \<noteq> 0"
  shows "udivmoddi4 a b = Inr (a div b, a mod b)"
proof -
  let ?sr = "1 + 32 + clzsi2 (low b) - clzsi2 (high a)"
  have "low b \<noteq> 1" using np by auto
  then have "unat (low b) \<noteq> 1" "unat (low b) \<noteq> 0" using assms(2) by (auto simp: word_unat_eq_iff)
  then have b1: "1 < unat (low b)" by linarith
  note cd = clz_diff [OF assms(2,1)]
  have "unat (1 + 32 + clzsi2 (low b)) = 33 + unat (clzsi2 (low b))"
    using cd(1) by (subst unat_add_no_wrap) simp_all
  then have sr: "unat ?sr = 33 + unat (clzsi2 (low b)) - unat (clzsi2 (high a))"
    using cd(1,2) by (simp add: unat_sub word_le_nat_alt)
  from udiv_lo_case [OF assms(1,3) b1 sr] have rng: "2 \<le> unat ?sr" "unat ?sr < 64"
    and fin: "udiv_finish ?sr b (drop_bit (unat ?sr) a) (push_bit (64 - unat ?sr) a) = (a div b, a mod b)"
    by blast+
  consider "unat ?sr = 32" | "unat ?sr < 32" | "32 < unat ?sr" by linarith
  then show ?thesis
  proof cases
    case 1
    then have "?sr = 32" by (simp add: word_unat_eq_iff)
    then show ?thesis
      using assms np fin 1
      by (simp only: udivmoddi4_def Let_def if_False if_True simp_thms halves_shift_32) simp
  next
    case 2
    have c: "?sr \<noteq> 32" "?sr < 32"
    proof
      assume e: "?sr = 32"
      show False using 2 unfolding e by simp
    qed (use 2 in \<open>simp add: word_less_nat_alt\<close>)
    have s: "0 < unat ?sr" "unat ?sr < 32" using rng 2 by linarith+
    show ?thesis
      using assms np fin c
      by (simp only: udivmoddi4_def Let_def shift_values(1) [OF s] halves_shift_small [OF s]
          if_False if_True simp_thms)
  next
    case 3
    have c: "?sr \<noteq> 32" "\<not> ?sr < 32"
    proof
      assume e: "?sr = 32"
      show False using 3 unfolding e by simp
    qed (use 3 in \<open>simp add: word_less_nat_alt\<close>)
    show ?thesis
      using assms np fin c
      by (simp only: udivmoddi4_def Let_def shift_values(2,3) [OF 3] shift_values(2) [OF 3 rng(2)]
          halves_shift_large [OF 3 rng(2)] if_False if_True simp_thms)
  qed
qed

lemma udivmoddi4_Klo:
  assumes "high a \<noteq> 0" and "low b \<noteq> 0" and "high b = 0"
  shows "udivmoddi4 a b = Inr (a div b, a mod b)"
  using udivmoddi4_Klo_power [OF assms] udivmoddi4_Klo_general [OF assms] by blast

lemma udivmoddi4_KK:
  assumes "high a \<noteq> 0" and "low b \<noteq> 0" and "high b \<noteq> 0"
  shows "udivmoddi4 a b = Inr (a div b, a mod b)"
proof -
  note cd = clz_diff [OF assms(3,1)]
  let ?sr0 = "clzsi2 (high b) - clzsi2 (high a)"
  show ?thesis
  proof (cases "?sr0 > 31")
    case True
    then have "\<not> unat (clzsi2 (high a)) \<le> unat (clzsi2 (high b))"
      using cd(1,5) by (auto simp: word_less_nat_alt)
    then have "unat (high a) < unat (high b)" using cd(4) by blast
    then have "unat a < unat b"
      using unat_halves [of a] unat_halves [of b] unat_lt_u32 [of "low a"] by simp
    then have "(0, a) = (a div b, a mod b)" by (intro dword_eqI) simp_all
    then show ?thesis using assms True by (simp add: udivmoddi4_def Let_def)
  next
    case False
    let ?sr = "?sr0 + 1"
    have le: "unat (clzsi2 (high a)) \<le> unat (clzsi2 (high b))"
      using False cd(6) by (force simp: word_less_nat_alt)
    have sr: "unat ?sr = unat (clzsi2 (high b)) - unat (clzsi2 (high a)) + 1"
      using cd(1) cd(5) [OF le] by (subst unat_add_no_wrap) simp_all
    have fin: "udiv_finish ?sr b (drop_bit (unat ?sr) a) (push_bit (64 - unat ?sr) a) = (a div b, a mod b)"
      by (rule udiv_hi_case [OF assms(1,3) le sr])
    have rng: "0 < unat ?sr" "unat ?sr \<le> 32" using sr cd(1) by linarith+
    show ?thesis
    proof (cases "?sr = 32")
      case True
      then show ?thesis
        using assms False fin
        by (simp only: udivmoddi4_def Let_def if_False if_True simp_thms halves_shift_32) simp
    next
      case ne: False
      then have "unat ?sr \<noteq> 32" by (auto simp: word_unat_eq_iff)
      then have s: "0 < unat ?sr" "unat ?sr < 32" using rng by linarith+
      show ?thesis
        using assms False fin ne
        by (simp only: udivmoddi4_def Let_def shift_values(1) [OF s] halves_shift_small [OF s]
            if_False if_True simp_thms)
    qed
  qed
qed

lemma udivmoddi4_laws:
  "udivmoddi4 a 0 = Inl Div_by_zero"
  "b \<noteq> 0 \<Longrightarrow> udivmoddi4 a b = Inr (a div b, a mod b)"
proof -
  have eq: "udivmoddi4 a b = (if b = 0 then Inl Div_by_zero else Inr (a div b, a mod b))" for b
  proof (cases "b = 0")
    case True
    then have "high b = 0" "low b = 0" by (simp_all add: high_def low_def)
    then show ?thesis using True by (simp add: udivmoddi4_def Let_def)
  next
    case False
    then have "high b \<noteq> 0 \<or> low b \<noteq> 0"
      using unat_halves [of b] by (auto simp: word_unat_eq_iff)
    then show ?thesis
      using False udivmoddi4_0X [of a b] udivmoddi4_K0 [of a b] udivmoddi4_Klo [of a b]
        udivmoddi4_KK [of a b]
      by (cases "high a = 0"; cases "high b = 0"; cases "low b = 0") simp_all
  qed
  show "udivmoddi4 a 0 = Inl Div_by_zero" using eq [of 0] by simp
  show "b \<noteq> 0 \<Longrightarrow> udivmoddi4 a b = Inr (a div b, a mod b)" using eq [of b] by simp
qed

section \<open>A contract for dividers\<close>

text \<open>What the signed routines need of an unsigned divider.\<close>

locale udivmod =
  fixes udivmod :: "u64 \<Rightarrow> u64 \<Rightarrow> c_error + u64 \<times> u64"
  assumes by_zero: "udivmod a 0 = Inl Div_by_zero"
    and nonzero: "b \<noteq> 0 \<Longrightarrow> udivmod a b = Inr (a div b, a mod b)"
begin

lemma quotient_remainder:
  assumes "udivmod a b = Inr (q, r)"
  shows "unat a = unat q * unat b + unat r \<and> unat r < unat b"
proof -
  have "b \<noteq> 0" using assms by_zero by auto
  with assms nonzero show ?thesis
    by (auto simp: unat_div unat_mod unat_gt_0)
qed

lemma quotient: "rbind (udivmod a b) (\<lambda>(q, r). Inr (f q)) =
    (if b = 0 then Inl Div_by_zero else Inr (f (a div b)))"
  using by_zero nonzero by simp

lemma remainder: "rbind (udivmod a b) (\<lambda>(q, r). Inr (f r)) =
    (if b = 0 then Inl Div_by_zero else Inr (f (a mod b)))"
  using by_zero nonzero by simp

end

interpretation dv: udivmod udivmoddi4
  by unfold_locales (simp_all add: udivmoddi4_laws)

text \<open>C1: the divider \<open>__udivmoddi4\<close> computes the unsigned quotient and the remainder on every one
  of its paths (32-bit operands, powers of two, the shift-and-subtract loop), and division by zero
  is its only failure.\<close>

theorem udivmoddi4_correct:
  "udivmoddi4 a b = (if b = 0 then Inl Div_by_zero else Inr (a div b, a mod b))"
  using dv.by_zero dv.nonzero by simp

section \<open>Signed division\<close>

lemma sint_u64: "sint (a :: u64) = (if 2 ^ 63 \<le> uint a then uint a - 2 ^ 64 else uint a)"
proof -
  have b: "0 \<le> uint a" "uint a < 2 ^ 64" using uint_less_of_unat [OF unat_lt_2p [of a]] by simp_all
  have s: "sint a = take_bit 64 (uint a + 2 ^ 63) - 2 ^ 63"
    by (simp add: sint_uint signed_take_bit_eq_take_bit_shift)
  show ?thesis
  proof (cases "2 ^ 63 \<le> uint a")
    case True
    then have "take_bit 64 (uint a + 2 ^ 63) = uint a + 2 ^ 63 - 2 ^ 64"
      unfolding take_bit_eq_mod using b by (intro int_mod_pos_eq [where q = 1]) auto
    with s True show ?thesis by simp
  next
    case False
    with s b show ?thesis by (simp add: take_bit_int_eq_self)
  qed
qed

lemma negate_if: "(x XOR (if c then - 1 else 0)) - (if c then - 1 else 0) = (if c then - x else (x :: u64))"
  by (cases c) (simp_all add: not_eq_complement)

lemma abs_word: "uint (if 2 ^ 63 \<le> uint a then - a else (a :: u64)) = \<bar>sint a\<bar>"
proof (cases "2 ^ 63 \<le> uint a")
  case True
  have b: "uint a < 2 ^ 64" using uint_less_of_unat [OF unat_lt_2p [of a]] by simp
  have "uint (- a) = (- uint a) mod 2 ^ 64" by (simp add: uint_word_ariths)
  also have "\<dots> = 2 ^ 64 - uint a" using True b by (intro int_mod_pos_eq [where q = "- 1"]) auto
  finally show ?thesis using True b by (simp add: sint_u64)
qed (simp add: sint_u64)

lemma sgn_cdiv: "c_div a b = (if (a < 0) \<noteq> (b < 0) then - (\<bar>a\<bar> div \<bar>b\<bar>) else \<bar>a\<bar> div \<bar>b\<bar>)"
  by (cases a "0::int" rule: linorder_cases; cases b "0::int" rule: linorder_cases) (simp_all add: c_div_def)

lemma sgn_cmod: "c_mod a b = (if a < 0 then - (\<bar>a\<bar> mod \<bar>b\<bar>) else \<bar>a\<bar> mod \<bar>b\<bar>)"
proof -
  have "\<bar>a\<bar> mod \<bar>b\<bar> = \<bar>a\<bar> - \<bar>b\<bar> * (\<bar>a\<bar> div \<bar>b\<bar>)" by (simp add: minus_mult_div_eq_mod)
  then show ?thesis
    by (cases "a < 0"; cases "b < 0"; cases "b = 0"; cases "a = 0") (auto simp: c_mod_def c_div_def sgn_if)
qed

lemma sint_neg: "sint (a::u64) < 0 \<longleftrightarrow> 2 ^ 63 \<le> uint a"
  using uint_less_of_unat [OF unat_lt_2p [of a]] by (simp add: sint_u64)

lemma sign_word: "signed_drop_bit 63 (a :: u64) = (if sint a < 0 then - 1 else 0)"
  by (simp only: sign_mask sint_neg sign_bound)

lemma abs_sint: "uint (if sint a < 0 then - a else (a :: u64)) = \<bar>sint a\<bar>"
  by (simp only: sint_neg abs_word)

lemma xor_signs: "(if p then - 1 else 0) XOR (if q then - 1 else 0) = (if p \<noteq> q then - 1 else 0 :: u64)"
  by simp

lemma abs_div: "(if sint a < 0 then - a else a) div (if sint b < 0 then - b else b) =
    (word_of_int (\<bar>sint a\<bar> div \<bar>sint b\<bar>) :: u64)"
  by (simp only: word_div_def abs_sint)

lemma abs_mod: "(if sint a < 0 then - a else a) mod (if sint b < 0 then - b else b) =
    (word_of_int (\<bar>sint a\<bar> mod \<bar>sint b\<bar>) :: u64)"
  by (simp only: word_mod_def abs_sint)

lemma abs_zero: "(if sint b < 0 then - b else b) = (0 :: u64) \<longleftrightarrow> b = 0"
  by simp

definition INT64_MIN :: int where "INT64_MIN = - (2 ^ 63)"

lemma sint_range: "- (2 ^ 63) \<le> sint (a :: u64)" "sint (a :: u64) < 2 ^ 63"
  using sint_ge [of a] sint_lt [of a] by simp_all

lemma sint_complement: "sint (NOT x :: u64) = - sint x - 1"
proof -
  have "NOT x = - 1 - x" by (simp add: not_eq_complement)
  moreover have "uint x \<le> uint (- 1 :: u64)"
    using uint_less_of_unat [OF unat_lt_2p [of x]] by (simp add: unsigned_minus_1_eq_mask mask_eq_exp_minus_1)
  then have "uint (- 1 - x) = uint (- 1 :: u64) - uint x" by (simp only: uint_sub_lem)
  ultimately have n: "uint (NOT x) = 2 ^ 64 - 1 - uint x"
    by (simp only: unsigned_minus_1_eq_mask) (simp add: mask_eq_exp_minus_1)
  show ?thesis using uint_less_of_unat [OF unat_lt_2p [of x]] by (simp add: sint_u64 n)
qed

lemma word_of_sint: "word_of_int (sint a) = (a :: u64)"
  by simp

lemma sint_zero: "sint b = 0 \<longleftrightarrow> b = (0 :: u64)"
  by (metis of_int_0 sint_0 word_of_sint)

lemma sint_of_s64: "- (2 ^ 63) \<le> i \<Longrightarrow> i < 2 ^ 63 \<Longrightarrow> sint (word_of_int i :: u64) = i"
  by (simp add: signed_of_int signed_take_bit_int_eq_self)

lemma negate_checked:
  "sub64 (x XOR (if c then - 1 else 0)) (if c then - 1 else 0) =
    (if c \<and> sint x = INT64_MIN then Inl Int_overflow else Inr (if c then - x else x))"
proof (cases c)
  case True
  have "word_of_int (- sint x) = - x" by simp
  then show ?thesis
    using True sint_range [of x] by (auto simp: sub64_def s64_def sint_complement INT64_MIN_def)
next
  case False
  then show ?thesis using sint_range [of x] by (simp add: sub64_def s64_def)
qed

lemma negative_min: "sint x < 0 \<and> sint x = INT64_MIN \<longleftrightarrow> sint x = INT64_MIN"
  by (auto simp: INT64_MIN_def)

lemma divdi3_result:
  "divdi3 a b =
    (if sint a = INT64_MIN \<or> sint b = INT64_MIN then Inl Int_overflow
     else if b = 0 then Inl Div_by_zero else Inr (word_of_int (c_div (sint a) (sint b))))"
proof (cases "sint a = INT64_MIN \<or> sint b = INT64_MIN")
  case True
  then show ?thesis unfolding divdi3_def Let_def sign_word negate_checked negative_min by auto
next
  case False
  then have "divdi3 a b = (if b = 0 then Inl Div_by_zero else Inr (if (sint a < 0) \<noteq> (sint b < 0)
      then - word_of_int (\<bar>sint a\<bar> div \<bar>sint b\<bar>) else word_of_int (\<bar>sint a\<bar> div \<bar>sint b\<bar>)))"
    unfolding divdi3_def Let_def sign_word negate_checked negative_min
    by (simp only: de_Morgan_disj if_False rbind_simps negate_if xor_signs dv.quotient abs_zero abs_div)
  then show ?thesis using False by (simp add: sgn_cdiv)
qed

lemma moddi3_result:
  "moddi3 a b =
    (if sint a = INT64_MIN \<or> sint b = INT64_MIN then Inl Int_overflow
     else if b = 0 then Inl Div_by_zero else Inr (word_of_int (c_mod (sint a) (sint b))))"
proof (cases "sint a = INT64_MIN \<or> sint b = INT64_MIN")
  case True
  then show ?thesis unfolding moddi3_def Let_def sign_word negate_checked negative_min by auto
next
  case False
  let ?r = "\<bar>sint a\<bar> mod \<bar>sint b\<bar>"
  have r: "sint (word_of_int ?r :: u64) \<noteq> INT64_MIN" if "b \<noteq> 0"
  proof -
    have "0 < \<bar>sint b\<bar>" "\<bar>sint b\<bar> \<le> 2 ^ 63" using that sint_range [of b] sint_zero [of b] by (auto simp: abs_if)
    then have "0 \<le> ?r" "?r < 2 ^ 63"
      using pos_mod_bound [of "\<bar>sint b\<bar>" "\<bar>sint a\<bar>"] pos_mod_sign [of "\<bar>sint b\<bar>" "\<bar>sint a\<bar>"] by linarith+
    then show ?thesis using sint_of_s64 [of ?r] by (simp add: INT64_MIN_def)
  qed
  have "moddi3 a b = (if b = 0 then Inl Div_by_zero else Inr (if sint a < 0 then - word_of_int ?r else word_of_int ?r))"
  proof (cases "b = 0")
    case True
    then show ?thesis using False
      unfolding moddi3_def Let_def sign_word negate_checked negative_min by (simp add: dv.by_zero)
  next
    case b: False
    then show ?thesis using False r
      unfolding moddi3_def Let_def sign_word negate_checked negative_min
      by (simp only: de_Morgan_disj if_False if_True rbind_simps prod.case dv.nonzero abs_zero abs_mod simp_thms)
  qed
  then show ?thesis using False by (simp add: sgn_cmod)
qed

lemma divmoddi4_result:
  "divmoddi4 a b =
    (if sint a = INT64_MIN \<or> sint b = INT64_MIN then Inl Int_overflow
     else if b = 0 then Inl Div_by_zero
     else Inr (word_of_int (c_div (sint a) (sint b)), word_of_int (c_mod (sint a) (sint b))))"
proof (cases "sint a = INT64_MIN \<or> sint b = INT64_MIN \<or> b = 0")
  case True
  then show ?thesis by (auto simp: divmoddi4_def divdi3_result)
next
  case False
  let ?q = "c_div (sint a) (sint b)"
  have a: "\<bar>sint a\<bar> < 2 ^ 63" using False sint_range [of a] by (auto simp: INT64_MIN_def abs_if)
  have q: "\<bar>?q\<bar> \<le> \<bar>sint a\<bar>" "\<bar>?q * sint b\<bar> \<le> \<bar>sint a\<bar>"
  proof -
    have b: "0 < \<bar>sint b\<bar>" using False sint_zero [of b] by simp
    have "0 \<le> \<bar>sint a\<bar> div \<bar>sint b\<bar>" by (rule pos_imp_zdiv_nonneg_iff [OF b, THEN iffD2]) simp
    then have "\<bar>?q\<bar> \<le> \<bar>sint a\<bar> div \<bar>sint b\<bar>" unfolding sgn_cdiv by (simp only: abs_minus_cancel abs_of_nonneg split: if_split) simp
    moreover have "\<bar>sint a\<bar> div \<bar>sint b\<bar> \<le> \<bar>sint a\<bar>"
      using zdiv_mono2 [of "\<bar>sint a\<bar>" 1 "\<bar>sint b\<bar>"] b by simp
    moreover have "\<bar>sint a\<bar> div \<bar>sint b\<bar> * \<bar>sint b\<bar> \<le> \<bar>sint a\<bar>"
      using pos_mod_sign [OF b, of "\<bar>sint a\<bar>"] div_mult_mod_eq [of "\<bar>sint a\<bar>" "\<bar>sint b\<bar>"] by linarith
    ultimately show "\<bar>?q\<bar> \<le> \<bar>sint a\<bar>" "\<bar>?q * sint b\<bar> \<le> \<bar>sint a\<bar>"
      using mult_right_mono [of "\<bar>?q\<bar>" "\<bar>sint a\<bar> div \<bar>sint b\<bar>" "\<bar>sint b\<bar>"] by (simp_all add: abs_mult)
  qed
  have "\<bar>c_mod (sint a) (sint b)\<bar> \<le> \<bar>sint a\<bar>"
  proof -
    have "0 < \<bar>sint b\<bar>" using False sint_zero [of b] by simp
    then have "0 \<le> \<bar>sint a\<bar> mod \<bar>sint b\<bar>" "\<bar>sint a\<bar> mod \<bar>sint b\<bar> \<le> \<bar>sint a\<bar>"
      by (simp_all add: zmod_le_nonneg_dividend)
    then have "\<bar>\<bar>sint a\<bar> mod \<bar>sint b\<bar>\<bar> \<le> \<bar>sint a\<bar>" by (simp only: abs_of_nonneg)
    then show ?thesis unfolding sgn_cmod by (simp only: abs_minus_cancel if_distrib [of abs] if_cancel)
  qed
  then have r: "- (2 ^ 63) \<le> c_mod (sint a) (sint b)" "c_mod (sint a) (sint b) < 2 ^ 63" using a by linarith+
  have s: "sint (word_of_int ?q :: u64) = ?q" "sint (word_of_int (?q * sint b) :: u64) = ?q * sint b"
    using q a by (intro sint_of_s64; linarith)+
  have "mul64 (word_of_int ?q) b = Inr (word_of_int (?q * sint b))"
  proof -
    have "- (2 ^ 63) \<le> ?q * sint b" "?q * sint b < 2 ^ 63" using q(2) a by linarith+
    then show ?thesis unfolding mul64_def s64_def s by simp
  qed
  moreover have "sub64 a (word_of_int (?q * sint b)) = Inr (word_of_int (c_mod (sint a) (sint b)))"
    using r unfolding sub64_def s64_def s by (simp add: c_mod_def mult.commute)
  ultimately show ?thesis using False by (simp add: divmoddi4_def divdi3_result)
qed

text \<open>C5: on two's complement operands \<open>__divdi3\<close>, \<open>__moddi3\<close> and \<open>__divmoddi4\<close> compute the
  quotient truncated towards zero and its remainder, which has the sign of the dividend. They fail in exactly two cases: when
  an operand is \<open>INT64_MIN\<close>, whose negation overflows (also where quotient and remainder are representable, as for
  \<open>INT64_MIN / 2\<close>), and otherwise when the divisor is zero.\<close>

theorem signed_division_correct:
  "divdi3 a b =
     (if sint a = INT64_MIN \<or> sint b = INT64_MIN then Inl Int_overflow
      else if b = 0 then Inl Div_by_zero else Inr (word_of_int (c_div (sint a) (sint b)))) \<and>
   moddi3 a b =
     (if sint a = INT64_MIN \<or> sint b = INT64_MIN then Inl Int_overflow
      else if b = 0 then Inl Div_by_zero else Inr (word_of_int (c_mod (sint a) (sint b)))) \<and>
   divmoddi4 a b =
     (if sint a = INT64_MIN \<or> sint b = INT64_MIN then Inl Int_overflow
      else if b = 0 then Inl Div_by_zero
      else Inr (word_of_int (c_div (sint a) (sint b)), word_of_int (c_mod (sint a) (sint b))))"
  by (simp only: divdi3_result moddi3_result divmoddi4_result simp_thms)

lemma udivdi3_result: "udivdi3 a b = (if b = 0 then Inl Div_by_zero else Inr (a div b))"
  unfolding udivdi3_def by (rule dv.quotient)

lemma umoddi3_result: "umoddi3 a b = (if b = 0 then Inl Div_by_zero else Inr (a mod b))"
  unfolding umoddi3_def by (rule dv.remainder)

text \<open>\<open>__clzdi2\<close> and \<open>__ctzdi2\<close> count the leading and the trailing zero bits of every non-zero
  double word: the operand lies between the powers of two that the count names, and it is an odd
  multiple of the power of two that the count names.\<close>

theorem bit_counts_correct:
  assumes "a \<noteq> 0"
  shows "unat (clzdi2 a) \<le> 63 \<and> 2 ^ (63 - unat (clzdi2 a)) \<le> unat a \<and>
      unat a < 2 ^ (64 - unat (clzdi2 a)) \<and>
    unat (ctzdi2 a) \<le> 63 \<and> (\<exists>k. odd k \<and> unat a = k * 2 ^ unat (ctzdi2 a))"
proof -
  have ua: "unat a = unat (high a) * 2 ^ 32 + unat (low a)" by (rule unat_halves)
  have l32: "unat (low a) < 2 ^ 32" by (rule unat_lt_u32)
  have "unat (clzdi2 a) \<le> 63 \<and> 2 ^ (63 - unat (clzdi2 a)) \<le> unat a \<and>
      unat a < 2 ^ (64 - unat (clzdi2 a))"
  proof (cases "high a = 0")
    case True
    then have l: "low a \<noteq> 0" using assms ua by (auto simp: word_unat_eq_iff)
    have eq: "clzdi2 a = clzsi2 (low a) + 32" using True by (simp add: clzdi2_def c_not_def)
    have "unat (clzdi2 a) = unat (clzsi2 (low a)) + 32"
      unfolding eq using clzsi2_correct [OF l] by (subst unat_add_no_wrap) simp_all
    then show ?thesis using clzsi2_correct [OF l] ua True by simp
  next
    case False
    note c = clzsi2_correct [OF False]
    have eq: "clzdi2 a = clzsi2 (high a)" using False by (simp add: clzdi2_def c_not_def)
    let ?c = "unat (clzsi2 (high a))"
    have "63 - ?c = 31 - ?c + 32" "64 - ?c = 32 - ?c + 32" using c by linarith+
    then have p: "(2::nat) ^ (63 - ?c) = 2 ^ (31 - ?c) * 2 ^ 32" "(2::nat) ^ (64 - ?c) = 2 ^ (32 - ?c) * 2 ^ 32"
      by (simp_all only: power_add)
    have "2 ^ (31 - ?c) * 2 ^ 32 \<le> unat (high a) * 2 ^ 32"
      "(unat (high a) + 1) * 2 ^ 32 \<le> 2 ^ (32 - ?c) * 2 ^ 32"
      using c by (intro mult_right_mono; simp)+
    then show ?thesis unfolding eq p using c ua l32 by simp
  qed
  moreover have "unat (ctzdi2 a) \<le> 63 \<and> (\<exists>k. odd k \<and> unat a = k * 2 ^ unat (ctzdi2 a))"
  proof (cases "low a = 0")
    case True
    then have h: "high a \<noteq> 0" using assms ua by (auto simp: word_unat_eq_iff)
    have eq: "ctzdi2 a = ctzsi2 (high a) + 32" using True by (simp add: ctzdi2_def c_not_def)
    obtain k where k: "odd k" "unat (high a) = k * 2 ^ unat (ctzsi2 (high a))" "unat (ctzsi2 (high a)) \<le> 31"
      using ctzsi2_correct [OF h] by blast
    have u: "unat (ctzdi2 a) = unat (ctzsi2 (high a)) + 32"
      unfolding eq using k(3) by (subst unat_add_no_wrap) simp_all
    have "unat a = k * 2 ^ unat (ctzdi2 a)" unfolding u power_add using ua k(2) True by simp
    then show ?thesis using k u by auto
  next
    case False
    have eq: "ctzdi2 a = ctzsi2 (low a)" using False by (simp add: ctzdi2_def c_not_def)
    let ?c = "unat (ctzsi2 (low a))"
    obtain k where k: "odd k" "unat (low a) = k * 2 ^ ?c" "?c \<le> 31"
      using ctzsi2_correct [OF False] by blast
    have "32 = 32 - ?c + ?c" "32 - ?c = Suc (31 - ?c)" using k(3) by linarith+
    then have p: "(2::nat) ^ 32 = 2 * 2 ^ (31 - ?c) * 2 ^ ?c" by (metis power_Suc power_add)
    have "unat a = (k + 2 * (unat (high a) * 2 ^ (31 - ?c))) * 2 ^ ?c"
      unfolding ua p k(2) by (simp only: distrib_right mult.assoc mult.left_commute add.commute)
    moreover have "odd (k + 2 * (unat (high a) * 2 ^ (31 - ?c)))" using k(1) by simp
    ultimately show ?thesis unfolding eq using k(3) by auto
  qed
  ultimately show ?thesis by blast
qed

theorem bit_counts_correct_witness: "unat (clzdi2 40) = 58 \<and> unat (ctzdi2 40) = 3"
proof -
  have "clzdi2 40 = 58" "ctzdi2 40 = 3" by code_simp+
  with bit_counts_correct [of 40] show ?thesis by simp
qed

end
