(* ===== verification/Sim_Memory.thy ===== *)
theory Sim_Memory
  imports Prelude
begin

text \<open>
  The memory of the simulator: \<open>simulator/src/memory/memory.c\<close>, the DPI functions through which the
  simulated core reaches it (\<open>simulator/src/dpi/dpi.c\<close>) and the smaller copy of both in
  \<open>simulator/sim/memory.c\<close>. The array \<open>pmem\<close> is a function from offsets to bytes; a host access
  outside of its \<open>CONFIG_MSIZE\<close> bytes is undefined behaviour in C and the error \<open>Out_of_bounds\<close>
  here. The host is little-endian.
\<close>

section \<open>Configuration\<close>

definition CONFIG_MBASE :: u64 where "CONFIG_MBASE = 0x80000000"
definition CONFIG_MSIZE :: u64 where "CONFIG_MSIZE = 0x8000000"
definition CONFIG_PC_RESET_OFFSET :: u64 where "CONFIG_PC_RESET_OFFSET = 0x0"
definition CONFIG_SERIAL_MMIO :: u64 where "CONFIG_SERIAL_MMIO = 0xa00003f8"
definition PMEM_LEFT :: u64 where "PMEM_LEFT = CONFIG_MBASE"
definition PMEM_RIGHT :: u64 where "PMEM_RIGHT = CONFIG_MBASE + CONFIG_MSIZE - 1"
definition RESET_VECTOR :: u64 where "RESET_VECTOR = PMEM_LEFT + CONFIG_PC_RESET_OFFSET"

lemmas config_defs = CONFIG_MBASE_def CONFIG_MSIZE_def CONFIG_PC_RESET_OFFSET_def
  CONFIG_SERIAL_MMIO_def PMEM_LEFT_def PMEM_RIGHT_def RESET_VECTOR_def

section \<open>Physical memory\<close>

definition init_mem :: "u32 \<Rightarrow> mem" where
  \<comment> \<open>\<open>memset(pmem, rand(), CONFIG_MSIZE)\<close>, with the random number drawn\<close>
  "init_mem r = (\<lambda>_. ucast r)"

definition guest_to_host :: "u64 \<Rightarrow> u64" where
  \<comment> \<open>an offset into \<open>pmem\<close>\<close>
  "guest_to_host paddr = paddr - CONFIG_MBASE"

definition host_ok :: "u64 \<Rightarrow> nat \<Rightarrow> bool" where
  \<comment> \<open>the bytes accessed are bytes of \<open>pmem\<close>\<close>
  "host_ok off n \<longleftrightarrow> unat off + n \<le> unat CONFIG_MSIZE"

definition host_read :: "mem \<Rightarrow> u64 \<Rightarrow> int \<Rightarrow> c_error + u64" where
  "host_read pm off len =
     (if len = 1 \<or> len = 2 \<or> len = 4 \<or> len = 8 then
        if host_ok off (nat len) then Inr (load (nat len) pm off) else Inl Out_of_bounds
      else Inl Assert_fail)"

definition host_write :: "mem \<Rightarrow> u64 \<Rightarrow> int \<Rightarrow> u64 \<Rightarrow> c_error + mem" where
  "host_write pm off len data =
     (if len = 1 \<or> len = 2 \<or> len = 4 \<or> len = 8 then
        if host_ok off (nat len) then Inr (store (nat len) pm off data) else Inl Out_of_bounds
      else Inl Assert_fail)"

definition in_pmem :: "u64 \<Rightarrow> bool" where
  "in_pmem addr \<longleftrightarrow> addr \<ge> CONFIG_MBASE \<and> addr \<le> CONFIG_MBASE + CONFIG_MSIZE"

definition pmem_read :: "mem \<Rightarrow> u64 \<Rightarrow> int \<Rightarrow> c_error + u64" where
  "pmem_read pm addr len = host_read pm (guest_to_host addr) len"

definition pmem_write :: "mem \<Rightarrow> u64 \<Rightarrow> int \<Rightarrow> u64 \<Rightarrow> c_error + mem" where
  "pmem_write pm addr len data = host_write pm (guest_to_host addr) len data"

definition out_of_bound :: "u64 \<Rightarrow> c_error" where
  "out_of_bound addr = Panic ''out of bound of pmem''"

definition paddr_read :: "mem \<Rightarrow> u64 \<Rightarrow> int \<Rightarrow> c_error + u64" where
  "paddr_read pm addr len =
     (if in_pmem addr then pmem_read pm addr len else Inl (out_of_bound addr))"

definition paddr_write :: "mem \<Rightarrow> u64 \<Rightarrow> int \<Rightarrow> u64 \<Rightarrow> c_error + mem" where
  "paddr_write pm addr len data =
     (if in_pmem addr then pmem_write pm addr len data else Inl (out_of_bound addr))"

section \<open>The functions called from the simulated core\<close>

definition dpi_instr_mem_read :: "mem \<Rightarrow> u64 \<Rightarrow> c_error + u32" where
  "dpi_instr_mem_read pm addr =
     (if addr \<ge> CONFIG_MBASE \<and> addr < CONFIG_MBASE + CONFIG_MSIZE
      then rbind (pmem_read pm addr 4) (\<lambda>w. Inr (ucast w))
      else Inr 0)"

definition dpi_mem_read :: "mem \<Rightarrow> u64 \<Rightarrow> u64 \<Rightarrow> c_error + u64" where
  "dpi_mem_read pm addr len = (if addr = 0 then Inr 0 else pmem_read pm addr (int_of_word len))"

definition dpi_mem_write :: "mem \<times> u8 list \<Rightarrow> u64 \<Rightarrow> u64 \<Rightarrow> int \<Rightarrow> c_error + mem \<times> u8 list" where
  \<comment> \<open>memory and the characters printed\<close>
  "dpi_mem_write st addr data len =
     (case st of (pm, out) \<Rightarrow>
        if addr = CONFIG_SERIAL_MMIO then Inr (pm, out @ [ucast data])
        else rbind (pmem_write pm addr len data) (\<lambda>pm'. Inr (pm', out)))"

section \<open>The stand-alone test bench\<close>

definition tb_init_mem :: "(nat \<Rightarrow> nat) \<Rightarrow> mem" where
  \<comment> \<open>every byte is \<open>rand() % 0x100\<close>, with the sequence of random numbers given\<close>
  "tb_init_mem rnd = (\<lambda>off. of_nat (rnd (unat off) mod 0x100))"

definition tb_host_read :: "mem \<Rightarrow> u64 \<Rightarrow> int \<Rightarrow> c_error + u64" where
  "tb_host_read pm off len =
     (if len = 1 \<or> len = 2 \<or> len = 4 \<or> len = 8 then
        if host_ok off (nat len) then Inr (load (nat len) pm off) else Inl Out_of_bounds
      else Inl Assert_fail)"

definition tb_guest_to_host :: "u64 \<Rightarrow> u64" where
  "tb_guest_to_host paddr = paddr - CONFIG_MBASE"

definition tb_pmem_read :: "mem \<Rightarrow> u64 \<Rightarrow> int \<Rightarrow> c_error + u64" where
  "tb_pmem_read pm addr len = tb_host_read pm (tb_guest_to_host addr) len"

definition tb_dpi_instr_mem_read :: "mem \<Rightarrow> u64 \<Rightarrow> c_error + u32" where
  "tb_dpi_instr_mem_read pm addr =
     (if addr \<ge> CONFIG_MBASE \<and> addr < CONFIG_MBASE + CONFIG_MSIZE
      then rbind (tb_pmem_read pm addr 4) (\<lambda>w. Inr (ucast w))
      else Inr 0)"

section \<open>A contract for memories\<close>

definition widths :: "int set" where "widths = {1, 2, 4, 8}"

locale guest_memory =
  fixes rd :: "'m \<Rightarrow> u64 \<Rightarrow> int \<Rightarrow> c_error + u64"
    and wr :: "'m \<Rightarrow> u64 \<Rightarrow> int \<Rightarrow> u64 \<Rightarrow> c_error + 'm"
    and ok :: "u64 \<Rightarrow> int \<Rightarrow> bool"
  assumes rd_iff: "(\<exists>w. rd m a n = Inr w) \<longleftrightarrow> ok a n"
    and wr_iff: "(\<exists>m'. wr m a n w = Inr m') \<longleftrightarrow> ok a n"
    and rd_same: "wr m a n w = Inr m' \<Longrightarrow> rd m' a n = Inr (take_bit (8 * nat n) w)"
    and rd_other: "wr m a n w = Inr m' \<Longrightarrow> uint b + k \<le> uint a \<or> uint a + n \<le> uint b \<Longrightarrow>
      rd m' b k = rd m b k"
begin

lemma write_then_read:
  assumes "ok a n"
  shows "\<exists>m'. wr m a n w = Inr m' \<and> rd m' a n = Inr (take_bit (8 * nat n) w)"
  using assms wr_iff rd_same by blast

lemma last_write_wins:
  assumes "wr m a n v = Inr m1" and "wr m1 a n w = Inr m2"
  shows "rd m2 a n = Inr (take_bit (8 * nat n) w)"
  using assms(2) by (rule rd_same)

lemma disjoint_writes_both_visible:
  assumes "wr m a n v = Inr m1" and "wr m1 b k w = Inr m2"
    and "uint a + n \<le> uint b \<or> uint b + k \<le> uint a"
  shows "rd m2 a n = Inr (take_bit (8 * nat n) v) \<and> rd m2 b k = Inr (take_bit (8 * nat k) w)"
  using rd_same [OF assms(1)] rd_same [OF assms(2)] rd_other [OF assms(2), of a n] assms(3) by auto

lemma write_never_changes_validity:
  "wr m a n w = Inr m' \<Longrightarrow> (\<exists>v. rd m' b k = Inr v) \<longleftrightarrow> (\<exists>v. rd m b k = Inr v)"
  by (simp add: rd_iff)

end

section \<open>The physical memory meets the contract\<close>

definition guest_ok :: "u64 \<Rightarrow> int \<Rightarrow> bool" where
  \<comment> \<open>an access of a legal width that lies within physical memory\<close>
  "guest_ok a n \<longleftrightarrow> n \<in> widths \<and> uint CONFIG_MBASE \<le> uint a \<and>
     uint a + n \<le> uint CONFIG_MBASE + uint CONFIG_MSIZE"

lemma host_ok_iff:
  assumes "n \<in> widths"
  shows "host_ok (guest_to_host a) (nat n) \<longleftrightarrow> guest_ok a n"
proof -
  have b: "0 \<le> uint a" "uint a < 2 ^ 64" using uint_less_of_unat [OF unat_lt_2p [of a]] by simp_all
  have n: "0 < n" "n \<le> 8" using assms by (auto simp: widths_def)
  have u: "uint (guest_to_host a) = (uint a - 0x80000000) mod 2 ^ 64"
    by (simp add: guest_to_host_def CONFIG_MBASE_def uint_word_ariths)
  have "host_ok (guest_to_host a) (nat n) \<longleftrightarrow> uint (guest_to_host a) + n \<le> 0x8000000"
    using n unat_add_nat_le_iff [of n "guest_to_host a" "0x8000000"]
    by (simp add: host_ok_def CONFIG_MSIZE_def)
  moreover have "uint (guest_to_host a) =
      (if 0x80000000 \<le> uint a then uint a - 0x80000000 else uint a - 0x80000000 + 2 ^ 64)"
    unfolding u using b by (auto intro: mod_pos_pos_trivial int_mod_pos_eq [where q = "- 1"])
  moreover obtain x where "uint a = x" "0 \<le> x" using b by blast
  ultimately show ?thesis
    using assms n by (auto simp: guest_ok_def CONFIG_MBASE_def CONFIG_MSIZE_def)
qed

lemma host_read_simps:
  "n \<in> widths \<Longrightarrow> host_read pm off n =
     (if host_ok off (nat n) then Inr (load (nat n) pm off) else Inl Out_of_bounds)"
  "n \<notin> widths \<Longrightarrow> host_read pm off n = Inl Assert_fail"
  by (auto simp: host_read_def widths_def)

lemma host_write_simps:
  "n \<in> widths \<Longrightarrow> host_write pm off n w =
     (if host_ok off (nat n) then Inr (store (nat n) pm off w) else Inl Out_of_bounds)"
  "n \<notin> widths \<Longrightarrow> host_write pm off n w = Inl Assert_fail"
  by (auto simp: host_write_def widths_def)

lemma pmem_read_eq:
  "pmem_read pm a n = (if n \<notin> widths then Inl Assert_fail
     else if guest_ok a n then Inr (load (nat n) pm (guest_to_host a)) else Inl Out_of_bounds)"
  by (simp add: pmem_read_def host_read_simps host_ok_iff)

lemma pmem_write_eq:
  "pmem_write pm a n w = (if n \<notin> widths then Inl Assert_fail
     else if guest_ok a n then Inr (store (nat n) pm (guest_to_host a) w) else Inl Out_of_bounds)"
  by (simp add: pmem_write_def host_write_simps host_ok_iff)

lemma guest_ok_widths: "guest_ok a n \<Longrightarrow> n \<in> widths"
  by (simp add: guest_ok_def)

lemma pmem_wr_same:
  assumes "pmem_write pm a n w = Inr pm'"
  shows "pmem_read pm' a n = Inr (take_bit (8 * nat n) w)"
proof -
  have "nat n \<le> 2 ^ 64" if "n \<in> widths" using that by (auto simp: widths_def)
  with assms show ?thesis
    by (auto simp: pmem_read_eq pmem_write_eq load_store_same split: if_splits)
qed

lemma in_region_offsets:
  fixes a b :: addr
  assumes "unat a \<le> unat x" and "unat x < unat a + n" shows "in_region a n x"
  using assms by (simp add: in_region_def unat_sub word_le_nat_alt less_diff_conv2)

lemma not_in_region_outside:
  fixes a x :: addr
  assumes "unat x < unat a \<or> unat a + n \<le> unat x" and "unat a + n \<le> 2 ^ 64"
  shows "\<not> in_region a n x"
proof (cases "unat x < unat a")
  case True
  then have "unat (x - a) = 2 ^ 64 + unat x - unat a"
    by (simp add: unat_sub_if' word_le_nat_alt)
  with assms(2) show ?thesis by (simp add: in_region_def)
next
  case False
  then show ?thesis using assms(1) by (simp add: in_region_def unat_sub word_le_nat_alt)
qed

lemma load_store_other:
  assumes "unat b + k \<le> unat a \<or> unat a + n \<le> unat b" and "unat a + n \<le> 2 ^ 64" "unat b + k \<le> 2 ^ 64"
  shows "load k (store n m a w) b = (load k m b :: u64)"
proof -
  have "read_bytes (store n m a w) b k = read_bytes m b k"
  proof (rule read_bytes_cong)
    fix i assume i: "i < k"
    then have "unat (b + of_nat i) = unat b + i"
      using assms(3) by (subst unat_add_no_wrap) (simp_all add: unat_of_nat_lt)
    then have "\<not> in_region a n (b + of_nat i)"
      using i assms by (intro not_in_region_outside) auto
    then show "store n m a w (b + of_nat i) = m (b + of_nat i)"
      using assms(2) by (intro store_other) simp_all
  qed
  then show ?thesis by (simp add: load_def)
qed

lemma guest_offset:
  assumes "guest_ok a n"
  shows "uint (guest_to_host a) = uint a - 0x80000000"
    and "unat (guest_to_host a) + nat n \<le> 2 ^ 64"
proof -
  have "uint CONFIG_MBASE \<le> uint a" using assms by (simp add: guest_ok_def)
  then show "uint (guest_to_host a) = uint a - 0x80000000"
    using iffD1 [OF uint_sub_lem, of CONFIG_MBASE a] by (simp add: guest_to_host_def CONFIG_MBASE_def)
  have "host_ok (guest_to_host a) (nat n)" using assms host_ok_iff guest_ok_widths by blast
  then show "unat (guest_to_host a) + nat n \<le> 2 ^ 64" by (simp add: host_ok_def CONFIG_MSIZE_def)
qed

lemma pmem_wr_other:
  assumes w: "pmem_write pm a n w = Inr pm'" and d: "uint b + k \<le> uint a \<or> uint a + n \<le> uint b"
  shows "pmem_read pm' b k = pmem_read pm b k"
proof (cases "guest_ok b k")
  case True
  have a: "guest_ok a n" "pm' = store (nat n) pm (guest_to_host a) w"
    using w by (auto simp: pmem_write_eq split: if_splits)
  have n: "0 \<le> n" "0 \<le> k" using a(1) True by (auto simp: guest_ok_def widths_def)
  note oa = guest_offset [OF a(1)] and ob = guest_offset [OF True]
  have "uint (guest_to_host b) + k \<le> uint (guest_to_host a) \<or>
      uint (guest_to_host a) + n \<le> uint (guest_to_host b)"
    using d oa(1) ob(1) by auto
  then have "unat (guest_to_host b) + nat k \<le> unat (guest_to_host a) \<or>
      unat (guest_to_host a) + nat n \<le> unat (guest_to_host b)"
    using n by (simp add: unat_add_nat_le_iff)
  then show ?thesis
    using load_store_other [where w = w, OF _ oa(2) ob(2)] a by (simp add: pmem_read_eq)
qed (simp add: pmem_read_eq)

interpretation pm: guest_memory pmem_read pmem_write guest_ok
proof
  fix m a n w m' b k
  show "(\<exists>w. pmem_read m a n = Inr w) \<longleftrightarrow> guest_ok a n"
    by (auto simp: pmem_read_eq guest_ok_widths)
  show "(\<exists>m'. pmem_write m a n w = Inr m') \<longleftrightarrow> guest_ok a n"
    by (auto simp: pmem_write_eq guest_ok_widths)
  show "pmem_write m a n w = Inr m' \<Longrightarrow> pmem_read m' a n = Inr (take_bit (8 * nat n) w)"
    by (rule pmem_wr_same)
  show "pmem_write m a n w = Inr m' \<Longrightarrow> uint b + k \<le> uint a \<or> uint a + n \<le> uint b \<Longrightarrow>
      pmem_read m' b k = pmem_read m b k"
    by (rule pmem_wr_other)
qed

section \<open>Properties\<close>

text \<open>A read or write of the simulated memory succeeds exactly for an access of 1, 2, 4 or 8 bytes
  inside of physical memory; what was written is read back truncated to the width, and every access
  to other bytes sees what it saw before.\<close>

theorem pmem_contract:
  "((\<exists>w. pmem_read pm a n = Inr w) \<longleftrightarrow> guest_ok a n) \<and>
   ((\<exists>pm'. pmem_write pm a n v = Inr pm') \<longleftrightarrow> guest_ok a n) \<and>
   (\<forall>pm'. pmem_write pm a n v = Inr pm' \<longrightarrow>
      pmem_read pm' a n = Inr (take_bit (8 * nat n) v) \<and>
      (\<forall>b k. uint b + k \<le> uint a \<or> uint a + n \<le> uint b \<longrightarrow> pmem_read pm' b k = pmem_read pm b k))"
  using pm.rd_iff pm.wr_iff pm.rd_same pm.rd_other by blast

theorem pmem_contract_witness:
  "\<exists>pm'. pmem_write (\<lambda>_. 0) 0x80000010 4 0x1122334455667788 = Inr pm' \<and>
     pmem_read pm' 0x80000010 4 = Inr 0x55667788 \<and> pmem_read pm' 0x80000014 8 = Inr 0"
proof -
  have ok: "guest_ok 0x80000010 4" by (simp add: guest_ok_def widths_def config_defs)
  note c = pmem_contract [of "\<lambda>_. 0" "0x80000010" 4 "0x1122334455667788"]
  from c ok obtain pm' where w: "pmem_write (\<lambda>_. 0) 0x80000010 4 0x1122334455667788 = Inr pm'" by blast
  have "pmem_read pm' 0x80000010 4 = Inr (take_bit (8 * nat 4) 0x1122334455667788)" using c w by blast
  moreover have "pmem_read pm' 0x80000014 8 = pmem_read (\<lambda>_. 0) 0x80000014 8" using c w by simp
  moreover have "pmem_read (\<lambda>_. 0) 0x80000014 8 = Inr 0"
    by (simp add: pmem_read_eq guest_ok_def widths_def config_defs load_def c_simps)
  ultimately show ?thesis using w by simp
qed

text \<open>C11: the bounds check of \<open>paddr_read\<close> and \<open>paddr_write\<close> looks only at the first byte and
  takes one address too many: every access that it lets through is either fine or an access
  outside of the \<open>pmem\<close> array, and the latter happens for each width, at the very end of memory.\<close>

theorem paddr_bounds:
  assumes "n \<in> widths"
  shows "(guest_ok a n \<longrightarrow> paddr_read pm a n = pmem_read pm a n \<and> (\<exists>w. pmem_read pm a n = Inr w)) \<and>
    (\<not> guest_ok a n \<longrightarrow> paddr_read pm a n = Inl Out_of_bounds \<or>
       paddr_read pm a n = Inl (out_of_bound a)) \<and>
    paddr_read pm (PMEM_RIGHT + 1) n = Inl Out_of_bounds \<and>
    paddr_write pm (PMEM_RIGHT + 1) n v = Inl Out_of_bounds"
proof -
  have "in_pmem a" if "guest_ok a n"
    using that by (auto simp: guest_ok_def widths_def in_pmem_def config_defs word_le_def)
  moreover have "\<not> guest_ok (PMEM_RIGHT + 1) n"
    using assms by (auto simp: guest_ok_def widths_def config_defs)
  moreover have "in_pmem (PMEM_RIGHT + 1)" by (simp add: in_pmem_def config_defs)
  ultimately show ?thesis
    using assms by (auto simp: paddr_read_def paddr_write_def pmem_read_eq pmem_write_eq)
qed

theorem paddr_bounds_witness:
  "paddr_read (\<lambda>_. 7) 0x80000000 1 = Inr 7 \<and> paddr_read (\<lambda>_. 7) 0x88000000 1 = Inl Out_of_bounds"
proof -
  have ok: "guest_ok 0x80000000 1" by (simp add: guest_ok_def widths_def config_defs)
  have "pmem_read (\<lambda>_. 7) 0x80000000 1 = Inr 7"
    using ok by (simp add: pmem_read_eq widths_def load_def)
  moreover have "PMEM_RIGHT + 1 = 0x88000000" by (simp add: config_defs)
  ultimately show ?thesis
    using ok paddr_bounds [of 1 "0x80000000" "\<lambda>_. 7" 0] by (simp only: widths_def) simp
qed

text \<open>An instruction fetch checks its first byte only, too: the last three addresses of memory are
  let through and run over its end.\<close>

lemma fetch_at_the_end:
  "dpi_instr_mem_read pm PMEM_RIGHT = Inl Out_of_bounds"
  "addr < CONFIG_MBASE \<Longrightarrow> dpi_instr_mem_read pm addr = Inr 0"
  by (simp add: dpi_instr_mem_read_def pmem_read_eq widths_def guest_ok_def config_defs)
    (auto simp: dpi_instr_mem_read_def dest: leD)

lemma serial_write_leaves_memory:
  "dpi_mem_write (pm, out) CONFIG_SERIAL_MMIO data len = Inr (pm, out @ [ucast data])"
  by (simp add: dpi_mem_write_def)

lemma test_bench_agrees: "tb_pmem_read = pmem_read" "tb_dpi_instr_mem_read = dpi_instr_mem_read"
  by (simp_all add: fun_eq_iff tb_pmem_read_def pmem_read_def tb_host_read_def host_read_def
      tb_guest_to_host_def guest_to_host_def tb_dpi_instr_mem_read_def dpi_instr_mem_read_def)

end
