(* ===== verification/Sim_Exec.thy ===== *)
theory Sim_Exec
  imports Sim_Memory
begin

text \<open>
  The simulator proper: \<open>simulator/src/simulator/{npc_state.c,sim.c}\<close>, \<open>cpu/cpu.c\<close>,
  \<open>difftest/difftest.c\<close>, \<open>monitor/monitor.c\<close> and \<open>utils/timer.c\<close>.

  Three parts are not C code of the repository and are parameters, collected in the record \<open>env\<close>:
  the core that Verilator generates (a state of type \<open>'d\<close>, its \<open>eval\<close> and its output ports), the
  reference simulator loaded as a shared object (a state of type \<open>'r\<close> and the functions looked up
  in it), and the C library of the host (clock, random numbers). As \<open>eval\<close> calls the DPI functions,
  it also acts on the part of the state that they change. What the program prints is not
  modelled, with the exception of the instruction trace and of the serial port.
\<close>

section \<open>State\<close>

datatype sim_status = SIM_RUNNING | SIM_STOP | SIM_END | SIM_ABORT | SIM_QUIT

record SIMState =
  state :: sim_status
  halt_pc :: u64
  halt_ret :: u32

record CPU_state =
  gpr :: "u64 list"
  pc :: u64
  csr :: "u64 list"

definition GPR_NUM :: int where "GPR_NUM = 32"
definition CSR_NUM :: int where "CSR_NUM = 5"

record host =
  pmem :: mem
  uart :: "u8 list"
  sim_state :: SIMState

record ('d, 'r) npc =
  dut :: 'd
  rst :: bool
  hst :: host
  cpu :: CPU_state
  ref :: 'r
  sim_time :: u64
  clk_count :: u64
  g_nr_guest_inst :: u64
  g_timer :: u64
  g_print_step :: bool
  boot_time :: u64
  ticks :: nat                        \<comment> \<open>readings of the host clock so far\<close>
  itrace :: "(u64 \<times> u64) list"
  is_skip_ref :: bool
  skip_dut_nr_inst :: int

record ('d, 'r) env =
  eval :: "bool \<Rightarrow> bool \<Rightarrow> 'd \<times> host \<Rightarrow> c_error + 'd \<times> host"   \<comment> \<open>\<open>clk\<close>, \<open>rst\<close>\<close>
  commit :: "'d \<Rightarrow> u8"
  commit_pc :: "'d \<Rightarrow> u64"
  commit_pre_pc :: "'d \<Rightarrow> u64"
  commit_instr :: "'d \<Rightarrow> u64"
  cur_pc :: "'d \<Rightarrow> u64"
  reg_ptr :: "'d \<Rightarrow> u64 list option"    \<comment> \<open>\<open>None\<close>: the core has not announced its registers\<close>
  ref_exec :: "u64 \<Rightarrow> 'r \<Rightarrow> 'r"
  ref_regs :: "'r \<Rightarrow> CPU_state"
  ref_set_regs :: "CPU_state \<Rightarrow> 'r \<Rightarrow> 'r"
  ref_memcpy :: "u64 \<Rightarrow> u8 list \<Rightarrow> 'r \<Rightarrow> 'r"
  ref_init :: "int \<Rightarrow> 'r \<Rightarrow> 'r"
  gettimeofday :: "nat \<Rightarrow> u64 \<times> u64"      \<comment> \<open>the i-th reading: seconds, microseconds\<close>
  host_rand :: "u64 \<Rightarrow> u32"              \<comment> \<open>the first \<open>rand()\<close> after \<open>srand(seed)\<close>\<close>

section \<open>Run state and registers\<close>

definition is_exit_status_bad :: "SIMState \<Rightarrow> bool" where
  "is_exit_status_bad st \<longleftrightarrow>
     \<not> (state st = SIM_END \<and> halt_ret st = 0 \<or> state st = SIM_QUIT)"

definition set_sim_state :: "sim_status \<Rightarrow> u64 \<Rightarrow> u32 \<Rightarrow> host \<Rightarrow> host" where
  "set_sim_state s p r h = h\<lparr>sim_state := \<lparr>state = s, halt_pc = p, halt_ret = r\<rparr>\<rparr>"

definition dpi_ebreak :: "host \<Rightarrow> host" where
  "dpi_ebreak h = set_sim_state SIM_END 0x80000000 0 h"

definition put_state :: "sim_status \<Rightarrow> host \<Rightarrow> host" where
  \<comment> \<open>\<open>sim_state.state = s\<close>\<close>
  "put_state s h = h\<lparr>sim_state := (sim_state h)\<lparr>state := s\<rparr>\<rparr>"

definition regs :: "string list" where
  "regs = [''$0'', ''ra'', ''sp'', ''gp'', ''tp'', ''t0'', ''t1'', ''t2'',
           ''s0'', ''s1'', ''a0'', ''a1'', ''a2'', ''a3'', ''a4'', ''a5'',
           ''a6'', ''a7'', ''s2'', ''s3'', ''s4'', ''s5'', ''s6'', ''s7'',
           ''s8'', ''s9'', ''s10'', ''s11'', ''t3'', ''t4'', ''t5'', ''t6'']"

definition check_reg_idx :: "int \<Rightarrow> c_error + int" where
  "check_reg_idx idx = rbind (guard (idx \<ge> 0 \<and> idx < GPR_NUM) Assert_fail) (\<lambda>_. Inr idx)"

definition check_csr_idx :: "int \<Rightarrow> c_error + int" where
  "check_csr_idx idx = rbind (guard (idx \<ge> 0 \<and> idx < CSR_NUM) Assert_fail) (\<lambda>_. Inr idx)"

definition gpr_at :: "CPU_state \<Rightarrow> int \<Rightarrow> c_error + u64" where
  \<comment> \<open>the macro \<open>gpr(idx)\<close>\<close>
  "gpr_at c idx = rbind (check_reg_idx idx) (\<lambda>i. Inr (gpr c ! nat i))"

definition csr_at :: "CPU_state \<Rightarrow> int \<Rightarrow> c_error + u64" where
  \<comment> \<open>the macro \<open>csr(idx)\<close>, which reads \<open>cpu.gpr\<close>\<close>
  "csr_at c idx = rbind (check_csr_idx idx) (\<lambda>i. Inr (gpr c ! nat i))"

definition reg_name :: "int \<Rightarrow> c_error + string" where
  "reg_name idx = rbind (check_reg_idx idx) (\<lambda>i. Inr (regs ! nat i))"

section \<open>Clock\<close>

definition get_time_internal :: "('d, 'r) env \<Rightarrow> ('d, 'r) npc \<Rightarrow> u64 \<times> ('d, 'r) npc" where
  "get_time_internal E s =
     (case gettimeofday E (ticks s) of (tv_sec, tv_usec) \<Rightarrow>
        (tv_sec * 1000000 + tv_usec, s\<lparr>ticks := ticks s + 1\<rparr>))"

definition get_time :: "('d, 'r) env \<Rightarrow> ('d, 'r) npc \<Rightarrow> u64 \<times> ('d, 'r) npc" where
  "get_time E s =
     (let s1 = (if boot_time s = 0 then (case get_time_internal E s of (t, s') \<Rightarrow> s'\<lparr>boot_time := t\<rparr>)
                else s);
          (now, s2) = get_time_internal E s1
      in (now - boot_time s2, s2))"

definition init_rand :: "('d, 'r) env \<Rightarrow> ('d, 'r) npc \<Rightarrow> u32 \<times> ('d, 'r) npc" where
  \<comment> \<open>also returns the next \<open>rand()\<close>\<close>
  "init_rand E s = (case get_time_internal E s of (t, s') \<Rightarrow> (host_rand E t, s'))"

section \<open>Driving the core\<close>

definition npc_eval :: "('d, 'r) env \<Rightarrow> bool \<Rightarrow> ('d, 'r) npc \<Rightarrow> c_error + ('d, 'r) npc" where
  \<comment> \<open>\<open>dut.clk = clk; dut.eval(); m_trace->dump(sim_time++);\<close>\<close>
  "npc_eval E clk s =
     rbind (eval E clk (rst s) (dut s, hst s)) (\<lambda>(d, h).
       Inr (s\<lparr>dut := d, hst := h, sim_time := sim_time s + 1\<rparr>))"

definition npc_single_cycle :: "('d, 'r) env \<Rightarrow> ('d, 'r) npc \<Rightarrow> c_error + ('d, 'r) npc" where
  "npc_single_cycle E s =
     rbind (npc_eval E False s) (\<lambda>s1.
     rbind (npc_eval E True s1) (\<lambda>s2.
       Inr (s2\<lparr>clk_count := clk_count s2 + 1\<rparr>)))"

fun cycles :: "nat \<Rightarrow> ('d, 'r) env \<Rightarrow> ('d, 'r) npc \<Rightarrow> c_error + ('d, 'r) npc" where
  "cycles 0 E s = Inr s"
| "cycles (Suc n) E s = rbind (npc_single_cycle E s) (cycles n E)"

definition npc_reset :: "('d, 'r) env \<Rightarrow> int \<Rightarrow> ('d, 'r) npc \<Rightarrow> c_error + ('d, 'r) npc" where
  "npc_reset E n s =
     rbind (cycles (nat n) E (s\<lparr>rst := True\<rparr>)) (\<lambda>s1. Inr (s1\<lparr>rst := False\<rparr>))"

definition update_cpu_state :: "('d, 'r) env \<Rightarrow> ('d, 'r) npc \<Rightarrow> c_error + ('d, 'r) npc" where
  "update_cpu_state E s =
     (let s1 = s\<lparr>cpu := (cpu s)\<lparr>pc := cur_pc E (dut s)\<rparr>\<rparr> in
      case reg_ptr E (dut s) of
        None \<Rightarrow> Inl Null_deref
      | Some rs \<Rightarrow>
          if length rs < 32 then Inl Out_of_bounds
          else Inr (s1\<lparr>cpu := (cpu s1)\<lparr>gpr := take 32 rs\<rparr>\<rparr>))"

definition npc_init :: "('d, 'r) env \<Rightarrow> ('d, 'r) npc \<Rightarrow> c_error + ('d, 'r) npc" where
  "npc_init E s =
     rbind (npc_reset E 1 s) (\<lambda>s1.
     rbind (update_cpu_state E s1) (\<lambda>s2.
       if pc (cpu s2) \<noteq> 0x80000000 then Inl (Exit 1) else Inr s2))"

section \<open>Comparison with the reference\<close>

definition difftest_skip_ref :: "('d, 'r) npc \<Rightarrow> ('d, 'r) npc" where
  "difftest_skip_ref s = s\<lparr>is_skip_ref := True, skip_dut_nr_inst := 0\<rparr>"

definition difftest_skip_dut :: "('d, 'r) env \<Rightarrow> int \<Rightarrow> int \<Rightarrow> ('d, 'r) npc \<Rightarrow> c_error + ('d, 'r) npc" where
  "difftest_skip_dut E nr_ref nr_dut s =
     rbind (s32 (skip_dut_nr_inst s + nr_dut)) (\<lambda>k.
       Inr (s\<lparr>skip_dut_nr_inst := k, ref := (ref_exec E 1 ^^ nat nr_ref) (ref s)\<rparr>))"

function check_gprs :: "CPU_state \<Rightarrow> CPU_state \<Rightarrow> nat \<Rightarrow> c_error + unit" where
  \<comment> \<open>\<open>for (int i = 0; i < 32; ++i) if (ref->gpr[i] != cpu.gpr[i]) ... exit(1);\<close>\<close>
  "check_gprs rf c i =
     (if i < 32 then
        if gpr rf ! i \<noteq> gpr c ! i then Inl (Exit 1) else check_gprs rf c (i + 1)
      else Inr ())"
  by pat_completeness auto
termination by (relation "measure (\<lambda>(rf, c, i). 32 - i)") auto

declare check_gprs.simps [simp del]

definition checkregs :: "CPU_state \<Rightarrow> CPU_state \<Rightarrow> u64 \<Rightarrow> u64 \<Rightarrow> c_error + unit" where
  \<comment> \<open>the reference, the core, the committed and the next program counter\<close>
  "checkregs rf c this_pc next_pc =
     (if next_pc \<noteq> pc rf then Inl (Exit 1) else check_gprs rf c 0)"

definition difftest_step :: "('d, 'r) env \<Rightarrow> u64 \<Rightarrow> u64 \<Rightarrow> ('d, 'r) npc \<Rightarrow> c_error + ('d, 'r) npc" where
  "difftest_step E this_pc next_pc s =
     (let s1 = s\<lparr>ref := ref_exec E 1 (ref s)\<rparr> in
      rbind (checkregs (ref_regs E (ref s1)) (cpu s1) this_pc next_pc) (\<lambda>_. Inr s1))"

definition instr_trace :: "u64 \<Rightarrow> u64 \<Rightarrow> ('d, 'r) npc \<Rightarrow> ('d, 'r) npc" where
  "instr_trace p instr s = s\<lparr>itrace := itrace s @ [(p, instr)]\<rparr>"

section \<open>Execution\<close>

partial_function (option) wait_commit ::
  "('d, 'r) env \<Rightarrow> ('d, 'r) npc \<Rightarrow> (c_error + ('d, 'r) npc) option" where
  \<comment> \<open>\<open>while (dut.commit != 1) npc_single_cycle();\<close>\<close>
  "wait_commit E s =
     (if commit E (dut s) \<noteq> 1 then
        (case npc_single_cycle E s of Inl e \<Rightarrow> Some (Inl e) | Inr s' \<Rightarrow> wait_commit E s')
      else Some (Inr s))"

definition EBREAK :: u64 where "EBREAK = 0x00100073"

definition commit_one :: "('d, 'r) env \<Rightarrow> ('d, 'r) npc \<Rightarrow> c_error + ('d, 'r) npc" where
  \<comment> \<open>the loop body for an instruction other than \<open>ebreak\<close>\<close>
  "commit_one E s =
     (let c_pc = commit_pc E (dut s); c_pre_pc = commit_pre_pc E (dut s);
          c_instr = commit_instr E (dut s)
      in rbind (npc_single_cycle E s) (\<lambda>s1.
         rbind (update_cpu_state E s1) (\<lambda>s2.
           difftest_step E c_pc c_pre_pc (instr_trace c_pc c_instr s2))))"

partial_function (option) execute ::
  "('d, 'r) env \<Rightarrow> u64 \<Rightarrow> ('d, 'r) npc \<Rightarrow> (c_error + ('d, 'r) npc) option" where
  "execute E n s =
     (if n > 0 then
        Option.bind (wait_commit E s) (\<lambda>r. case r of
          Inl e \<Rightarrow> Some (Inl e)
        | Inr s1 \<Rightarrow>
            if commit_instr E (dut s1) = EBREAK then
              (let s2 = instr_trace (commit_pc E (dut s1)) (commit_instr E (dut s1)) s1
               in Some (Inr (s2\<lparr>hst := put_state SIM_END (hst s2)\<rparr>)))
            else (case commit_one E s1 of
                Inl e \<Rightarrow> Some (Inl e)
              | Inr s2 \<Rightarrow> execute E (n - 1) s2))
      else Some (Inr s))"

definition statistic :: "('d, 'r) npc \<Rightarrow> u64 option" where
  \<comment> \<open>the simulation frequency that is logged\<close>
  "statistic s =
     (if g_timer s > 0 then Some (g_nr_guest_inst s * 1000000 div g_timer s) else None)"

definition MAX_INST_TO_PRINT :: u64 where "MAX_INST_TO_PRINT = 100"

definition cpu_exec :: "('d, 'r) env \<Rightarrow> u64 \<Rightarrow> ('d, 'r) npc \<Rightarrow> (c_error + ('d, 'r) npc) option" where
  "cpu_exec E n s =
     (let s = s\<lparr>g_print_step := n < MAX_INST_TO_PRINT\<rparr> in
      if state (sim_state (hst s)) \<in> {SIM_END, SIM_ABORT} then Some (Inr s)
      else
        (case get_time E (s\<lparr>hst := put_state SIM_RUNNING (hst s)\<rparr>) of (timer_start, s1) \<Rightarrow>
           map_option (\<lambda>r. rbind r (\<lambda>s2.
             (case get_time E s2 of (timer_end, s3) \<Rightarrow>
                let s4 = s3\<lparr>g_timer := g_timer s3 + (timer_end - timer_start)\<rparr> in
                Inr (if state (sim_state (hst s4)) = SIM_RUNNING
                     then s4\<lparr>hst := put_state SIM_STOP (hst s4)\<rparr> else s4))))
             (execute E n s1)))"

section \<open>Start-up\<close>

datatype cli_opt = Opt_batch | Opt_port "int option" | Opt_log string | Opt_diff string
  | Opt_image string | Opt_other
  \<comment> \<open>what \<open>getopt_long\<close> returns, in order; \<open>Opt_port\<close> with what \<open>sscanf\<close> reads\<close>

record monitor =
  img_file :: "string option"
  log_file :: "string option"
  diff_so_file :: "string option"
  difftest_port :: int

definition monitor0 :: monitor where
  "monitor0 = \<lparr>img_file = None, log_file = None, diff_so_file = None, difftest_port = 1234\<rparr>"

fun parse_args :: "cli_opt list \<Rightarrow> monitor \<Rightarrow> c_error + monitor" where
  "parse_args [] mo = Inr mo"
| "parse_args (o1 # os) mo =
     (case o1 of
        Opt_batch \<Rightarrow> parse_args os mo
      | Opt_port p \<Rightarrow>
          parse_args os (case p of Some k \<Rightarrow> mo\<lparr>difftest_port := k\<rparr> | None \<Rightarrow> mo)
      | Opt_log f \<Rightarrow> parse_args os (mo\<lparr>log_file := Some f\<rparr>)
      | Opt_diff f \<Rightarrow> parse_args os (mo\<lparr>diff_so_file := Some f\<rparr>)
      | Opt_image f \<Rightarrow> Inr (mo\<lparr>img_file := Some f\<rparr>)
      | Opt_other \<Rightarrow> Inl (Exit 0))"

definition img :: "u32 list" where
  "img = [0x003100b3, 0x00628233, 0x009403b3, 0x00c58533, 0x00f706b3, 0x01288833, 0x00100073]"

definition load_builded_img :: "mem \<Rightarrow> mem" where
  "load_builded_img pm =
     write_bytes pm (guest_to_host RESET_VECTOR) (concat (map (bytes_of_word 4) img))"

definition load_img :: "(string \<Rightarrow> u8 list option) \<Rightarrow> monitor \<Rightarrow> mem \<Rightarrow> c_error + mem \<times> nat" where
  \<comment> \<open>with the contents of the files of the host; also returns the size\<close>
  "load_img files mo pm =
     (case img_file mo of
        None \<Rightarrow> Inr (pm, 4096)
      | Some f \<Rightarrow>
          (case files f of
             None \<Rightarrow> Inl Assert_fail
           | Some bs \<Rightarrow>
               if bs = [] then Inl Assert_fail
               else if \<not> host_ok (guest_to_host RESET_VECTOR) (length bs) then Inl Out_of_bounds
               else Inr (write_bytes pm (guest_to_host RESET_VECTOR) bs, length bs)))"

definition init_log :: "(string \<Rightarrow> bool) \<Rightarrow> string option \<Rightarrow> c_error + unit" where
  \<comment> \<open>with the test whether a file can be opened for writing\<close>
  "init_log can_write f =
     (case f of None \<Rightarrow> Inr () | Some p \<Rightarrow> guard (can_write p) Assert_fail)"

definition init_difftest ::
  "('d, 'r) env \<Rightarrow> (string \<Rightarrow> bool) \<Rightarrow> string option \<Rightarrow> nat \<Rightarrow> int \<Rightarrow> ('d, 'r) npc \<Rightarrow> c_error + ('d, 'r) npc" where
  \<comment> \<open>with the test whether a shared object can be loaded and has the symbols looked up\<close>
  "init_difftest E loadable so_file img_size port s =
     (case so_file of
        None \<Rightarrow> Inl Assert_fail
      | Some f \<Rightarrow>
          if \<not> loadable f then Inl Assert_fail
          else if \<not> host_ok (guest_to_host RESET_VECTOR) img_size then Inl Out_of_bounds
          else
            let r1 = ref_init E port (ref s);
                r2 = ref_memcpy E RESET_VECTOR
                       (read_bytes (pmem (hst s)) (guest_to_host RESET_VECTOR) img_size) r1;
                r3 = ref_set_regs E (cpu s) r2
            in Inr (s\<lparr>ref := r3\<rparr>))"

definition init_simulator ::
  "('d, 'r) env \<Rightarrow> (string \<Rightarrow> u8 list option) \<Rightarrow> (string \<Rightarrow> bool) \<Rightarrow> (string \<Rightarrow> bool) \<Rightarrow> cli_opt list \<Rightarrow>
     ('d, 'r) npc \<Rightarrow> c_error + ('d, 'r) npc" where
  "init_simulator E files can_write loadable args s =
     rbind (parse_args args monitor0) (\<lambda>mo.
     (case init_rand E s of (r, s1) \<Rightarrow>
     rbind (init_log can_write (log_file mo)) (\<lambda>_.
     rbind (load_img files mo (load_builded_img (init_mem r))) (\<lambda>(pm, img_size).
     rbind (npc_init E (s1\<lparr>hst := (hst s1)\<lparr>pmem := pm\<rparr>\<rparr>)) (\<lambda>s2.
       init_difftest E loadable (diff_so_file mo) img_size (difftest_port mo) s2)))))"

definition main ::
  "('d, 'r) env \<Rightarrow> (string \<Rightarrow> u8 list option) \<Rightarrow> (string \<Rightarrow> bool) \<Rightarrow> (string \<Rightarrow> bool) \<Rightarrow> cli_opt list \<Rightarrow>
     ('d, 'r) npc \<Rightarrow> (c_error + ('d, 'r) npc \<times> int) option" where
  "main E files can_write loadable args s =
     (case init_simulator E files can_write loadable args s of
        Inl e \<Rightarrow> Some (Inl e)
      | Inr s1 \<Rightarrow> map_option (\<lambda>r. rbind r (\<lambda>s2. Inr (s2, 0))) (cpu_exec E (- 1) s1))"

section \<open>What a run is: the core and the reference side by side\<close>

text \<open>The specification of the main loop speaks only of the parameters, the core with its ports and the reference. A clock
  cycle evaluates the core with the clock low and high; the core is \<open>quiet\<close> while it signals no commit. A commit is reported
  in a state \<open>d\<close> after quiet cycles, and one more cycle completes it.\<close>

type_synonym 'd core = "'d \<times> host"

abbreviation core_of :: "('d, 'r) npc \<Rightarrow> 'd core" where "core_of s \<equiv> (dut s, hst s)"

definition cycle :: "('d, 'r) env \<Rightarrow> bool \<Rightarrow> 'd core \<Rightarrow> 'd core \<Rightarrow> bool" where
  "cycle E r c c' \<longleftrightarrow> (\<exists>c1. eval E False r c = Inr c1 \<and> eval E True r c1 = Inr c')"

definition quiet :: "('d, 'r) env \<Rightarrow> bool \<Rightarrow> 'd core \<Rightarrow> 'd core \<Rightarrow> bool" where
  "quiet E r c c' \<longleftrightarrow> commit E (fst c) \<noteq> 1 \<and> cycle E r c c'"

definition silent :: "('d, 'r) env \<Rightarrow> bool \<Rightarrow> 'd core \<Rightarrow> bool" where
  \<comment> \<open>the core never commits again\<close>
  "silent E r c \<longleftrightarrow> (\<forall>k. \<exists>c'. (quiet E r ^^ k) c c')"

definition core_commit :: "('d, 'r) env \<Rightarrow> bool \<Rightarrow> 'd core \<Rightarrow> nat \<Rightarrow> 'd \<Rightarrow> 'd core \<Rightarrow> bool" where
  \<comment> \<open>in \<open>k\<close> cycles from \<open>c\<close> the core commits an instruction, reported in \<open>d\<close>, and is in \<open>c'\<close> afterwards\<close>
  "core_commit E r c k d c' \<longleftrightarrow> (\<exists>j h. k = Suc j \<and> (quiet E r ^^ j) c (d, h) \<and> commit E d = 1 \<and>
     commit_instr E d \<noteq> EBREAK \<and> cycle E r (d, h) c')"

definition core_stops :: "('d, 'r) env \<Rightarrow> bool \<Rightarrow> 'd core \<Rightarrow> nat \<Rightarrow> 'd core \<Rightarrow> bool" where
  \<comment> \<open>after \<open>k\<close> quiet cycles it reports an \<open>ebreak\<close>\<close>
  "core_stops E r c k c' \<longleftrightarrow> (quiet E r ^^ k) c c' \<and> commit E (fst c') = 1 \<and> commit_instr E (fst c') = EBREAK"

fun core_path :: "('d, 'r) env \<Rightarrow> bool \<Rightarrow> 'd core \<Rightarrow> (nat \<times> 'd \<times> 'd core) list \<Rightarrow> 'd core \<Rightarrow> bool" where
  "core_path E r c [] c' \<longleftrightarrow> c' = c"
| "core_path E r c ((k, d, c1) # xs) c' \<longleftrightarrow> core_commit E r c k d c1 \<and> core_path E r c1 xs c'"

definition accepted :: "('d, 'r) env \<Rightarrow> 'r \<Rightarrow> 'd \<Rightarrow> 'd core \<Rightarrow> bool" where
  \<comment> \<open>the reference, one instruction after \<open>rf\<close>, is at the program counter that the core reported in \<open>d\<close> as the next one, and
    has the registers of the core in \<open>c\<close>\<close>
  "accepted E rf d c \<longleftrightarrow> pc (ref_regs E (ref_exec E 1 rf)) = commit_pre_pc E d \<and>
     (\<exists>rs. reg_ptr E (fst c) = Some rs \<and> 32 \<le> length rs \<and>
        (\<forall>j < 32. gpr (ref_regs E (ref_exec E 1 rf)) ! j = rs ! j))"

fun agrees :: "('d, 'r) env \<Rightarrow> 'r \<Rightarrow> (nat \<times> 'd \<times> 'd core) list \<Rightarrow> bool" where
  "agrees E rf [] \<longleftrightarrow> True"
| "agrees E rf ((k, d, c) # xs) \<longleftrightarrow> accepted E rf d c \<and> agrees E (ref_exec E 1 rf) xs"

definition moved :: "nat \<Rightarrow> 'd core \<Rightarrow> ('d, 'r) npc \<Rightarrow> ('d, 'r) npc" where
  "moved k c s = s\<lparr>dut := fst c, hst := snd c, sim_time := sim_time s + 2 * of_nat k, clk_count := clk_count s + of_nat k\<rparr>"

definition committed :: "('d, 'r) env \<Rightarrow> nat \<Rightarrow> 'd \<Rightarrow> 'd core \<Rightarrow> ('d, 'r) npc \<Rightarrow> ('d, 'r) npc" where
  \<comment> \<open>the simulator after a commit: clocks, the copy of the registers, the reference and the trace\<close>
  "committed E k d c s = (moved k c s)\<lparr>
     cpu := (cpu s)\<lparr>pc := cur_pc E (fst c), gpr := take 32 (the (reg_ptr E (fst c)))\<rparr>,
     itrace := itrace s @ [(commit_pc E d, commit_instr E d)], ref := ref_exec E 1 (ref s)\<rparr>"

definition ended :: "('d, 'r) env \<Rightarrow> nat \<Rightarrow> 'd core \<Rightarrow> ('d, 'r) npc \<Rightarrow> ('d, 'r) npc" where
  "ended E k c s = (moved k c s)\<lparr>itrace := itrace s @ [(commit_pc E (fst c), EBREAK)],
     hst := (snd c)\<lparr>sim_state := (sim_state (snd c))\<lparr>state := SIM_END\<rparr>\<rparr>\<rparr>"

fun after :: "('d, 'r) env \<Rightarrow> (nat \<times> 'd \<times> 'd core) list \<Rightarrow> ('d, 'r) npc \<Rightarrow> ('d, 'r) npc" where
  "after E [] s = s"
| "after E ((k, d, c) # xs) s = after E xs (committed E k d c s)"

lemma moved_fields [simp]:
  "dut (moved k c s) = fst c" "hst (moved k c s) = snd c" "rst (moved k c s) = rst s" "ref (moved k c s) = ref s"
  "cpu (moved k c s) = cpu s" "itrace (moved k c s) = itrace s"
  by (simp_all add: moved_def)

lemma moved_0 [simp]: "moved 0 (core_of s) s = s"
  by (simp add: moved_def)

lemma moved_moved [simp]: "moved k c (moved j c' s) = moved (j + k) c s"
  by (simp add: moved_def algebra_simps)

lemma committed_fields [simp]:
  "core_of (committed E k d c s) = c" "rst (committed E k d c s) = rst s" "ref (committed E k d c s) = ref_exec E 1 (ref s)"
  "gpr (cpu (committed E k d c s)) = take 32 (the (reg_ptr E (fst c)))"
  by (simp_all add: committed_def)

lemma committed_moved: "committed E k d c (moved j c' s) = committed E (j + k) d c s"
  by (simp add: committed_def)

lemma cycle_fun: "cycle E r c c1 \<Longrightarrow> cycle E r c c2 \<Longrightarrow> c1 = c2"
  by (auto simp: cycle_def)

lemma quiet_pow_fun: "(quiet E r ^^ k) c c1 \<Longrightarrow> (quiet E r ^^ k) c c2 \<Longrightarrow> c1 = c2"
proof (induction k arbitrary: c1 c2)
  case (Suc k)
  then obtain b1 b2 where "(quiet E r ^^ k) c b1" "quiet E r b1 c1" "(quiet E r ^^ k) c b2" "quiet E r b2 c2" by auto
  moreover from this have "b1 = b2" by (blast intro: Suc.IH)
  ultimately show ?case by (metis cycle_fun quiet_def)
qed simp

lemma single_cycle_iff:
  "npc_single_cycle E s = Inr s' \<longleftrightarrow> (\<exists>c. cycle E (rst s) (core_of s) c \<and> s' = moved 1 c s)"
proof -
  have "s\<lparr>dut := d1, hst := h1, sim_time := sim_time s + 1, dut := d2, hst := h2, sim_time := sim_time s + 1 + 1,
      clk_count := clk_count s + 1\<rparr> = moved 1 (d2, h2) s" for d1 h1 d2 h2
    by (simp add: moved_def)
  then show ?thesis by (auto simp: npc_single_cycle_def npc_eval_def cycle_def rbind_Inr_iff split: prod.splits)
qed

lemma single_cycle_moved_error: "npc_single_cycle E s = Inl e \<Longrightarrow> \<not> cycle E (rst s) (core_of s) c"
  by (metis Inl_Inr_False single_cycle_iff)

section \<open>Waiting for a commit\<close>

lemma wait_commit_cases:
  "wait_commit E s =
     (if commit E (dut s) \<noteq> 1 then
        (case npc_single_cycle E s of Inl e \<Rightarrow> Some (Inl e) | Inr s' \<Rightarrow> wait_commit E s')
      else Some (Inr s))"
  by (rule wait_commit.simps)

lemma quiet_wait: "(quiet E (rst s) ^^ k) (core_of s) c \<Longrightarrow> wait_commit E s = wait_commit E (moved k c s)"
proof (induction k arbitrary: c)
  case (Suc k)
  then obtain c1 where c1: "(quiet E (rst s) ^^ k) (core_of s) c1" "quiet E (rst s) c1 c" by auto
  have "npc_single_cycle E (moved k c1 s) = Inr (moved (k + 1) c s)"
    unfolding single_cycle_iff using c1(2) by (intro exI [of _ c]) (simp add: quiet_def)
  then show ?case using Suc.IH [OF c1(1)] c1(2) by (subst (asm) (2) wait_commit_cases) (simp add: quiet_def)
qed simp

lemma wait_commit_result:
  assumes run: "wait_commit E s = Some r"
  shows "\<exists>k c. (quiet E (rst s) ^^ k) (core_of s) c \<and> (case r of
      Inr s' \<Rightarrow> commit E (fst c) = 1 \<and> s' = moved k c s
    | Inl e \<Rightarrow> npc_single_cycle E (moved k c s) = Inl e)"
proof (rule wait_commit.raw_induct [where P = "\<lambda>E s r. \<exists>k c. (quiet E (rst s) ^^ k) (core_of s) c \<and> (case r of
      Inr s' \<Rightarrow> commit E (fst c) = 1 \<and> s' = moved k c s
    | Inl e \<Rightarrow> npc_single_cycle E (moved k c s) = Inl e)", OF _ run])
  fix wc and E :: "('a, 'b) env" and s :: "('a, 'b) npc" and r
  let ?P = "\<lambda>E s r. \<exists>k c. (quiet E (rst s) ^^ k) (core_of s) c \<and> (case r of
      Inr s' \<Rightarrow> commit E (fst c) = 1 \<and> s' = moved k c s
    | Inl e \<Rightarrow> npc_single_cycle E (moved k c s) = Inl e)"
  assume ih: "\<And>E s r. wc E s = Some r \<Longrightarrow> ?P E s r"
    and body: "(if commit E (dut s) \<noteq> 1 then
        (case npc_single_cycle E s of Inl e \<Rightarrow> Some (Inl e) | Inr s' \<Rightarrow> wc E s')
      else Some (Inr s)) = Some r"
  consider "commit E (dut s) = 1" "r = Inr s" | e where "npc_single_cycle E s = Inl e" "r = Inl e"
    | s1 where "commit E (dut s) \<noteq> 1" "npc_single_cycle E s = Inr s1" "wc E s1 = Some r"
    using body by (cases "npc_single_cycle E s") (auto split: if_splits)
  then show "?P E s r"
  proof cases
    case 3
    obtain c1 where c1: "cycle E (rst s) (core_of s) c1" "s1 = moved 1 c1 s" using 3(2) by (auto simp: single_cycle_iff)
    obtain k c where k: "(quiet E (rst s) ^^ k) c1 c"
      "case r of Inr s' \<Rightarrow> commit E (fst c) = 1 \<and> s' = moved k c s1 | Inl e \<Rightarrow> npc_single_cycle E (moved k c s1) = Inl e"
      using ih [OF 3(3)] c1(2) by auto
    have "(quiet E (rst s) ^^ Suc k) (core_of s) c"
      using relpowp_Suc_I2 [OF _ k(1)] 3(1) c1(1) by (simp add: quiet_def)
    then show ?thesis using k(2) c1(2) by (intro exI [of _ "Suc k"] exI [of _ c]) (auto split: sum.splits)
  qed (intro exI [of _ 0] exI [of _ "core_of s"]; simp)+
qed

lemma wait_commit_iff:
  "wait_commit E s = Some (Inr s') \<longleftrightarrow>
    (\<exists>k c. (quiet E (rst s) ^^ k) (core_of s) c \<and> commit E (fst c) = 1 \<and> s' = moved k c s)"
proof
  assume "\<exists>k c. (quiet E (rst s) ^^ k) (core_of s) c \<and> commit E (fst c) = 1 \<and> s' = moved k c s"
  then obtain k c where c: "(quiet E (rst s) ^^ k) (core_of s) c" "commit E (fst c) = 1" "s' = moved k c s" by blast
  then show "wait_commit E s = Some (Inr s')"
    using quiet_wait [OF c(1)] by (subst (asm) (2) wait_commit_cases) simp
qed (use wait_commit_result [of E s "Inr s'"] in auto)

lemma wait_commit_None: "wait_commit E s = None \<longleftrightarrow> silent E (rst s) (core_of s)"
proof
  assume n: "wait_commit E s = None"
  have "\<exists>c. (quiet E (rst s) ^^ k) (core_of s) c" for k
  proof (induction k)
    case (Suc k)
    then obtain c where c: "(quiet E (rst s) ^^ k) (core_of s) c" by blast
    have "wait_commit E (moved k c s) = None" using quiet_wait [OF c] n by simp
    then obtain s1 where "commit E (fst c) \<noteq> 1" "npc_single_cycle E (moved k c s) = Inr s1"
      by (subst (asm) wait_commit_cases) (auto split: if_splits sum.splits)
    then have "\<exists>c'. quiet E (rst s) c c'" by (auto simp: quiet_def single_cycle_iff)
    then show ?case using c by auto
  qed simp
  then show "silent E (rst s) (core_of s)" by (simp add: silent_def)
next
  assume silent: "silent E (rst s) (core_of s)"
  show "wait_commit E s = None"
  proof (rule ccontr)
    assume "wait_commit E s \<noteq> None"
    then obtain r where r: "wait_commit E s = Some r" by blast
    from wait_commit_result [OF r] obtain k c where c: "(quiet E (rst s) ^^ k) (core_of s) c"
      "case r of Inr s' \<Rightarrow> commit E (fst c) = 1 \<and> s' = moved k c s | Inl e \<Rightarrow> npc_single_cycle E (moved k c s) = Inl e"
      by blast
    obtain c' where "(quiet E (rst s) ^^ Suc k) (core_of s) c'" using silent unfolding silent_def by blast
    then obtain c1 where "(quiet E (rst s) ^^ k) (core_of s) c1" "quiet E (rst s) c1 c'" by auto
    then have "quiet E (rst s) c c'" using quiet_pow_fun [OF c(1)] by blast
    then show False using c(2) single_cycle_moved_error [of E "moved k c s"] by (auto simp: quiet_def split: sum.splits)
  qed
qed

section \<open>Comparing with the reference\<close>

lemma check_gprs_iff: "check_gprs rf c i = Inr u \<longleftrightarrow> (\<forall>j. i \<le> j \<and> j < 32 \<longrightarrow> gpr rf ! j = gpr c ! j)"
proof (induction rf c i rule: check_gprs.induct)
  case (1 rf c i)
  show ?case
  proof (cases "i < 32 \<and> gpr rf ! i = gpr c ! i")
    case True
    then have "check_gprs rf c i = check_gprs rf c (i + 1)" by (subst check_gprs.simps) simp
    then show ?thesis using 1 True by (metis Suc_eq_plus1 Suc_leD le_antisym not_less_eq_eq)
  next
    case False
    then show ?thesis by (subst check_gprs.simps) auto
  qed
qed

lemma difftest_step_iff:
  "difftest_step E p np s = Inr s' \<longleftrightarrow> s' = s\<lparr>ref := ref_exec E 1 (ref s)\<rparr> \<and>
     np = pc (ref_regs E (ref_exec E 1 (ref s))) \<and>
     (\<forall>j < 32. gpr (ref_regs E (ref_exec E 1 (ref s))) ! j = gpr (cpu s) ! j)"
  by (auto simp: difftest_step_def checkregs_def Let_def rbind_Inr_iff check_gprs_iff split: if_splits)

lemma update_cpu_state_iff:
  "update_cpu_state E s = Inr s' \<longleftrightarrow> (\<exists>rs. reg_ptr E (dut s) = Some rs \<and> 32 \<le> length rs \<and>
     s' = s\<lparr>cpu := (cpu s)\<lparr>pc := cur_pc E (dut s), gpr := take 32 rs\<rparr>\<rparr>)"
  by (auto simp: update_cpu_state_def Let_def split: option.splits)

lemma commit_one_iff:
  "commit_one E s = Inr s' \<longleftrightarrow>
    (\<exists>c. cycle E (rst s) (core_of s) c \<and> accepted E (ref s) (dut s) c \<and> s' = committed E 1 (dut s) c s)"
proof
  assume "commit_one E s = Inr s'"
  then obtain s1 s2 where s1: "npc_single_cycle E s = Inr s1" and s2: "update_cpu_state E s1 = Inr s2"
    and d: "difftest_step E (commit_pc E (dut s)) (commit_pre_pc E (dut s))
        (instr_trace (commit_pc E (dut s)) (commit_instr E (dut s)) s2) = Inr s'"
    by (auto simp: commit_one_def Let_def rbind_Inr_iff)
  obtain c where c: "cycle E (rst s) (core_of s) c" "s1 = moved 1 c s" using s1 unfolding single_cycle_iff by blast
  have "accepted E (ref s) (dut s) c \<and> s' = committed E 1 (dut s) c s"
    using s2 d unfolding update_cpu_state_iff difftest_step_iff c(2)
    by (auto simp: instr_trace_def accepted_def committed_def)
  then show "\<exists>c. cycle E (rst s) (core_of s) c \<and> accepted E (ref s) (dut s) c \<and> s' = committed E 1 (dut s) c s"
    using c(1) by blast
next
  assume "\<exists>c. cycle E (rst s) (core_of s) c \<and> accepted E (ref s) (dut s) c \<and> s' = committed E 1 (dut s) c s"
  then obtain c rs where c: "cycle E (rst s) (core_of s) c" "accepted E (ref s) (dut s) c" "s' = committed E 1 (dut s) c s"
    and rs: "reg_ptr E (fst c) = Some rs" "32 \<le> length rs" unfolding accepted_def by blast
  let ?s1 = "moved 1 c s"
  let ?s2 = "?s1\<lparr>cpu := (cpu s)\<lparr>pc := cur_pc E (fst c), gpr := take 32 rs\<rparr>\<rparr>"
  have "npc_single_cycle E s = Inr ?s1" using c(1) unfolding single_cycle_iff by blast
  moreover have "update_cpu_state E ?s1 = Inr ?s2" using rs unfolding update_cpu_state_iff by simp
  moreover have "difftest_step E (commit_pc E (dut s)) (commit_pre_pc E (dut s))
      (instr_trace (commit_pc E (dut s)) (commit_instr E (dut s)) ?s2) = Inr s'"
    using c(2,3) rs unfolding difftest_step_iff
    by (auto simp: instr_trace_def accepted_def committed_def)
  ultimately show "commit_one E s = Inr s'" by (simp add: commit_one_def Let_def)
qed

section \<open>The main loop\<close>

lemma execute_cases:
  "execute E n s =
     (if n > 0 then
        Option.bind (wait_commit E s) (\<lambda>r. case r of
          Inl e \<Rightarrow> Some (Inl e)
        | Inr s1 \<Rightarrow>
            if commit_instr E (dut s1) = EBREAK then
              (let s2 = instr_trace (commit_pc E (dut s1)) (commit_instr E (dut s1)) s1
               in Some (Inr (s2\<lparr>hst := put_state SIM_END (hst s2)\<rparr>)))
            else (case commit_one E s1 of
                Inl e \<Rightarrow> Some (Inl e)
              | Inr s2 \<Rightarrow> execute E (n - 1) s2))
      else Some (Inr s))"
  by (rule execute.simps)

lemma execute_step_iff:
  assumes "0 < n"
  shows "execute E n s = Some (Inr s') \<longleftrightarrow>
    (\<exists>k c. core_stops E (rst s) (core_of s) k c \<and> s' = ended E k c s) \<or>
    (\<exists>k d c. core_commit E (rst s) (core_of s) k d c \<and> accepted E (ref s) d c \<and>
       execute E (n - 1) (committed E k d c s) = Some (Inr s'))"
proof
  assume e: "execute E n s = Some (Inr s')"
  then obtain s1 where w: "wait_commit E s = Some (Inr s1)"
    using assms by (subst (asm) execute_cases) (auto split: bind_splits sum.splits)
  then obtain k c where c: "(quiet E (rst s) ^^ k) (core_of s) c" "commit E (fst c) = 1" "s1 = moved k c s"
    by (auto simp: wait_commit_iff)
  show "(\<exists>k c. core_stops E (rst s) (core_of s) k c \<and> s' = ended E k c s) \<or>
    (\<exists>k d c. core_commit E (rst s) (core_of s) k d c \<and> accepted E (ref s) d c \<and>
       execute E (n - 1) (committed E k d c s) = Some (Inr s'))"
  proof (cases "commit_instr E (fst c) = EBREAK")
    case True
    have "s' = ended E k c s"
      using e assms w True unfolding c(3)
      by (subst (asm) execute_cases) (simp add: Let_def instr_trace_def put_state_def ended_def)
    moreover have "core_stops E (rst s) (core_of s) k c" using c True by (simp add: core_stops_def)
    ultimately show ?thesis by blast
  next
    case False
    obtain s2 where s2: "commit_one E s1 = Inr s2" "execute E (n - 1) s2 = Some (Inr s')"
      using e assms w False unfolding c(3) by (subst (asm) execute_cases) (auto split: sum.splits)
    then obtain c' where c': "cycle E (rst s) c c'" "accepted E (ref s) (fst c) c'" "s2 = committed E (k + 1) (fst c) c' s"
      unfolding commit_one_iff c(3) by (auto simp: committed_moved)
    have "core_commit E (rst s) (core_of s) (k + 1) (fst c) c'"
      unfolding core_commit_def using c c'(1) False by (intro exI [of _ k] exI [of _ "snd c"]) simp
    then show ?thesis using c'(2,3) s2(2) by blast
  qed
next
  assume "(\<exists>k c. core_stops E (rst s) (core_of s) k c \<and> s' = ended E k c s) \<or>
    (\<exists>k d c. core_commit E (rst s) (core_of s) k d c \<and> accepted E (ref s) d c \<and>
       execute E (n - 1) (committed E k d c s) = Some (Inr s'))"
  then show "execute E n s = Some (Inr s')"
  proof (elim disjE exE conjE)
    fix k c assume c: "core_stops E (rst s) (core_of s) k c" "s' = ended E k c s"
    then have "wait_commit E s = Some (Inr (moved k c s))" unfolding wait_commit_iff core_stops_def by blast
    then show ?thesis
      using assms c by (subst execute_cases)
        (simp add: core_stops_def Let_def instr_trace_def put_state_def ended_def)
  next
    fix k d c assume c: "core_commit E (rst s) (core_of s) k d c" "accepted E (ref s) d c"
      "execute E (n - 1) (committed E k d c s) = Some (Inr s')"
    then obtain j h where j: "k = Suc j" "(quiet E (rst s) ^^ j) (core_of s) (d, h)" "commit E d = 1"
      "commit_instr E d \<noteq> EBREAK" "cycle E (rst s) (d, h) c" by (auto simp: core_commit_def)
    then have "wait_commit E s = Some (Inr (moved j (d, h) s))" unfolding wait_commit_iff by (intro exI [of _ j] exI [of _ "(d, h)"]) simp
    moreover have "commit_one E (moved j (d, h) s) = Inr (committed E k d c s)"
      unfolding commit_one_iff using j c(2) by (intro exI [of _ c]) (simp add: committed_moved)
    ultimately show ?thesis using assms c(3) j(4) by (subst execute_cases) simp
  qed
qed

lemma execute_None_step:
  assumes "0 < n"
  shows "execute E n s = None \<longleftrightarrow> silent E (rst s) (core_of s) \<or>
    (\<exists>k d c. core_commit E (rst s) (core_of s) k d c \<and> accepted E (ref s) d c \<and>
       execute E (n - 1) (committed E k d c s) = None)"
proof
  assume e: "execute E n s = None"
  show "silent E (rst s) (core_of s) \<or>
    (\<exists>k d c. core_commit E (rst s) (core_of s) k d c \<and> accepted E (ref s) d c \<and>
       execute E (n - 1) (committed E k d c s) = None)"
  proof (cases "wait_commit E s")
    case None
    then show ?thesis by (simp add: wait_commit_None)
  next
    case (Some r)
    then obtain s1 s2 where s1: "r = Inr s1" "commit_instr E (dut s1) \<noteq> EBREAK" "commit_one E s1 = Inr s2"
      "execute E (n - 1) s2 = None"
      using e assms by (subst (asm) execute_cases) (auto simp: Let_def split: sum.splits if_splits)
    then obtain k c where c: "(quiet E (rst s) ^^ k) (core_of s) c" "commit E (fst c) = 1" "s1 = moved k c s"
      using Some by (auto simp: wait_commit_iff)
    obtain c' where c': "cycle E (rst s) c c'" "accepted E (ref s) (fst c) c'" "s2 = committed E (k + 1) (fst c) c' s"
      using s1(3) unfolding commit_one_iff c(3) by (auto simp: committed_moved)
    have "core_commit E (rst s) (core_of s) (k + 1) (fst c) c'"
      unfolding core_commit_def using c c'(1) s1(2) by (intro exI [of _ k] exI [of _ "snd c"]) simp
    then show ?thesis using c'(2,3) s1(4) by blast
  qed
next
  assume "silent E (rst s) (core_of s) \<or>
    (\<exists>k d c. core_commit E (rst s) (core_of s) k d c \<and> accepted E (ref s) d c \<and>
       execute E (n - 1) (committed E k d c s) = None)"
  then show "execute E n s = None"
  proof (elim disjE exE conjE)
    assume "silent E (rst s) (core_of s)"
    then have "wait_commit E s = None" by (simp add: wait_commit_None)
    then show ?thesis using assms by (subst execute_cases) simp
  next
    fix k d c assume c: "core_commit E (rst s) (core_of s) k d c" "accepted E (ref s) d c"
      "execute E (n - 1) (committed E k d c s) = None"
    then obtain j h where j: "k = Suc j" "(quiet E (rst s) ^^ j) (core_of s) (d, h)" "commit E d = 1"
      "commit_instr E d \<noteq> EBREAK" "cycle E (rst s) (d, h) c" by (auto simp: core_commit_def)
    then have "wait_commit E s = Some (Inr (moved j (d, h) s))" unfolding wait_commit_iff by (intro exI [of _ j] exI [of _ "(d, h)"]) simp
    moreover have "commit_one E (moved j (d, h) s) = Inr (committed E k d c s)"
      unfolding commit_one_iff using j c(2) by (intro exI [of _ c]) (simp add: committed_moved)
    ultimately show ?thesis using assms c(3) j(4) by (subst execute_cases) simp
  qed
qed

section \<open>Runs of several instructions\<close>

definition runs :: "('d, 'r) env \<Rightarrow> nat \<Rightarrow> ('d, 'r) npc \<Rightarrow> ('d, 'r) npc \<Rightarrow> bool" where
  \<comment> \<open>\<open>n\<close> accepted instructions, or fewer and then an \<open>ebreak\<close>\<close>
  "runs E n s s' \<longleftrightarrow> (\<exists>xs c. core_path E (rst s) (core_of s) xs c \<and> agrees E (ref s) xs \<and>
     (length xs = n \<and> s' = after E xs s \<or>
      length xs < n \<and> (\<exists>k c'. core_stops E (rst s) c k c' \<and> s' = ended E k c' (after E xs s))))"

definition hangs :: "('d, 'r) env \<Rightarrow> nat \<Rightarrow> ('d, 'r) npc \<Rightarrow> bool" where
  \<comment> \<open>fewer than \<open>n\<close> accepted instructions, and the core never commits again\<close>
  "hangs E n s \<longleftrightarrow> (\<exists>xs c. core_path E (rst s) (core_of s) xs c \<and> agrees E (ref s) xs \<and>
     length xs < n \<and> silent E (rst s) c)"

lemma core_path_cases:
  "core_path E r c xs c' \<longleftrightarrow> xs = [] \<and> c' = c \<or>
    (\<exists>k d c1 ys. xs = (k, d, c1) # ys \<and> core_commit E r c k d c1 \<and> core_path E r c1 ys c')"
  by (cases xs) auto

lemma runs_0: "runs E 0 s s' \<longleftrightarrow> s' = s"
  by (auto simp: runs_def)

lemma runs_Suc:
  "runs E (Suc n) s s' \<longleftrightarrow>
    (\<exists>k c. core_stops E (rst s) (core_of s) k c \<and> s' = ended E k c s) \<or>
    (\<exists>k d c. core_commit E (rst s) (core_of s) k d c \<and> accepted E (ref s) d c \<and> runs E n (committed E k d c s) s')"
proof
  assume "runs E (Suc n) s s'"
  then obtain xs c where p: "core_path E (rst s) (core_of s) xs c" "agrees E (ref s) xs"
    "length xs = Suc n \<and> s' = after E xs s \<or>
     length xs < Suc n \<and> (\<exists>k c'. core_stops E (rst s) c k c' \<and> s' = ended E k c' (after E xs s))"
    unfolding runs_def by blast
  show "(\<exists>k c. core_stops E (rst s) (core_of s) k c \<and> s' = ended E k c s) \<or>
    (\<exists>k d c. core_commit E (rst s) (core_of s) k d c \<and> accepted E (ref s) d c \<and> runs E n (committed E k d c s) s')"
  proof (cases xs)
    case Nil
    then show ?thesis using p by auto
  next
    case (Cons x ys)
    obtain k d c1 where x: "x = (k, d, c1)" by (cases x) auto
    have "core_commit E (rst s) (core_of s) k d c1" "accepted E (ref s) d c1" using p(1,2) Cons x by simp_all
    moreover have "runs E n (committed E k d c1 s) s'"
      unfolding runs_def committed_fields using p Cons x by (intro exI [of _ ys] exI [of _ c]) simp
    ultimately show ?thesis by blast
  qed
next
  assume "(\<exists>k c. core_stops E (rst s) (core_of s) k c \<and> s' = ended E k c s) \<or>
    (\<exists>k d c. core_commit E (rst s) (core_of s) k d c \<and> accepted E (ref s) d c \<and> runs E n (committed E k d c s) s')"
  then show "runs E (Suc n) s s'"
  proof (elim disjE exE conjE)
    fix k c assume "core_stops E (rst s) (core_of s) k c" "s' = ended E k c s"
    then have "\<exists>k c. core_stops E (rst s) (core_of s) k c \<and> s' = ended E k c s" by blast
    then show ?thesis unfolding runs_def by (intro exI [of _ "[]"] exI [of _ "core_of s"]) simp
  next
    fix k d c assume c: "core_commit E (rst s) (core_of s) k d c" "accepted E (ref s) d c" "runs E n (committed E k d c s) s'"
    then obtain xs c' where "core_path E (rst s) c xs c'" "agrees E (ref_exec E 1 (ref s)) xs"
      "length xs = n \<and> s' = after E xs (committed E k d c s) \<or>
       length xs < n \<and> (\<exists>j c''. core_stops E (rst s) c' j c'' \<and> s' = ended E j c'' (after E xs (committed E k d c s)))"
      unfolding runs_def committed_fields by blast
    then show ?thesis
      unfolding runs_def using c(1,2) by (intro exI [of _ "(k, d, c) # xs"] exI [of _ c']) simp
  qed
qed

lemma hangs_Suc:
  "hangs E (Suc n) s \<longleftrightarrow> silent E (rst s) (core_of s) \<or>
    (\<exists>k d c. core_commit E (rst s) (core_of s) k d c \<and> accepted E (ref s) d c \<and> hangs E n (committed E k d c s))"
proof
  assume "hangs E (Suc n) s"
  then obtain xs c where p: "core_path E (rst s) (core_of s) xs c" "agrees E (ref s) xs" "length xs < Suc n" "silent E (rst s) c"
    unfolding hangs_def by blast
  show "silent E (rst s) (core_of s) \<or>
    (\<exists>k d c. core_commit E (rst s) (core_of s) k d c \<and> accepted E (ref s) d c \<and> hangs E n (committed E k d c s))"
  proof (cases xs)
    case (Cons x ys)
    obtain k d c1 where x: "x = (k, d, c1)" by (cases x) auto
    have "core_commit E (rst s) (core_of s) k d c1" "accepted E (ref s) d c1" using p(1,2) Cons x by simp_all
    moreover have "hangs E n (committed E k d c1 s)"
      unfolding hangs_def committed_fields using p Cons x by (intro exI [of _ ys] exI [of _ c]) simp
    ultimately show ?thesis by blast
  qed (use p in simp)
next
  assume "silent E (rst s) (core_of s) \<or>
    (\<exists>k d c. core_commit E (rst s) (core_of s) k d c \<and> accepted E (ref s) d c \<and> hangs E n (committed E k d c s))"
  then show "hangs E (Suc n) s"
  proof (elim disjE exE conjE)
    assume "silent E (rst s) (core_of s)"
    then show ?thesis unfolding hangs_def by (intro exI [of _ "[]"] exI [of _ "core_of s"]) auto
  next
    fix k d c assume c: "core_commit E (rst s) (core_of s) k d c" "accepted E (ref s) d c" "hangs E n (committed E k d c s)"
    then obtain xs c' where "core_path E (rst s) c xs c'" "agrees E (ref_exec E 1 (ref s)) xs" "length xs < n" "silent E (rst s) c'"
      unfolding hangs_def committed_fields by blast
    then show ?thesis
      unfolding hangs_def using c(1,2) by (intro exI [of _ "(k, d, c) # xs"] exI [of _ c']) simp
  qed
qed

lemma unat_pred: "unat n = Suc k \<Longrightarrow> 0 < n \<and> unat (n - 1) = k" for n :: u64
  by (auto simp: unat_gt_0 [symmetric] word_less_nat_alt unat_minus_one)

lemma execute_runs: "execute E n s = Some (Inr s') \<longleftrightarrow> runs E (unat n) s s'"
proof (induction "unat n" arbitrary: n s)
  case 0
  then have "n = 0" by (simp add: unat_eq_0)
  then show ?case by (subst execute_cases) (auto simp: runs_0)
next
  case (Suc k)
  have n: "0 < n" "unat (n - 1) = k" using unat_pred [of n k] Suc.hyps(2) by simp_all
  show ?case
    unfolding execute_step_iff [OF n(1)] Suc.hyps(2) [symmetric] runs_Suc
    using Suc.hyps(1) [OF n(2) [symmetric]] n(2) by simp
qed

lemma execute_hangs: "execute E n s = None \<longleftrightarrow> hangs E (unat n) s"
proof (induction "unat n" arbitrary: n s)
  case 0
  then have "n = 0" by (simp add: unat_eq_0)
  then show ?case by (subst execute_cases) (simp add: hangs_def)
next
  case (Suc k)
  have n: "0 < n" "unat (n - 1) = k" using unat_pred [of n k] Suc.hyps(2) by simp_all
  show ?case
    unfolding execute_None_step [OF n(1)] Suc.hyps(2) [symmetric] hangs_Suc
    using Suc.hyps(1) [OF n(2) [symmetric]] n(2) by simp
qed

lemma after_ref: "ref (after E xs s) = (ref_exec E 1 ^^ length xs) (ref s)"
  by (induction E xs s rule: after.induct) (simp_all add: funpow_swap1)

lemma ended_fields [simp]:
  "ref (ended E k c s) = ref s" "cpu (ended E k c s) = cpu s" "state (sim_state (hst (ended E k c s))) = SIM_END"
  by (simp_all add: ended_def)

definition same_regs :: "('d, 'r) env \<Rightarrow> ('d, 'r) npc \<Rightarrow> bool" where
  \<comment> \<open>the registers last read from the core are those of the reference\<close>
  "same_regs E s \<longleftrightarrow> (\<forall>j < 32. gpr (cpu s) ! j = gpr (ref_regs E (ref s)) ! j)"

lemma after_same_regs:
  "agrees E (ref s) xs \<Longrightarrow> xs \<noteq> [] \<or> same_regs E s \<Longrightarrow> same_regs E (after E xs s)"
proof (induction E xs s rule: after.induct)
  case (2 E k d c xs s)
  then have "same_regs E (committed E k d c s)" by (auto simp: accepted_def same_regs_def)
  then show ?case using 2 by simp
qed simp

lemma agrees_nth:
  "agrees E rf xs \<Longrightarrow> i < length xs \<Longrightarrow> (case xs ! i of (k, d, c) \<Rightarrow> accepted E ((ref_exec E 1 ^^ i) rf) d c)"
proof (induction E rf xs arbitrary: i rule: agrees.induct)
  case (2 E rf k d c xs)
  then show ?case by (cases i) (simp_all add: funpow_swap1)
qed simp

text \<open>C9: \<open>execute(n)\<close> refines the run of the core beside the reference. It returns normally exactly when the core commits
  \<open>n\<close> instructions, or fewer and then reports an \<open>ebreak\<close>, such that after each of them the reference, which has executed as
  many instructions, is at the program counter that the core reported as the next one and has the registers of the core. The state
  it leaves is then that of the core, with twice as many half periods in \<open>sim_time\<close> as clock cycles were needed and that
  number of cycles in \<open>clk_count\<close>, the reference advanced by one instruction for each commit, the copy of the program
  counter and the registers taken after the last one, and in the trace the committed instructions in order, an \<open>ebreak\<close> last, which
  also sets the state \<open>SIM_END\<close>.\<close>

theorem execute_refines_commits:
  "execute E n s = Some (Inr s') \<longleftrightarrow>
    (\<exists>xs c. core_path E (rst s) (core_of s) xs c \<and> agrees E (ref s) xs \<and>
       (length xs = unat n \<and> s' = after E xs s \<or>
        length xs < unat n \<and> (\<exists>k c'. core_stops E (rst s) c k c' \<and> s' = ended E k c' (after E xs s))))"
  by (simp only: execute_runs runs_def)

text \<open>C8: differential testing is sound: when \<open>execute(n)\<close> returns normally, the core has committed \<open>n\<close> instructions, or
  fewer and then an \<open>ebreak\<close> with the state \<open>SIM_END\<close>. After each of them the reference, having executed as many instructions,
  had as its program counter the one that the core reported as the next, and its 32 registers had the values of the core's register
  file at that moment. At the end the reference has executed exactly as many instructions as the core has committed, and the registers
  in \<open>cpu\<close> are those of the reference.\<close>

theorem difftest_sound:
  assumes "execute E n s = Some (Inr s')"
  shows "\<exists>xs c. core_path E (rst s) (core_of s) xs c \<and> ref s' = (ref_exec E 1 ^^ length xs) (ref s) \<and>
    (length xs = unat n \<or>
     length xs < unat n \<and> state (sim_state (hst s')) = SIM_END \<and> (\<exists>k c'. core_stops E (rst s) c k c')) \<and>
    (\<forall>i < length xs. case xs ! i of (k, d, c) \<Rightarrow>
       let r = ref_regs E ((ref_exec E 1 ^^ Suc i) (ref s)) in
       pc r = commit_pre_pc E d \<and> (\<exists>rs. reg_ptr E (fst c) = Some rs \<and> 32 \<le> length rs \<and> (\<forall>j < 32. gpr r ! j = rs ! j))) \<and>
    (0 < length xs \<longrightarrow> (\<forall>j < 32. gpr (cpu s') ! j = gpr (ref_regs E (ref s')) ! j))"
proof -
  obtain xs c where p: "core_path E (rst s) (core_of s) xs c" "agrees E (ref s) xs"
    "length xs = unat n \<and> s' = after E xs s \<or>
     length xs < unat n \<and> (\<exists>k c'. core_stops E (rst s) c k c' \<and> s' = ended E k c' (after E xs s))"
    using assms unfolding execute_runs runs_def by blast
  then have f: "ref s' = ref (after E xs s)" "cpu s' = cpu (after E xs s)"
    "length xs < unat n \<Longrightarrow> state (sim_state (hst s')) = SIM_END" by auto
  have "case xs ! i of (k, d, c) \<Rightarrow>
       let r = ref_regs E ((ref_exec E 1 ^^ Suc i) (ref s)) in
       pc r = commit_pre_pc E d \<and> (\<exists>rs. reg_ptr E (fst c) = Some rs \<and> 32 \<le> length rs \<and> (\<forall>j < 32. gpr r ! j = rs ! j))"
    if "i < length xs" for i
    using agrees_nth [OF p(2) that] by (simp add: accepted_def Let_def split: prod.splits)
  moreover have "\<forall>j < 32. gpr (cpu s') ! j = gpr (ref_regs E (ref s')) ! j" if "0 < length xs"
    using after_same_regs [OF p(2)] that by (simp add: same_regs_def f)
  moreover have "ref s' = (ref_exec E 1 ^^ length xs) (ref s)" using f(1) after_ref by simp
  moreover have "length xs = unat n \<or>
    length xs < unat n \<and> state (sim_state (hst s')) = SIM_END \<and> (\<exists>k c'. core_stops E (rst s) c k c')"
    using p(3) f(3) by blast
  ultimately show ?thesis using p(1) by blast
qed

text \<open>C10: \<open>execute(n)\<close> does not return exactly when the core, after fewer than \<open>n\<close> commits that the comparison with the
  reference accepts, never commits again although each of its clock cycles succeeds; then the wait for a commit has no end.\<close>

theorem execute_hangs_without_commit:
  "execute E n s = None \<longleftrightarrow>
    (\<exists>xs c. core_path E (rst s) (core_of s) xs c \<and> agrees E (ref s) xs \<and> length xs < unat n \<and>
       (\<forall>k. \<exists>c'. (quiet E (rst s) ^^ k) c c'))"
  by (simp only: execute_hangs hangs_def silent_def)

section \<open>A small core\<close>

text \<open>A small core and reference to run the simulator on: the core commits in every second cycle, its
  registers count the instructions, and the third instruction is an \<open>ebreak\<close>.\<close>

definition demo_env :: "(nat, nat) env" where
  "demo_env = \<lparr>
     eval = (\<lambda>clk rst (d, h). Inr (if clk \<and> \<not> rst then d + 1 else d, h)),
     commit = (\<lambda>d. if odd d then 1 else 0),
     commit_pc = (\<lambda>d. 0x80000000 + 4 * of_nat (d div 2)),
     commit_pre_pc = (\<lambda>d. 0x80000000 + 4 * of_nat ((d + 1) div 2)),
     commit_instr = (\<lambda>d. if d < 4 then 0x13 else EBREAK),
     cur_pc = (\<lambda>d. 0x80000000 + 4 * of_nat (d div 2)),
     reg_ptr = (\<lambda>d. Some (replicate 32 (of_nat (d div 2)))),
     ref_exec = (\<lambda>n r. r + unat n),
     ref_regs = (\<lambda>r. \<lparr>gpr = replicate 32 (of_nat r), pc = 0x80000000 + 4 * of_nat r, csr = []\<rparr>),
     ref_set_regs = (\<lambda>c r. r), ref_memcpy = (\<lambda>a bs r. r), ref_init = (\<lambda>p r. r),
     gettimeofday = (\<lambda>i. (1, of_nat i)), host_rand = (\<lambda>x. 7) \<rparr>"

definition demo_npc :: "(nat, nat) npc" where
  "demo_npc = \<lparr>dut = 0, rst = False,
     hst = \<lparr>pmem = (\<lambda>_. 0), uart = [], sim_state = \<lparr>state = SIM_STOP, halt_pc = 0, halt_ret = 0\<rparr>\<rparr>,
     cpu = \<lparr>gpr = replicate 32 0, pc = 0x80000000, csr = []\<rparr>, ref = 0, sim_time = 0, clk_count = 0,
     g_nr_guest_inst = 0, g_timer = 0, g_print_step = False, boot_time = 0, ticks = 0, itrace = [],
     is_skip_ref = False, skip_dut_nr_inst = 0\<rparr>"

lemma demo_cycle: "cycle demo_env r (d, h) (if r then d else d + 1, h)"
  by (simp add: cycle_def demo_env_def)

lemma demo_quiet: "even d \<Longrightarrow> d1 = d + 1 \<Longrightarrow> quiet demo_env False (d, h) (d1, h)"
  using demo_cycle [of False d h] by (simp add: quiet_def) (simp add: demo_env_def)

lemma demo_commit:
  assumes "even d" and "d < 3" and "d1 = d + 1" and "d2 = d1 + 1"
  shows "core_commit demo_env False (d, h) 2 d1 (d2, h)"
proof -
  have "commit demo_env d1 = 1" "commit_instr demo_env d1 \<noteq> EBREAK"
    using assms by (simp_all add: demo_env_def EBREAK_def)
  moreover have "cycle demo_env False (d1, h) (d2, h)" using demo_cycle [of False d1 h] assms(4) by simp
  moreover have "(quiet demo_env False ^^ 1) (d, h) (d1, h)"
    using demo_quiet [OF assms(1,3), of h] by (simp add: eq_OO)
  ultimately show ?thesis unfolding core_commit_def by (intro exI [of _ 1] exI [of _ h]) simp
qed

lemma demo_accepted: "even d \<Longrightarrow> rf = d div 2 \<Longrightarrow> d1 = d + 1 \<Longrightarrow> d2 = d1 + 1 \<Longrightarrow> accepted demo_env rf d1 (d2, h)"
  by (elim evenE) (simp add: accepted_def demo_env_def)

lemma demo_stops: "core_stops demo_env False (4, h) 1 (5, h)"
  using demo_quiet [of 4 5 h] by (simp add: core_stops_def eq_OO) (simp add: demo_env_def)

abbreviation demo_path :: "(nat \<times> nat \<times> nat core) list" where
  "demo_path \<equiv> [(2, 1, (2, hst demo_npc)), (2, 3, (4, hst demo_npc))]"

lemma demo_core: "core_of demo_npc = (0, hst demo_npc)" "\<not> rst demo_npc" "ref demo_npc = 0"
  by (simp_all add: demo_npc_def)

lemma demo_path: "core_path demo_env False (0, hst demo_npc) demo_path (4, hst demo_npc)" "agrees demo_env 0 demo_path"
proof -
  show "core_path demo_env False (0, hst demo_npc) demo_path (4, hst demo_npc)"
    by (simp add: demo_commit)
  have "ref_exec demo_env 1 0 = 1" by (simp add: demo_env_def)
  then show "agrees demo_env 0 demo_path"
    using demo_accepted [of 0 0 1 2 "hst demo_npc"] demo_accepted [of 2 1 3 4 "hst demo_npc"] by simp
qed

theorem execute_refines_commits_witness:
  "execute demo_env 2 demo_npc = Some (Inr (after demo_env demo_path demo_npc)) \<and>
   execute demo_env 5 demo_npc = Some (Inr (ended demo_env 1 (5, hst demo_npc) (after demo_env demo_path demo_npc)))"
proof
  show "execute demo_env 2 demo_npc = Some (Inr (after demo_env demo_path demo_npc))"
    unfolding execute_refines_commits using demo_path
    by (intro exI [of _ demo_path] exI [of _ "(4, hst demo_npc)"]) (simp add: demo_core)
  show "execute demo_env 5 demo_npc = Some (Inr (ended demo_env 1 (5, hst demo_npc) (after demo_env demo_path demo_npc)))"
    unfolding execute_refines_commits using demo_path demo_stops [of "hst demo_npc"]
    by (intro exI [of _ demo_path] exI [of _ "(4, hst demo_npc)"]) (auto simp: demo_core)
qed

lemma demo_runs: "execute demo_env 2 demo_npc = Some (Inr (after demo_env demo_path demo_npc))"
  unfolding execute_runs runs_def using demo_path
  by (intro exI [of _ demo_path] exI [of _ "(4, hst demo_npc)"]) (simp add: demo_core)

theorem difftest_sound_witness:
  "\<exists>s'. execute demo_env 2 demo_npc = Some (Inr s') \<and> state (sim_state (hst s')) = SIM_STOP \<and>
     ref s' = (ref_exec demo_env 1 ^^ 2) 0 \<and> (\<forall>j < 32. gpr (cpu s') ! j = gpr (ref_regs demo_env (ref s')) ! j)"
proof -
  let ?s = "after demo_env demo_path demo_npc"
  have st: "state (sim_state (hst ?s)) = SIM_STOP" by (simp add: committed_def demo_npc_def)
  from difftest_sound [OF demo_runs] obtain xs :: "(nat \<times> nat \<times> nat core) list" and c where
    n: "length xs = unat (2 :: u64) \<or>
      length xs < unat (2 :: u64) \<and> state (sim_state (hst ?s)) = SIM_END \<and> (\<exists>k c'. core_stops demo_env (rst demo_npc) c k c')"
    and r: "ref ?s = (ref_exec demo_env 1 ^^ length xs) (ref demo_npc)"
    "0 < length xs \<longrightarrow> (\<forall>j < 32. gpr (cpu ?s) ! j = gpr (ref_regs demo_env (ref ?s)) ! j)" by blast
  have "length xs = 2" using n unfolding st by simp
  then have "ref ?s = (ref_exec demo_env 1 ^^ 2) 0" "\<forall>j < 32. gpr (cpu ?s) ! j = gpr (ref_regs demo_env (ref ?s)) ! j"
    using r by (simp_all only: demo_core) simp
  then show ?thesis using demo_runs st by blast
qed

theorem execute_hangs_without_commit_witness:
  "execute demo_env 1 (demo_npc\<lparr>rst := True\<rparr>) = None"
proof -
  have q: "(quiet demo_env True ^^ k) (0, hst demo_npc) (0, hst demo_npc)" for k
  proof (induction k)
    case (Suc k)
    moreover have "quiet demo_env True (0, hst demo_npc) (0, hst demo_npc)"
      using demo_cycle [of True 0 "hst demo_npc"] by (simp add: quiet_def) (simp add: demo_env_def)
    ultimately show ?case by auto
  qed simp
  then show ?thesis
    unfolding execute_hangs_without_commit
    by (intro exI [of _ "[]"] exI [of _ "(0, hst demo_npc)"]) (auto simp: demo_core)
qed

section \<open>The run states\<close>

lemma get_time_frame:
  "get_time E s = (t, s') \<Longrightarrow> hst s' = hst s \<and> ref s' = ref s \<and> cpu s' = cpu s \<and> g_timer s' = g_timer s"
  by (auto simp: get_time_def get_time_internal_def Let_def split: prod.splits if_splits)

text \<open>\<open>SIM_END\<close> and \<open>SIM_ABORT\<close> are final: \<open>cpu_exec\<close> then returns at once and executes nothing;
  and when \<open>cpu_exec\<close> returns, the simulator is never left in \<open>SIM_RUNNING\<close>.\<close>

theorem cpu_exec_states:
  assumes "cpu_exec E n s = Some (Inr s')"
  shows "state (sim_state (hst s')) \<noteq> SIM_RUNNING \<and>
    (state (sim_state (hst s)) \<in> {SIM_END, SIM_ABORT} \<longrightarrow> s' = s\<lparr>g_print_step := n < 100\<rparr>)"
proof (cases "state (sim_state (hst s)) \<in> {SIM_END, SIM_ABORT}")
  case True
  then show ?thesis using assms by (auto simp: cpu_exec_def Let_def MAX_INST_TO_PRINT_def)
next
  case False
  obtain t1 s1 where t1: "get_time E (s\<lparr>g_print_step := n < MAX_INST_TO_PRINT, hst := put_state SIM_RUNNING (hst s)\<rparr>) = (t1, s1)"
    by fastforce
  from assms False t1 obtain s2 where s2: "execute E n s1 = Some (Inr s2)"
    by (auto simp: cpu_exec_def Let_def rbind_Inr_iff)
  obtain t2 s3 where t2: "get_time E s2 = (t2, s3)" by fastforce
  from assms False t1 s2 t2
  have "s' = (let s4 = s3\<lparr>g_timer := g_timer s3 + (t2 - t1)\<rparr> in
      if state (sim_state (hst s4)) = SIM_RUNNING then s4\<lparr>hst := put_state SIM_STOP (hst s4)\<rparr> else s4)"
    by (auto simp: cpu_exec_def Let_def)
  with False show ?thesis by (auto simp: Let_def put_state_def)
qed

theorem cpu_exec_states_witness:
  "\<exists>s'. cpu_exec demo_env 5 (demo_npc\<lparr>hst := put_state SIM_END (hst demo_npc)\<rparr>) = Some (Inr s') \<and>
     g_print_step s' \<and> dut s' = 0"
proof -
  let ?s = "demo_npc\<lparr>hst := put_state SIM_END (hst demo_npc)\<rparr>"
  have st: "state (sim_state (hst ?s)) = SIM_END" by (simp add: put_state_def)
  then obtain s' where r: "cpu_exec demo_env 5 ?s = Some (Inr s')" by (simp add: cpu_exec_def Let_def)
  from cpu_exec_states [OF r] st have "s' = ?s\<lparr>g_print_step := 5 < (100 :: u64)\<rparr>" by simp
  with r show ?thesis by (simp add: demo_npc_def)
qed

section \<open>Observations\<close>

text \<open>The exit status of the simulator does not depend on how the simulated program ended.\<close>

lemma main_returns_zero: "main E files can_write loadable args s = Some (Inr (s', code)) \<Longrightarrow> code = 0"
  by (auto simp: main_def rbind_Inr_iff split: sum.splits)

text \<open>No operation counts instructions, so that the simulation frequency logged is 0.\<close>

lemma statistic_zero: "g_nr_guest_inst s = 0 \<Longrightarrow> statistic s = Some f \<Longrightarrow> f = 0"
  by (simp add: statistic_def split: if_splits)

text \<open>The macro \<open>csr\<close> reads a general register.\<close>

lemma csr_reads_gpr: "0 \<le> i \<Longrightarrow> i < 5 \<Longrightarrow> csr_at c i = gpr_at c i"
  by (simp add: csr_at_def gpr_at_def check_csr_idx_def check_reg_idx_def CSR_NUM_def GPR_NUM_def)

text \<open>The built-in image is the first thing in memory, with an \<open>ebreak\<close> at its end.\<close>

lemma builtin_image_ends_in_ebreak:
  "pmem_read (load_builded_img pm) (RESET_VECTOR + 24) 4 = Inr EBREAK"
proof -
  have ok: "guest_ok (RESET_VECTOR + 24) 4" by (simp add: guest_ok_def widths_def config_defs)
  have "read_bytes (load_builded_img pm) 24 4 = [0x73, 0, 0x10, 0]"
    by (simp add: load_builded_img_def img_def guest_to_host_def config_defs c_simps)
  moreover have "guest_to_host (RESET_VECTOR + 24) = 24" by (simp add: guest_to_host_def config_defs)
  ultimately show ?thesis
    using ok by (simp add: pmem_read_eq widths_def load_def EBREAK_def)
qed

end
