(* ===== verification/AM_Base.thy ===== *)
theory AM_Base
  imports Prelude
begin

text \<open>
  What the parts of the abstract machine share: the types of
  \<open>abstract-machine/am/include/am.h\<close> and the macros of \<open>klib/include/klib-macros.h\<close>.
\<close>

definition MMAP_NONE :: u64 where "MMAP_NONE = 0x00000000"
definition MMAP_READ :: u64 where "MMAP_READ = 0x00000001"
definition MMAP_WRITE :: u64 where "MMAP_WRITE = 0x00000002"

record Area =
  a_start :: addr
  a_end :: addr

datatype event = EVENT_NULL | EVENT_YIELD | EVENT_SYSCALL | EVENT_PAGEFAULT | EVENT_ERROR
  | EVENT_IRQ_TIMER | EVENT_IRQ_IODEV

record Event =
  event :: event
  cause :: u64
  ref :: u64
  msg :: string

definition RANGE :: "addr \<Rightarrow> addr \<Rightarrow> Area" where
  "RANGE st ed = \<lparr>a_start = st, a_end = ed\<rparr>"

definition IN_RANGE :: "addr \<Rightarrow> Area \<Rightarrow> bool" where
  "IN_RANGE p a \<longleftrightarrow> a_start a \<le> p \<and> p < a_end a"

definition ROUNDDOWN :: "u64 \<Rightarrow> u64 \<Rightarrow> u64" where
  "ROUNDDOWN a sz = a AND NOT (sz - 1)"

definition ROUNDUP :: "u64 \<Rightarrow> u64 \<Rightarrow> u64" where
  "ROUNDUP a sz = (a + sz - 1) AND NOT (sz - 1)"

definition panic_on :: "bool \<Rightarrow> string \<Rightarrow> c_error + unit" where
  "panic_on c s = guard (\<not> c) (Panic s)"

definition putstr :: "(char \<Rightarrow> 's \<Rightarrow> 's) \<Rightarrow> string \<Rightarrow> 's \<Rightarrow> 's" where
  \<comment> \<open>with the platform's \<open>putch\<close>; the string ends at its first zero\<close>
  "putstr putch s w = fold putch (takeWhile (\<lambda>c. c \<noteq> CHR 0x00) s) w"

lemma putstr_append: "CHR 0x00 \<notin> set s \<Longrightarrow> putstr putch (s @ t) w = putstr putch t (putstr putch s w)"
proof -
  assume "CHR 0x00 \<notin> set s"
  then have "\<forall>c \<in> set s. c \<noteq> CHR 0x00" by blast
  then have e: "takeWhile (\<lambda>c. c \<noteq> CHR 0x00) (s @ t) = s @ takeWhile (\<lambda>c. c \<noteq> CHR 0x00) t" "takeWhile (\<lambda>c. c \<noteq> CHR 0x00) s = s"
    by (simp_all add: takeWhile_append2 takeWhile_eq_all_conv)
  show ?thesis by (simp only: putstr_def e fold_append comp_apply)
qed

lemma panic_on_Inr [simp]: "panic_on c s = Inr u \<longleftrightarrow> \<not> c"
  by (simp add: panic_on_def)

lemma panic_on_False [simp]: "panic_on False s = Inr ()"
  by (simp add: panic_on_def)

lemma panic_on_True [simp]: "panic_on True s = Inl (Panic s)"
  by (simp add: panic_on_def)

section \<open>Alignment\<close>

lemma NOT_mask_eq: "2 ^ k = sz \<Longrightarrow> x AND NOT (sz - 1) = push_bit k (drop_bit k (x :: 'a::len word))"
proof -
  assume "2 ^ k = sz"
  then have "sz - 1 = mask k" by (auto simp: mask_eq_exp_minus_1)
  then show ?thesis by (intro bit_word_eqI) (auto simp: bit_simps)
qed


end
