(* ===== verification/X86_VME.thy ===== *)
theory X86_VME
  imports AM_Base
begin

text \<open>
  \<open>abstract-machine/am/src/x86/qemu/vme.c\<close> for \<open>x86_64\<close>: four-level page tables. Memory is seen as
  64-bit words at their byte addresses. The page allocator that \<open>vme_init\<close> is given is a parameter,
  a \<open>pager\<close>: \<open>pgalloc\<close> returns a page (0 is NULL) and the allocator's next state, \<open>pgfree\<close> takes a
  page back. The pointer \<open>as->ptr\<close> of an address space lives in memory, at offset 24 of the
  \<open>AddrSpace\<close>, because \<open>ptwalk\<close> and \<open>teardown\<close> treat it as the table of level 0.
\<close>

section \<open>Configuration\<close>

record ptinfo =
  pt_mask :: u64
  pt_shift :: nat
  pt_bits :: nat

definition pgtables :: "ptinfo list" where
  "pgtables =
     [\<lparr>pt_mask = 0x000000000000, pt_shift = 0, pt_bits = 0\<rparr>,
      \<lparr>pt_mask = 0xff8000000000, pt_shift = 39, pt_bits = 9\<rparr>,
      \<lparr>pt_mask = 0x007fc0000000, pt_shift = 30, pt_bits = 9\<rparr>,
      \<lparr>pt_mask = 0x00003fe00000, pt_shift = 21, pt_bits = 9\<rparr>,
      \<lparr>pt_mask = 0x0000001ff000, pt_shift = 12, pt_bits = 9\<rparr>]"

definition pgsize :: u64 where "pgsize = 4096"

record vm_area =
  vma_area :: Area
  vma_kernel :: bool

definition vm_areas :: "vm_area list" where
  "vm_areas =
     [\<lparr>vma_area = RANGE 0x100000000000 0x108000000000, vma_kernel = False\<rparr>,
      \<lparr>vma_area = RANGE 0x000000000000 0x008000000000, vma_kernel = True\<rparr>]"

definition uvm_area :: Area where "uvm_area = vma_area (vm_areas ! 0)"

definition PTE_P :: u64 where "PTE_P = 0x001"
definition PTE_W :: u64 where "PTE_W = 0x002"
definition PTE_U :: u64 where "PTE_U = 0x004"
definition CR0_PG :: u64 where "CR0_PG = 0x80000000"
definition PML4_ADDR :: addr where "PML4_ADDR = 0x1000"

type_synonym wmem = "addr \<Rightarrow> u64"

record 'a pager =
  pgalloc :: "'a \<Rightarrow> addr \<times> 'a"
  pgfree :: "addr \<Rightarrow> 'a \<Rightarrow> 'a"

record 'a vme =
  wmem :: wmem
  alloc :: 'a
  kpt :: addr
  cr0 :: u64
  cr3 :: addr

section \<open>Walking and building page tables\<close>

definition zero_page :: "wmem \<Rightarrow> addr \<Rightarrow> wmem" where
  \<comment> \<open>\<open>for (i = 0; i < pgsize / sizeof(uintptr_t); i++) base[i] = 0;\<close>\<close>
  "zero_page m base = fold (\<lambda>i m. m(base + 8 * of_nat i := 0)) [0..<512] m"

definition pgallocz :: "'a pager \<Rightarrow> 'a vme \<Rightarrow> c_error + addr \<times> 'a vme" where
  "pgallocz P s =
     (case pgalloc P (alloc s) of (base, a) \<Rightarrow>
        rbind (panic_on (base = 0) ''cannot allocate page'') (\<lambda>_.
          Inr (base, s\<lparr>alloc := a, wmem := zero_page (wmem s) base\<rparr>)))"

definition indexof :: "addr \<Rightarrow> ptinfo \<Rightarrow> u64" where
  "indexof a info = drop_bit (pt_shift info) (a AND pt_mask info)"

definition baseof :: "u64 \<Rightarrow> addr" where
  "baseof a = a AND NOT (pgsize - 1)"

definition present :: "u64 \<Rightarrow> bool" where
  "present e \<longleftrightarrow> e AND PTE_P \<noteq> 0"

fun ptwalk_loop ::
  "'a pager \<Rightarrow> u64 \<Rightarrow> addr \<Rightarrow> ptinfo list \<Rightarrow> addr \<Rightarrow> 'a vme \<Rightarrow> c_error + addr \<times> 'a vme" where
  \<comment> \<open>the levels still to visit; \<open>cur\<close> is the table of the first of them\<close>
  "ptwalk_loop P flags va [] cur s = Inl (Panic ''internal error (likely a bug in AM)'')"
| "ptwalk_loop P flags va [info] cur s = Inr (cur + 8 * indexof va info, s)"
| "ptwalk_loop P flags va (info # info' # rest) cur s =
     (let slot = cur + 8 * indexof va info in
      if \<not> present (wmem s slot) then
        rbind (pgallocz P s) (\<lambda>(next_page, s1).
          ptwalk_loop P flags va (info' # rest) next_page
            (s1\<lparr>wmem := (wmem s1)(slot := next_page OR PTE_P OR flags)\<rparr>))
      else ptwalk_loop P flags va (info' # rest) (baseof (wmem s slot)) s)"

definition as_ptr :: "addr \<Rightarrow> addr" where
  \<comment> \<open>\<open>&as->ptr\<close>\<close>
  "as_ptr aspace = aspace + 24"

definition ptwalk :: "'a pager \<Rightarrow> addr \<Rightarrow> addr \<Rightarrow> u64 \<Rightarrow> 'a vme \<Rightarrow> c_error + addr \<times> 'a vme" where
  "ptwalk P aspace va flags s = ptwalk_loop P flags va pgtables (as_ptr aspace) s"

primrec teardown :: "'a pager \<Rightarrow> wmem \<Rightarrow> ptinfo list \<Rightarrow> bool \<Rightarrow> addr \<Rightarrow> 'a \<Rightarrow> 'a" where
  \<comment> \<open>the levels from \<open>level\<close> on (none of them: \<open>level > ptlevels\<close>) and \<open>level >= 1\<close>\<close>
  "teardown P m [] lvl pt a = a"
| "teardown P m (info # rest) lvl pt a =
     (let a' = fold (\<lambda>index a.
                 let e = m (pt + 8 * of_nat index) in
                 if present e \<and> e AND PTE_U \<noteq> 0 then teardown P m rest True (baseof e) a else a)
               [0..<2 ^ pt_bits info] a
      in if lvl then pgfree P pt a' else a')"

section \<open>The interface\<close>

definition vme_init :: "int \<Rightarrow> 'a vme \<Rightarrow> c_error + 'a vme" where
  \<comment> \<open>with the number of the current processor\<close>
  "vme_init cpu s =
     rbind (panic_on (cpu \<noteq> 0) ''init VME in non-bootstrap CPU'') (\<lambda>_.
       Inr (s\<lparr>kpt := PML4_ADDR, cr3 := PML4_ADDR, cr0 := cr0 s OR CR0_PG\<rparr>))"

definition area_steps :: "Area \<Rightarrow> u64 \<Rightarrow> addr list" where
  \<comment> \<open>the values of \<open>cur\<close> from the start to the end of an area\<close>
  "area_steps a step = map (\<lambda>i. a_start a + of_nat i * step) [0..<unat ((a_end a - a_start a) div step)]"

definition copy_kernel :: "addr \<Rightarrow> addr \<Rightarrow> wmem \<Rightarrow> wmem" where
  "copy_kernel kp ut m =
     fold (\<lambda>vma m.
        if vma_kernel vma then
          fold (\<lambda>cur m. m(ut + 8 * indexof cur (pgtables ! 1) := m (kp + 8 * indexof cur (pgtables ! 1))))
            (area_steps (vma_area vma) (push_bit (pt_shift (pgtables ! 1)) 1)) m
        else m) vm_areas m"

definition protect :: "'a pager \<Rightarrow> addr \<Rightarrow> 'a vme \<Rightarrow> c_error + 'a vme" where
  "protect P aspace s =
     rbind (pgallocz P s) (\<lambda>(ut, s1).
       let m = copy_kernel (kpt s1) ut (wmem s1) in
       Inr (s1\<lparr>wmem := m(aspace := pgsize, aspace + 8 := a_start uvm_area, aspace + 16 := a_end uvm_area,
                          as_ptr aspace := ut OR PTE_P OR PTE_U)\<rparr>))"

definition unprotect :: "'a pager \<Rightarrow> addr \<Rightarrow> 'a vme \<Rightarrow> 'a vme" where
  "unprotect P aspace s = s\<lparr>alloc := teardown P (wmem s) pgtables False (as_ptr aspace) (alloc s)\<rparr>"

definition map_page :: "'a pager \<Rightarrow> addr \<Rightarrow> addr \<Rightarrow> addr \<Rightarrow> u64 \<Rightarrow> 'a vme \<Rightarrow> c_error + 'a vme" where
  "map_page P aspace va pa prot s =
     rbind (panic_on (\<not> IN_RANGE va uvm_area) ''mapping an invalid address'') (\<lambda>_.
     rbind (panic_on (va \<noteq> ROUNDDOWN va pgsize \<or> pa \<noteq> ROUNDDOWN pa pgsize)
              ''non-page-boundary address'') (\<lambda>_.
     rbind (ptwalk P aspace va (PTE_W OR PTE_U) s) (\<lambda>(ptentry, s1).
     rbind (if prot = MMAP_NONE then
              rbind (panic_on (\<not> present (wmem s1 ptentry)) ''unmapping a non-mapped page'') (\<lambda>_.
                Inr (s1\<lparr>wmem := (wmem s1)(ptentry := 0)\<rparr>))
            else
              rbind (panic_on (present (wmem s1 ptentry)) ''remapping a mapped page'') (\<lambda>_.
                let pte = pa OR PTE_P OR PTE_U OR (if prot AND MMAP_WRITE \<noteq> 0 then PTE_W else 0)
                in Inr (s1\<lparr>wmem := (wmem s1)(ptentry := pte)\<rparr>))) (\<lambda>s2.
     rbind (ptwalk P aspace va (PTE_W OR PTE_U) s2) (\<lambda>(_, s3). Inr s3)))))"

section \<open>User contexts\<close>

record Context =
  ctx_cr3 :: addr
  rax :: u64  rbx :: u64  rcx :: u64  rdx :: u64
  rbp :: u64  rsi :: u64  rdi :: u64
  r8 :: u64  r9 :: u64  r10 :: u64  r11 :: u64
  r12 :: u64  r13 :: u64  r14 :: u64  r15 :: u64
  rip :: u64  cs :: u64  rflags :: u64
  rsp :: u64  ss :: u64  rsp0 :: u64

definition zero_context :: Context where
  "zero_context = \<lparr>ctx_cr3 = 0, rax = 0, rbx = 0, rcx = 0, rdx = 0, rbp = 0, rsi = 0, rdi = 0,
     r8 = 0, r9 = 0, r10 = 0, r11 = 0, r12 = 0, r13 = 0, r14 = 0, r15 = 0,
     rip = 0, cs = 0, rflags = 0, rsp = 0, ss = 0, rsp0 = 0\<rparr>"

definition sizeof_Context :: u64 where "sizeof_Context = 176"

definition DPL_KERN :: u64 where "DPL_KERN = 0x0"
definition DPL_USER :: u64 where "DPL_USER = 0x3"
definition FL_IF :: u64 where "FL_IF = 0x00000200"
definition SEG_KCODE :: u64 where "SEG_KCODE = 1"
definition SEG_KDATA :: u64 where "SEG_KDATA = 2"
definition SEG_UCODE :: u64 where "SEG_UCODE = 3"
definition SEG_UDATA :: u64 where "SEG_UDATA = 4"
definition SEG_TSS :: u64 where "SEG_TSS = 5"

definition KSEL :: "u64 \<Rightarrow> u64" where "KSEL seg = push_bit 3 seg OR DPL_KERN"
definition USEL :: "u64 \<Rightarrow> u64" where "USEL seg = push_bit 3 seg OR DPL_USER"

definition ucontext :: "addr \<Rightarrow> Area \<Rightarrow> addr \<Rightarrow> 'a vme \<Rightarrow> addr \<times> Context" where
  \<comment> \<open>the address of the context and what is stored there\<close>
  "ucontext aspace kstack entry s =
     (a_end kstack - sizeof_Context,
      zero_context\<lparr>cs := USEL SEG_UCODE, ss := USEL SEG_UDATA, rip := entry, rflags := FL_IF,
        rsp := a_end uvm_area, rsp0 := a_end kstack, ctx_cr3 := wmem s (as_ptr aspace)\<rparr>)"

section \<open>Page tables as trees\<close>

definition user :: "addr \<Rightarrow> bool" where "user va \<longleftrightarrow> IN_RANGE va uvm_area"

fun slot :: "wmem \<Rightarrow> addr \<Rightarrow> addr \<Rightarrow> nat \<Rightarrow> addr" where
  \<comment> \<open>the address of the entry that the walk for \<open>va\<close> reads at level \<open>k\<close>\<close>
  "slot m root va 0 = root"
| "slot m root va (Suc k) = baseof (m (slot m root va k)) + 8 * indexof va (pgtables ! Suc k)"

definition upto :: "wmem \<Rightarrow> addr \<Rightarrow> addr \<Rightarrow> nat \<Rightarrow> bool" where
  \<comment> \<open>the entries of the levels before \<open>k\<close> are present\<close>
  "upto m root va k \<longleftrightarrow> (\<forall>j < k. present (m (slot m root va j)))"

definition pte :: "wmem \<Rightarrow> addr \<Rightarrow> addr \<Rightarrow> u64" where
  \<comment> \<open>the entry that maps the page of \<open>va\<close>; 0 when a table is missing\<close>
  "pte m root va = (if upto m root va 4 then m (slot m root va 4) else 0)"

definition wf_tables :: "wmem \<Rightarrow> addr \<Rightarrow> addr set \<Rightarrow> bool" where
  \<comment> \<open>the tables reachable for user addresses are the pages of \<open>T\<close>, and each has one parent entry\<close>
  "wf_tables m root T \<longleftrightarrow>
     (\<forall>t \<in> T. baseof t = t \<and> \<not> in_region t 4096 root) \<and>
     (\<forall>va j. user va \<longrightarrow> j \<le> 3 \<longrightarrow> upto m root va (Suc j) \<longrightarrow> baseof (m (slot m root va j)) \<in> T) \<and>
     (\<forall>va va' j j'. user va \<longrightarrow> user va' \<longrightarrow> j \<le> 3 \<longrightarrow> j' \<le> 3 \<longrightarrow>
        upto m root va (Suc j) \<longrightarrow> upto m root va' (Suc j') \<longrightarrow>
        baseof (m (slot m root va j)) = baseof (m (slot m root va' j')) \<longrightarrow>
        j = j' \<and> slot m root va j = slot m root va' j')"

lemma upto_0 [simp]: "upto m root va 0"
  by (simp add: upto_def)

lemma upto_Suc: "upto m root va (Suc k) \<longleftrightarrow> upto m root va k \<and> present (m (slot m root va k))"
  by (auto simp: upto_def less_Suc_eq)

lemma upto_mono: "upto m root va k \<Longrightarrow> j \<le> k \<Longrightarrow> upto m root va j"
  by (auto simp: upto_def)

section \<open>Addresses\<close>

lemma baseof_eq: "baseof x = push_bit 12 (drop_bit 12 x)"
  unfolding baseof_def by (rule NOT_mask_eq) (simp add: pgsize_def)

lemma bit_baseof: "bit (baseof x) n \<longleftrightarrow> 12 \<le> n \<and> bit x n"
  by (auto simp: baseof_eq bit_simps dest: bit_imp_le_length)

lemma baseof_idem [simp]: "baseof (baseof x) = baseof x"
  by (rule bit_word_eqI) (simp add: bit_baseof)

lemma pgtables_nth:
  "pgtables ! 0 = \<lparr>pt_mask = 0, pt_shift = 0, pt_bits = 0\<rparr>"
  "pgtables ! Suc 0 = \<lparr>pt_mask = 0xff8000000000, pt_shift = 39, pt_bits = 9\<rparr>"
  "pgtables ! Suc (Suc 0) = \<lparr>pt_mask = 0x007fc0000000, pt_shift = 30, pt_bits = 9\<rparr>"
  "pgtables ! Suc (Suc (Suc 0)) = \<lparr>pt_mask = 0x00003fe00000, pt_shift = 21, pt_bits = 9\<rparr>"
  "pgtables ! Suc (Suc (Suc (Suc 0))) = \<lparr>pt_mask = 0x0000001ff000, pt_shift = 12, pt_bits = 9\<rparr>"
  by (simp_all add: pgtables_def)

lemma indexof_0 [simp]: "indexof va (pgtables ! 0) = 0"
  by (simp add: indexof_def pgtables_nth)

lemma indexof_field:
  assumes "pt_mask info = push_bit k (mask 9)" and "pt_shift info = k"
  shows "indexof va info = take_bit 9 (drop_bit k va)"
proof (rule bit_word_eqI)
  fix n assume "n < LENGTH(64)"
  then show "bit (indexof va info) n = bit (take_bit 9 (drop_bit k va)) n"
    using assms by (auto simp: indexof_def bit_simps dest: bit_imp_le_length)
qed

lemma indexof_Suc:
  assumes "j \<le> 3"
  shows "indexof va (pgtables ! Suc j) = take_bit 9 (drop_bit (39 - 9 * j) va)"
proof -
  from assms consider "j = 0" | "j = 1" | "j = 2" | "j = 3" by linarith
  then show ?thesis
    by cases (simp_all add: pgtables_nth indexof_field mask_eq_exp_minus_1 numeral_2_eq_2 numeral_3_eq_3)
qed

lemma table_entry_base:
  assumes "baseof b = b" and "i = take_bit 9 w"
  shows "baseof (b + 8 * i) = b"
proof -
  have i: "\<not> bit (8 * i) n" if "12 \<le> n" for n
  proof -
    have "8 * i = push_bit 3 i" by (simp add: push_bit_eq_mult mult.commute)
    then show ?thesis using that assms(2) by (auto simp: bit_simps simp del: push_bit_numeral)
  qed
  have b: "\<not> bit b n" if "n < 12" for n using that assms(1) by (metis bit_baseof not_less)
  have "b AND 8 * i = 0" by (rule bit_word_eqI) (metis b bit_0_eq bit_and_iff bot_apply i not_less bot_bool_def)
  then have "b + 8 * i = b OR 8 * i" using word_plus_and_or [of b "8 * i"] by simp
  then show ?thesis
    using i b by (intro bit_word_eqI) (metis bit_baseof bit_or_iff not_less)
qed

lemma slot_base:
  assumes "k \<le> 3"
  shows "baseof (slot m root va (Suc k)) = baseof (m (slot m root va k))"
  using assms by (simp add: table_entry_base [OF baseof_idem indexof_Suc])

lemma eight_times_inj:
  fixes i j :: u64
  assumes "i = take_bit 9 v" and "j = take_bit 9 w" and "8 * i = 8 * j"
  shows "i = j"
proof -
  have "push_bit 3 i = push_bit 3 j" using assms(3) by (simp add: push_bit_eq_mult mult.commute)
  then have b: "bit (push_bit 3 i) (n + 3) = bit (push_bit 3 j) (n + 3)" for n by (simp only:)
  have "bit i n = bit j n" if "n < 9" for n
    using b [of n] that by (simp add: bit_push_bit_iff)
  then show ?thesis
    unfolding assms(1,2) by (intro bit_word_eqI) (metis assms(1,2) bit_take_bit_iff)
qed

lemma slot_index:
  assumes "j \<le> 3" "k \<le> 3" and "baseof (m (slot m root va j)) = baseof (m' (slot m' root' va' k))"
    and "slot m root va (Suc j) = slot m' root' va' (Suc k)"
  shows "indexof va (pgtables ! Suc j) = indexof va' (pgtables ! Suc k)"
  using assms by (auto intro!: eight_times_inj [OF indexof_Suc indexof_Suc])

lemma same_page:
  assumes "user va" "user va'" and "\<And>j. j \<le> 3 \<Longrightarrow>
      indexof va (pgtables ! Suc j) = indexof va' (pgtables ! Suc j)"
  shows "baseof va = baseof va'"
proof -
  have small: "\<not> bit x n" if "user x" "48 \<le> n" for x n
  proof -
    have "unat x < 2 ^ 48"
      using that(1) by (auto simp: user_def IN_RANGE_def uvm_area_def vm_areas_def RANGE_def word_less_nat_alt)
    then have "take_bit 48 (unat x) = unat x" by (rule take_bit_nat_eq_self)
    then have "take_bit 48 x = x" by (simp add: word_unat_eq_iff unsigned_take_bit_eq)
    then show ?thesis using that(2) by (metis bit_take_bit_iff not_less)
  qed
  have e: "bit va (39 - 9 * j + n) = bit va' (39 - 9 * j + n)" if "j \<le> 3" "n < 9" for j n
  proof -
    have "bit (take_bit 9 (drop_bit (39 - 9 * j) va)) n = bit (take_bit 9 (drop_bit (39 - 9 * j) va')) n"
      using assms(3) [OF that(1)] that(1) by (simp add: indexof_Suc)
    then show ?thesis using that(2) by (simp add: bit_simps)
  qed
  show ?thesis
  proof (rule bit_word_eqI)
    fix n
    show "bit (baseof va) n = bit (baseof va') n"
    proof (cases "12 \<le> n \<and> n < 48")
      case True
      then consider "12 \<le> n" "n < 21" | "21 \<le> n" "n < 30" | "30 \<le> n" "n < 39" | "39 \<le> n" "n < 48"
        by linarith
      then have "bit va n = bit va' n"
        using e [of 3 "n - 12"] e [of 2 "n - 21"] e [of 1 "n - 30"] e [of 0 "n - 39"] by cases auto
      then show ?thesis by (simp add: bit_baseof)
    next
      case False
      then show ?thesis using small assms(1,2) by (auto simp: bit_baseof)
    qed
  qed
qed

section \<open>Walks over well-formed tables\<close>

lemma in_page: "baseof x = t \<Longrightarrow> in_region t 4096 x"
proof -
  assume "baseof x = t"
  moreover have "x - baseof x = take_bit 12 x"
  proof -
    have "baseof x AND take_bit 12 x = 0" by (rule bit_word_eqI) (auto simp: bit_simps bit_baseof)
    moreover have "baseof x OR take_bit 12 x = x"
      by (rule bit_word_eqI) (auto simp: bit_simps bit_baseof)
    ultimately have "baseof x + take_bit 12 x = x"
      using word_plus_and_or [of "baseof x" "take_bit 12 x"] by simp
    then show ?thesis by (metis add_diff_cancel_left')
  qed
  moreover have "unat (take_bit 12 x) < 4096"
    by (subst unsigned_take_bit_eq) (simp add: take_bit_eq_mod)
  ultimately show ?thesis by (simp add: in_region_def)
qed

lemma wf_tableD:
  assumes "wf_tables m root T"
  shows "t \<in> T \<Longrightarrow> baseof t = t" "t \<in> T \<Longrightarrow> baseof root \<noteq> t"
    and "user va \<Longrightarrow> j \<le> 3 \<Longrightarrow> upto m root va (Suc j) \<Longrightarrow> baseof (m (slot m root va j)) \<in> T"
    and "user va \<Longrightarrow> user va' \<Longrightarrow> j \<le> 3 \<Longrightarrow> j' \<le> 3 \<Longrightarrow> upto m root va (Suc j) \<Longrightarrow>
      upto m root va' (Suc j') \<Longrightarrow> baseof (m (slot m root va j)) = baseof (m (slot m root va' j')) \<Longrightarrow>
      j = j' \<and> slot m root va j = slot m root va' j'"
  using assms in_page unfolding wf_tables_def by blast+

lemma slot_in_table:
  assumes "wf_tables m root T" and "user va" and "k \<le> 4" and "upto m root va k"
  shows "if k = 0 then slot m root va k = root else baseof (slot m root va k) \<in> T"
proof (cases k)
  case (Suc j)
  then show ?thesis using assms slot_base [of j m root va] wf_tableD(3) [OF assms(1,2), of j] by simp
qed simp

lemma slot_root:
  assumes "wf_tables m root T" and "user va" and "k \<le> 4" and "upto m root va k"
  shows "slot m root va k = root \<longleftrightarrow> k = 0"
proof
  assume r: "slot m root va k = root"
  show "k = 0"
  proof (rule ccontr)
    assume "k \<noteq> 0"
    then have "baseof root \<in> T" using slot_in_table [OF assms] r by simp
    then show False using wf_tableD(2) [OF assms(1)] by blast
  qed
qed simp

lemma slot_inj:
  assumes wf: "wf_tables m root T" and u: "user va" "user va'"
  shows "k \<le> 4 \<Longrightarrow> k' \<le> 4 \<Longrightarrow> upto m root va k \<Longrightarrow> upto m root va' k' \<Longrightarrow>
    slot m root va k = slot m root va' k' \<Longrightarrow>
    k = k' \<and> (\<forall>j < k. indexof va (pgtables ! Suc j) = indexof va' (pgtables ! Suc j))"
proof (induction k arbitrary: k')
  case 0
  then show ?case using slot_root [OF wf u(2), of k'] by simp
next
  case (Suc k)
  have "k' \<noteq> 0" using Suc.prems slot_root [OF wf u(1), of "Suc k"] by (cases k') auto
  then obtain j where j: "k' = Suc j" by (cases k') auto
  have le: "k \<le> 3" "j \<le> 3" using Suc.prems(1,2) j by simp_all
  have b: "baseof (m (slot m root va k)) = baseof (m (slot m root va' j))"
    using Suc.prems(5) slot_base [OF le(1), of m root va] slot_base [OF le(2), of m root va'] j by simp
  have "k = j \<and> slot m root va k = slot m root va' j"
    using wf_tableD(4) [OF wf u le] Suc.prems(3,4) j b by blast
  then have kj: "k = j" "slot m root va k = slot m root va' j" by blast+
  moreover have "\<forall>i < k. indexof va (pgtables ! Suc i) = indexof va' (pgtables ! Suc i)"
    using Suc.IH [of j] Suc.prems(3,4) le j kj(2) by (simp add: upto_Suc)
  moreover have "indexof va (pgtables ! Suc k) = indexof va' (pgtables ! Suc j)"
    by (rule slot_index [OF le, where m = m and m' = m and root = root and root' = root])
      (use b Suc.prems(5) j in simp_all)
  ultimately show ?case using j by (auto simp: less_Suc_eq)
qed

lemma slot_4_inj:
  assumes "wf_tables m root T" and "user va" "user va'" and "upto m root va 4" "upto m root va' 4"
    and "slot m root va 4 = slot m root va' 4"
  shows "baseof va = baseof va'"
proof (rule same_page [OF assms(2,3)])
  fix j :: nat assume "j \<le> 3"
  then show "indexof va (pgtables ! Suc j) = indexof va' (pgtables ! Suc j)"
    using slot_inj [OF assms(1-3) _ _ assms(4-6)] by simp
qed

lemma walk_same:
  assumes "\<And>j. j < n \<Longrightarrow> upto m root va j \<Longrightarrow> m' (slot m root va j) = m (slot m root va j)"
  shows "k \<le> n \<Longrightarrow> (upto m' root va k \<longleftrightarrow> upto m root va k) \<and>
    (upto m root va k \<longrightarrow> slot m' root va k = slot m root va k)"
proof (induction k)
  case (Suc k)
  then show ?case using assms [of k] by (auto simp: upto_Suc)
qed simp

lemma leaf_write:
  assumes wf: "wf_tables m root T" and u: "user va" and p: "upto m root va 4"
    and m': "m' = m(slot m root va 4 := e)"
  shows "wf_tables m' root T" "user va' \<Longrightarrow> baseof va' \<noteq> baseof va \<Longrightarrow> pte m' root va' = pte m root va'"
    "pte m' root va = e" "upto m' root va 4" "slot m' root va 4 = slot m root va 4"
proof -
  have same: "m' (slot m root va' j) = m (slot m root va' j)" if "user va'" "j < 4" "upto m root va' j" for va' j
  proof -
    have "slot m root va' j \<noteq> slot m root va 4"
      using slot_inj [OF wf that(1) u, of j 4] that p by auto
    then show ?thesis by (simp add: m')
  qed
  have ws: "(upto m' root va' k \<longleftrightarrow> upto m root va' k) \<and> (upto m root va' k \<longrightarrow> slot m' root va' k = slot m root va' k)"
    if "user va'" "k \<le> 4" for va' k
    using walk_same [where n = 4] same that by blast
  have val: "m' (slot m' root va' j) = m (slot m root va' j)" if "user va'" "j \<le> 3" "upto m' root va' (Suc j)" for va' j
    using that ws [of va' j] same [of va' j] by (simp add: upto_Suc)
  show "wf_tables m' root T"
    unfolding wf_tables_def
  proof (intro conjI allI impI ballI)
    fix t assume "t \<in> T" then show "baseof t = t" "\<not> in_region t 4096 root"
      using wf by (auto simp: wf_tables_def)
  next
    fix va' j assume "user va'" "j \<le> 3" "upto m' root va' (Suc j)"
    then show "baseof (m' (slot m' root va' j)) \<in> T"
      using val ws [of va' "Suc j"] wf_tableD(3) [OF wf] by simp
  next
    fix va1 va2 i j
    assume a: "user va1" "user va2" "i \<le> 3" "j \<le> 3" "upto m' root va1 (Suc i)" "upto m' root va2 (Suc j)"
      "baseof (m' (slot m' root va1 i)) = baseof (m' (slot m' root va2 j))"
    then have "upto m root va1 (Suc i)" "upto m root va2 (Suc j)"
      using ws [of va1 "Suc i"] ws [of va2 "Suc j"] by simp_all
    moreover have "baseof (m (slot m root va1 i)) = baseof (m (slot m root va2 j))"
      using a val by simp
    ultimately have "i = j \<and> slot m root va1 i = slot m root va2 j"
      using wf_tableD(4) [OF wf] a(1-4) by blast
    moreover have "slot m' root va1 i = slot m root va1 i" "slot m' root va2 j = slot m root va2 j"
      using ws [of va1 i] ws [of va2 j] a(1-4) \<open>upto m root va1 (Suc i)\<close> \<open>upto m root va2 (Suc j)\<close>
      by (simp_all add: upto_Suc)
    ultimately show "i = j" "slot m' root va1 i = slot m' root va2 j" by metis+
  qed
  show up: "upto m' root va 4" and sl: "slot m' root va 4 = slot m root va 4"
    using ws [OF u, of 4] p by simp_all
  then show "pte m' root va = e" by (simp add: pte_def m')
  show "pte m' root va' = pte m root va'" if "user va'" "baseof va' \<noteq> baseof va"
  proof (cases "upto m root va' 4")
    case True
    then have "slot m root va' 4 \<noteq> slot m root va 4"
      using slot_4_inj [OF wf that(1) u True p] that(2) by blast
    then show ?thesis using ws [OF that(1), of 4] True by (simp add: pte_def m')
  next
    case False
    then show ?thesis using ws [OF that(1), of 4] by (simp add: pte_def)
  qed
qed

section \<open>Adding a table\<close>

definition fresh_page :: "addr \<Rightarrow> addr set \<Rightarrow> addr \<Rightarrow> bool" where
  \<comment> \<open>an aligned page that is not a table of \<open>T\<close> and does not hold \<open>root\<close>\<close>
  "fresh_page root T p \<longleftrightarrow> p \<noteq> 0 \<and> baseof p = p \<and> p \<notin> T \<and> \<not> in_region p 4096 root"

lemma zero_page_apply:
  "zero_page m p x = (if \<exists>i < 512. x = p + 8 * of_nat i then 0 else m x)"
proof -
  have "fold (\<lambda>i m. m(p + 8 * of_nat i := 0)) [0..<n] m x =
      (if \<exists>i < n. x = p + 8 * of_nat i then 0 else m x)" for n
    by (induction n) (auto simp: less_Suc_eq)
  then show ?thesis by (simp add: zero_page_def)
qed

lemma zero_page_entry: "zero_page m p (p + 8 * take_bit 9 w) = 0"
proof -
  have "unat (take_bit 9 w) < 512"
    by (subst unsigned_take_bit_eq) (simp add: take_bit_eq_mod)
  moreover have "take_bit 9 w = of_nat (unat (take_bit 9 w))" by simp
  ultimately show ?thesis by (auto simp: zero_page_apply)
qed

lemma of_nat_below_512: "i < 512 \<Longrightarrow> (of_nat i :: u64) = take_bit 9 (of_nat i)"
proof -
  assume "i < 512"
  then have "take_bit 9 i = i" by (intro take_bit_nat_eq_self) simp
  then show ?thesis by (metis take_bit_of_nat)
qed

lemma zero_page_other: "baseof p = p \<Longrightarrow> baseof x \<noteq> p \<Longrightarrow> zero_page m p x = m x"
  by (auto simp: zero_page_apply table_entry_base [OF _ of_nat_below_512])

lemma new_entry:
  assumes "baseof p = p" and "f = (PTE_W OR PTE_U :: u64) \<or> f = PTE_U"
  shows "baseof (p OR PTE_P OR f) = p" "present (p OR PTE_P OR f)"
proof -
  have f: "\<not> bit (PTE_P OR f) n" if "12 \<le> n" for n
  proof -
    have "PTE_P OR f = take_bit 12 (PTE_P OR f)"
      using assms(2) by (auto simp: PTE_P_def PTE_W_def PTE_U_def)
    then show ?thesis using that by (metis bit_take_bit_iff not_less)
  qed
  have p: "bit p n \<Longrightarrow> 12 \<le> n" for n using assms(1) by (metis bit_baseof)
  show "baseof (p OR PTE_P OR f) = p"
    using f p by (intro bit_word_eqI) (metis bit_baseof bit_or_iff or.assoc)
  have "bit (p OR PTE_P OR f) 0" by (simp add: bit_or_iff PTE_P_def)
  then show "present (p OR PTE_P OR f)"
    by (auto simp: present_def PTE_P_def and_one_eq bit_0 odd_iff_mod_2_eq_one [symmetric])
qed

text \<open>The step of the walk that adds a table: the walk of \<open>va\<close> reaches level \<open>k\<close> and finds its entry
  empty, and a fresh page \<open>p\<close>, cleared, is stored there with the flags \<open>f\<close>.\<close>

definition adds_table :: "(u64 \<Rightarrow> u64) \<Rightarrow> (u64 \<Rightarrow> u64) \<Rightarrow> u64 \<Rightarrow> u64 set \<Rightarrow> u64 \<Rightarrow> nat \<Rightarrow> u64 \<Rightarrow> u64 \<Rightarrow> bool" where
  "adds_table m m' root T va k p f \<longleftrightarrow>
     wf_tables m root T \<and> user va \<and> k \<le> 3 \<and> upto m root va k \<and> \<not> present (m (slot m root va k)) \<and>
     fresh_page root T p \<and> (f = (PTE_W OR PTE_U) \<or> f = PTE_U) \<and>
     m' = (zero_page m p)(slot m root va k := p OR PTE_P OR f)"

abbreviation meets :: "(u64 \<Rightarrow> u64) \<Rightarrow> u64 \<Rightarrow> u64 \<Rightarrow> nat \<Rightarrow> u64 \<Rightarrow> bool" where
  "meets m root va k va' \<equiv> upto m root va' k \<and> slot m root va' k = slot m root va k"

lemma adds_tableD:
  assumes "adds_table m m' root T va k p f"
  shows "wf_tables m root T" "user va" "k \<le> 3" "upto m root va k" "\<not> present (m (slot m root va k))"
    "fresh_page root T p" "m' = (zero_page m p)(slot m root va k := p OR PTE_P OR f)"
    "baseof p = p" "p \<notin> T" "baseof root \<noteq> p" "m' (slot m root va k) = p OR PTE_P OR f"
    "present (p OR PTE_P OR f)" "baseof (p OR PTE_P OR f) = p"
proof -
  note d = assms [unfolded adds_table_def]
  show "wf_tables m root T" "user va" "k \<le> 3" "upto m root va k" "\<not> present (m (slot m root va k))"
    "fresh_page root T p" and m': "m' = (zero_page m p)(slot m root va k := p OR PTE_P OR f)"
    using d by blast+
  show pb: "baseof p = p" and "p \<notin> T" "baseof root \<noteq> p"
    using d in_page by (auto simp: fresh_page_def)
  show "m' (slot m root va k) = p OR PTE_P OR f" by (simp add: m')
  show "present (p OR PTE_P OR f)" "baseof (p OR PTE_P OR f) = p"
    using new_entry [OF pb, of f] d by blast+
qed

lemma adds_table_notin:
  assumes s: "adds_table m m' root T va k p f" and va': "user va'" "j \<le> 4" "upto m root va' j"
  shows "baseof (slot m root va' j) \<noteq> p"
  using slot_in_table [OF adds_tableD(1) [OF s] va'] adds_tableD(9,10) [OF s] by (auto split: if_splits)

lemma adds_table_same:
  assumes s: "adds_table m m' root T va k p f" and va': "user va'" "j \<le> 4" "upto m root va' j"
    and ne: "slot m root va' j \<noteq> slot m root va k"
  shows "m' (slot m root va' j) = m (slot m root va' j)"
  using ne adds_table_notin [OF s va'] adds_tableD(8) [OF s] by (simp add: adds_tableD(7) [OF s] zero_page_other)

lemma adds_table_hit:
  assumes s: "adds_table m m' root T va k p f" and va': "user va'" "j \<le> 4" "upto m root va' j"
    and eq: "slot m root va' j = slot m root va k"
  shows "j = k"
  using slot_inj [OF adds_tableD(1) [OF s] va'(1) adds_tableD(2) [OF s] va'(2) _ va'(3) adds_tableD(4) [OF s] eq]
    adds_tableD(3) [OF s] by simp

text \<open>Walks that pass through the new entry stop one level below it.\<close>

lemma adds_table_before:
  assumes s: "adds_table m m' root T va k p f" and va': "user va'" "meets m root va k va'" and j: "j \<le> k"
  shows "upto m root va' j \<and> slot m' root va' j = slot m root va' j \<and> (upto m' root va' j \<longleftrightarrow> upto m root va' j)"
proof -
  have same: "m' (slot m root va' i) = m (slot m root va' i)" if "i < k" "upto m root va' i" for i
    using adds_table_same [OF s va'(1) _ that(2)] adds_table_hit [OF s va'(1) _ that(2)] that(1)
      adds_tableD(3) [OF s] by fastforce
  show ?thesis
    using walk_same [where n = k and m = m and m' = m' and root = root and va = va', OF same, of j]
      upto_mono [OF conjunct1 [OF va'(2)] j] j by blast
qed

lemma adds_table_entry:
  assumes s: "adds_table m m' root T va k p f" and va': "user va'" "meets m root va k va'"
  shows "present (m' (slot m' root va' k))" "baseof (m' (slot m' root va' k)) = p"
  using adds_table_before [OF s va', of k] va'(2) adds_tableD(11-13) [OF s] by simp_all

lemma adds_table_zero:
  assumes s: "adds_table m m' root T va k p f" and va': "user va'" "meets m root va k va'"
  shows "m' (slot m' root va' (Suc k)) = 0"
proof -
  note k = adds_tableD(3) [OF s] and pk = adds_table_entry [OF s va']
  have "slot m' root va' (Suc k) = p + 8 * indexof va' (pgtables ! Suc k)" using pk(2) by simp
  then have z: "zero_page m p (slot m' root va' (Suc k)) = 0"
    using indexof_Suc [OF k] zero_page_entry by simp
  have "baseof (slot m' root va' (Suc k)) = p" using slot_base [OF k, of m' root va'] pk(2) by simp
  then have "slot m' root va' (Suc k) \<noteq> slot m root va k"
    using adds_table_notin [OF s adds_tableD(2) [OF s] _ adds_tableD(4) [OF s]] k by auto
  then show ?thesis using z by (simp add: adds_tableD(7) [OF s])
qed

lemma adds_table_through:
  assumes s: "adds_table m m' root T va k p f" and va': "user va'" "meets m root va k va'"
  shows "upto m' root va' j \<longleftrightarrow> j \<le> Suc k"
proof -
  have "upto m' root va' (Suc k)"
    using adds_table_before [OF s va', of k] va'(2) adds_table_entry [OF s va'] by (simp add: upto_Suc)
  moreover have "\<not> upto m' root va' (Suc (Suc k))"
    using adds_table_zero [OF s va'] by (simp add: upto_Suc present_def)
  ultimately show ?thesis using upto_mono not_less_eq_eq by metis
qed

text \<open>Walks that do not are as before.\<close>

lemma adds_table_off_entry:
  assumes s: "adds_table m m' root T va k p f" and va': "user va'" "\<not> meets m root va k va'"
    and j: "j \<le> 4" "upto m root va' j"
  shows "m' (slot m root va' j) = m (slot m root va' j)"
  using adds_table_same [OF s va'(1) j] adds_table_hit [OF s va'(1) j] va'(2) j(2) by fastforce

lemma adds_table_off:
  assumes s: "adds_table m m' root T va k p f" and va': "user va'" "\<not> meets m root va k va'" and j: "j \<le> 5"
  shows "(upto m' root va' j \<longleftrightarrow> upto m root va' j) \<and> (upto m root va' j \<longrightarrow> slot m' root va' j = slot m root va' j)"
proof -
  have "m' (slot m root va' i) = m (slot m root va' i)" if "i < 5" "upto m root va' i" for i
    using adds_table_off_entry [OF s va' _ that(2)] that(1) by simp
  then show ?thesis using walk_same [where n = 5 and m = m and m' = m' and root = root and va = va'] j by blast
qed

lemma adds_table_pte:
  assumes s: "adds_table m m' root T va k p f" and u': "user va'"
  shows "pte m' root va' = pte m root va'"
proof (cases "meets m root va k va'")
  case True
  note k = adds_tableD(3) [OF s]
  have "\<not> upto m root va' (Suc k)" using True adds_tableD(5) [OF s] by (simp add: upto_Suc)
  then have "\<not> upto m root va' 4" using upto_mono [of m root va' 4 "Suc k"] k by auto
  moreover have "pte m' root va' = 0"
  proof (cases "upto m' root va' 4")
    case up: True
    then have "Suc k = 4" using adds_table_through [OF s u' True, of 4] k by simp
    then show ?thesis using adds_table_zero [OF s u' True] up by (simp add: pte_def del: slot.simps)
  qed (simp add: pte_def)
  ultimately show ?thesis by (simp add: pte_def)
next
  case False
  then show ?thesis
    using adds_table_off [OF s u' False, of 4] adds_table_off_entry [OF s u' False, of 4] by (auto simp: pte_def)
qed

lemma adds_table_next:
  assumes s: "adds_table m m' root T va k p f" and u': "user va'" and j: "j \<le> 3" "upto m' root va' (Suc j)"
  shows "j = k \<and> slot m' root va' j = slot m root va k \<and> baseof (m' (slot m' root va' j)) = p \<or>
      upto m root va' (Suc j) \<and> slot m' root va' j = slot m root va' j \<and>
        m' (slot m' root va' j) = m (slot m root va' j)"
proof (cases "meets m root va k va'")
  case True
  have jk: "j \<le> k" using adds_table_through [OF s u' True, of "Suc j"] j by simp
  note tj = adds_table_before [OF s u' True jk]
  show ?thesis
  proof (cases "j = k")
    case eq: True
    then show ?thesis using adds_table_entry(2) [OF s u' True] tj True by simp
  next
    case ne: False
    then have "upto m root va' (Suc j)" using True upto_mono jk by (metis Suc_leI le_neq_implies_less)
    moreover have "slot m root va' j \<noteq> slot m root va k"
      using adds_table_hit [OF s u', of j] tj ne j(1) by auto
    ultimately show ?thesis using adds_table_same [OF s u', of j] tj j(1) by simp
  qed
next
  case False
  then show ?thesis
    using adds_table_off [OF s u' False, of j] adds_table_off [OF s u' False, of "Suc j"]
      adds_table_off_entry [OF s u' False, of j] j
    by (auto simp: upto_Suc)
qed

lemma adds_table_wf:
  assumes s: "adds_table m m' root T va k p f"
  shows "wf_tables m' root (insert p T)"
  unfolding wf_tables_def
proof (intro conjI allI impI ballI)
  note wf = adds_tableD(1) [OF s] and nx = adds_table_next [OF s]
  show "baseof t = t" "\<not> in_region t 4096 root" if "t \<in> insert p T" for t
    using that wf adds_tableD(6) [OF s] by (auto simp: wf_tables_def fresh_page_def)
  show "baseof (m' (slot m' root va' j)) \<in> insert p T" if "user va'" "j \<le> 3" "upto m' root va' (Suc j)" for va' j
    using nx [OF that] wf_tableD(3) [OF wf, of va' j] that by auto
  fix va1 va2 i j
  assume a: "user va1" "user va2" "i \<le> 3" "j \<le> 3" "upto m' root va1 (Suc i)" "upto m' root va2 (Suc j)"
    "baseof (m' (slot m' root va1 i)) = baseof (m' (slot m' root va2 j))"
  have "i = j \<and> slot m' root va1 i = slot m' root va2 j"
    using nx [OF a(1,3,5)] nx [OF a(2,4,6)]
  proof (elim disjE)
    assume "upto m root va1 (Suc i) \<and> slot m' root va1 i = slot m root va1 i \<and>
        m' (slot m' root va1 i) = m (slot m root va1 i)"
      "upto m root va2 (Suc j) \<and> slot m' root va2 j = slot m root va2 j \<and>
        m' (slot m' root va2 j) = m (slot m root va2 j)"
    then show ?thesis using wf_tableD(4) [OF wf a(1-4)] a(7) by metis
  qed (use a wf_tableD(3) [OF wf a(1,3)] wf_tableD(3) [OF wf a(2,4)] adds_tableD(9) [OF s] in auto)
  then show "i = j" "slot m' root va1 i = slot m' root va2 j" by blast+
qed

lemma add_table:
  assumes wf: "wf_tables m root T" and u: "user va" and k: "k \<le> 3" "upto m root va k"
    and np: "\<not> present (m (slot m root va k))" and fr: "fresh_page root T p"
    and f: "f = (PTE_W OR PTE_U :: u64) \<or> f = PTE_U"
    and m': "m' = (zero_page m p)(slot m root va k := p OR PTE_P OR f)"
  shows "wf_tables m' root (insert p T)" "user va' \<Longrightarrow> pte m' root va' = pte m root va'"
    "upto m' root va (Suc k)" "slot m' root va k = slot m root va k"
    "m' (slot m root va k) = p OR PTE_P OR f"
proof -
  have s: "adds_table m m' root T va k p f" using assms by (simp add: adds_table_def)
  show "wf_tables m' root (insert p T)" "user va' \<Longrightarrow> pte m' root va' = pte m root va'"
    by (rule adds_table_wf [OF s], rule adds_table_pte [OF s])
  show "upto m' root va (Suc k)" "slot m' root va k = slot m root va k"
    using adds_table_through [OF s u, of "Suc k"] adds_table_before [OF s u, of k] k by simp_all
  show "m' (slot m root va k) = p OR PTE_P OR f" by (rule adds_tableD(11) [OF s])
qed

section \<open>The walk that builds tables\<close>

definition pager_ok :: "'a pager \<Rightarrow> ('a \<Rightarrow> addr set) \<Rightarrow> bool" where
  \<comment> \<open>what \<open>map\<close> relies on: \<open>pgalloc\<close> gives NULL or one of the free pages, which then is not free\<close>
  "pager_ok P free \<longleftrightarrow> (\<forall>a p a'. pgalloc P a = (p, a') \<longrightarrow> p \<noteq> 0 \<longrightarrow> p \<in> free a \<and> free a' = free a - {p})"

definition vme_ok :: "('a \<Rightarrow> addr set) \<Rightarrow> addr \<Rightarrow> addr set \<Rightarrow> 'a vme \<Rightarrow> bool" where
  "vme_ok free root T s \<longleftrightarrow> wf_tables (wmem s) root T \<and> free (alloc s) \<inter> T = {} \<and>
     (\<forall>p \<in> free (alloc s). baseof p = p \<and> \<not> in_region p 4096 root)"

lemma pgallocz_fresh:
  assumes "pager_ok P free" and "vme_ok free root T s" and "pgallocz P s = Inr (p, s1)"
  shows "fresh_page root T p" "wmem s1 = zero_page (wmem s) p" "free (alloc s1) = free (alloc s) - {p}"
    "p \<in> free (alloc s)"
proof -
  obtain a where a: "pgalloc P (alloc s) = (p, a)" "p \<noteq> 0" "s1 = s\<lparr>alloc := a, wmem := zero_page (wmem s) p\<rparr>"
    using assms(3) by (auto simp: pgallocz_def rbind_Inr_iff split: prod.splits)
  have fr: "p \<in> free (alloc s)" "free a = free (alloc s) - {p}"
    using assms(1) a(1,2) unfolding pager_ok_def by blast+
  then show "fresh_page root T p" "wmem s1 = zero_page (wmem s) p" "free (alloc s1) = free (alloc s) - {p}"
    "p \<in> free (alloc s)"
    using assms(2) a by (auto simp: vme_ok_def fresh_page_def)
qed

lemma ptwalk_loop_ok:
  assumes pg: "pager_ok P free" and u: "user va"
    and f: "f = (PTE_W OR PTE_U :: u64) \<or> f = PTE_U"
  shows "k \<le> 4 \<Longrightarrow> vme_ok free root T s \<Longrightarrow> upto (wmem s) root va k \<Longrightarrow>
    cur + 8 * indexof va (pgtables ! k) = slot (wmem s) root va k \<Longrightarrow>
    ptwalk_loop P f va (drop k pgtables) cur s = Inr (e, s') \<Longrightarrow>
    \<exists>T'. T \<subseteq> T' \<and> vme_ok free root T' s' \<and> upto (wmem s') root va 4 \<and>
      e = slot (wmem s') root va 4 \<and> (\<forall>va'. user va' \<longrightarrow> pte (wmem s') root va' = pte (wmem s) root va')"
proof (induction "4 - k" arbitrary: k T s cur)
  case 0
  then have "k = 4" by simp
  then have "drop k pgtables = [pgtables ! k]" by (simp add: pgtables_def)
  then show ?case using 0 \<open>k = 4\<close> by auto
next
  case (Suc n)
  then have k: "k \<le> 3" "n = 4 - Suc k" "Suc k \<le> 4" by simp_all
  have "k < length pgtables" "Suc k < length pgtables" using k(1) by (simp_all add: pgtables_def)
  then have d: "drop k pgtables = pgtables ! k # pgtables ! Suc k # drop (Suc (Suc k)) pgtables"
      "drop (Suc k) pgtables = pgtables ! Suc k # drop (Suc (Suc k)) pgtables"
    by (simp_all add: Cons_nth_drop_Suc)
  let ?slot = "slot (wmem s) root va k"
  show ?case
  proof (cases "present (wmem s ?slot)")
    case True
    then have run: "ptwalk_loop P f va (drop (Suc k) pgtables) (baseof (wmem s ?slot)) s = Inr (e, s')"
      using Suc.prems(4,5) by (simp only: d ptwalk_loop.simps Let_def) simp
    have up: "upto (wmem s) root va (Suc k)" using Suc.prems(3) True by (simp add: upto_Suc)
    show ?thesis by (rule Suc.hyps(1) [OF k(2,3) Suc.prems(2) up _ run]) simp
  next
    case False
    then obtain p s1 where p: "pgallocz P s = Inr (p, s1)"
      and run: "ptwalk_loop P f va (drop (Suc k) pgtables) p
        (s1\<lparr>wmem := (wmem s1)(?slot := p OR PTE_P OR f)\<rparr>) = Inr (e, s')"
      using Suc.prems(4,5) by (auto simp: d Let_def rbind_Inr_iff simp del: slot.simps)
    let ?s2 = "s1\<lparr>wmem := (wmem s1)(?slot := p OR PTE_P OR f)\<rparr>"
    note fr = pgallocz_fresh [OF pg Suc.prems(2) p]
    have wf: "wf_tables (wmem s) root T" using Suc.prems(2) by (simp add: vme_ok_def)
    have m2: "wmem ?s2 = (zero_page (wmem s) p)(?slot := p OR PTE_P OR f)" using fr(2) by simp
    note add = add_table [OF wf u k(1) Suc.prems(3) False fr(1) f m2]
    have ok: "vme_ok free root (insert p T) ?s2"
      using Suc.prems(2) add(1) fr(3) by (auto simp: vme_ok_def)
    have pb: "baseof p = p" using fr(1) by (simp add: fresh_page_def)
    have c: "p + 8 * indexof va (pgtables ! Suc k) = slot (wmem ?s2) root va (Suc k)"
      unfolding slot.simps add(4,5) new_entry(1) [OF pb f] ..
    from Suc.hyps(1) [OF k(2,3) ok add(3) c run] obtain T' where T':
      "insert p T \<subseteq> T'" "vme_ok free root T' s'" "upto (wmem s') root va 4" "e = slot (wmem s') root va 4"
      "\<forall>va'. user va' \<longrightarrow> pte (wmem s') root va' = pte (wmem ?s2) root va'" by blast
    then show ?thesis using add(2) by (intro exI [of _ T']) auto
  qed
qed

lemma ptwalk_ok:
  assumes "pager_ok P free" and "user va" and "vme_ok free (as_ptr aspace) T s"
    and "ptwalk P aspace va (PTE_W OR PTE_U) s = Inr (e, s')"
  shows "\<exists>T'. T \<subseteq> T' \<and> vme_ok free (as_ptr aspace) T' s' \<and> upto (wmem s') (as_ptr aspace) va 4 \<and>
    e = slot (wmem s') (as_ptr aspace) va 4 \<and>
    (\<forall>va'. user va' \<longrightarrow> pte (wmem s') (as_ptr aspace) va' = pte (wmem s) (as_ptr aspace) va')"
  using ptwalk_loop_ok [OF assms(1,2) disjI1 [OF refl] _ assms(3), of 0] assms(4)
  by (simp add: ptwalk_def)

section \<open>Mapping is correct\<close>

definition user_pte :: "addr \<Rightarrow> u64 \<Rightarrow> u64" where
  "user_pte pa prot = pa OR PTE_P OR PTE_U OR (if prot AND MMAP_WRITE \<noteq> 0 then PTE_W else 0)"

lemma vme_ok_leaf_write:
  assumes "vme_ok free root T s" and "user va" and "upto (wmem s) root va 4"
    and "s' = s\<lparr>wmem := (wmem s)(slot (wmem s) root va 4 := e)\<rparr>"
  shows "vme_ok free root T s'"
  using assms leaf_write(1) [of "wmem s" root T va] by (auto simp: vme_ok_def)

text \<open>C3: when \<open>map\<close> succeeds on an address space with well-formed page tables, the walk for the
  address reaches exactly the new entry (or 0 after an unmap), the entry of every other user page is
  what it was, no matter which tables the walk had to add, and the tables are well-formed again;
  a page is never mapped twice and only a mapped page is unmapped.\<close>

theorem map_page_correct:
  assumes "pager_ok P free" and "vme_ok free (as_ptr aspace) T s"
    and "map_page P aspace va pa prot s = Inr s'"
  shows "user va \<and> baseof va = va \<and> baseof pa = pa \<and>
    (\<exists>T'. T \<subseteq> T' \<and> vme_ok free (as_ptr aspace) T' s') \<and>
    (if prot = MMAP_NONE
     then present (pte (wmem s) (as_ptr aspace) va) \<and> pte (wmem s') (as_ptr aspace) va = 0
     else \<not> present (pte (wmem s) (as_ptr aspace) va) \<and>
       pte (wmem s') (as_ptr aspace) va = user_pte pa prot) \<and>
    (\<forall>va'. user va' \<longrightarrow> baseof va' \<noteq> va \<longrightarrow>
       pte (wmem s') (as_ptr aspace) va' = pte (wmem s) (as_ptr aspace) va')"
proof -
  let ?r = "as_ptr aspace"
  have u: "user va" and al: "baseof va = va" "baseof pa = pa"
    using assms(3) by (auto simp: map_page_def rbind_Inr_iff user_def ROUNDDOWN_def baseof_def)
  obtain e s1 s2 e3 where w1: "ptwalk P aspace va (PTE_W OR PTE_U) s = Inr (e, s1)"
    and w: "s2 = s1\<lparr>wmem := (wmem s1)(e := if prot = MMAP_NONE then 0 else user_pte pa prot)\<rparr>"
    and p: "present (wmem s1 e) \<longleftrightarrow> prot = MMAP_NONE"
    and w2: "ptwalk P aspace va (PTE_W OR PTE_U) s2 = Inr (e3, s')"
    using assms(3)
    by (auto simp: map_page_def rbind_Inr_iff user_pte_def Let_def split: if_splits)
  from ptwalk_ok [OF assms(1) u assms(2) w1] obtain T1 where T1: "T \<subseteq> T1" "vme_ok free ?r T1 s1"
    "upto (wmem s1) ?r va 4" "e = slot (wmem s1) ?r va 4"
    "\<And>va'. user va' \<Longrightarrow> pte (wmem s1) ?r va' = pte (wmem s) ?r va'" by blast
  have wf: "wf_tables (wmem s1) ?r T1" using T1(2) by (simp add: vme_ok_def)
  have m2: "wmem s2 = (wmem s1)(slot (wmem s1) ?r va 4 := if prot = MMAP_NONE then 0 else user_pte pa prot)"
    using w T1(4) by simp
  note lw = leaf_write [OF wf u T1(3) m2]
  have ok2: "vme_ok free ?r T1 s2" using vme_ok_leaf_write [OF T1(2) u T1(3)] w T1(4) by blast
  from ptwalk_ok [OF assms(1) u ok2 w2] obtain T2 where T2: "T1 \<subseteq> T2" "vme_ok free ?r T2 s'"
    "\<And>va'. user va' \<Longrightarrow> pte (wmem s') ?r va' = pte (wmem s2) ?r va'" by blast
  have old: "pte (wmem s) ?r va = wmem s1 e" using T1(3,4) T1(5) [OF u] by (simp add: pte_def)
  have "pte (wmem s') ?r va = (if prot = MMAP_NONE then 0 else user_pte pa prot)"
    using T2(3) [OF u] lw(3) by simp
  moreover have "pte (wmem s') ?r va' = pte (wmem s) ?r va'" if "user va'" "baseof va' \<noteq> va" for va'
    using T2(3) [OF that(1)] lw(2) [OF that(1)] that(2) T1(5) [OF that(1)] al(1) by simp
  moreover have "T \<subseteq> T2" using T1(1) T2(1) by blast
  ultimately show ?thesis using u al T2(2) p old by auto
qed


definition demo_pager :: "addr list pager" where
  "demo_pager = \<lparr>pgalloc = (\<lambda>a. case a of [] \<Rightarrow> (0, []) | p # ps \<Rightarrow> if p \<in> set ps then (0, a) else (p, ps)),
     pgfree = (\<lambda>p a. p # a)\<rparr>"

definition demo_vme :: "addr list vme" where
  "demo_vme = \<lparr>wmem = (\<lambda>_. 0), alloc = [0x10000, 0x11000, 0x12000, 0x13000, 0x14000, 0x15000, 0x16000, 0x17000], kpt = 0, cr0 = 0, cr3 = 0\<rparr>"

lemma demo_pager_ok: "pager_ok demo_pager set"
  by (auto simp: pager_ok_def demo_pager_def split: list.splits if_splits)

lemma demo_vme_ok: "vme_ok set (as_ptr 0x100) {} demo_vme"
proof -
  have "\<not> upto (\<lambda>_. 0) r va (Suc j)" for r va j
    by (auto simp: upto_def present_def)
  then show ?thesis
    by (simp add: vme_ok_def demo_vme_def wf_tables_def baseof_def pgsize_def in_region_def as_ptr_def
        unat_sub_if_size word_size)
qed

lemma demo_walk:
  "infos \<noteq> [] \<Longrightarrow> length infos \<le> Suc (length (alloc s)) \<Longrightarrow> distinct (alloc s) \<Longrightarrow> 0 \<notin> set (alloc s) \<Longrightarrow>
    \<exists>e s'. ptwalk_loop demo_pager f va infos cur s = Inr (e, s') \<and> distinct (alloc s') \<and>
      0 \<notin> set (alloc s') \<and> length (alloc s) < length (alloc s') + length infos"
proof (induction infos arbitrary: cur s)
  case (Cons info infos)
  show ?case
  proof (cases infos)
    case Nil
    then show ?thesis using Cons.prems by simp
  next
    case (Cons info' rest)
    let ?slot = "cur + 8 * indexof va info"
    show ?thesis
    proof (cases "present (wmem s ?slot)")
      case True
      then show ?thesis using Cons.IH [of s "baseof (wmem s ?slot)"] Cons.prems Cons by (force simp: Let_def)
    next
      case False
      from Cons.prems Cons obtain p ps where a: "alloc s = p # ps" by (cases "alloc s") auto
      let ?s1 = "s\<lparr>alloc := ps, wmem := zero_page (wmem s) p\<rparr>"
      have z: "pgallocz demo_pager s = Inr (p, ?s1)"
        using a Cons.prems by (auto simp: pgallocz_def demo_pager_def)
      show ?thesis
        using Cons.IH [of "?s1\<lparr>wmem := (wmem ?s1)(?slot := p OR PTE_P OR f)\<rparr>" p] Cons.prems Cons a False z
        by (force simp: Let_def)
    qed
  qed
qed simp

lemma demo_map:
  "\<exists>s'. map_page demo_pager 0x100 0x100000001000 0x5000 MMAP_WRITE demo_vme = Inr s'"
proof -
  let ?va = "0x100000001000 :: addr"
  let ?s = demo_vme
  have g: "IN_RANGE ?va uvm_area" "?va = ROUNDDOWN ?va pgsize" "0x5000 = ROUNDDOWN 0x5000 pgsize"
    "MMAP_WRITE \<noteq> MMAP_NONE" "length pgtables = 5" "pgtables \<noteq> []"
    by (simp_all add: IN_RANGE_def uvm_area_def vm_areas_def RANGE_def ROUNDDOWN_def pgsize_def
        MMAP_WRITE_def MMAP_NONE_def pgtables_def)
  obtain e s1 where w1: "ptwalk demo_pager 0x100 ?va (PTE_W OR PTE_U) ?s = Inr (e, s1)"
    and a1: "distinct (alloc s1)" "0 \<notin> set (alloc s1)" "4 \<le> length (alloc s1)"
    using demo_walk [of pgtables ?s "PTE_W OR PTE_U" ?va "as_ptr 0x100"] g
    by (auto simp: ptwalk_def demo_vme_def)
  have u: "user ?va" using g(1) by (simp add: user_def)
  from ptwalk_ok [OF demo_pager_ok u demo_vme_ok w1]
  have "wmem s1 e = pte (wmem ?s) (as_ptr 0x100) ?va"
    using u by (metis pte_def)
  also have "\<dots> = 0" by (simp add: pte_def demo_vme_def)
  finally have "\<not> present (wmem s1 e)" by (simp add: present_def)
  moreover obtain e2 s3 where "ptwalk demo_pager 0x100 ?va (PTE_W OR PTE_U)
      (s1\<lparr>wmem := (wmem s1)(e := user_pte 0x5000 MMAP_WRITE)\<rparr>) = Inr (e2, s3)"
    using demo_walk [of pgtables "s1\<lparr>wmem := (wmem s1)(e := user_pte 0x5000 MMAP_WRITE)\<rparr>" "PTE_W OR PTE_U" ?va "as_ptr 0x100"] a1 g
    by (auto simp: ptwalk_def)
  ultimately show ?thesis
    using g w1 by (simp add: map_page_def user_pte_def Let_def)
qed

theorem map_page_correct_witness:
  "\<exists>s'. map_page demo_pager 0x100 0x100000001000 0x5000 MMAP_WRITE demo_vme = Inr s' \<and>
     pte (wmem s') (as_ptr 0x100) 0x100000001000 = 0x5007 \<and>
     pte (wmem s') (as_ptr 0x100) 0x100000002000 = 0"
proof -
  obtain s' where s': "map_page demo_pager 0x100 0x100000001000 0x5000 MMAP_WRITE demo_vme = Inr s'"
    using demo_map by blast
  have "user 0x100000002000" "baseof 0x100000002000 \<noteq> 0x100000001000" "MMAP_WRITE \<noteq> MMAP_NONE"
    by (simp_all add: user_def IN_RANGE_def uvm_area_def vm_areas_def RANGE_def baseof_def pgsize_def
        MMAP_WRITE_def MMAP_NONE_def)
  moreover have "user_pte 0x5000 MMAP_WRITE = 0x5007"
    by (simp add: user_pte_def MMAP_WRITE_def PTE_P_def PTE_U_def PTE_W_def)
  moreover have "pte (wmem demo_vme) (as_ptr 0x100) 0x100000002000 = 0" by (simp add: pte_def demo_vme_def)
  ultimately show ?thesis
    using map_page_correct [OF demo_pager_ok demo_vme_ok s'] s' by auto
qed

end
