(* ===== verification/X86_APIC.thy ===== *)
theory X86_APIC
  imports AM_Base
begin

text \<open>
  The multiprocessor part of the \<open>x86-qemu\<close> platform: the local and I/O interrupt controllers at the
  end of \<open>abstract-machine/am/src/x86/qemu/ioe.c\<close>, the search for the processors in
  \<open>__am_lapic_init\<close> of \<open>trm.c\<close>, and \<open>mpe.c\<close>. What the hardware does is a parameter: \<open>hw\<close> has one
  operation per instruction wrapper of \<open>x86.h\<close> and per volatile access, on a hardware state \<open>'w\<close>.
\<close>

section \<open>The hardware\<close>

record 'w hw =
  h_inb :: "u16 \<Rightarrow> 'w \<Rightarrow> u8 \<times> 'w"
  h_inl :: "u16 \<Rightarrow> 'w \<Rightarrow> u32 \<times> 'w"
  h_outb :: "u16 \<Rightarrow> u8 \<Rightarrow> 'w \<Rightarrow> 'w"
  h_outw :: "u16 \<Rightarrow> u16 \<Rightarrow> 'w \<Rightarrow> 'w"
  h_outl :: "u16 \<Rightarrow> u32 \<Rightarrow> 'w \<Rightarrow> 'w"
  h_load :: "addr \<Rightarrow> 'w \<Rightarrow> u32 \<times> 'w"    \<comment> \<open>a volatile load of 32 bits\<close>
  h_store :: "addr \<Rightarrow> u32 \<Rightarrow> 'w \<Rightarrow> 'w"
  h_store16 :: "addr \<Rightarrow> u16 \<Rightarrow> 'w \<Rightarrow> 'w"
  h_xchg :: "addr \<Rightarrow> u32 \<Rightarrow> 'w \<Rightarrow> u32 \<times> 'w"
  h_rdtsc :: "'w \<Rightarrow> u64 \<times> 'w"
  h_cli :: "'w \<Rightarrow> 'w"
  h_sti :: "'w \<Rightarrow> 'w"
  h_flags :: "'w \<Rightarrow> u32"

record 'w x86 =
  lapic :: addr      \<comment> \<open>\<open>__am_lapic\<close>, 0 for NULL\<close>
  ioapic :: addr
  ncpu :: int        \<comment> \<open>\<open>__am_ncpu\<close>\<close>
  world :: 'w

definition T_IRQ0 :: u32 where "T_IRQ0 = 32"
definition IRQ_TIMER :: u32 where "IRQ_TIMER = 0"
definition IRQ_KBD :: u32 where "IRQ_KBD = 1"
definition IRQ_COM1 :: u32 where "IRQ_COM1 = 4"
definition IRQ_ERROR :: u32 where "IRQ_ERROR = 19"
definition IRQ_SPURIOUS :: u32 where "IRQ_SPURIOUS = 31"
definition MAX_CPU :: int where "MAX_CPU = 8"
definition BOOTREC_ADDR :: addr where "BOOTREC_ADDR = 0x07000"
definition MAINARG_ADDR :: addr where "MAINARG_ADDR = 0x10000"

section \<open>The local interrupt controller\<close>

definition ID :: nat where "ID = 0x0020 div 4"
definition VER :: nat where "VER = 0x0030 div 4"
definition TPR :: nat where "TPR = 0x0080 div 4"
definition EOI :: nat where "EOI = 0x00B0 div 4"
definition SVR :: nat where "SVR = 0x00F0 div 4"
definition ENABLE :: u32 where "ENABLE = 0x00000100"
definition ESR :: nat where "ESR = 0x0280 div 4"
definition ICRLO :: nat where "ICRLO = 0x0300 div 4"
definition INIT :: u32 where "INIT = 0x00000500"
definition STARTUP :: u32 where "STARTUP = 0x00000600"
definition DELIVS :: u32 where "DELIVS = 0x00001000"
definition ASSERT :: u32 where "ASSERT = 0x00004000"
definition LEVEL :: u32 where "LEVEL = 0x00008000"
definition BCAST :: u32 where "BCAST = 0x00080000"
definition ICRHI :: nat where "ICRHI = 0x0310 div 4"
definition TIMER :: nat where "TIMER = 0x0320 div 4"
definition X1 :: u32 where "X1 = 0x0000000B"
definition PERIODIC :: u32 where "PERIODIC = 0x00020000"
definition PCINT :: nat where "PCINT = 0x0340 div 4"
definition LINT0 :: nat where "LINT0 = 0x0350 div 4"
definition LINT1 :: nat where "LINT1 = 0x0360 div 4"
definition ERROR :: nat where "ERROR = 0x0370 div 4"
definition MASKED :: u32 where "MASKED = 0x00010000"
definition TICR :: nat where "TICR = 0x0380 div 4"
definition TDCR :: nat where "TDCR = 0x03E0 div 4"

definition lapic_reg :: "'w hw \<Rightarrow> nat \<Rightarrow> 'w x86 \<Rightarrow> u32 \<times> 'w x86" where
  \<comment> \<open>\<open>__am_lapic[index]\<close>\<close>
  "lapic_reg H index s =
     (case h_load H (lapic s + 4 * of_nat index) (world s) of (v, w) \<Rightarrow> (v, s\<lparr>world := w\<rparr>))"

definition lapicw :: "'w hw \<Rightarrow> nat \<Rightarrow> u32 \<Rightarrow> 'w x86 \<Rightarrow> 'w x86" where
  "lapicw H index v s =
     snd (lapic_reg H ID (s\<lparr>world := h_store H (lapic s + 4 * of_nat index) v (world s)\<rparr>))"

partial_function (option) wait_delivered :: "'w hw \<Rightarrow> 'w x86 \<Rightarrow> 'w x86 option" where
  \<comment> \<open>\<open>while (__am_lapic[ICRLO] & DELIVS) ;\<close>\<close>
  "wait_delivered H s =
     (case lapic_reg H ICRLO s of (v, s') \<Rightarrow> if v AND DELIVS \<noteq> 0 then wait_delivered H s' else Some s')"

definition percpu_initlapic :: "'w hw \<Rightarrow> 'w x86 \<Rightarrow> 'w x86 option" where
  "percpu_initlapic H s =
     (let s = lapicw H SVR (ENABLE OR (T_IRQ0 + IRQ_SPURIOUS)) s;
          s = lapicw H TDCR X1 s;
          s = lapicw H TIMER (PERIODIC OR (T_IRQ0 + IRQ_TIMER)) s;
          s = lapicw H TICR 10000000 s;
          s = lapicw H LINT0 MASKED s;
          s = lapicw H LINT1 MASKED s
      in case lapic_reg H VER s of (ver, s) \<Rightarrow>
      let s = (if 4 \<le> drop_bit 16 ver AND 0xFF then lapicw H PCINT MASKED s else s);
          s = lapicw H ERROR (T_IRQ0 + IRQ_ERROR) s;
          s = lapicw H ESR 0 s;
          s = lapicw H ESR 0 s;
          s = lapicw H EOI 0 s;
          s = lapicw H ICRHI 0 s;
          s = lapicw H ICRLO (BCAST OR INIT OR LEVEL) s
      in Option.bind (wait_delivered H s) (\<lambda>s. Some (lapicw H TPR 0 s)))"

definition lapic_eoi :: "'w hw \<Rightarrow> 'w x86 \<Rightarrow> 'w x86" where
  "lapic_eoi H s = (if lapic s \<noteq> 0 then lapicw H EOI 0 s else s)"

definition lapic_bootap :: "'w hw \<Rightarrow> u32 \<Rightarrow> addr \<Rightarrow> 'w x86 \<Rightarrow> 'w x86" where
  "lapic_bootap H apicid a s =
     (let s = s\<lparr>world := h_outb H 0x70 0xF (world s)\<rparr>;
          s = s\<lparr>world := h_outb H 0x71 0x0A (world s)\<rparr>;
          wrv = push_bit 4 0x40 OR 0x67;
          s = s\<lparr>world := h_store16 H wrv 0 (world s)\<rparr>;
          s = s\<lparr>world := h_store16 H (wrv + 2) (ucast (drop_bit 4 a)) (world s)\<rparr>;
          s = lapicw H ICRHI (push_bit 24 apicid) s;
          s = lapicw H ICRLO (INIT OR LEVEL OR ASSERT) s;
          s = lapicw H ICRLO (INIT OR LEVEL) s
      in fold (\<lambda>i s. lapicw H ICRLO (STARTUP OR ucast (drop_bit 12 a))
                 (lapicw H ICRHI (push_bit 24 apicid) s)) [0..<2] s)"

section \<open>The I/O interrupt controller\<close>

definition IOAPIC_ADDR :: addr where "IOAPIC_ADDR = 0xFEC00000"
definition REG_VER :: u32 where "REG_VER = 0x01"
definition REG_TABLE :: u32 where "REG_TABLE = 0x10"
definition INT_DISABLED :: u32 where "INT_DISABLED = 0x00010000"

definition ioapicread :: "'w hw \<Rightarrow> u32 \<Rightarrow> 'w x86 \<Rightarrow> u32 \<times> 'w x86" where
  \<comment> \<open>the register index is at offset 0, the data window at offset 16\<close>
  "ioapicread H reg s =
     (case h_load H (ioapic s + 16) (h_store H (ioapic s) reg (world s)) of (v, w) \<Rightarrow> (v, s\<lparr>world := w\<rparr>))"

definition ioapicwrite :: "'w hw \<Rightarrow> u32 \<Rightarrow> u32 \<Rightarrow> 'w x86 \<Rightarrow> 'w x86" where
  "ioapicwrite H reg data s =
     s\<lparr>world := h_store H (ioapic s + 16) data (h_store H (ioapic s) reg (world s))\<rparr>"

definition ioapic_init :: "'w hw \<Rightarrow> 'w x86 \<Rightarrow> 'w x86" where
  "ioapic_init H s =
     (let s = s\<lparr>ioapic := IOAPIC_ADDR\<rparr> in
      case ioapicread H REG_VER s of (v, s) \<Rightarrow>
        fold (\<lambda>i s. ioapicwrite H (REG_TABLE + 2 * of_nat i + 1) 0
                 (ioapicwrite H (REG_TABLE + 2 * of_nat i) (INT_DISABLED OR (T_IRQ0 + of_nat i)) s))
          [0..<Suc (unat (drop_bit 16 v AND 0xFF))] s)"

definition ioapic_enable :: "'w hw \<Rightarrow> u32 \<Rightarrow> u32 \<Rightarrow> 'w x86 \<Rightarrow> 'w x86" where
  "ioapic_enable H irq cpunum s =
     ioapicwrite H (REG_TABLE + 2 * irq + 1) (push_bit 24 cpunum)
       (ioapicwrite H (REG_TABLE + 2 * irq) (T_IRQ0 + irq) s)"

section \<open>Finding the processors\<close>

function find_mp :: "mem \<Rightarrow> addr \<Rightarrow> addr option" where
  \<comment> \<open>the address of the floating pointer structure, searched from \<open>st\<close>; the loop starts below
    \<open>0xffffff\<close>, so that its \<open>st != 0xffffff\<close> is \<open>st < 0xffffff\<close>\<close>
  "find_mp m st =
     (if 0xffffff \<le> st then None
      else if load 4 m st = (0x5f504d5f :: u32) then Some st
      else find_mp m (st + 1))"
  by pat_completeness auto
termination
proof (relation "measure (\<lambda>(m, st). 0xffffff - unat st)")
  fix m :: mem and st :: addr
  assume "\<not> 0xffffff \<le> st"
  then have "st < 0xffffff" by simp
  then show "((m, st + 1), m, st) \<in> measure (\<lambda>(m, st). 0xffffff - unat st)"
    using unat_Suc_lt [of st "0xffffff"] by (simp add: word_less_nat_alt)
qed simp

declare find_mp.simps [simp del]

function mp_entries :: "mem \<Rightarrow> addr \<Rightarrow> nat \<Rightarrow> nat \<Rightarrow> int \<Rightarrow> c_error + int" where
  \<comment> \<open>the entries at the offsets from \<open>k\<close> to \<open>len\<close> of the table, with the processors counted so far\<close>
  "mp_entries m conf len k n =
     (if k < len then
        if m (conf + of_nat k) = 0 then
          rbind (panic_on (n + 1 > MAX_CPU) ''cannot support > MAX_CPU processors'') (\<lambda>_.
            mp_entries m conf len (k + 12 + 8) (n + 1))
        else mp_entries m conf len (k + 8) n
      else Inr n)"
  by pat_completeness auto
termination by (relation "measure (\<lambda>(m, conf, len, k, n). len - k)") auto

declare mp_entries.simps [simp del]

definition sizeof_MPConf :: nat where "sizeof_MPConf = 44"

definition lapic_init :: "mem \<Rightarrow> 'w x86 \<Rightarrow> c_error + 'w x86" where
  "lapic_init m s =
     (case find_mp m 0xf0000 of
        None \<Rightarrow> Inl (Panic ''internal error (likely a bug in AM)'')
      | Some st \<Rightarrow>
          let conf = ucast (load 4 m (st + 4) :: u32) in
          rbind (mp_entries m conf (unat (load 2 m (conf + 4) :: u16)) sizeof_MPConf (ncpu s)) (\<lambda>n.
            Inr (s\<lparr>lapic := ucast (load 4 m (conf + 36) :: u32), ncpu := n\<rparr>)))"


section \<open>Other processors\<close>

record 'w mpe =
  machine :: "'w x86"
  user_entry :: addr
  ap_ready :: addr         \<comment> \<open>the address of the flag\<close>

definition boot_record_jmp :: addr where "boot_record_jmp = BOOTREC_ADDR"
definition boot_record_is_ap :: addr where "boot_record_is_ap = BOOTREC_ADDR + 4"

definition cpu_current :: "'w hw \<Rightarrow> 'w x86 \<Rightarrow> u32 \<times> 'w x86" where
  "cpu_current H s = (case lapic_reg H 8 s of (v, s) \<Rightarrow> (drop_bit 24 v, s))"

definition cpu_count :: "'w x86 \<Rightarrow> int" where "cpu_count s = ncpu s"

definition atomic_xchg :: "'w hw \<Rightarrow> addr \<Rightarrow> u32 \<Rightarrow> 'w x86 \<Rightarrow> u32 \<times> 'w x86" where
  "atomic_xchg H a newval s = (case h_xchg H a newval (world s) of (v, w) \<Rightarrow> (v, s\<lparr>world := w\<rparr>))"

definition store_boot :: "'w hw \<Rightarrow> addr \<Rightarrow> u32 \<Rightarrow> 'w x86 \<Rightarrow> 'w x86" where
  "store_boot H a v s = s\<lparr>world := h_store H a v (world s)\<rparr>"

partial_function (option) wait_ap :: "'w hw \<Rightarrow> addr \<Rightarrow> 'w x86 \<Rightarrow> 'w x86 option" where
  \<comment> \<open>\<open>while (xchg(&ap_ready, 0) != 1) pause();\<close>\<close>
  "wait_ap H ready s =
     (case atomic_xchg H ready 0 s of (v, s') \<Rightarrow> if v \<noteq> 1 then wait_ap H ready s' else Some s')"

definition start_ap :: "'w hw \<Rightarrow> addr \<Rightarrow> nat \<Rightarrow> 'w x86 \<Rightarrow> 'w x86 option" where
  "start_ap H ready cpu s =
     wait_ap H ready (lapic_bootap H (of_nat cpu) BOOTREC_ADDR (store_boot H boot_record_is_ap 1 s))"

definition mpe_init :: "'w hw \<Rightarrow> addr \<Rightarrow> 'w mpe \<Rightarrow> 'w mpe option" where
  \<comment> \<open>up to the call of the entry, which does not return; \<open>0x000bfde9\<close> is a jump to \<open>0x7c00\<close>\<close>
  "mpe_init H entry e =
     (let e = e\<lparr>user_entry := entry\<rparr>;
          s = store_boot H boot_record_jmp 0x000bfde9 (machine e)
      in Option.bind
           (fold (\<lambda>cpu r. Option.bind r (start_ap H (ap_ready e) cpu)) [1..<nat (ncpu s)] (Some s))
           (\<lambda>s. Some (e\<lparr>machine := s\<rparr>)))"

definition stop_the_world :: "'w hw \<Rightarrow> 'w x86 \<Rightarrow> 'w x86" where
  "stop_the_world H s =
     fold (\<lambda>cpu s. case cpu_current H s of (c, s) \<Rightarrow>
             if of_nat cpu \<noteq> c then lapic_bootap H (of_nat cpu) BOOTREC_ADDR s else s)
       [0..<nat (ncpu s)] (store_boot H boot_record_jmp 0x0000feeb s)"

section \<open>The processors are counted\<close>

datatype mp_entry = Processor "u8 list" | Other u8 "u8 list"

fun entry_bytes :: "mp_entry \<Rightarrow> u8 list" where
  "entry_bytes (Processor bs) = 0 # bs"
| "entry_bytes (Other t bs) = t # bs"

fun entry_ok :: "mp_entry \<Rightarrow> bool" where
  \<comment> \<open>a processor entry has 20 bytes, every other one 8\<close>
  "entry_ok (Processor bs) \<longleftrightarrow> length bs = 19"
| "entry_ok (Other t bs) \<longleftrightarrow> t \<noteq> 0 \<and> length bs = 7"

fun processors :: "mp_entry list \<Rightarrow> nat" where
  "processors [] = 0"
| "processors (Processor bs # es) = Suc (processors es)"
| "processors (Other t bs # es) = processors es"

definition table_bytes :: "mp_entry list \<Rightarrow> u8 list" where
  "table_bytes es = concat (map entry_bytes es)"

lemma mp_entries_count:
  assumes "list_all entry_ok es" and "stored m (conf + of_nat k) (table_bytes es)"
    and "len = k + length (table_bytes es)" and "n \<le> MAX_CPU"
  shows "mp_entries m conf len k n =
     (if n + int (processors es) \<le> MAX_CPU then Inr (n + int (processors es))
      else Inl (Panic ''cannot support > MAX_CPU processors''))"
  using assms
proof (induction es arbitrary: k n)
  case Nil
  then show ?case by (subst mp_entries.simps) (simp add: table_bytes_def)
next
  case (Cons e es)
  have st: "stored m (conf + of_nat (k + length (entry_bytes e))) (table_bytes es)"
    and hd: "m (conf + of_nat k) = hd (entry_bytes e)" and ok: "entry_ok e" "list_all entry_ok es"
    using Cons.prems by (cases e; auto simp: table_bytes_def stored_append ac_simps)+
  have len: "len = k + length (entry_bytes e) + length (table_bytes es)" "k < len"
    using Cons.prems(3) by (cases e; simp add: table_bytes_def)+
  show ?case
  proof (cases e)
    case (Processor bs)
    then have l: "length (entry_bytes e) = 20" using ok by simp
    show ?thesis
    proof (cases "n + 1 \<le> MAX_CPU")
      case True
      have "mp_entries m conf len k n = mp_entries m conf len (k + 20) (n + 1)"
        using True len hd Processor by (subst mp_entries.simps) (simp add: add.commute)
      then show ?thesis
        using Cons.IH [of "k + 20" "n + 1"] st ok len l True Processor by (simp add: ac_simps)
    next
      case False
      then show ?thesis using len hd Processor by (subst mp_entries.simps) simp
    qed
  next
    case (Other t bs)
    then have l: "length (entry_bytes e) = 8" using ok by simp
    have "mp_entries m conf len k n = mp_entries m conf len (k + 8) n"
      using len hd Other ok by (subst mp_entries.simps) (simp add: add.commute)
    then show ?thesis
      using Cons.IH [of "k + 8" n] st ok len l Cons.prems(4) Other by (simp add: ac_simps)
  qed
qed

lemma find_mp_first:
  assumes "load 4 m (st + of_nat d) = (0x5f504d5f :: u32)" and "\<forall>i < d. load 4 m (st + of_nat i) \<noteq> (0x5f504d5f :: u32)"
    and "unat st + d < 0xffffff"
  shows "find_mp m st = Some (st + of_nat d)"
  using assms
proof (induction d arbitrary: st)
  case 0
  then show ?case by (subst find_mp.simps) (simp add: word_le_nat_alt)
next
  case (Suc d)
  have b: "\<not> 0xffffff \<le> st" using Suc.prems(3) by (simp add: word_le_nat_alt)
  have z: "load 4 m (st + of_nat 0) \<noteq> (0x5f504d5f :: u32)" using Suc.prems(2) by blast
  have "find_mp m st = find_mp m (st + 1)" using b z by (subst find_mp.simps) simp
  also have "\<dots> = Some (st + 1 + of_nat d)"
  proof (rule Suc.IH)
    show "load 4 m (st + 1 + of_nat d) = (0x5f504d5f :: u32)" using Suc.prems(1) by (simp add: ac_simps)
    show "\<forall>i < d. load 4 m (st + 1 + of_nat i) \<noteq> (0x5f504d5f :: u32)"
    proof (intro allI impI)
      fix i assume "i < d"
      then have "load 4 m (st + of_nat (Suc i)) \<noteq> (0x5f504d5f :: u32)" using Suc.prems(2) by blast
      then show "load 4 m (st + 1 + of_nat i) \<noteq> (0x5f504d5f :: u32)" by (simp add: ac_simps)
    qed
    show "unat (st + 1) + d < 0xffffff"
      using unat_Suc_lt [of st "0xffffff"] b Suc.prems(3) by simp
  qed
  finally show ?case by (simp add: ac_simps)
qed

definition mp_table_at :: "mem \<Rightarrow> nat \<Rightarrow> addr \<Rightarrow> mp_entry list \<Rightarrow> bool" where
  \<comment> \<open>the firmware's tables: the signature first occurs \<open>d\<close> bytes after \<open>0xf0000\<close>, the structure there
    points to a configuration table with the given entries\<close>
  "mp_table_at m d conf es \<longleftrightarrow>
     (\<forall>i < d. load 4 m (0xf0000 + of_nat i) \<noteq> (0x5f504d5f :: u32)) \<and>
     load 4 m (0xf0000 + of_nat d) = (0x5f504d5f :: u32) \<and> 0xf0000 + d < 0xffffff \<and>
     ucast (load 4 m (0xf0000 + of_nat d + 4) :: u32) = conf \<and>
     list_all entry_ok es \<and> unat (load 2 m (conf + 4) :: u16) = 44 + length (table_bytes es) \<and>
     stored m (conf + 44) (table_bytes es)"

text \<open>\<open>__am_lapic_init\<close> finds the firmware's table of the processors and counts its processor
  entries, whatever the kinds and the order of the entries are: the count is the number of
  processors when there are at most eight, and with more the machine panics; the address of the local
  interrupt controller is the one in the table.\<close>

theorem lapic_init_counts_processors:
  assumes "mp_table_at m d conf es" and "ncpu s = 0"
  shows "lapic_init m s =
     (if processors es \<le> 8
      then Inr (s\<lparr>lapic := ucast (load 4 m (conf + 36) :: u32), ncpu := int (processors es)\<rparr>)
      else Inl (Panic ''cannot support > MAX_CPU processors''))"
proof -
  have "find_mp m 0xf0000 = Some (0xf0000 + of_nat d)"
    using assms(1) by (intro find_mp_first) (auto simp: mp_table_at_def)
  moreover have "mp_entries m conf (44 + length (table_bytes es)) 44 0 =
      (if processors es \<le> 8 then Inr (int (processors es))
       else Inl (Panic ''cannot support > MAX_CPU processors''))"
    using mp_entries_count [of es m conf 44 "44 + length (table_bytes es)" 0] assms(1)
    by (auto simp: mp_table_at_def MAX_CPU_def)
  ultimately show ?thesis
    using assms by (auto simp: lapic_init_def mp_table_at_def sizeof_MPConf_def Let_def)
qed

definition demo_entries :: "mp_entry list" where
  "demo_entries = [Processor (replicate 19 0), Other 1 (replicate 7 5), Processor (replicate 19 0)]"

definition demo_tables :: mem where
  \<comment> \<open>the structure at \<open>0xf0000\<close>, the table at \<open>0x1000\<close> with two processors and a bus\<close>
  "demo_tables = write_bytes (write_bytes (\<lambda>_. 0) 0xf0000
       (bytes_of_word 4 (0x5f504d5f :: u32) @ bytes_of_word 4 (0x1000 :: u32)))
     0x1004 (bytes_of_word 2 (92 :: u16) @ replicate 38 0 @ table_bytes demo_entries)"

lemma demo_table: "mp_table_at demo_tables 0 0x1000 demo_entries"
proof -
  have len: "length (table_bytes demo_entries) = 48"
    by (simp add: table_bytes_def demo_entries_def)
  have "stored demo_tables 0x1004 (bytes_of_word 2 (92 :: u16) @ replicate 38 0 @ table_bytes demo_entries)"
    unfolding demo_tables_def by (rule stored_write) (simp add: len)
  then have "stored demo_tables 0x1004 (bytes_of_word 2 (92 :: u16))"
    and t: "stored demo_tables 0x102c (table_bytes demo_entries)"
    by (simp_all add: stored_append)
  then have l2: "load 2 demo_tables 0x1004 = (92 :: u16)" by (auto dest!: load_stored)
  have "stored demo_tables 0xf0000 (bytes_of_word 4 (0x5f504d5f :: u32) @ bytes_of_word 4 (0x1000 :: u32))"
    unfolding demo_tables_def
  proof (rule stored_write_other)
    fix i assume "i < length (bytes_of_word 4 (0x5f504d5f :: u32) @ bytes_of_word 4 (0x1000 :: u32))"
    then have "i < 8" by simp
    have "(0xf0000 + of_nat i - 0x1004 :: addr) = of_nat (0xeeffc + i)" by simp
    moreover have "unat (of_nat (0xeeffc + i) :: addr) = 0xeeffc + i"
      by (rule unat_of_nat_lt) (use \<open>i < 8\<close> in simp)
    ultimately have "unat (0xf0000 + of_nat i - 0x1004 :: addr) = 0xeeffc + i" by (simp only:)
    then show "\<not> in_region 0x1004 (length (bytes_of_word 2 (92 :: u16) @ replicate 38 0 @ table_bytes demo_entries))
        (0xf0000 + of_nat i)"
      by (simp add: in_region_def len)
  qed (simp_all add: stored_write len)
  then have "load 4 demo_tables 0xf0000 = (0x5f504d5f :: u32)" "load 4 demo_tables 0xf0004 = (0x1000 :: u32)"
    by (auto simp: stored_append dest!: load_stored)
  then show ?thesis
    using l2 t len by (simp add: mp_table_at_def demo_entries_def)
qed

theorem lapic_init_counts_processors_witness:
  "\<exists>s. lapic_init demo_tables \<lparr>lapic = 0, ioapic = 0, ncpu = 0, world = ()\<rparr> = Inr s \<and> ncpu s = 2"
  using lapic_init_counts_processors [OF demo_table, of "\<lparr>lapic = 0, ioapic = 0, ncpu = 0, world = ()\<rparr>"]
  by (simp add: demo_entries_def)

end
