(* ===== verification/X86_Trap.thy ===== *)
theory X86_Trap
  imports X86_VME X86_APIC
begin

text \<open>
  Traps and start-up of the \<open>x86_64\<close> platform: the descriptors of \<open>abstract-machine/am/src/x86/x86.h\<close>,
  \<open>qemu/cte.c\<close> and \<open>qemu/trm.c\<close>. The addresses of the assembly entry points and the operating
  system's event handler are parameters; a handler gets the event and the saved context and returns
  the context to resume, or \<open>None\<close> for NULL.
\<close>

section \<open>Descriptors\<close>

definition STA_X :: "4 word" where "STA_X = 0x8"
definition STA_W :: "4 word" where "STA_W = 0x2"
definition STA_R :: "4 word" where "STA_R = 0x2"
definition STS_T32A :: "4 word" where "STS_T32A = 0x9"
definition STS_TG :: "4 word" where "STS_TG = 0xf"

record SegDesc =
  lim_15_0 :: u16
  base_15_0 :: u16
  base_23_16 :: u8
  seg_type :: "4 word"
  seg_s :: "1 word"
  seg_dpl :: "2 word"
  seg_p :: "1 word"
  lim_19_16 :: "4 word"
  seg_avl :: "1 word"
  seg_l :: "1 word"
  seg_db :: "1 word"
  seg_g :: "1 word"
  base_31_24 :: u8

record GateDesc64 =
  off_15_0 :: u16
  gate_cs :: u16
  gate_isv :: "3 word"
  gate_zero1 :: "5 word"
  gate_type :: "4 word"
  gate_zero2 :: "1 word"
  gate_dpl :: "2 word"
  gate_p :: "1 word"
  off_31_16 :: u16
  off_63_32 :: u32
  gate_rsv :: u32

definition SEG16 :: "4 word \<Rightarrow> u64 \<Rightarrow> u64 \<Rightarrow> u64 \<Rightarrow> SegDesc" where
  "SEG16 ty base lim dpl =
     \<lparr>lim_15_0 = ucast (lim AND 0xffff), base_15_0 = ucast (base AND 0xffff),
      base_23_16 = ucast (drop_bit 16 base AND 0xff), seg_type = ty, seg_s = 0, seg_dpl = ucast dpl, seg_p = 1,
      lim_19_16 = ucast (drop_bit 16 lim), seg_avl = 0, seg_l = 0, seg_db = 1, seg_g = 0,
      base_31_24 = ucast (drop_bit 24 base)\<rparr>"

definition SEG64 :: "4 word \<Rightarrow> u64 \<Rightarrow> SegDesc" where
  "SEG64 ty dpl =
     \<lparr>lim_15_0 = 0, base_15_0 = 0, base_23_16 = 0, seg_type = ty, seg_s = 1, seg_dpl = ucast dpl, seg_p = 1,
      lim_19_16 = 0, seg_avl = 0, seg_l = 1, seg_db = 0, seg_g = 0, base_31_24 = 0\<rparr>"

definition GATE64 :: "4 word \<Rightarrow> u64 \<Rightarrow> u64 \<Rightarrow> u64 \<Rightarrow> GateDesc64" where
  "GATE64 ty sel entry dpl =
     \<lparr>off_15_0 = ucast (entry AND 0xffff), gate_cs = ucast sel, gate_isv = 0, gate_zero1 = 0,
      gate_type = ty, gate_zero2 = 0, gate_dpl = ucast dpl, gate_p = 1,
      off_31_16 = ucast (drop_bit 16 entry AND 0xffff), off_63_32 = ucast (drop_bit 32 entry), gate_rsv = 0\<rparr>"

definition gate_target :: "GateDesc64 \<Rightarrow> u64" where
  \<comment> \<open>the address that the processor assembles from the three parts of a gate\<close>
  "gate_target g = ucast (off_15_0 g) OR push_bit 16 (ucast (off_31_16 g)) OR push_bit 32 (ucast (off_63_32 g))"

section \<open>Interrupt numbers\<close>

definition EX_DE :: u64 where "EX_DE = 0"
definition EX_UD :: u64 where "EX_UD = 6"
definition EX_NM :: u64 where "EX_NM = 7"
definition EX_DF :: u64 where "EX_DF = 8"
definition EX_TS :: u64 where "EX_TS = 10"
definition EX_NP :: u64 where "EX_NP = 11"
definition EX_SS :: u64 where "EX_SS = 12"
definition EX_GP :: u64 where "EX_GP = 13"
definition EX_PF :: u64 where "EX_PF = 14"
definition EX_SYSCALL :: u64 where "EX_SYSCALL = 0x80"
definition EX_YIELD :: u64 where "EX_YIELD = 0x81"
definition NR_IRQ :: nat where "NR_IRQ = 256"

datatype ring = KERN | USER
datatype errcode = NOERR | ERR

definition IRQS :: "(nat \<times> ring \<times> errcode) list" where
  "IRQS =
     [(0, KERN, NOERR), (1, KERN, NOERR), (2, KERN, NOERR), (3, KERN, NOERR), (4, KERN, NOERR),
      (5, KERN, NOERR), (6, KERN, NOERR), (7, KERN, NOERR), (8, KERN, ERR), (9, KERN, NOERR),
      (10, KERN, ERR), (11, KERN, ERR), (12, KERN, ERR), (13, KERN, ERR), (14, KERN, ERR),
      (15, KERN, NOERR), (16, KERN, NOERR), (19, KERN, NOERR), (31, KERN, NOERR),
      (32, KERN, NOERR), (33, KERN, NOERR), (34, KERN, NOERR), (35, KERN, NOERR),
      (36, KERN, NOERR), (37, KERN, NOERR), (38, KERN, NOERR), (39, KERN, NOERR),
      (40, KERN, NOERR), (41, KERN, NOERR), (42, KERN, NOERR), (43, KERN, NOERR),
      (44, KERN, NOERR), (45, KERN, NOERR), (46, KERN, NOERR), (47, KERN, NOERR),
      (128, USER, NOERR), (129, USER, NOERR)]"

fun DPL_of :: "ring \<Rightarrow> u64" where
  "DPL_of KERN = DPL_KERN"
| "DPL_of USER = DPL_USER"

section \<open>Traps\<close>

record trap_frame =
  saved_context :: Context
  tf_irq :: u64
  tf_errcode :: u64
  tf_rip :: u64
  tf_cs :: u64
  tf_rflags :: u64
  tf_rsp :: u64
  tf_ss :: u64

record ('w, 's) cte =
  cte_hw :: "'w x86"
  idt :: "GateDesc64 list"
  user_handler :: "(Event \<Rightarrow> Context \<Rightarrow> 's \<Rightarrow> Context option \<times> 's) option"
  os :: 's                 \<comment> \<open>the state of the operating system\<close>
  tss_rsp0 :: u64          \<comment> \<open>\<open>CPU->tss.rsp0\<close>\<close>
  cte_cr2 :: u64
  cte_cr3 :: u64

definition save_context :: "trap_frame \<Rightarrow> u64 \<Rightarrow> u64 \<Rightarrow> Context" where
  \<comment> \<open>with the \<open>rsp0\<close> of the TSS and the page table register\<close>
  "save_context tf rsp0_tss cr3_now =
     (saved_context tf)\<lparr>rip := tf_rip tf, cs := tf_cs tf, rflags := tf_rflags tf, rsp := tf_rsp tf,
        rsp0 := rsp0_tss, ss := tf_ss tf, ctx_cr3 := cr3_now\<rparr>"

definition IRQ :: "u64 \<Rightarrow> u64" where "IRQ n = ucast T_IRQ0 + n"

definition trap_event :: "trap_frame \<Rightarrow> u64 \<Rightarrow> Event" where
  \<comment> \<open>the \<open>switch\<close>; the second argument is \<open>get_cr2()\<close>\<close>
  "trap_event tf cr2_now =
     (let ev = \<lparr>event = EVENT_NULL, cause = 0, ref = 0, msg = ''(no message)''\<rparr>; n = tf_irq tf in
      if n = IRQ 0 then ev\<lparr>msg := ''timer interrupt (lapic)'', event := EVENT_IRQ_TIMER\<rparr>
      else if n = IRQ 1 then ev\<lparr>msg := ''I/O device IRQ1 (keyboard)'', event := EVENT_IRQ_IODEV\<rparr>
      else if n = IRQ 4 then ev\<lparr>msg := ''I/O device IRQ4 (COM1)'', event := EVENT_IRQ_IODEV\<rparr>
      else if n = EX_SYSCALL then ev\<lparr>msg := ''int $0x80 system call'', event := EVENT_SYSCALL\<rparr>
      else if n = EX_YIELD then ev\<lparr>msg := ''int $0x81 yield'', event := EVENT_YIELD\<rparr>
      else if n = EX_DE then ev\<lparr>msg := ''DE #0 divide by zero'', event := EVENT_ERROR\<rparr>
      else if n = EX_UD then ev\<lparr>msg := ''UD #6 invalid opcode'', event := EVENT_ERROR\<rparr>
      else if n = EX_NM then ev\<lparr>msg := ''NM #7 coprocessor error'', event := EVENT_ERROR\<rparr>
      else if n = EX_DF then ev\<lparr>msg := ''DF #8 double fault'', event := EVENT_ERROR\<rparr>
      else if n = EX_TS then ev\<lparr>msg := ''TS #10 invalid TSS'', event := EVENT_ERROR\<rparr>
      else if n = EX_NP then ev\<lparr>msg := ''NP #11 segment/gate not present'', event := EVENT_ERROR\<rparr>
      else if n = EX_SS then ev\<lparr>msg := ''SS #12 stack fault'', event := EVENT_ERROR\<rparr>
      else if n = EX_GP then ev\<lparr>msg := ''GP #13, general protection fault'', event := EVENT_ERROR\<rparr>
      else if n = EX_PF then
        let ev = ev\<lparr>msg := ''PF #14, page fault, @cause: PROT_XXX'', event := EVENT_PAGEFAULT\<rparr>;
            ev = (if tf_errcode tf AND 0x1 \<noteq> 0 then ev\<lparr>cause := cause ev OR MMAP_NONE\<rparr> else ev);
            ev = (if tf_errcode tf AND 0x2 \<noteq> 0 then ev\<lparr>cause := cause ev OR MMAP_WRITE\<rparr>
                  else ev\<lparr>cause := cause ev OR MMAP_READ\<rparr>)
        in ev\<lparr>ref := cr2_now\<rparr>
      else ev\<lparr>msg := ''unrecognized interrupt/exception'', event := EVENT_ERROR, cause := tf_errcode tf\<rparr>)"

definition irq_handle :: "'w hw \<Rightarrow> trap_frame \<Rightarrow> ('w, 's) cte \<Rightarrow> c_error + Context \<times> ('w, 's) cte" where
  \<comment> \<open>the context that \<open>__am_iret\<close> resumes\<close>
  "irq_handle H tf s =
     (let saved = save_context tf (tss_rsp0 s) (cte_cr3 s);
          s = (if IRQ 0 \<le> tf_irq tf \<and> tf_irq tf < IRQ 32 then s\<lparr>cte_hw := lapic_eoi H (cte_hw s)\<rparr> else s);
          ev = trap_event tf (cte_cr2 s)
      in case user_handler s of
           None \<Rightarrow> Inl Null_deref
         | Some handler \<Rightarrow>
             (case handler ev saved (os s) of (ret, os') \<Rightarrow>
               let s = s\<lparr>os := os'\<rparr> in
               case ret of
                 None \<Rightarrow> Inl (Panic ''returning to NULL context'')
               | Some ret_ctx \<Rightarrow>
                   Inr (ret_ctx,
                     if ctx_cr3 ret_ctx \<noteq> 0
                     then s\<lparr>cte_cr3 := ctx_cr3 ret_ctx, tss_rsp0 := rsp0 ret_ctx\<rparr> else s)))"

definition cte_init ::
  "u32 \<Rightarrow> addr \<Rightarrow> (nat \<Rightarrow> addr) \<Rightarrow> (Event \<Rightarrow> Context \<Rightarrow> 's \<Rightarrow> Context option \<times> 's) option \<Rightarrow>
     ('w, 's) cte \<Rightarrow> c_error + ('w, 's) cte" where
  \<comment> \<open>with the number of the processor and the entry points \<open>__am_irqall\<close> and \<open>__am_irqN\<close>\<close>
  "cte_init cpu irqall irq handler s =
     rbind (panic_on (cpu \<noteq> 0) ''init CTE in non-bootstrap CPU'') (\<lambda>_.
     rbind (panic_on (Option.is_none handler) ''no interrupt handler'') (\<lambda>_.
       let t = fold (\<lambda>i t. t[i := GATE64 STS_TG (KSEL SEG_KCODE) irqall DPL_KERN]) [0..<NR_IRQ] (idt s);
           t = fold (\<lambda>(i, dpl, _) t. t[i := GATE64 STS_TG (KSEL SEG_KCODE) (irq i) (DPL_of dpl)]) IRQS t
       in Inr (s\<lparr>idt := t, user_handler := handler\<rparr>)))"

definition ienabled :: "'w hw \<Rightarrow> ('w, 's) cte \<Rightarrow> bool" where
  "ienabled H s \<longleftrightarrow> h_flags H (world (cte_hw s)) AND ucast FL_IF \<noteq> 0"

definition iset :: "'w hw \<Rightarrow> bool \<Rightarrow> ('w, 's) cte \<Rightarrow> ('w, 's) cte" where
  "iset H enable s =
     s\<lparr>cte_hw := (cte_hw s)\<lparr>world := (if enable then h_sti H else h_cli H) (world (cte_hw s))\<rparr>\<rparr>"

definition kcontext :: "addr \<Rightarrow> Area \<Rightarrow> addr \<Rightarrow> addr \<Rightarrow> addr \<times> Context" where
  \<comment> \<open>where the context is stored, and the context; the first argument is \<open>__am_kcontext_start\<close>\<close>
  "kcontext kstart kstack entry arg =
     (a_end kstack - sizeof_Context,
      zero_context\<lparr>cs := KSEL SEG_KCODE, rip := kstart, rflags := FL_IF, rsp := a_end kstack,
        rdi := arg, rsi := entry\<rparr>)"

definition percpu_initirq :: "'w hw \<Rightarrow> ('w, 's) cte \<Rightarrow> ('w, 's) cte \<times> GateDesc64 list" where
  \<comment> \<open>the second component is the table loaded by \<open>lidt\<close>\<close>
  "percpu_initirq H s =
     (s\<lparr>cte_hw := ioapic_enable H IRQ_COM1 0 (ioapic_enable H IRQ_KBD 0 (cte_hw s))\<rparr>, idt s)"


section \<open>The descriptor table\<close>

lemma gate_target_GATE64 [simp]: "gate_target (GATE64 ty sel entry dpl) = entry"
proof (rule bit_word_eqI)
  fix n assume n: "n < LENGTH(64)"
  have m: "(0xffff :: u64) = mask 16" by (simp add: mask_eq_exp_minus_1)
  consider "n < 16" | "16 \<le> n \<and> n < 32" | "32 \<le> n" by linarith
  then show "bit (gate_target (GATE64 ty sel entry dpl)) n = bit entry n"
    using n unfolding gate_target_def GATE64_def m
    by cases (auto simp: bit_simps simp flip: take_bit_eq_mask)
qed

definition listed :: "nat \<Rightarrow> bool" where
  "listed i \<longleftrightarrow> i \<in> fst ` set IRQS"

lemma fold_update_all:
  "n \<le> length t \<Longrightarrow> fold (\<lambda>i t. t[i := x]) [0..<n] t = replicate n x @ drop n t"
proof (induction n)
  case (Suc n)
  then show ?case
    by (simp add: list_update_append Cons_nth_drop_Suc [symmetric] replicate_append_same split: nat.splits)
qed simp

lemma fold_update_nth:
  "length t = k \<Longrightarrow> i < k \<Longrightarrow> distinct (map fst xs) \<Longrightarrow> (\<forall>x \<in> set xs. fst x < k) \<Longrightarrow>
     fold (\<lambda>(j, d, e) t. t[j := f j d]) xs t ! i =
       (case map_of xs i of None \<Rightarrow> t ! i | Some (d, e) \<Rightarrow> f i d)"
proof (induction xs arbitrary: t)
  case (Cons x xs)
  obtain j d e where x: "x = (j, d, e)" by (cases x)
  show ?case
  proof (cases "i = j")
    case True
    then have "map_of xs i = None" using Cons.prems(3) x by (auto simp: map_of_eq_None_iff)
    then show ?thesis using Cons.IH [of "t[j := f j d]"] Cons.prems x True by simp
  next
    case False
    then show ?thesis using Cons.IH [of "t[j := f j d]"] Cons.prems x by (simp split: option.split)
  qed
qed simp

lemma fold_update_length:
  "length (fold (\<lambda>(j, d, e) t. t[j := f j d]) xs t) = length t"
  by (induction xs arbitrary: t) (auto split: prod.splits)

lemma IRQS_distinct: "distinct (map fst IRQS)" "\<forall>x \<in> set IRQS. fst x < NR_IRQ"
  by (simp_all add: IRQS_def NR_IRQ_def)

lemma IRQS_map_of:
  "map_of IRQS i = None \<longleftrightarrow> \<not> listed i"
  "map_of IRQS i = Some (d, e) \<Longrightarrow> d = (if i = 128 \<or> i = 129 then USER else KERN)"
proof -
  show "map_of IRQS i = None \<longleftrightarrow> \<not> listed i" by (simp add: map_of_eq_None_iff listed_def)
  have "\<forall>(i, d, e) \<in> set IRQS. d = (if i = 128 \<or> i = 129 then USER else KERN)"
    by (simp add: IRQS_def)
  then show "map_of IRQS i = Some (d, e) \<Longrightarrow> d = (if i = 128 \<or> i = 129 then USER else KERN)"
    using map_of_SomeD by fastforce
qed

definition trap_gate :: "addr \<Rightarrow> (nat \<Rightarrow> addr) \<Rightarrow> nat \<Rightarrow> GateDesc64" where
  "trap_gate irqall irq i = GATE64 STS_TG (KSEL SEG_KCODE) (if listed i then irq i else irqall)
     (if i = 128 \<or> i = 129 then DPL_USER else DPL_KERN)"

lemma listed_user: "listed 128" "listed 129"
  by (simp_all add: listed_def IRQS_def)

lemma cte_init_gate:
  assumes "cte_init cpu irqall irq handler s = Inr s'" and "length (idt s) = NR_IRQ" and "i < NR_IRQ"
  shows "idt s' ! i = trap_gate irqall irq i" "length (idt s') = NR_IRQ" "user_handler s' = handler"
proof -
  let ?t0 = "replicate NR_IRQ (GATE64 STS_TG (KSEL SEG_KCODE) irqall DPL_KERN)"
  let ?f = "\<lambda>i dpl. GATE64 STS_TG (KSEL SEG_KCODE) (irq i) (DPL_of dpl)"
  have t0: "fold (\<lambda>i t. t[i := GATE64 STS_TG (KSEL SEG_KCODE) irqall DPL_KERN]) [0..<NR_IRQ] (idt s) = ?t0"
    using assms(2) by (simp add: fold_update_all)
  have s': "s' = s\<lparr>idt := fold (\<lambda>(j, d, e) t. t[j := ?f j d]) IRQS ?t0, user_handler := handler\<rparr>"
    using assms(1) t0 by (auto simp: cte_init_def rbind_Inr_iff Let_def)
  have "idt s' ! i = (case map_of IRQS i of None \<Rightarrow> ?t0 ! i | Some (d, e) \<Rightarrow> ?f i d)"
    using fold_update_nth [OF _ assms(3) IRQS_distinct, of ?t0 ?f] s' by simp
  then show "idt s' ! i = trap_gate irqall irq i"
    using IRQS_map_of [of i] assms(3) listed_user
    by (cases "map_of IRQS i") (auto simp: trap_gate_def)
  show "length (idt s') = NR_IRQ" "user_handler s' = handler"
    using s' by (simp_all add: fold_update_length)
qed

text \<open>C15: after \<open>cte_init\<close> every one of the 256 gates leads to code: the vectors that the platform
  lists lead to their own entry point, all others to the common one, and the three pieces of each
  gate reassemble to that address. All are kernel-code trap gates that are present, and a user
  program may raise exactly the two vectors of system calls and yields. It fails on a processor that
  is not the first, or without a handler.\<close>

theorem cte_init_table:
  assumes "length (idt s) = NR_IRQ"
  shows "(case cte_init cpu irqall irq handler s of
       Inl e \<Rightarrow> cpu \<noteq> 0 \<or> handler = None
     | Inr s' \<Rightarrow> cpu = 0 \<and> handler \<noteq> None \<and> user_handler s' = handler \<and> length (idt s') = 256 \<and>
         (\<forall>i < 256. gate_target (idt s' ! i) = (if listed i then irq i else irqall) \<and>
            gate_cs (idt s' ! i) = ucast (KSEL SEG_KCODE) \<and> gate_type (idt s' ! i) = STS_TG \<and>
            gate_p (idt s' ! i) = 1 \<and> (gate_dpl (idt s' ! i) = 3 \<longleftrightarrow> i = 0x80 \<or> i = 0x81)))"
proof (cases "cte_init cpu irqall irq handler s")
  case (Inl e)
  then have "cpu \<noteq> 0 \<or> handler = None"
    by (auto simp: cte_init_def panic_on_def guard_def Option.is_none_def split: if_splits)
  then show ?thesis using Inl by simp
next
  case (Inr s')
  have "cpu = 0 \<and> handler \<noteq> None"
    using Inr by (auto simp: cte_init_def rbind_Inr_iff Option.is_none_def)
  moreover have g: "idt s' ! i = trap_gate irqall irq i" if "i < 256" for i
    using cte_init_gate(1) [OF Inr assms] that by (simp add: NR_IRQ_def)
  moreover have "user_handler s' = handler" "length (idt s') = 256"
    using cte_init_gate(2,3) [OF Inr assms, of 0] by (simp_all add: NR_IRQ_def)
  moreover have "gate_dpl (trap_gate irqall irq i) = 3 \<longleftrightarrow> i = 0x80 \<or> i = 0x81"
    "gate_target (trap_gate irqall irq i) = (if listed i then irq i else irqall)"
    "gate_cs (trap_gate irqall irq i) = ucast (KSEL SEG_KCODE)" "gate_type (trap_gate irqall irq i) = STS_TG"
    "gate_p (trap_gate irqall irq i) = 1" for i
    by (simp_all add: trap_gate_def) (simp_all add: GATE64_def DPL_USER_def DPL_KERN_def)
  ultimately show ?thesis using Inr by simp
qed

definition demo_cte :: "(unit, nat) cte" where
  "demo_cte = \<lparr>cte_hw = \<lparr>lapic = 0, ioapic = 0, ncpu = 1, world = ()\<rparr>,
     idt = replicate 256 (GATE64 0 0 0 0), user_handler = None, os = 0, tss_rsp0 = 0, cte_cr2 = 0, cte_cr3 = 0\<rparr>"

theorem cte_init_table_witness:
  "\<exists>s'. cte_init 0 0x100 (\<lambda>i. 0x1000 + of_nat i) (Some (\<lambda>e c os. (Some c, os + 1))) demo_cte = Inr s' \<and>
     gate_target (idt s' ! 0x80) = 0x1080 \<and> gate_target (idt s' ! 0x90) = 0x100"
proof -
  let ?r = "cte_init 0 0x100 (\<lambda>i. 0x1000 + of_nat i) (Some (\<lambda>e c os. (Some c, os + 1))) demo_cte"
  have "length (idt demo_cte) = NR_IRQ" by (simp add: demo_cte_def NR_IRQ_def)
  note th = cte_init_table [OF this, where cpu = 0 and irqall = "0x100" and irq = "\<lambda>i. 0x1000 + of_nat i"
      and handler = "Some (\<lambda>e c os. (Some c, os + 1))"]
  have "listed 0x80" "\<not> listed 0x90" by (simp_all add: listed_def IRQS_def)
  then show ?thesis using th by (cases ?r) auto
qed

section \<open>Events\<close>

lemmas irq_numbers = IRQ_def T_IRQ0_def EX_DE_def EX_UD_def EX_NM_def EX_DF_def EX_TS_def EX_NP_def
  EX_SS_def EX_GP_def EX_PF_def EX_SYSCALL_def EX_YIELD_def

definition page_fault_cause :: "u64 \<Rightarrow> u64" where
  "page_fault_cause err = (if bit err 1 then MMAP_WRITE else MMAP_READ)"

lemma and_2_bit: "w AND 2 \<noteq> 0 \<longleftrightarrow> bit (w :: u64) 1"
proof -
  have two: "(2 :: u64) = push_bit 1 1" by simp
  have b2: "bit (2 :: u64) n \<longleftrightarrow> n = 1" for n
    unfolding two bit_push_bit_iff bit_1_iff by auto
  have "w AND 2 = (if bit w 1 then 2 else 0)"
  proof (rule bit_word_eqI)
    fix n
    show "bit (w AND 2) n = bit (if bit w 1 then 2 else 0 :: u64) n"
      unfolding bit_and_iff b2 if_distrib [where f = "\<lambda>x. bit x n"] by (auto simp only: bit_0_eq bot_apply bot_bool_def split: if_splits)
  qed
  then show ?thesis by simp
qed

lemma trap_event_table:
  "event (trap_event tf c) =
     (if tf_irq tf = 32 then EVENT_IRQ_TIMER else if tf_irq tf = 33 \<or> tf_irq tf = 36 then EVENT_IRQ_IODEV
      else if tf_irq tf = 0x80 then EVENT_SYSCALL else if tf_irq tf = 0x81 then EVENT_YIELD
      else if tf_irq tf = 14 then EVENT_PAGEFAULT else EVENT_ERROR)"
  by (simp add: trap_event_def Let_def irq_numbers)

lemma trap_event_fault:
  "tf_irq tf = 14 \<Longrightarrow> ref (trap_event tf c) = c \<and> cause (trap_event tf c) = page_fault_cause (tf_errcode tf)"
  using and_2_bit [of "tf_errcode tf"]
  by (auto simp: trap_event_def Let_def irq_numbers page_fault_cause_def MMAP_NONE_def)

lemma trap_event_no_fault:
  "tf_irq tf \<noteq> 14 \<Longrightarrow> ref (trap_event tf c) = 0 \<and>
     (event (trap_event tf c) \<noteq> EVENT_ERROR \<longrightarrow> cause (trap_event tf c) = 0)"
  by (simp add: trap_event_def Let_def irq_numbers)

text \<open>Every interrupt vector gives its event, and no other vector does: the timer's, the keyboard's
  and the serial line's, the two software interrupts and the page fault; all the rest are errors, and
  there is never a null event. A page fault reports the faulting address and whether it was a write
  by bit 1 of the error code alone: the handler that sees the event cannot tell a missing page from a
  protected one. No other event carries an address.\<close>

theorem trap_event_classified:
  "(event (trap_event tf c) = EVENT_IRQ_TIMER \<longleftrightarrow> tf_irq tf = 32) \<and>
   (event (trap_event tf c) = EVENT_IRQ_IODEV \<longleftrightarrow> tf_irq tf \<in> {33, 36}) \<and>
   (event (trap_event tf c) = EVENT_SYSCALL \<longleftrightarrow> tf_irq tf = 0x80) \<and>
   (event (trap_event tf c) = EVENT_YIELD \<longleftrightarrow> tf_irq tf = 0x81) \<and>
   (event (trap_event tf c) = EVENT_PAGEFAULT \<longleftrightarrow> tf_irq tf = 14) \<and>
   event (trap_event tf c) \<noteq> EVENT_NULL \<and>
   ref (trap_event tf c) = (if tf_irq tf = 14 then c else 0) \<and>
   (if tf_irq tf = 14 then cause (trap_event tf c) = page_fault_cause (tf_errcode tf)
    else cause (trap_event tf c) = 0 \<or> event (trap_event tf c) = EVENT_ERROR)"
  using trap_event_fault [of tf c] trap_event_no_fault [of tf c]
  by (auto simp: trap_event_table)

section \<open>Switching contexts\<close>

lemma irq_handle_return:
  assumes "user_handler s = Some h" and "h (trap_event tf (cte_cr2 s)) (save_context tf (tss_rsp0 s) (cte_cr3 s)) (os s) = (Some c, o')"
  shows "\<exists>s'. irq_handle H tf s = Inr (c, s') \<and> os s' = o' \<and> user_handler s' = Some h \<and>
     cte_cr3 s' = (if ctx_cr3 c = 0 then cte_cr3 s else ctx_cr3 c) \<and>
     tss_rsp0 s' = (if ctx_cr3 c = 0 then tss_rsp0 s else rsp0 c) \<and> idt s' = idt s"
  using assms by (auto simp: irq_handle_def Let_def)

text \<open>C16: an operating system that, at every trap, stores the context it gets and resumes the one it
  had stored, switches between two computations without loss: after two traps the first one is
  resumed with the register values, the stack pointers, the program counter and the page table that
  it had when it was interrupted, whatever the second one did in between.\<close>

theorem two_traps_resume_the_first:
  assumes "user_handler s = Some (\<lambda>ev c stored. (Some stored, c))"
    and "ctx_cr3 (os s) \<noteq> 0" and "cte_cr3 s \<noteq> 0"
  shows "\<exists>s1 s2 c. irq_handle H tf1 s = Inr (os s, s1) \<and> irq_handle H tf2 s1 = Inr (c, s2) \<and>
     c = (saved_context tf1)\<lparr>rip := tf_rip tf1, cs := tf_cs tf1, rflags := tf_rflags tf1, rsp := tf_rsp tf1,
           rsp0 := tss_rsp0 s, ss := tf_ss tf1, ctx_cr3 := cte_cr3 s\<rparr> \<and>
     cte_cr3 s2 = cte_cr3 s \<and> tss_rsp0 s2 = tss_rsp0 s \<and>
     cte_cr3 s1 = ctx_cr3 (os s) \<and> tss_rsp0 s1 = rsp0 (os s)"
proof -
  obtain s1 where s1: "irq_handle H tf1 s = Inr (os s, s1)" "os s1 = save_context tf1 (tss_rsp0 s) (cte_cr3 s)"
    "user_handler s1 = Some (\<lambda>ev c stored. (Some stored, c))"
    "cte_cr3 s1 = ctx_cr3 (os s)" "tss_rsp0 s1 = rsp0 (os s)"
    using irq_handle_return [OF assms(1), of tf1 "os s" _ H] assms(2) by auto
  obtain s2 where "irq_handle H tf2 s1 = Inr (os s1, s2)"
    "cte_cr3 s2 = ctx_cr3 (os s1)" "tss_rsp0 s2 = rsp0 (os s1)"
    using irq_handle_return [OF s1(3), of tf2 "os s1" _ H] assms(3) s1(2) by (auto simp: save_context_def)
  then show ?thesis using s1 by (auto simp: save_context_def)
qed

definition null_hw :: "unit hw" where
  "null_hw = \<lparr>h_inb = (\<lambda>_ w. (0, w)), h_inl = (\<lambda>_ w. (0, w)), h_outb = (\<lambda>_ _ w. w), h_outw = (\<lambda>_ _ w. w),
     h_outl = (\<lambda>_ _ w. w), h_load = (\<lambda>_ w. (0, w)), h_store = (\<lambda>_ _ w. w), h_store16 = (\<lambda>_ _ w. w),
     h_xchg = (\<lambda>_ _ w. (0, w)), h_rdtsc = (\<lambda>w. (0, w)), h_cli = id, h_sti = id, h_flags = (\<lambda>_. 0)\<rparr>"

theorem two_traps_resume_the_first_witness:
  "\<exists>s1 s2 c. irq_handle null_hw \<lparr>saved_context = zero_context\<lparr>rax := 7\<rparr>, tf_irq = 0x81, tf_errcode = 0,
       tf_rip = 0x400, tf_cs = 8, tf_rflags = 0, tf_rsp = 0x900, tf_ss = 0\<rparr>
       \<lparr>cte_hw = \<lparr>lapic = 0, ioapic = 0, ncpu = 1, world = ()\<rparr>, idt = [],
        user_handler = Some (\<lambda>ev c stored. (Some stored, c)), os = zero_context\<lparr>ctx_cr3 := 0x5000\<rparr>,
        tss_rsp0 = 0x80, cte_cr2 = 0, cte_cr3 = 0x1000\<rparr> = Inr (zero_context\<lparr>ctx_cr3 := 0x5000\<rparr>, s1) \<and>
     irq_handle null_hw \<lparr>saved_context = zero_context, tf_irq = 32, tf_errcode = 0,
       tf_rip = 0, tf_cs = 8, tf_rflags = 0, tf_rsp = 0, tf_ss = 0\<rparr> s1 = Inr (c, s2) \<and>
     rax c = 7 \<and> rip c = 0x400 \<and> rsp c = 0x900 \<and> cte_cr3 s2 = 0x1000"
  using two_traps_resume_the_first [of "\<lparr>cte_hw = \<lparr>lapic = 0, ioapic = 0, ncpu = 1, world = ()\<rparr>, idt = [],
        user_handler = Some (\<lambda>ev c stored. (Some stored, c)), os = zero_context\<lparr>ctx_cr3 := 0x5000\<rparr>,
        tss_rsp0 = 0x80, cte_cr2 = 0, cte_cr3 = 0x1000\<rparr>" null_hw
      "\<lparr>saved_context = zero_context\<lparr>rax := 7\<rparr>, tf_irq = 0x81, tf_errcode = 0,
       tf_rip = 0x400, tf_cs = 8, tf_rflags = 0, tf_rsp = 0x900, tf_ss = 0\<rparr>"
      "\<lparr>saved_context = zero_context, tf_irq = 32, tf_errcode = 0,
       tf_rip = 0, tf_cs = 8, tf_rflags = 0, tf_rsp = 0, tf_ss = 0\<rparr>"]
  by auto

end
