(* ===== verification/X86_Start.thy ===== *)
theory X86_Start
  imports X86_Trap
begin

text \<open>
  Start-up of the \<open>x86-qemu\<close> platform: \<open>abstract-machine/am/src/x86/qemu/trm.c\<close> and the boot loader
  \<open>qemu/boot/main.c\<close>, which reads the kernel's segments from the disk.
\<close>

section \<open>trm.c\<close>

definition putch :: "'w hw \<Rightarrow> u8 \<Rightarrow> 'w x86 \<Rightarrow> 'w x86" where
  \<comment> \<open>to \<open>COM1\<close>\<close>
  "putch H c s = s\<lparr>world := h_outb H 0x3f8 c (world s)\<rparr>"

definition hex_digits :: string where "hex_digits = ''0123456789abcdef''"

definition hex_char :: "nat \<Rightarrow> c_error + u8" where
  \<comment> \<open>\<open>hex[i]\<close>, where index 16 is the terminator\<close>
  "hex_char i = (if i < 16 then Inr (of_char (hex_digits ! i)) else if i = 16 then Inr 0 else Inl Out_of_bounds)"

definition halt_char :: "'w hw \<Rightarrow> int \<Rightarrow> char \<Rightarrow> 'w x86 \<Rightarrow> c_error + 'w x86" where
  "halt_char H code ch s =
     (if ch = CHR ''$'' then
        (case cpu_current H s of (c, s) \<Rightarrow> rbind (hex_char (unat c)) (\<lambda>d. Inr (putch H d s)))
      else if ch = CHR ''0'' \<or> ch = CHR ''4'' then
        rbind (hex_char (nat (code div 2 ^ nat (of_char ch - of_char CHR ''0'') mod 16))) (\<lambda>d. Inr (putch H d s))
      else Inr (putch H (of_char ch) s))"

definition halt_message :: string where "halt_message = ''CPU #$ Halt (40).'' @ [CHR 0x0A]"

definition halt :: "'w hw \<Rightarrow> int \<Rightarrow> 'w x86 \<Rightarrow> c_error + 'w x86" where
  \<comment> \<open>the state in which the processor stops for good\<close>
  "halt H code s =
     (let s = s\<lparr>world := h_cli H (world s)\<rparr>;
          s = stop_the_world H s
      in rbind (fold (\<lambda>ch r. rbind r (halt_char H code ch)) halt_message (Inr s)) (\<lambda>s.
           Inr (s\<lparr>world := h_outw H 0x604 0x2000 (world s)\<rparr>)))"

definition heap_init :: "'w hw \<Rightarrow> addr \<Rightarrow> 'w \<Rightarrow> Area \<times> 'w" where
  \<comment> \<open>with the address of the linker's symbol \<open>end\<close>\<close>
  "heap_init H kend w =
     (case h_inb H 0x71 (h_outb H 0x70 0x34 w) of (lo8, w) \<Rightarrow>
      case h_inb H 0x71 (h_outb H 0x70 0x35 w) of (hi8, w) \<Rightarrow>
      let lo = ucast lo8 :: u32; hi = ucast hi8 + 1 :: u32
      in (RANGE (ROUNDUP kend (push_bit 20 1)) (ucast (push_bit 16 (lo OR push_bit 8 hi))), w))"

definition sizeof_TSS64 :: u64 where "sizeof_TSS64 = 104"
definition NR_SEG :: nat where "NR_SEG = 6"

definition percpu_initgdt :: "addr \<Rightarrow> SegDesc list \<Rightarrow> c_error + SegDesc list \<times> nat \<times> u64" where
  \<comment> \<open>with the address of this processor's TSS and its descriptor table; the table, the size given to
    \<open>lgdt\<close> and the selector given to \<open>ltr\<close>\<close>
  "percpu_initgdt tss gdt =
     (let gdt = gdt[unat SEG_KCODE := SEG64 (STA_X OR STA_R) DPL_KERN];
          gdt = gdt[unat SEG_KDATA := SEG64 STA_W DPL_KERN];
          gdt = gdt[unat SEG_UCODE := SEG64 (STA_X OR STA_R) DPL_USER];
          gdt = gdt[unat SEG_UDATA := SEG64 STA_W DPL_USER];
          gdt = gdt[unat SEG_TSS := SEG16 STS_T32A tss (sizeof_TSS64 - 1) DPL_KERN]
      in rbind (panic_on (drop_bit 32 tss \<noteq> 0) ''internal error (likely a bug in AM)'') (\<lambda>_.
           Inr (gdt, 8 * (NR_SEG + 1), KSEL SEG_TSS)))"

record ('w, 's) start =
  st_cte :: "('w, 's) cte"
  heap :: Area
  gdt :: "SegDesc list"
  tss_addr :: addr

definition percpu_init :: "'w hw \<Rightarrow> ('w, 's) start \<Rightarrow> c_error + ('w, 's) start option" where
  \<comment> \<open>\<open>None\<close> when the wait for the interrupt controller does not end\<close>
  "percpu_init H s =
     rbind (percpu_initgdt (tss_addr s) (gdt s)) (\<lambda>(g, _, _).
       Inr (Option.bind (percpu_initlapic H (cte_hw (st_cte s))) (\<lambda>x.
         Some (s\<lparr>gdt := g, st_cte := fst (percpu_initirq H ((st_cte s)\<lparr>cte_hw := x\<rparr>))\<rparr>))))"

definition bootcpu_init :: "'w hw \<Rightarrow> addr \<Rightarrow> mem \<Rightarrow> ('w, 's) start \<Rightarrow> c_error + ('w, 's) start option" where
  "bootcpu_init H kend m s =
     (let x = cte_hw (st_cte s) in
      case heap_init H kend (world x) of (h, w) \<Rightarrow>
        rbind (lapic_init m (x\<lparr>world := w\<rparr>)) (\<lambda>x.
          percpu_init H (s\<lparr>heap := h, st_cte := (st_cte s)\<lparr>cte_hw := ioapic_init H x\<rparr>\<rparr>)))"

section \<open>The boot loader\<close>

definition SECTSIZE :: u32 where "SECTSIZE = 512"
definition ARGSIZE :: int where "ARGSIZE = 1024"

partial_function (option) wait_disk :: "'w hw \<Rightarrow> 'w \<Rightarrow> 'w option" where
  "wait_disk H w =
     (case h_inb H 0x1f7 w of (v, w') \<Rightarrow> if v AND 0xc0 \<noteq> 0x40 then wait_disk H w' else Some w')"

definition disk_command :: "'w hw \<Rightarrow> u32 \<Rightarrow> u8 \<Rightarrow> 'w \<Rightarrow> 'w" where
  \<comment> \<open>the writes that address one sector, and the command\<close>
  "disk_command H sect cmd w =
     (let w = h_outb H 0x1f2 1 w;
          w = h_outb H 0x1f3 (ucast sect) w;
          w = h_outb H 0x1f4 (ucast (drop_bit 8 sect)) w;
          w = h_outb H 0x1f5 (ucast (drop_bit 16 sect)) w;
          w = h_outb H 0x1f6 (ucast (drop_bit 24 sect OR 0xE0)) w
      in h_outb H 0x1f7 cmd w)"

fun read_words :: "'w hw \<Rightarrow> nat \<Rightarrow> addr \<Rightarrow> mem \<Rightarrow> 'w \<Rightarrow> mem \<times> 'w" where
  \<comment> \<open>\<open>n\<close> words from the data port\<close>
  "read_words H 0 buf m w = (m, w)"
| "read_words H (Suc n) buf m w =
     (case h_inl H 0x1f0 w of (v, w') \<Rightarrow> read_words H n (buf + 4) (store 4 m buf v) w')"

definition read_disk :: "'w hw \<Rightarrow> addr \<Rightarrow> u32 \<Rightarrow> mem \<Rightarrow> 'w \<Rightarrow> (mem \<times> 'w) option" where
  "read_disk H buf sect m w =
     Option.bind (wait_disk H w) (\<lambda>w.
     Option.bind (wait_disk H (disk_command H sect 0x20 w)) (\<lambda>w.
       Some (read_words H (unat SECTSIZE div 4) buf m w)))"

partial_function (option) copy_loop ::
  "'w hw \<Rightarrow> u32 \<Rightarrow> u32 \<Rightarrow> u32 \<Rightarrow> mem \<Rightarrow> 'w \<Rightarrow> (mem \<times> 'w) option" where
  "copy_loop H ed cur sect m w =
     (if cur < ed then
        Option.bind (read_disk H (ucast cur) sect m w) (\<lambda>(m, w).
          copy_loop H ed (cur + SECTSIZE) (sect + 1) m w)
      else Some (m, w))"

definition copy_from_disk :: "'w hw \<Rightarrow> u32 \<Rightarrow> int \<Rightarrow> int \<Rightarrow> mem \<Rightarrow> 'w \<Rightarrow> (mem \<times> 'w) option" where
  \<comment> \<open>the address is 32 bits wide; \<open>disk_offset / SECTSIZE\<close> is a division of \<open>int\<close>s\<close>
  "copy_from_disk H buf nbytes disk_offset m w =
     (let cur = buf AND NOT (SECTSIZE - 1);
          ed = buf + word_of_int nbytes;
          sect = word_of_int (c_div disk_offset 512 + ARGSIZE div 512 + 1)
      in copy_loop H ed cur sect m w)"

fun clear_bss :: "nat \<Rightarrow> addr \<Rightarrow> mem \<Rightarrow> mem" where
  "clear_bss 0 bss m = m"
| "clear_bss (Suc n) bss m = clear_bss n (bss + 1) (m(bss := 0))"

definition load_program :: "'w hw \<Rightarrow> u32 \<Rightarrow> u32 \<Rightarrow> u32 \<Rightarrow> u32 \<Rightarrow> mem \<Rightarrow> 'w \<Rightarrow> (mem \<times> 'w) option" where
  \<comment> \<open>the counter of the second loop runs from \<open>filesz\<close> to \<open>memsz\<close>, around \<open>2^32\<close> if need be\<close>
  "load_program H filesz memsz paddr offset m w =
     Option.bind (copy_from_disk H paddr (int_of_word filesz) (int_of_word offset) m w) (\<lambda>(m, w).
       Some (clear_bss (unat (memsz - filesz)) (ucast (paddr + filesz)) m, w))"

record phdr =
  p_filesz :: u64
  p_memsz :: u64
  p_paddr :: u64
  p_offset :: u64

partial_function (option) load_elf ::
  "'w hw \<Rightarrow> (mem \<Rightarrow> u16) \<Rightarrow> (mem \<Rightarrow> addr \<Rightarrow> phdr) \<Rightarrow> u64 \<Rightarrow> int \<Rightarrow> addr \<Rightarrow> mem \<Rightarrow> 'w \<Rightarrow> (mem \<times> 'w) option" where
  \<comment> \<open>the loop of \<open>load_elf64\<close> and \<open>load_elf32\<close>, with the readers of \<open>e_phnum\<close> and of a program header
    and the size of a header; both are read from the memory as the loop finds it\<close>
  "load_elf H phnum read_ph sz i ph m w =
     (if i < uint (phnum m) then
        let h = read_ph m ph in
        Option.bind (load_program H (ucast (p_filesz h)) (ucast (p_memsz h)) (ucast (p_paddr h))
            (ucast (p_offset h)) m w) (\<lambda>(m, w).
          load_elf H phnum read_ph sz (i + 1) (ph + sz) m w)
      else Some (m, w))"

definition read_phdr64 :: "mem \<Rightarrow> addr \<Rightarrow> phdr" where
  "read_phdr64 m a = \<lparr>p_filesz = load 8 m (a + 32), p_memsz = load 8 m (a + 40),
     p_paddr = load 8 m (a + 24), p_offset = load 8 m (a + 8)\<rparr>"

definition read_phdr32 :: "mem \<Rightarrow> addr \<Rightarrow> phdr" where
  "read_phdr32 m a = \<lparr>p_filesz = ucast (load 4 m (a + 16) :: u32), p_memsz = ucast (load 4 m (a + 20) :: u32),
     p_paddr = ucast (load 4 m (a + 12) :: u32), p_offset = ucast (load 4 m (a + 4) :: u32)\<rparr>"

definition EM_X86_64 :: u16 where "EM_X86_64 = 62"

definition load_elf64 :: "'w hw \<Rightarrow> addr \<Rightarrow> mem \<Rightarrow> 'w \<Rightarrow> (mem \<times> 'w) option" where
  "load_elf64 H elf m w =
     load_elf H (\<lambda>m. load 2 m (elf + 56)) read_phdr64 56 0 (elf + load 8 m (elf + 32)) m w"

definition load_elf32 :: "'w hw \<Rightarrow> addr \<Rightarrow> mem \<Rightarrow> 'w \<Rightarrow> (mem \<times> 'w) option" where
  "load_elf32 H elf m w =
     load_elf H (\<lambda>m. load 2 m (elf + 44)) read_phdr32 32 0 (elf + ucast (load 4 m (elf + 28) :: u32)) m w"

definition load_kernel :: "'w hw \<Rightarrow> mem \<Rightarrow> 'w \<Rightarrow> (mem \<times> 'w \<times> u32) option" where
  \<comment> \<open>and the address that it jumps to\<close>
  "load_kernel H m w =
     (let elf = 0x8000 :: addr; is_ap = load 4 m (BOOTREC_ADDR + 4) :: u32 in
      Option.bind
        (if is_ap = 0 then
           Option.bind (copy_from_disk H (ucast MAINARG_ADDR) 1024 (- 1024) m w) (\<lambda>(m, w).
           Option.bind (copy_from_disk H 0x8000 4096 0 m w) (\<lambda>(m, w).
             if load 2 m (elf + 18) = EM_X86_64 then load_elf64 H elf m w else load_elf32 H elf m w))
         else Some (m, w))
        (\<lambda>(m, w). Some (m, w,
           if load 2 m (elf + 18) = EM_X86_64 then ucast (load 8 m (elf + 24) :: u64)
           else load 4 m (elf + 24))))"

section \<open>Loading from a disk\<close>

fun inl_seq :: "'w hw \<Rightarrow> nat \<Rightarrow> 'w \<Rightarrow> u32 list" where
  \<comment> \<open>what \<open>n\<close> reads of the data port return\<close>
  "inl_seq H 0 w = []"
| "inl_seq H (Suc n) w = (case h_inl H 0x1f0 w of (v, w') \<Rightarrow> v # inl_seq H n w')"

definition ata_disk :: "'w hw \<Rightarrow> (nat \<Rightarrow> nat \<Rightarrow> u32) \<Rightarrow> bool" where
  \<comment> \<open>the ATA protocol, for a disk whose sector \<open>s\<close> holds the words \<open>content s\<close>: the device always
    becomes ready, and when it is ready after a read command its data port delivers the sector\<close>
  "ata_disk H content \<longleftrightarrow>
     (\<forall>w. wait_disk H w \<noteq> None) \<and>
     (\<forall>w w' s. s < 2 ^ 28 \<longrightarrow> wait_disk H (disk_command H (of_nat s) 0x20 w) = Some w' \<longrightarrow>
        inl_seq H 128 w' = map (content s) [0..<128])"

definition sector_bytes :: "(nat \<Rightarrow> nat \<Rightarrow> u32) \<Rightarrow> nat \<Rightarrow> u8 list" where
  "sector_bytes content s = concat (map (\<lambda>k. bytes_of_word 4 (content s k)) [0..<128])"

definition disk_byte :: "(nat \<Rightarrow> nat \<Rightarrow> u32) \<Rightarrow> nat \<Rightarrow> u8" where
  "disk_byte content n = sector_bytes content (n div 512) ! (n mod 512)"

lemma length_concat_const: "(\<And>x. x \<in> set xs \<Longrightarrow> length (f x) = n) \<Longrightarrow> length (concat (map f xs)) = n * length xs"
  by (induction xs) auto

lemma length_sector_bytes [simp]: "length (sector_bytes content s) = 512"
  by (simp add: sector_bytes_def length_concat_const [where n = 4])

lemma read_words_write:
  "4 * n < 2 ^ 64 \<Longrightarrow>
     fst (read_words H n buf m w) = write_bytes m buf (concat (map (bytes_of_word 4) (inl_seq H n w)))"
proof (induction n arbitrary: buf m w)
  case (Suc n)
  obtain v w' where v: "h_inl H 0x1f0 w = (v, w')" by fastforce
  have "length (concat (map (bytes_of_word 4) (inl_seq H n w'))) = 4 * length (inl_seq H n w')"
    by (rule length_concat_const) simp
  moreover have "length (inl_seq H n w') = n" by (induction n arbitrary: w') (auto split: prod.splits)
  ultimately have "length (bytes_of_word 4 v) + length (concat (map (bytes_of_word 4) (inl_seq H n w'))) < 2 ^ 64"
    using Suc.prems by simp
  from write_bytes_append [OF this, of m buf] show ?case
    using Suc.IH [of "buf + 4" "store 4 m buf v" w'] Suc.prems v by (simp add: store_def)
qed simp

lemma read_disk_sector:
  assumes "ata_disk H content" and "s < 2 ^ 28"
  shows "\<exists>w'. read_disk H buf (of_nat s) m w = Some (write_bytes m buf (sector_bytes content s), w')"
proof -
  have ready: "\<exists>w'. wait_disk H w = Some w'" for w using assms(1) unfolding ata_disk_def by blast
  obtain w1 where w1: "wait_disk H w = Some w1" using ready by blast
  obtain w2 where w2: "wait_disk H (disk_command H (of_nat s) 0x20 w1) = Some w2" using ready by blast
  then have "inl_seq H 128 w2 = map (content s) [0..<128]"
    using assms by (auto simp: ata_disk_def)
  then have "fst (read_words H 128 buf m w2) = write_bytes m buf (sector_bytes content s)"
    by (subst read_words_write) (simp_all add: sector_bytes_def comp_def)
  then show ?thesis
    using w1 w2 by (cases "read_words H 128 buf m w2") (simp add: read_disk_def SECTSIZE_def)
qed

definition sectors :: "(nat \<Rightarrow> nat \<Rightarrow> u32) \<Rightarrow> nat \<Rightarrow> nat \<Rightarrow> u8 list" where
  "sectors content s k = concat (map (sector_bytes content) [s..<s + k])"

lemma length_sectors [simp]: "length (sectors content s k) = 512 * k"
  by (simp add: sectors_def length_concat_const [where n = 512])

lemma sectors_Suc: "sectors content s (Suc k) = sector_bytes content s @ sectors content (Suc s) k"
  by (simp add: sectors_def upt_rec)

lemma sectors_nth: "i < 512 * k \<Longrightarrow> sectors content s k ! i = disk_byte content (512 * s + i)"
proof (induction k arbitrary: s i)
  case (Suc k)
  show ?case
  proof (cases "i < 512")
    case True
    then show ?thesis by (simp add: sectors_Suc nth_append disk_byte_def)
  next
    case False
    then have "sectors content s (Suc k) ! i = disk_byte content (512 * Suc s + (i - 512))"
      using Suc.IH [of "i - 512" "Suc s"] Suc.prems by (simp add: sectors_Suc nth_append)
    then show ?thesis using False by (simp add: algebra_simps)
  qed
qed simp

lemma copy_loop_sectors:
  assumes "ata_disk H content"
  shows "unat cur + 512 * k < 2 ^ 32 \<Longrightarrow> s + k \<le> 2 ^ 28 \<Longrightarrow>
     unat ed \<le> unat cur + 512 * k \<Longrightarrow> unat cur + 512 * k < unat ed + 512 \<Longrightarrow>
     \<exists>w'. copy_loop H ed cur (of_nat s) m w = Some (write_bytes m (ucast cur) (sectors content s k), w')"
proof (induction k arbitrary: cur s m w)
  case 0
  then show ?case by (subst copy_loop.simps) (simp add: word_less_nat_alt sectors_def)
next
  case (Suc k)
  have lt: "cur < ed" using Suc.prems(4) by (simp add: word_less_nat_alt)
  have c: "unat (cur + 512) = unat cur + 512" using Suc.prems(1) by (subst unat_add_no_wrap) simp_all
  have "s < 2 ^ 28" using Suc.prems(2) by simp
  then obtain w1 where r: "read_disk H (ucast cur) (of_nat s) m w = Some (write_bytes m (ucast cur) (sector_bytes content s), w1)"
    using read_disk_sector [OF assms, of s] by blast
  have u: "(ucast x :: addr) = of_nat (unat x)" for x :: u32 by (metis of_nat_unat)
  have next_cur: "(ucast (cur + 512) :: addr) = ucast cur + 512"
    unfolding u c by simp
  have "copy_loop H ed cur (of_nat s) m w =
      copy_loop H ed (cur + 512) (of_nat (Suc s)) (write_bytes m (ucast cur) (sector_bytes content s)) w1"
    using lt r by (subst copy_loop.simps) (simp add: SECTSIZE_def add.commute)
  moreover obtain w' where "copy_loop H ed (cur + 512) (of_nat (Suc s)) (write_bytes m (ucast cur) (sector_bytes content s)) w1 =
      Some (write_bytes (write_bytes m (ucast cur) (sector_bytes content s)) (ucast cur + 512) (sectors content (Suc s) k), w')"
    using Suc.IH [of "cur + 512" "Suc s" "write_bytes m (ucast cur) (sector_bytes content s)" w1] Suc.prems c next_cur
    by auto
  moreover have "length (sector_bytes content s) + length (sectors content (Suc s) k) < 2 ^ 64"
    using Suc.prems(2) by simp
  ultimately show ?case
    using write_bytes_append [of "sector_bytes content s" "sectors content (Suc s) k" m "ucast cur"]
    by (simp add: sectors_Suc)
qed

lemma clear_bss_write: "n < 2 ^ 64 \<Longrightarrow> clear_bss n a m = write_bytes m a (replicate n 0)"
proof (induction n arbitrary: a m)
  case (Suc n)
  have "write_bytes m a (0 # replicate n 0) = write_bytes (write_bytes m a [0]) (a + 1) (replicate n 0)"
    using write_bytes_append [of "[0]" "replicate n 0" m a] Suc.prems by simp
  then show ?case using Suc by simp
qed simp

lemma and_not_511: "x AND NOT (SECTSIZE - 1) = of_nat (unat x - unat x mod 512)" for x :: u32
proof -
  have "x AND NOT (SECTSIZE - 1) = push_bit 9 (drop_bit 9 x)"
    by (rule NOT_mask_eq) (simp add: SECTSIZE_def)
  also have "\<dots> = drop_bit 9 x * 512" by (subst push_bit_eq_mult) simp
  also have "\<dots> = of_nat (unat (drop_bit 9 x)) * 512" by (simp only: of_nat_unat ucast_id)
  also have "unat (drop_bit 9 x) = unat x div 512"
    by (subst unat_drop_bit_eq) (simp add: drop_bit_eq_div)
  also have "of_nat (unat x div 512) * 512 = (of_nat (unat x div 512 * 512) :: u32)" by simp
  also have "unat x div 512 * 512 = unat x - unat x mod 512" by (simp add: minus_mod_eq_div_mult)
  finally show ?thesis .
qed

lemma copy_from_disk_sectors:
  assumes "ata_disk H content" and "unat buf + n + 512 < 2 ^ 32" and "off + n < 2 ^ 31"
  shows "\<exists>k w'. copy_from_disk H buf (int n) (int off) m w =
       Some (write_bytes m (of_nat (unat buf - unat buf mod 512)) (sectors content (off div 512 + 3) k), w') \<and>
     unat buf mod 512 + n \<le> 512 * k \<and> 512 * k < unat buf mod 512 + n + 512"
proof -
  define r where "r = unat buf mod 512"
  define k where "k = (r + n + 511) div 512"
  have r: "r < 512" "r \<le> unat buf" by (simp_all add: r_def)
  have k: "r + n \<le> 512 * k" "512 * k < r + n + 512" unfolding k_def by linarith+
  let ?cur = "of_nat (unat buf - r) :: u32" and ?ed = "buf + word_of_int (int n)"
  have uc: "unat ?cur = unat buf - r" by (rule unat_of_nat_lt) (use assms(2) in simp)
  have "unat (of_nat n :: u32) = n" by (rule unat_of_nat_lt) (use assms(2) in simp)
  then have ue: "unat ?ed = unat buf + n" using assms(2) by (simp add: unat_add_no_wrap)
  have "c_div (int off) 512 = int (off div 512)" by (simp add: c_div_nonneg zdiv_int)
  then have sc: "word_of_int (c_div (int off) 512 + ARGSIZE div 512 + 1) = (of_nat (off div 512 + 3) :: u32)"
    by (simp add: ARGSIZE_def)
  have "\<exists>w'. copy_loop H ?ed ?cur (of_nat (off div 512 + 3)) m w =
      Some (write_bytes m (ucast ?cur) (sectors content (off div 512 + 3) k), w')"
  proof (rule copy_loop_sectors [OF assms(1)])
    show "unat ?cur + 512 * k < 2 ^ 32" using uc k(2) r assms(2) by linarith
    show "off div 512 + 3 + k \<le> 2 ^ 28"
    proof -
      have "512 * (off div 512) \<le> off" by simp
      moreover have "(2 :: nat) ^ 31 = 8 * 2 ^ 28" by simp
      ultimately show ?thesis using k(2) r assms(2,3) by simp
    qed
    show "unat ?ed \<le> unat ?cur + 512 * k" "unat ?cur + 512 * k < unat ?ed + 512"
      using uc ue k r by linarith+
  qed
  moreover have "(ucast ?cur :: addr) = of_nat (unat buf - r)" using uc by (metis of_nat_unat)
  ultimately have "\<exists>w'. copy_from_disk H buf (int n) (int off) m w =
      Some (write_bytes m (of_nat (unat buf - r)) (sectors content (off div 512 + 3) k), w')"
    unfolding copy_from_disk_def Let_def and_not_511 r_def [symmetric] sc by simp
  then show ?thesis using k unfolding r_def by blast
qed

definition image_byte :: "(nat \<Rightarrow> nat \<Rightarrow> u32) \<Rightarrow> nat \<Rightarrow> u8" where
  \<comment> \<open>a byte of the kernel's file, which follows the boot sector and the argument sectors\<close>
  "image_byte content n = disk_byte content (512 * 3 + n)"

definition loaded_memory :: "(nat \<Rightarrow> nat \<Rightarrow> u32) \<Rightarrow> nat \<Rightarrow> nat \<Rightarrow> nat \<Rightarrow> nat \<Rightarrow> nat \<Rightarrow> mem \<Rightarrow> mem" where
  \<comment> \<open>the memory after this many sectors have been read, from the start of the sector of \<open>paddr\<close> on, and the rest is cleared\<close>
  "loaded_memory content paddr filesz memsz offset k m =
     write_bytes (write_bytes m (of_nat (paddr - paddr mod 512)) (sectors content (offset div 512 + 3) k))
       (of_nat (paddr + filesz)) (replicate (memsz - filesz) 0)"

lemma int_of_word_nat: "unat (x :: u32) < 2 ^ 31 \<Longrightarrow> int_of_word x = int (unat x)"
proof -
  assume "unat x < 2 ^ 31"
  then have "uint x < int (2 ^ 31)" by (rule uint_less_of_unat)
  then have "int_of_word x = uint x" by (intro int_of_word_small) simp_all
  then show ?thesis by (simp only: uint_nat)
qed

lemma load_program_run:
  assumes "ata_disk H content" and "unat paddr mod 512 = unat offset mod 512"
    and "unat paddr + unat memsz + 512 < 2 ^ 32" and "unat filesz \<le> unat memsz"
    and "unat offset + unat filesz < 2 ^ 31"
  shows "\<exists>k w'. load_program H filesz memsz paddr offset m w =
      Some (loaded_memory content (unat paddr) (unat filesz) (unat memsz) (unat offset) k m, w') \<and>
    unat paddr mod 512 + unat filesz \<le> 512 * k \<and> 512 * k < unat paddr mod 512 + unat filesz + 512"
proof -
  let ?f = "unat filesz"
  have i1: "int_of_word filesz = int ?f" "int_of_word offset = int (unat offset)"
    using assms(5) by (intro int_of_word_nat; simp)+
  obtain k w1 where k: "copy_from_disk H paddr (int ?f) (int (unat offset)) m w =
       Some (write_bytes m (of_nat (unat paddr - unat paddr mod 512)) (sectors content (unat offset div 512 + 3) k), w1)"
     "unat paddr mod 512 + ?f \<le> 512 * k" "512 * k < unat paddr mod 512 + ?f + 512"
    using copy_from_disk_sectors [OF assms(1), of paddr ?f "unat offset" m w] assms(3,4,5) by auto
  have uz: "unat (memsz - filesz) = unat memsz - ?f" using assms(4) by (simp add: unat_sub word_le_nat_alt)
  have "unat (paddr + filesz) = unat paddr + ?f" using assms(3,4) by (subst unat_add_no_wrap) simp_all
  then have "(ucast (paddr + filesz) :: addr) = of_nat (unat paddr + ?f)" by (metis of_nat_unat)
  then have "load_program H filesz memsz paddr offset m w =
      Some (loaded_memory content (unat paddr) ?f (unat memsz) (unat offset) k m, w1)"
    using k(1) uz assms(3) by (simp add: load_program_def i1 loaded_memory_def clear_bss_write)
  with k(2,3) show ?thesis by blast
qed

lemma loaded_memory_at:
  assumes "paddr + memsz + 512 < 2 ^ 32" and "filesz \<le> memsz" and "512 * k < paddr mod 512 + filesz + 512"
  shows "loaded_memory content paddr filesz memsz offset k m a =
    (if paddr + filesz \<le> unat a \<and> unat a < paddr + memsz then 0
     else if paddr - paddr mod 512 \<le> unat a \<and> unat a < paddr - paddr mod 512 + 512 * k
     then sectors content (offset div 512 + 3) k ! (unat a - (paddr - paddr mod 512)) else m a)"
proof -
  let ?sec = "sectors content (offset div 512 + 3) k"
  have "paddr mod 512 \<le> paddr" "paddr mod 512 < 512" by simp_all
  then have "paddr + filesz + length (replicate (memsz - filesz) (0 :: u8)) \<le> 2 ^ 64" "paddr - paddr mod 512 + length ?sec \<le> 2 ^ 64"
    using assms by simp_all
  note w = write_bytes_nat [OF this(1)] write_bytes_nat [OF this(2), of m a]
  have "paddr + filesz + (memsz - filesz) = paddr + memsz" using assms(2) by simp
  then show ?thesis using w(1) w(2) by (auto simp: loaded_memory_def)
qed

text \<open>C17: on a disk that follows the ATA protocol, \<open>load_program\<close> returns and loads a segment: when the
  segment's address and its offset in the file agree modulo the sector size, the file's bytes are in
  memory from that address on and the rest of the segment is zero. Whole sectors are read, so up to
  one sector before the segment is overwritten with the file's preceding bytes; all memory below that
  and from the end of the last sector on is left alone.\<close>

theorem load_program_loads:
  assumes "ata_disk H content" and "unat paddr mod 512 = unat offset mod 512"
    and "unat paddr + unat memsz + 512 < 2 ^ 32" and "unat filesz \<le> unat memsz"
    and "unat offset + unat filesz < 2 ^ 31"
  shows "\<exists>m' w'. load_program H filesz memsz paddr offset m w = Some (m', w') \<and>
     (\<forall>i < unat filesz. m' (of_nat (unat paddr + i)) = image_byte content (unat offset + i)) \<and>
     (\<forall>i. unat filesz \<le> i \<longrightarrow> i < unat memsz \<longrightarrow> m' (of_nat (unat paddr + i)) = 0) \<and>
     (\<forall>a. unat a < unat paddr - unat paddr mod 512 \<or>
        unat paddr + unat memsz + 512 \<le> unat a \<longrightarrow> m' a = m a)"
proof -
  define r where "r = unat paddr mod 512"
  let ?f = "unat filesz"
  have r: "r < 512" "r \<le> unat paddr" by (simp_all add: r_def)
  obtain k w' where k: "load_program H filesz memsz paddr offset m w =
      Some (loaded_memory content (unat paddr) ?f (unat memsz) (unat offset) k m, w')" "r + ?f \<le> 512 * k" "512 * k < r + ?f + 512"
    using load_program_run [OF assms] unfolding r_def by blast
  let ?m = "loaded_memory content (unat paddr) ?f (unat memsz) (unat offset) k m"
  note at = loaded_memory_at [OF assms(3,4) k(3) [unfolded r_def], of content "unat offset" m, folded r_def]
  have u: "unat (of_nat (unat paddr + i) :: addr) = unat paddr + i" if "i < unat memsz" for i
    using that assms(3) by (intro unat_of_nat_lt) simp
  have "?m (of_nat (unat paddr + i)) = image_byte content (unat offset + i)" if "i < ?f" for i
  proof -
    have n: "unat paddr + i - (unat paddr - r) = r + i" "r + i < 512 * k" using r k(2) that by simp_all
    have "512 * (unat offset div 512) + r = unat offset" using assms(2) r_def by simp
    then have e: "512 * (unat offset div 512 + 3) + (r + i) = 512 * 3 + (unat offset + i)" by simp
    have "sectors content (unat offset div 512 + 3) k ! (r + i) = image_byte content (unat offset + i)"
      unfolding image_byte_def e [symmetric] by (rule sectors_nth [OF n(2)])
    then show ?thesis using at u [of i] that assms(4) n r k(2) by (auto simp: add.commute)
  qed
  moreover have "?m (of_nat (unat paddr + i)) = 0" if "?f \<le> i" "i < unat memsz" for i
    using at u [OF that(2)] that by simp
  moreover have "?m a = m a" if "unat a < unat paddr - r \<or> unat paddr + unat memsz + 512 \<le> unat a" for a
    using at that k(3) r assms(4) by auto
  ultimately show ?thesis using k(1) unfolding r_def by blast
qed

definition demo_lba :: "u16 \<Rightarrow> u8 \<Rightarrow> u32 \<Rightarrow> u32" where
  \<comment> \<open>how a device assembles a sector number from its registers\<close>
  "demo_lba port v l =
     (if port = 0x1f3 then (l AND NOT (mask 8)) OR ucast v
      else if port = 0x1f4 then (l AND NOT (push_bit 8 (mask 8))) OR push_bit 8 (ucast v)
      else if port = 0x1f5 then (l AND NOT (push_bit 16 (mask 8))) OR push_bit 16 (ucast v)
      else if port = 0x1f6 then (l AND NOT (push_bit 24 (mask 8))) OR push_bit 24 (ucast v AND mask 4)
      else l)"

definition demo_disk :: "(u32 \<times> nat) hw" where
  "demo_disk = \<lparr>h_inb = (\<lambda>_ w. (0x40, w)), h_inl = (\<lambda>_ (l, k). (of_nat (unat l * 128 + k), (l, Suc k))),
     h_outb = (\<lambda>port v (l, k). (demo_lba port v l, if port = 0x1f7 then 0 else k)), h_outw = (\<lambda>_ _ w. w),
     h_outl = (\<lambda>_ _ w. w), h_load = (\<lambda>_ w. (0, w)), h_store = (\<lambda>_ _ w. w), h_store16 = (\<lambda>_ _ w. w),
     h_xchg = (\<lambda>_ _ w. (0, w)), h_rdtsc = (\<lambda>w. (0, w)), h_cli = id, h_sti = id, h_flags = (\<lambda>_. 0)\<rparr>"

definition demo_content :: "nat \<Rightarrow> nat \<Rightarrow> u32" where "demo_content s k = of_nat (s * 128 + k)"

lemma demo_wait: "wait_disk demo_disk w = Some w"
  by (subst wait_disk.simps) (simp add: demo_disk_def)

lemma demo_command:
  assumes "s < 2 ^ 28"
  shows "disk_command demo_disk (of_nat s) 0x20 (l, k) = (of_nat s, 0)"
proof -
  let ?s = "of_nat s :: u32"
  have us: "unat ?s = s" by (rule unat_of_nat_lt) (use assms in simp)
  have hi: "n < 28" if "bit ?s n" for n
  proof (rule ccontr)
    assume "\<not> n < 28"
    moreover have "bit (unat ?s) n" using that by (simp add: bit_unsigned_iff bit_imp_le_length)
    moreover have "take_bit 28 s = s" using assms by (simp add: take_bit_nat_eq_self)
    ultimately show False unfolding us by (metis bit_take_bit_iff)
  qed
  have e0: "(0xE0 :: u32) = push_bit 5 (mask 3)" by (simp add: mask_eq_exp_minus_1)
  have "demo_lba 0x1f7 0x20 (demo_lba 0x1f6 (ucast (drop_bit 24 ?s OR 0xE0)) (demo_lba 0x1f5 (ucast (drop_bit 16 ?s))
      (demo_lba 0x1f4 (ucast (drop_bit 8 ?s)) (demo_lba 0x1f3 (ucast ?s) (demo_lba 0x1f2 1 l))))) = ?s" (is "?x = _")
  proof (rule bit_word_eqI)
    fix n assume n: "n < LENGTH(32)"
    consider "n < 8" | "8 \<le> n \<and> n < 16" | "16 \<le> n \<and> n < 24" | "24 \<le> n \<and> n < 28" | "28 \<le> n" by linarith
    then show "bit ?x n = bit ?s n"
      using n hi [of n] unfolding e0 demo_lba_def
      by cases (auto simp: bit_and_iff bit_or_iff bit_not_iff bit_push_bit_iff bit_mask_iff bit_ucast_iff bit_drop_bit_eq
          simp del: push_bit_numeral mask_numeral)
  qed
  then show ?thesis
    unfolding disk_command_def Let_def by (simp add: demo_disk_def)
qed

lemma demo_ata: "ata_disk demo_disk demo_content"
proof -
  have "inl_seq demo_disk n (l, k) = map (\<lambda>j. of_nat (unat l * 128 + j)) [k..<k + n]" for n l k
    by (induction n arbitrary: k) (simp_all add: demo_disk_def upt_rec)
  moreover have "unat (of_nat s :: u32) = s" if "s < 2 ^ 28" for s
    using that by (intro unat_of_nat_lt) simp
  ultimately show ?thesis
    using demo_command by (auto simp: ata_disk_def demo_wait demo_content_def)
qed

theorem load_program_loads_witness:
  "\<exists>m' w'. load_program demo_disk 0x300 0x400 0x100040 0x40 (\<lambda>_. 9) (0, 0) = Some (m', w') \<and>
     m' 0x100044 = image_byte demo_content 0x44 \<and> m' 0x100350 = 0 \<and> m' 0x7 = 9"
proof -
  obtain m' w' where l: "load_program demo_disk 0x300 0x400 0x100040 0x40 (\<lambda>_. 9) (0, 0) = Some (m', w')"
    and b: "\<forall>i < unat (0x300 :: u32). m' (of_nat (unat (0x100040 :: u32) + i)) = image_byte demo_content (unat (0x40 :: u32) + i)"
    and z: "\<forall>i. unat (0x300 :: u32) \<le> i \<longrightarrow> i < unat (0x400 :: u32) \<longrightarrow> m' (of_nat (unat (0x100040 :: u32) + i)) = 0"
    and o: "\<forall>a. unat a < unat (0x100040 :: u32) - unat (0x100040 :: u32) mod 512 \<or>
        unat (0x100040 :: u32) + unat (0x400 :: u32) + 512 \<le> unat a \<longrightarrow> m' a = 9"
    using load_program_loads [OF demo_ata, of "0x100040" "0x40" "0x400" "0x300" "\<lambda>_. 9" "(0, 0)"] by auto
  show ?thesis using l b [rule_format, of 4] z [rule_format, of "0x310"] o [rule_format, of 7] by simp
qed

end
