(* ===== verification/AM_Dev.thy ===== *)
theory AM_Dev
  imports AM_Base
begin

text \<open>
  The abstract devices that all platforms share, \<open>abstract-machine/am/include/amdev.h\<close>: the registers, the structures that
  are read from and written to them, and the key codes.
\<close>

record rtc =
  year :: int
  month :: int
  day :: int
  hour :: int
  minute :: int
  second :: int

record fbdraw =
  fd_x :: int
  fd_y :: int
  fd_pixels :: addr
  fd_w :: int
  fd_h :: int
  fd_sync :: bool

record blkio =
  bio_write :: bool
  bio_buf :: addr
  bio_blkno :: u32
  bio_blkcnt :: u32

datatype io_buf =
    \<comment> \<open>one structure \<open>AM_<reg>_T\<close> for each register\<close>
    Uart_config bool                  \<comment> \<open>present\<close>
  | Uart_tx u8
  | Uart_rx u8
  | Timer_config bool bool            \<comment> \<open>present, has_rtc\<close>
  | Timer_rtc rtc
  | Timer_uptime u64
  | Input_config bool
  | Input_keybrd bool nat             \<comment> \<open>keydown, keycode\<close>
  | Gpu_config bool bool int int int  \<comment> \<open>present, has_accel, width, height, vmemsz\<close>
  | Gpu_status bool
  | Gpu_fbdraw fbdraw
  | Gpu_memcpy u32 addr int           \<comment> \<open>dest, src, size\<close>
  | Gpu_render u32
  | Audio_config bool int             \<comment> \<open>present, bufsize\<close>
  | Audio_ctrl int int int            \<comment> \<open>freq, channels, samples\<close>
  | Audio_status int
  | Audio_play Area
  | Disk_config bool int int
  | Disk_status bool
  | Disk_blkio blkio
  | Net_config bool
  | Net_status int int                \<comment> \<open>rx_len, tx_len\<close>
  | Net_tx Area
  | Net_rx Area

definition AM_UART_CONFIG :: nat where "AM_UART_CONFIG = 1"
definition AM_UART_TX :: nat where "AM_UART_TX = 2"
definition AM_UART_RX :: nat where "AM_UART_RX = 3"
definition AM_TIMER_CONFIG :: nat where "AM_TIMER_CONFIG = 4"
definition AM_TIMER_RTC :: nat where "AM_TIMER_RTC = 5"
definition AM_TIMER_UPTIME :: nat where "AM_TIMER_UPTIME = 6"
definition AM_INPUT_CONFIG :: nat where "AM_INPUT_CONFIG = 7"
definition AM_INPUT_KEYBRD :: nat where "AM_INPUT_KEYBRD = 8"
definition AM_GPU_CONFIG :: nat where "AM_GPU_CONFIG = 9"
definition AM_GPU_STATUS :: nat where "AM_GPU_STATUS = 10"
definition AM_GPU_FBDRAW :: nat where "AM_GPU_FBDRAW = 11"
definition AM_GPU_MEMCPY :: nat where "AM_GPU_MEMCPY = 12"
definition AM_GPU_RENDER :: nat where "AM_GPU_RENDER = 13"
definition AM_AUDIO_CONFIG :: nat where "AM_AUDIO_CONFIG = 14"
definition AM_AUDIO_CTRL :: nat where "AM_AUDIO_CTRL = 15"
definition AM_AUDIO_STATUS :: nat where "AM_AUDIO_STATUS = 16"
definition AM_AUDIO_PLAY :: nat where "AM_AUDIO_PLAY = 17"
definition AM_DISK_CONFIG :: nat where "AM_DISK_CONFIG = 18"
definition AM_DISK_STATUS :: nat where "AM_DISK_STATUS = 19"
definition AM_DISK_BLKIO :: nat where "AM_DISK_BLKIO = 20"
definition AM_NET_CONFIG :: nat where "AM_NET_CONFIG = 21"
definition AM_NET_STATUS :: nat where "AM_NET_STATUS = 22"
definition AM_NET_TX :: nat where "AM_NET_TX = 23"
definition AM_NET_RX :: nat where "AM_NET_RX = 24"

definition AM_KEYS :: "string list" where
  \<comment> \<open>in the order of the enumeration, which starts at 1\<close>
  "AM_KEYS =
     [''ESCAPE'', ''F1'', ''F2'', ''F3'', ''F4'', ''F5'', ''F6'', ''F7'', ''F8'', ''F9'', ''F10'', ''F11'', ''F12'',
      ''GRAVE'', ''1'', ''2'', ''3'', ''4'', ''5'', ''6'', ''7'', ''8'', ''9'', ''0'', ''MINUS'', ''EQUALS'', ''BACKSPACE'',
      ''TAB'', ''Q'', ''W'', ''E'', ''R'', ''T'', ''Y'', ''U'', ''I'', ''O'', ''P'', ''LEFTBRACKET'', ''RIGHTBRACKET'', ''BACKSLASH'',
      ''CAPSLOCK'', ''A'', ''S'', ''D'', ''F'', ''G'', ''H'', ''J'', ''K'', ''L'', ''SEMICOLON'', ''APOSTROPHE'', ''RETURN'',
      ''LSHIFT'', ''Z'', ''X'', ''C'', ''V'', ''B'', ''N'', ''M'', ''COMMA'', ''PERIOD'', ''SLASH'', ''RSHIFT'',
      ''LCTRL'', ''APPLICATION'', ''LALT'', ''SPACE'', ''RALT'', ''RCTRL'',
      ''UP'', ''DOWN'', ''LEFT'', ''RIGHT'', ''INSERT'', ''DELETE'', ''HOME'', ''END'', ''PAGEUP'', ''PAGEDOWN'']"

fun position :: "'a \<Rightarrow> 'a list \<Rightarrow> nat" where
  "position x [] = 0"
| "position x (y # ys) = (if x = y then 0 else Suc (position x ys))"

definition AM_KEY :: "string \<Rightarrow> nat" where "AM_KEY k = Suc (position k AM_KEYS)"
definition AM_KEY_NONE :: nat where "AM_KEY_NONE = 0"


lemma position_nth: "x \<in> set xs \<Longrightarrow> xs ! position x xs = x \<and> position x xs < length xs"
  by (induction xs) auto

lemma AM_KEY_inj: "k \<in> set AM_KEYS \<Longrightarrow> l \<in> set AM_KEYS \<Longrightarrow> AM_KEY k = AM_KEY l \<longleftrightarrow> k = l"
  by (metis AM_KEY_def nat.inject position_nth)

lemma AM_KEY_le: "k \<in> set AM_KEYS \<Longrightarrow> AM_KEY k \<le> 83"
  using position_nth [of k AM_KEYS] by (simp add: AM_KEY_def AM_KEYS_def)

fun io_reg :: "io_buf \<Rightarrow> nat" where
  \<comment> \<open>the register whose structure it is\<close>
  "io_reg (Uart_config _) = AM_UART_CONFIG"
| "io_reg (Uart_tx _) = AM_UART_TX"
| "io_reg (Uart_rx _) = AM_UART_RX"
| "io_reg (Timer_config _ _) = AM_TIMER_CONFIG"
| "io_reg (Timer_rtc _) = AM_TIMER_RTC"
| "io_reg (Timer_uptime _) = AM_TIMER_UPTIME"
| "io_reg (Input_config _) = AM_INPUT_CONFIG"
| "io_reg (Input_keybrd _ _) = AM_INPUT_KEYBRD"
| "io_reg (Gpu_config _ _ _ _ _) = AM_GPU_CONFIG"
| "io_reg (Gpu_status _) = AM_GPU_STATUS"
| "io_reg (Gpu_fbdraw _) = AM_GPU_FBDRAW"
| "io_reg (Gpu_memcpy _ _ _) = AM_GPU_MEMCPY"
| "io_reg (Gpu_render _) = AM_GPU_RENDER"
| "io_reg (Audio_config _ _) = AM_AUDIO_CONFIG"
| "io_reg (Audio_ctrl _ _ _) = AM_AUDIO_CTRL"
| "io_reg (Audio_status _) = AM_AUDIO_STATUS"
| "io_reg (Audio_play _) = AM_AUDIO_PLAY"
| "io_reg (Disk_config _ _ _) = AM_DISK_CONFIG"
| "io_reg (Disk_status _) = AM_DISK_STATUS"
| "io_reg (Disk_blkio _) = AM_DISK_BLKIO"
| "io_reg (Net_config _) = AM_NET_CONFIG"
| "io_reg (Net_status _ _) = AM_NET_STATUS"
| "io_reg (Net_tx _) = AM_NET_TX"
| "io_reg (Net_rx _) = AM_NET_RX"

definition reg_buf :: "nat \<Rightarrow> io_buf \<Rightarrow> bool" where
  \<comment> \<open>a structure of the register's own type \<open>AM_<reg>_T\<close>\<close>
  [simp]: "reg_buf r buf \<longleftrightarrow> io_reg buf = r"

lemmas AM_reg_defs = AM_UART_CONFIG_def AM_UART_TX_def AM_UART_RX_def AM_TIMER_CONFIG_def AM_TIMER_RTC_def AM_TIMER_UPTIME_def
  AM_INPUT_CONFIG_def AM_INPUT_KEYBRD_def AM_GPU_CONFIG_def AM_GPU_STATUS_def AM_GPU_FBDRAW_def AM_GPU_MEMCPY_def
  AM_GPU_RENDER_def AM_AUDIO_CONFIG_def AM_AUDIO_CTRL_def AM_AUDIO_STATUS_def AM_AUDIO_PLAY_def AM_DISK_CONFIG_def
  AM_DISK_STATUS_def AM_DISK_BLKIO_def AM_NET_CONFIG_def AM_NET_STATUS_def AM_NET_TX_def AM_NET_RX_def

lemma io_reg_cases:
  "AM_UART_CONFIG \<le> io_reg buf \<and> io_reg buf \<le> AM_NET_RX"
  by (cases buf) (simp_all add: AM_reg_defs)

text \<open>Each of the 24 registers has a structure, so a property of all accesses with a structure of the register's type covers
  all registers.\<close>

lemma reg_buf_exists:
  assumes "AM_UART_CONFIG \<le> r" and "r \<le> AM_NET_RX"
  shows "\<exists>buf. reg_buf r buf"
proof -
  let ?all = "[Uart_config False, Uart_tx 0, Uart_rx 0, Timer_config False False, Timer_rtc undefined, Timer_uptime 0,
     Input_config False, Input_keybrd False 0, Gpu_config False False 0 0 0, Gpu_status False, Gpu_fbdraw undefined,
     Gpu_memcpy 0 0 0, Gpu_render 0, Audio_config False 0, Audio_ctrl 0 0 0, Audio_status 0, Audio_play undefined,
     Disk_config False 0 0, Disk_status False, Disk_blkio undefined, Net_config False, Net_status 0 0,
     Net_tx undefined, Net_rx undefined]"
  have "map io_reg ?all = [1..<25]" by (simp add: AM_reg_defs upt_rec)
  moreover have "r \<in> set [1..<25]" using assms by (simp add: AM_reg_defs)
  ultimately have "r \<in> io_reg ` set ?all" by (metis list.set_map)
  then show ?thesis unfolding reg_buf_def by blast
qed

end
