(* ===== verification/AM_IOE.thy ===== *)
theory AM_IOE
  imports AM_Dev
begin

text \<open>
  The dispatch that every platform has: a table of 128 handlers indexed by device register, completed by \<open>ioe_init\<close> with a
  handler that panics, and \<open>ioe_read\<close>, \<open>ioe_write\<close>, which call the handler of a register. The locale \<open>device_table\<close>
  states what a platform's table and handlers have to promise, and derives the type safety of the dispatch.
\<close>

definition fill_table :: "(nat \<Rightarrow> 'h option) \<Rightarrow> 'h \<Rightarrow> nat \<Rightarrow> 'h option" where
  \<comment> \<open>the loop of \<open>ioe_init\<close>\<close>
  "fill_table tab fail = (\<lambda>i. if i < 128 \<and> tab i = None then Some fail else tab i)"

definition table_access ::
  "('h \<Rightarrow> io_buf \<Rightarrow> 's \<Rightarrow> (c_error + io_buf \<times> 's) option) \<Rightarrow> (nat \<Rightarrow> 'h option) \<Rightarrow> nat \<Rightarrow> io_buf \<Rightarrow> 's \<Rightarrow> (c_error + io_buf \<times> 's) option" where
  \<comment> \<open>\<open>((handler_t)lut[reg])(buf)\<close>\<close>
  "table_access run tab reg buf s =
     (if 128 \<le> reg then Some (Inl Out_of_bounds)
      else case tab reg of None \<Rightarrow> Some (Inl Null_deref) | Some h \<Rightarrow> run h buf s)"

definition io_read ::
  "(nat \<Rightarrow> io_buf \<Rightarrow> 's \<Rightarrow> (c_error + io_buf \<times> 's) option) \<Rightarrow> nat \<Rightarrow> io_buf \<Rightarrow> 's \<Rightarrow> (c_error + io_buf \<times> 's) option" where
  \<comment> \<open>with the platform's \<open>ioe_read\<close> and the contents of the uninitialised local structure of the register's type\<close>
  "io_read ioe reg param s = ioe reg param s"

definition io_write ::
  "(nat \<Rightarrow> io_buf \<Rightarrow> 's \<Rightarrow> (c_error + io_buf \<times> 's) option) \<Rightarrow> nat \<Rightarrow> io_buf \<Rightarrow> 's \<Rightarrow> (c_error + 's) option" where
  \<comment> \<open>with the structure that is written\<close>
  "io_write ioe reg param s = map_option (map_sum id snd) (ioe reg param s)"

definition typed_access :: "c_error set \<Rightarrow> nat \<Rightarrow> (c_error + io_buf \<times> 's) option \<Rightarrow> bool" where
  \<comment> \<open>a structure of the register, a panic or one of the listed failures\<close>
  "typed_access errs reg r \<longleftrightarrow> (case r of
     None \<Rightarrow> True
   | Some (Inr (buf, s)) \<Rightarrow> reg_buf reg buf
   | Some (Inl e) \<Rightarrow> e \<in> errs \<or> (\<exists>t. e = Panic t))"

lemma typed_access_simps [simp]:
  "typed_access errs reg None"
  "typed_access errs reg (Some (Inr (buf, s))) \<longleftrightarrow> reg_buf reg buf"
  "typed_access errs reg (Some (Inl e)) \<longleftrightarrow> e \<in> errs \<or> (\<exists>t. e = Panic t)"
  by (simp_all add: typed_access_def)

definition answers :: "c_error set \<Rightarrow> nat \<Rightarrow> 'h option \<Rightarrow> (c_error + io_buf \<times> 's) option \<Rightarrow> bool" where
  \<comment> \<open>the access is typed, and panics if the platform has no handler for the register\<close>
  "answers errs reg h r \<longleftrightarrow>
     typed_access errs reg r \<and> (h = None \<longrightarrow> r = Some (Inl (Panic ''access nonexist register'')))"

lemma reg_buf_range: "reg_buf reg buf \<Longrightarrow> reg < 128"
  using io_reg_cases [of buf] by (simp add: AM_NET_RX_def)

locale device_table =
  fixes lut :: "nat \<Rightarrow> 'h option" and fail :: 'h and run :: "'h \<Rightarrow> io_buf \<Rightarrow> 's \<Rightarrow> (c_error + io_buf \<times> 's) option"
    and errs :: "c_error set"
    and out :: "nat \<Rightarrow> nat" \<comment> \<open>the register whose structure the handler of a register is declared with\<close>
  assumes typed: "lut reg = Some h \<Longrightarrow> reg_buf reg buf \<Longrightarrow> typed_access errs (out reg) (run h buf s)"
    and fails: "run fail buf s = Some (Inl (Panic ''access nonexist register''))"
begin

lemma table_total: "i < 128 \<Longrightarrow> fill_table lut fail i \<noteq> None"
  by (simp add: fill_table_def)

lemma access_typed: "reg_buf reg buf \<Longrightarrow> typed_access errs (out reg) (table_access run (fill_table lut fail) reg buf s)"
  using reg_buf_range [of reg buf] typed [of reg _ buf s]
  by (cases "lut reg") (simp_all add: table_access_def fill_table_def fails)

lemma access_missing:
  "reg < 128 \<Longrightarrow> lut reg = None \<Longrightarrow>
    table_access run (fill_table lut fail) reg buf s = Some (Inl (Panic ''access nonexist register''))"
  by (simp add: table_access_def fill_table_def fails)

lemma access_answers:
  "reg_buf reg buf \<Longrightarrow> answers errs (out reg) (lut reg) (table_access run (fill_table lut fail) reg buf s)"
  using access_typed access_missing reg_buf_range by (simp add: answers_def)

lemma io_read_typed: "reg_buf reg buf \<Longrightarrow> typed_access errs (out reg) (io_read (table_access run (fill_table lut fail)) reg buf s)"
  by (simp add: io_read_def access_typed)

lemma io_write_fails:
  "reg_buf reg buf \<Longrightarrow> io_write (table_access run (fill_table lut fail)) reg buf s = Some (Inl e) \<Longrightarrow>
    e \<in> errs \<or> (\<exists>t. e = Panic t)"
  using access_typed [of reg buf s]
  by (cases "table_access run (fill_table lut fail) reg buf s" rule: option.exhaust)
    (auto simp: io_write_def typed_access_def map_sum_def split: sum.splits prod.splits)

lemma dispatch_safe:
  "(\<forall>i < 128. fill_table lut fail i \<noteq> None) \<and>
   (\<forall>reg buf s. reg_buf reg buf \<longrightarrow> typed_access errs (out reg) (table_access run (fill_table lut fail) reg buf s))"
  using access_typed by (simp add: table_total)

end

end
