(* ===== verification/X86_IOE.thy ===== *)
theory X86_IOE
  imports X86_Start AM_IOE
begin

text \<open>
  The devices of the \<open>x86-qemu\<close> platform: the first part of \<open>abstract-machine/am/src/x86/qemu/ioe.c\<close>. Memory (frame buffer, video memory, render buffer and
  the caller's buffers) is byte memory; coordinates and sizes are \<open>int\<close>s, and a
  computation with them that leaves the range of a C \<open>int\<close> fails.
\<close>

record 'w ioe =
  iox :: "'w x86"
  io_mem :: mem
  boot_date :: rtc
  freq_mhz :: u32
  uptsc :: u64
  fb :: addr
  disp_w :: int
  disp_h :: int
  vmem :: addr              \<comment> \<open>the address of the array \<open>vmem\<close>\<close>
  vbuf :: addr
  vbuf_head :: addr

definition iow :: "'w ioe \<Rightarrow> 'w" where "iow s = world (iox s)"
definition set_iow :: "'w \<Rightarrow> 'w ioe \<Rightarrow> 'w ioe" where "set_iow w s = s\<lparr>iox := (iox s)\<lparr>world := w\<rparr>\<rparr>"

section \<open>UART\<close>

definition COM1 :: u16 where "COM1 = 0x3f8"

definition uart_init :: "'w hw \<Rightarrow> 'w \<Rightarrow> 'w" where
  "uart_init H w =
     (let w = h_outb H (COM1 + 2) 0 w;
          w = h_outb H (COM1 + 3) 0x80 w;
          w = h_outb H (COM1 + 0) (115200 div 9600) w;
          w = h_outb H (COM1 + 1) 0 w;
          w = h_outb H (COM1 + 3) 0x03 w;
          w = h_outb H (COM1 + 4) 0 w;
          w = h_outb H (COM1 + 1) 0x01 w;
          w = snd (h_inb H (COM1 + 2) w)
      in snd (h_inb H (COM1 + 0) w))"

definition uart_tx :: "'w hw \<Rightarrow> u8 \<Rightarrow> 'w \<Rightarrow> 'w" where
  "uart_tx H data w = h_outb H COM1 data w"

definition uart_rx :: "'w hw \<Rightarrow> 'w \<Rightarrow> u8 \<times> 'w" where
  "uart_rx H w =
     (case h_inb H (COM1 + 5) w of (st, w) \<Rightarrow>
        if st AND 0x1 \<noteq> 0 then h_inb H COM1 w else (- 1, w))"

section \<open>Timer\<close>

definition read_rtc :: "'w hw \<Rightarrow> u8 \<Rightarrow> 'w \<Rightarrow> int \<times> 'w" where
  "read_rtc H reg w =
     (case h_inb H 0x71 (h_outb H 0x70 reg w) of (ret, w) \<Rightarrow>
        (uint (ret AND 0xf) + uint (drop_bit 4 ret) * 10, w))"

definition read_rtc_async :: "'w hw \<Rightarrow> 'w \<Rightarrow> rtc \<times> 'w" where
  \<comment> \<open>the initialisers run in the order in which they are written, as with GCC\<close>
  "read_rtc_async H w =
     (case read_rtc H 0 w of (sec, w) \<Rightarrow>
      case read_rtc H 2 w of (mi, w) \<Rightarrow>
      case read_rtc H 4 w of (ho, w) \<Rightarrow>
      case read_rtc H 7 w of (da, w) \<Rightarrow>
      case read_rtc H 8 w of (mo, w) \<Rightarrow>
      case read_rtc H 9 w of (ye, w) \<Rightarrow>
        (\<lparr>year = ye + 2000, month = mo, day = da, hour = ho, minute = mi, second = sec\<rparr>, w))"

partial_function (option) wait_sec :: "'w hw \<Rightarrow> 'w \<Rightarrow> (rtc \<times> 'w) option" where
  \<comment> \<open>the delay loop between the two reads has no effect\<close>
  "wait_sec H w =
     (case read_rtc_async H w of (t0, w) \<Rightarrow>
      case read_rtc_async H w of (t1, w) \<Rightarrow>
        if second t0 \<noteq> second t1 then Some (t1, w) else wait_sec H w)"

partial_function (option) estimate_freq :: "'w hw \<Rightarrow> 'w \<Rightarrow> (u32 \<times> 'w) option" where
  "estimate_freq H w =
     Option.bind (wait_sec H w) (\<lambda>(rtc1, w).
     case h_rdtsc H w of (tsc1, w) \<Rightarrow>
     Option.bind (wait_sec H w) (\<lambda>(rtc2, w).
     case h_rdtsc H w of (tsc2, w) \<Rightarrow>
       let t1 = word_of_int (minute rtc1 * 60 + second rtc1) :: u64;
           t2 = word_of_int (minute rtc2 * 60 + second rtc2) :: u64
       in if t2 \<le> t1 then estimate_freq H w
          else Some (ucast (drop_bit 20 (tsc2 - tsc1) div (t2 - t1)), w)))"

partial_function (option) timer_rtc :: "'w hw \<Rightarrow> 'w \<Rightarrow> (rtc \<times> 'w) option" where
  "timer_rtc H w =
     (case read_rtc_async H w of (r, w) \<Rightarrow>
      case read_rtc H 0 w of (tmp, w) \<Rightarrow>
        if tmp \<noteq> second r then timer_rtc H w else Some (r, w))"

definition timer_init :: "'w hw \<Rightarrow> 'w ioe \<Rightarrow> 'w ioe option" where
  "timer_init H s =
     Option.bind (estimate_freq H (iow s)) (\<lambda>(f, w).
     Option.bind (timer_rtc H w) (\<lambda>(d, w).
     case h_rdtsc H w of (t, w) \<Rightarrow>
       Some (set_iow w (s\<lparr>freq_mhz := f, boot_date := d, uptsc := t\<rparr>))))"

definition timer_uptime :: "'w hw \<Rightarrow> 'w ioe \<Rightarrow> c_error + u64 \<times> 'w ioe" where
  "timer_uptime H s =
     (case h_rdtsc H (iow s) of (t, w) \<Rightarrow>
        if freq_mhz s = 0 then Inl Div_by_zero
        else Inr ((t - uptsc s) div ucast (freq_mhz s), set_iow w s))"

section \<open>Input\<close>

definition keylut_entries :: "(nat \<times> string) list" where
  \<comment> \<open>a later initialiser of an index replaces an earlier one\<close>
  "keylut_entries =
     [(0x01, ''ESCAPE''), (0x02, ''1''), (0x03, ''2''), (0x04, ''3''), (0x05, ''4''), (0x06, ''5''), (0x07, ''6''),
      (0x08, ''7''), (0x09, ''8''), (0x0a, ''9''), (0x0b, ''0''), (0x0c, ''MINUS''), (0x0d, ''EQUALS''),
      (0x0e, ''BACKSPACE''), (0x0f, ''TAB''), (0x10, ''Q''), (0x11, ''W''), (0x12, ''E''), (0x13, ''R''),
      (0x14, ''T''), (0x15, ''Y''), (0x16, ''U''), (0x17, ''I''), (0x18, ''O''), (0x19, ''P''), (0x1a, ''LEFTBRACKET''),
      (0x1b, ''RIGHTBRACKET''), (0x1c, ''RETURN''), (0x1d, ''LCTRL''), (0x1e, ''A''), (0x1f, ''S''),
      (0x20, ''D''), (0x21, ''F''), (0x22, ''G''), (0x23, ''H''), (0x24, ''J''), (0x25, ''K''), (0x26, ''L''),
      (0x27, ''SEMICOLON''), (0x28, ''APOSTROPHE''), (0x29, ''GRAVE''), (0x2a, ''LSHIFT''),
      (0x2b, ''BACKSLASH''), (0x2c, ''Z''), (0x2d, ''X''), (0x2e, ''C''), (0x2f, ''V''), (0x30, ''B''), (0x31, ''N''),
      (0x32, ''M''), (0x33, ''COMMA''), (0x34, ''PERIOD''), (0x35, ''SLASH''), (0x36, ''RSHIFT''), (0x38, ''LALT''),
      (0x38, ''RALT''), (0x39, ''SPACE''), (0x3a, ''CAPSLOCK''), (0x3b, ''F1''), (0x3c, ''F2''), (0x3d, ''F3''),
      (0x3e, ''F4''), (0x3f, ''F5''), (0x40, ''F6''), (0x41, ''F7''), (0x42, ''F8''), (0x43, ''F9''),
      (0x44, ''F10''), (0x48, ''INSERT''), (0x4b, ''HOME''), (0x4d, ''END''), (0x50, ''DELETE''),
      (0x57, ''F11''), (0x58, ''F12''), (0x5b, ''APPLICATION'')]"

definition keylut :: "nat \<Rightarrow> nat" where
  "keylut c = (case map_of (rev keylut_entries) c of None \<Rightarrow> 0 | Some k \<Rightarrow> AM_KEY k)"

definition input_keybrd :: "'w hw \<Rightarrow> 'w \<Rightarrow> (bool \<times> nat) \<times> 'w" where
  "input_keybrd H w =
     (case h_inb H 0x64 w of (st, w) \<Rightarrow>
        if st AND 0x1 \<noteq> 0 then
          (case h_inb H 0x60 w of (code, w) \<Rightarrow>
             ((code < 128, keylut (unat (code AND 0x7f))), w))
        else ((False, AM_KEY_NONE), w))"

section \<open>GPU\<close>

definition VMEM_SIZE :: int where "VMEM_SIZE = 512 * 1024"

definition pixel_R :: "u32 \<Rightarrow> u8" where "pixel_R p = ucast (drop_bit 16 p)"
definition pixel_G :: "u32 \<Rightarrow> u8" where "pixel_G p = ucast (drop_bit 8 p)"
definition pixel_B :: "u32 \<Rightarrow> u8" where "pixel_B p = ucast p"

definition pixel_bytes :: "u32 \<Rightarrow> u8 list" where
  \<comment> \<open>the packed \<open>struct pixel\<close>: blue, green, red\<close>
  "pixel_bytes p = [pixel_B p, pixel_G p, pixel_R p]"

definition pixel_addr :: "addr \<Rightarrow> int \<Rightarrow> addr" where
  \<comment> \<open>\<open>&px[i]\<close>\<close>
  "pixel_addr px i = px + 3 * word_of_int i"

definition to_host :: "'w ioe \<Rightarrow> u32 \<Rightarrow> addr" where
  "to_host s ptr = (if ptr = 0xffffffff then 0 else vmem s + ucast ptr)"

definition gpu_init :: "'w ioe \<Rightarrow> 'w ioe" where
  \<comment> \<open>from the \<open>vbe_info\<close> at \<open>0x4000\<close>\<close>
  "gpu_init s =
     s\<lparr>disp_w := uint (load 2 (io_mem s) (0x4000 + 18) :: u16),
       disp_h := uint (load 2 (io_mem s) (0x4000 + 20) :: u16),
       fb := ucast (load 4 (io_mem s) (0x4000 + 40) :: u32)\<rparr>"

definition draw_row :: "addr \<Rightarrow> addr \<Rightarrow> int \<Rightarrow> mem \<Rightarrow> mem" where
  \<comment> \<open>\<open>len\<close> pixels from 32-bit source pixels\<close>
  "draw_row px pixels len m =
     fold (\<lambda>i m. write_bytes m (pixel_addr px (int i)) (pixel_bytes (load 4 m (pixels + 4 * of_nat i)))) [0..<nat len] m"

definition draw_line :: "int \<Rightarrow> int \<Rightarrow> int \<Rightarrow> int \<Rightarrow> int \<Rightarrow> addr \<Rightarrow> addr \<Rightarrow> int \<Rightarrow> nat \<Rightarrow> mem \<Rightarrow> c_error + mem" where
  \<comment> \<open>round \<open>j\<close> of the loop over the rows; \<open>pixels\<close> has advanced by \<open>j * w\<close>\<close>
  "draw_line x y w W H base pixels len j m =
     rbind (s32 (y + int j)) (\<lambda>row.
       if row < H then
         rbind (s32 (int j + y)) (\<lambda>row. rbind (s32 (row * W)) (\<lambda>start. rbind (s32 (x + start)) (\<lambda>i.
           Inr (draw_row (pixel_addr base i) (pixels + 4 * (of_nat j * word_of_int w)) len m))))
       else Inr m)"

definition gpu_fbdraw :: "fbdraw \<Rightarrow> 'w ioe \<Rightarrow> c_error + 'w ioe" where
  "gpu_fbdraw draw s =
     (let x = fd_x draw; y = fd_y draw; w = fd_w draw; h = fd_h draw; W = disp_w s; H = disp_h s in
      rbind (s32 (x + w)) (\<lambda>right.
      rbind (if W \<le> right then s32 (W - x) else Inr w) (\<lambda>len.
      rbind (rfold (draw_line x y w W H (fb s) (fd_pixels draw) len) [0..<nat h] (io_mem s)) (\<lambda>m.
        Inr (s\<lparr>io_mem := m\<rparr>)))))"

definition gpu_memcpy :: "u32 \<Rightarrow> addr \<Rightarrow> int \<Rightarrow> 'w ioe \<Rightarrow> 'w ioe" where
  "gpu_memcpy dest src sz s =
     (let dst = to_host s dest in
      s\<lparr>io_mem := fold (\<lambda>i m. m(dst + of_nat i := m (src + of_nat i))) [0..<nat sz] (io_mem s)\<rparr>)"

definition vbuf_alloc :: "int \<Rightarrow> 'w ioe \<Rightarrow> c_error + addr \<times> 'w ioe" where
  "vbuf_alloc sz s =
     (let ret = vbuf_head s; s = s\<lparr>vbuf_head := ret + word_of_int sz\<rparr> in
      rbind (panic_on (vbuf_head s > vbuf s + word_of_int VMEM_SIZE) ''no memory'') (\<lambda>_.
        Inr (ret, s\<lparr>io_mem := fold (\<lambda>i m. m(ret + of_nat i := 0)) [0..<nat sz] (io_mem s)\<rparr>)))"

definition cv_field :: "'w ioe \<Rightarrow> addr \<Rightarrow> u64 \<Rightarrow> int" where
  \<comment> \<open>a 16-bit field of a packed \<open>gpu_canvas\<close>\<close>
  "cv_field s cv off = uint (load 2 (io_mem s) (cv + off) :: u16)"

definition cv_ptr :: "'w ioe \<Rightarrow> addr \<Rightarrow> u64 \<Rightarrow> addr" where
  "cv_ptr s cv off = to_host s (load 4 (io_mem s) (cv + off))"

definition draw_pixel :: "addr \<Rightarrow> addr \<Rightarrow> int \<Rightarrow> int \<Rightarrow> int \<Rightarrow> int \<Rightarrow> int \<Rightarrow> int \<Rightarrow> int \<Rightarrow> nat \<Rightarrow> nat \<Rightarrow> mem \<Rightarrow> c_error + mem" where
  \<comment> \<open>\<open>px[W * y + x] = px_local[w * (j * h / h1) + (i * w / w1)]\<close>\<close>
  "draw_pixel px px_local W w h x1 y1 w1 h1 i j m =
     rbind (s32 (W * (y1 + int j))) (\<lambda>a. rbind (s32 (a + (x1 + int i))) (\<lambda>dst.
     rbind (s32 (int j * h)) (\<lambda>b. rbind (s32 (w * c_div b h1)) (\<lambda>b.
     rbind (s32 (int i * w)) (\<lambda>c. rbind (s32 (b + c_div c w1)) (\<lambda>src.
       Inr (write_bytes m (pixel_addr px dst) (read_bytes m (pixel_addr px_local src) 3))))))))"

definition draw_canvas :: "addr \<Rightarrow> int \<Rightarrow> addr \<Rightarrow> addr \<Rightarrow> int \<Rightarrow> int \<Rightarrow> 'w ioe \<Rightarrow> c_error + 'w ioe" where
  \<comment> \<open>the two loops that scale the local canvas \<open>px_local\<close> of \<open>w * h\<close> pixels into \<open>px\<close>\<close>
  "draw_canvas cv W px px_local w h s =
     (let x1 = cv_field s cv 6; y1 = cv_field s cv 8; w1 = cv_field s cv 10; h1 = cv_field s cv 12 in
      rbind (rfold (\<lambda>i. rfold (draw_pixel px px_local W w h x1 y1 w1 h1 i) [0..<nat h1]) [0..<nat w1] (io_mem s)) (\<lambda>m.
        Inr (s\<lparr>io_mem := m\<rparr>)))"

definition sub_canvas :: "addr \<Rightarrow> 'w ioe \<Rightarrow> c_error + addr \<times> 'w ioe" where
  \<comment> \<open>room for the pixels of a subtree: \<open>w * h\<close> is an \<open>int\<close>, its product with \<open>sizeof\<close> is converted to one\<close>
  "sub_canvas cv s =
     rbind (s32 (cv_field s cv 2 * cv_field s cv 4)) (\<lambda>n. vbuf_alloc (sint (word_of_int (n * 3) :: u32)) s)"

partial_function (option) render ::
  "bool \<Rightarrow> addr \<Rightarrow> int \<Rightarrow> addr \<Rightarrow> 'w ioe \<Rightarrow> (c_error + 'w ioe) option" where
  \<comment> \<open>one canvas, or (first argument true) a canvas and its siblings; \<open>W\<close> is the width of the parent\<close>
  "render siblings cv W px s =
     (if siblings then
        if cv = 0 then Some (Inr s)
        else Option.bind (render False cv W px s) (\<lambda>r. case r of
            Inl e \<Rightarrow> Some (Inl e)
          | Inr s \<Rightarrow> render True (cv_ptr s cv 14) W px s)
      else if cv_field s cv 0 = 1 then
        Some (draw_canvas cv W px (cv_ptr s cv 22) (cv_field s cv 18) (cv_field s cv 20) s)
      else if cv_field s cv 0 = 2 then
        (let w = cv_field s cv 2; h = cv_field s cv 4 in
         case sub_canvas cv s of
           Inl e \<Rightarrow> Some (Inl e)
         | Inr (px_local, s) \<Rightarrow>
             Option.bind (render True (cv_ptr s cv 18) w px_local s) (\<lambda>r. case r of
                 Inl e \<Rightarrow> Some (Inl e)
               | Inr s \<Rightarrow> Some (draw_canvas cv W px px_local w h s)))
      else Some (Inl (Panic ''invalid node'')))"

definition gpu_render :: "u32 \<Rightarrow> 'w ioe \<Rightarrow> (c_error + 'w ioe) option" where
  "gpu_render root s =
     (let s = s\<lparr>vbuf_head := vbuf s\<rparr> in render False (to_host s root) (disp_w s) (fb s) s)"

section \<open>Disk\<close>

definition BLKSZ :: int where "BLKSZ = 512"
definition DISKSZ :: int where "DISKSZ = 64 * 2 ^ 20"

fun write_words :: "'w hw \<Rightarrow> nat \<Rightarrow> addr \<Rightarrow> mem \<Rightarrow> 'w \<Rightarrow> 'w" where
  \<comment> \<open>\<open>n\<close> words to the data port\<close>
  "write_words H 0 ptr m w = w"
| "write_words H (Suc n) ptr m w = write_words H n (ptr + 4) m (h_outl H 0x1f0 (load 4 m ptr) w)"

definition blk_sector :: "'w hw \<Rightarrow> bool \<Rightarrow> u32 \<Rightarrow> addr \<Rightarrow> mem \<Rightarrow> 'w \<Rightarrow> (mem \<times> 'w) option" where
  \<comment> \<open>one round of the loop of \<open>disk_blkio\<close>\<close>
  "blk_sector H wr blkno ptr m w =
     Option.bind (wait_disk H w) (\<lambda>w.
     Option.bind (wait_disk H (disk_command H blkno (if wr then 0x30 else 0x20) w)) (\<lambda>w.
       Some (if wr then (m, write_words H 128 ptr m w) else read_words H 128 ptr m w)))"

fun blkio_loop :: "'w hw \<Rightarrow> bool \<Rightarrow> nat \<Rightarrow> u32 \<Rightarrow> addr \<Rightarrow> mem \<Rightarrow> 'w \<Rightarrow> (mem \<times> 'w) option" where
  "blkio_loop H wr 0 blkno ptr m w = Some (m, w)"
| "blkio_loop H wr (Suc remain) blkno ptr m w =
     Option.bind (blk_sector H wr blkno ptr m w) (\<lambda>(m, w).
       blkio_loop H wr remain (blkno + 1) (ptr + 512) m w)"

definition disk_blkio :: "'w hw \<Rightarrow> blkio \<Rightarrow> 'w ioe \<Rightarrow> 'w ioe option" where
  "disk_blkio H bio s =
     Option.bind (blkio_loop H (bio_write bio) (unat (bio_blkcnt bio)) (bio_blkno bio) (bio_buf bio) (io_mem s) (iow s))
       (\<lambda>(m, w). Some (set_iow w (s\<lparr>io_mem := m\<rparr>)))"

section \<open>Dispatch\<close>

datatype handler = H_uart_config | H_uart_tx | H_uart_rx | H_timer_config | H_timer_rtc | H_timer_uptime
  | H_input_config | H_input_keybrd | H_gpu_config | H_gpu_fbdraw | H_gpu_status | H_gpu_memcpy
  | H_gpu_render | H_audio_config | H_disk_config | H_disk_status | H_disk_blkio | H_net_config | H_fail

definition lut :: "nat \<Rightarrow> handler option" where
  \<comment> \<open>the initial table of 128 entries; \<open>None\<close> is NULL\<close>
  "lut = [AM_UART_CONFIG \<mapsto> H_uart_config, AM_UART_TX \<mapsto> H_uart_tx, AM_UART_RX \<mapsto> H_uart_rx,
     AM_TIMER_CONFIG \<mapsto> H_timer_config, AM_TIMER_RTC \<mapsto> H_timer_rtc, AM_TIMER_UPTIME \<mapsto> H_timer_uptime,
     AM_INPUT_CONFIG \<mapsto> H_input_config, AM_INPUT_KEYBRD \<mapsto> H_input_keybrd, AM_GPU_CONFIG \<mapsto> H_gpu_config,
     AM_GPU_FBDRAW \<mapsto> H_gpu_fbdraw, AM_GPU_STATUS \<mapsto> H_gpu_status, AM_GPU_MEMCPY \<mapsto> H_gpu_memcpy,
     AM_GPU_RENDER \<mapsto> H_gpu_render, AM_AUDIO_CONFIG \<mapsto> H_audio_config, AM_DISK_CONFIG \<mapsto> H_disk_config,
     AM_DISK_STATUS \<mapsto> H_disk_status, AM_DISK_BLKIO \<mapsto> H_disk_blkio, AM_NET_CONFIG \<mapsto> H_net_config]"

definition ioe_init ::
  "'w hw \<Rightarrow> u32 \<Rightarrow> (nat \<Rightarrow> handler option) \<Rightarrow> 'w ioe \<Rightarrow> (c_error + (nat \<Rightarrow> handler option) \<times> 'w ioe) option" where
  \<comment> \<open>with the number of the processor and the table; the table with \<open>fail\<close> in its empty entries\<close>
  "ioe_init H cpu tab s =
     (case panic_on (cpu \<noteq> 0) ''init IOE in non-bootstrap CPU'' of
        Inl e \<Rightarrow> Some (Inl e)
      | Inr _ \<Rightarrow>
          let tab' = fill_table tab H_fail;
              s = set_iow (uart_init H (iow s)) s
          in Option.bind (timer_init H s) (\<lambda>s. Some (Inr (tab', gpu_init s))))"

definition run_handler :: "'w hw \<Rightarrow> handler \<Rightarrow> io_buf \<Rightarrow> 'w ioe \<Rightarrow> (c_error + io_buf \<times> 'w ioe) option" where
  \<comment> \<open>the buffer before and after; a handler that reads its buffer, or leaves a part of it, needs one of its own register\<close>
  "run_handler H h buf s = (case h of
       H_uart_config \<Rightarrow> Some (Inr (Uart_config True, s))
     | H_uart_tx \<Rightarrow> (case buf of Uart_tx c \<Rightarrow> Some (Inr (buf, set_iow (uart_tx H c (iow s)) s)) | _ \<Rightarrow> Some (Inl Bad_va_arg))
     | H_uart_rx \<Rightarrow> (case uart_rx H (iow s) of (c, w) \<Rightarrow> Some (Inr (Uart_rx c, set_iow w s)))
     | H_timer_config \<Rightarrow> Some (Inr (Timer_config True True, s))
     | H_timer_rtc \<Rightarrow> Option.bind (timer_rtc H (iow s)) (\<lambda>(r, w). Some (Inr (Timer_rtc r, set_iow w s)))
     | H_timer_uptime \<Rightarrow> Some (rbind (timer_uptime H s) (\<lambda>(us, s). Inr (Timer_uptime us, s)))
     | H_input_config \<Rightarrow> Some (Inr (Input_config True, s))
     | H_input_keybrd \<Rightarrow> (case input_keybrd H (iow s) of ((d, k), w) \<Rightarrow> Some (Inr (Input_keybrd d k, set_iow w s)))
     | H_gpu_config \<Rightarrow> Some (Inr (Gpu_config True False (disp_w s) (disp_h s) VMEM_SIZE, s))
     | H_gpu_fbdraw \<Rightarrow> (case buf of Gpu_fbdraw d \<Rightarrow> Some (rbind (gpu_fbdraw d s) (\<lambda>s. Inr (buf, s))) | _ \<Rightarrow> Some (Inl Bad_va_arg))
     | H_gpu_status \<Rightarrow> Some (Inr (Gpu_status True, s))
     | H_gpu_memcpy \<Rightarrow> (case buf of Gpu_memcpy d a n \<Rightarrow> Some (Inr (buf, gpu_memcpy d a n s)) | _ \<Rightarrow> Some (Inl Bad_va_arg))
     | H_gpu_render \<Rightarrow> (case buf of
           Gpu_render root \<Rightarrow> Option.bind (gpu_render root s) (\<lambda>r. Some (rbind r (\<lambda>s. Inr (buf, s))))
         | _ \<Rightarrow> Some (Inl Bad_va_arg))
     | H_audio_config \<Rightarrow> (case buf of Audio_config _ n \<Rightarrow> Some (Inr (Audio_config False n, s)) | _ \<Rightarrow> Some (Inl Bad_va_arg))
     | H_disk_config \<Rightarrow> Some (Inr (Disk_config True BLKSZ (DISKSZ div BLKSZ), s))
     | H_disk_status \<Rightarrow> Some (Inr (Disk_status True, s))
     | H_disk_blkio \<Rightarrow> (case buf of
           Disk_blkio b \<Rightarrow> Option.bind (disk_blkio H b s) (\<lambda>s. Some (Inr (buf, s)))
         | _ \<Rightarrow> Some (Inl Bad_va_arg))
     | H_net_config \<Rightarrow> Some (Inr (Net_config False, s))
     | H_fail \<Rightarrow> Some (Inl (Panic ''access nonexist register'')))"

definition ioe_access :: "'w hw \<Rightarrow> (nat \<Rightarrow> handler option) \<Rightarrow> nat \<Rightarrow> io_buf \<Rightarrow> 'w ioe \<Rightarrow> (c_error + io_buf \<times> 'w ioe) option" where
  \<comment> \<open>\<open>ioe_read\<close> and \<open>ioe_write\<close>, which are the same; the table has 128 entries\<close>
  "ioe_access H = table_access (run_handler H)"


section \<open>Drawing\<close>

definition apart :: "addr \<Rightarrow> nat \<Rightarrow> addr \<Rightarrow> nat \<Rightarrow> bool" where
  \<comment> \<open>the \<open>n\<close> bytes at \<open>p\<close> are outside the \<open>k\<close> bytes at \<open>base\<close>\<close>
  "apart p n base k \<longleftrightarrow> (\<forall>i < n. k \<le> unat (p + of_nat i - base))"

lemma draw_row_result:
  assumes "3 * (q0 + len) \<le> k" and "k \<le> 2 ^ 64" and "apart src (4 * len) base k"
  shows "draw_row (pixel_addr base (int q0)) src (int len) m a =
    (let n = unat (a - base); q = n div 3 in
     if q0 \<le> q \<and> q < q0 + len then pixel_bytes (load 4 m (src + 4 * of_nat (q - q0))) ! (n mod 3) else m a)"
  using assms
proof (induction len arbitrary: a)
  case 0
  then show ?case by (auto simp: draw_row_def Let_def)
next
  case (Suc len)
  let ?r = "draw_row (pixel_addr base (int q0)) src (int len) m"
  let ?v = "pixel_bytes (load 4 m (src + 4 * of_nat len))"
  have ap: "apart src (4 * len) base k" using Suc.prems(3) by (auto simp: apart_def)
  note IH = Suc.IH [OF _ Suc.prems(2) ap]
  have "?r b = m b" if "k \<le> unat (b - base)" for b
  proof -
    have "q0 + len \<le> unat (b - base) div 3"
      using that Suc.prems(1) by (simp add: less_eq_div_iff_mult_less_eq)
    then show ?thesis using IH [of b] Suc.prems(1) by (simp add: Let_def)
  qed
  moreover have "k \<le> unat (src + 4 * of_nat len + of_nat i - base)" if "i < 4" for i
    using Suc.prems(3) that unfolding apart_def by (elim allE [of _ "4 * len + i"]) (simp add: ac_simps)
  ultimately have ld: "load 4 ?r (src + 4 * of_nat len) = (load 4 m (src + 4 * of_nat len) :: u32)"
    by (intro load_cong) blast
  have pa: "pixel_addr (pixel_addr base (int q0)) (int len) = base + of_nat (3 * (q0 + len))"
    by (simp add: pixel_addr_def algebra_simps)
  have "draw_row (pixel_addr base (int q0)) src (int (Suc len)) m = write_bytes ?r (base + of_nat (3 * (q0 + len))) ?v"
  proof -
    have "draw_row (pixel_addr base (int q0)) src (int (Suc len)) m =
        write_bytes ?r (pixel_addr (pixel_addr base (int q0)) (int len)) (pixel_bytes (load 4 ?r (src + 4 * of_nat len)))"
      unfolding draw_row_def nat_int by simp
    then show ?thesis unfolding ld pa .
  qed
  moreover have "length ?v = 3" by (simp add: pixel_bytes_def)
  ultimately have "draw_row (pixel_addr base (int q0)) src (int (Suc len)) m a =
      (if 3 * (q0 + len) \<le> unat (a - base) \<and> unat (a - base) < 3 * (q0 + len) + 3
       then ?v ! (unat (a - base) - 3 * (q0 + len)) else ?r a)"
    using write_bytes_offset [of "3 * (q0 + len)" ?v ?r base a] Suc.prems(1,2) by simp
  moreover have "3 * (q0 + len) \<le> n \<and> n < 3 * (q0 + len) + 3 \<longleftrightarrow> n div 3 = q0 + len"
    "n div 3 = q0 + len \<Longrightarrow> n - 3 * (q0 + len) = n mod 3" for n :: nat by presburger+
  ultimately show ?case using IH [of a] Suc.prems(1) by (auto simp: Let_def)
qed

definition drawn :: "mem \<Rightarrow> addr \<Rightarrow> nat \<Rightarrow> nat \<Rightarrow> nat \<Rightarrow> nat \<Rightarrow> nat \<Rightarrow> nat \<Rightarrow> addr \<Rightarrow> mem" where
  \<comment> \<open>what memory holds after a rectangle of \<open>w * h\<close> source pixels is shown at \<open>(x, y)\<close> of a frame
    buffer of \<open>W * H\<close> pixels: the byte at offset \<open>n\<close> belongs to pixel \<open>n div 3\<close>\<close>
  "drawn m base W H x y w h src =
     (\<lambda>a. let n = unat (a - base); X = n div 3 mod W; Y = n div 3 div W in
        if n < 3 * (W * H) \<and> x \<le> X \<and> X < x + w \<and> y \<le> Y \<and> Y < y + h
        then pixel_bytes (load 4 m (src + 4 * of_nat ((Y - y) * w + (X - x)))) ! (n mod 3)
        else m a)"

lemma row_range:
  assumes "x + len \<le> (W :: nat)" and "0 < W"
  shows "x + Y * W \<le> q \<and> q < x + Y * W + len \<longleftrightarrow> q div W = Y \<and> x \<le> q mod W \<and> q mod W < x + len"
proof
  assume q: "x + Y * W \<le> q \<and> q < x + Y * W + len"
  then obtain r where r: "q = Y * W + r" "r < W" "x \<le> r" "r < x + len"
    using assms(1) by (intro that [of "q - Y * W"]) auto
  then have "q div W = Y" "q mod W = r" by simp_all
  then show "q div W = Y \<and> x \<le> q mod W \<and> q mod W < x + len" using r by simp
next
  assume "q div W = Y \<and> x \<le> q mod W \<and> q mod W < x + len"
  moreover have "q = q div W * W + q mod W" by simp
  ultimately show "x + Y * W \<le> q \<and> q < x + Y * W + len" by (metis add.commute add_less_cancel_left add_le_cancel_left add.assoc)
qed

lemma drawn_next_row:
  fixes x y w h W H :: nat
  assumes "x < W" and "len = (if W \<le> x + w then W - x else w)" and k: "k = 3 * (W * H)" "k \<le> 2 ^ 64"
    and ap: "apart src (4 * (w * h)) base k"
    and jh: "Suc j \<le> h" and row: "y + j < H"
  shows "draw_row (pixel_addr base (int (x + (j + y) * W))) (src + 4 * (of_nat j * of_nat w)) (int len) (drawn m base W H x y w j src) =
    drawn m base W H x y w (Suc j) src"
proof -
  let ?d = "drawn m base W H x y w j src" and ?s = "src + 4 * (of_nat j * of_nat w) :: addr"
  have len: "x + len \<le> W" "len \<le> w" "0 < W" "\<And>X. X < W \<Longrightarrow> X < x + len \<longleftrightarrow> X < x + w"
    using assms(1,2) by auto
  define q0 where "q0 = x + (j + y) * W"
  have q0: "q0 + len \<le> W * H"
  proof -
    have "q0 + len \<le> W + (j + y) * W" using len(1) by (simp add: q0_def)
    also have "\<dots> = Suc (j + y) * W" by simp
    also have "\<dots> \<le> H * W" using row by (intro mult_le_mono1) simp
    finally show ?thesis by (simp add: mult.commute)
  qed
  have in_src: "4 * (j * w) + i < 4 * (w * h)" if "i < 4 * w" for i
  proof -
    have "4 * (j * w) + i < 4 * (Suc j * w)" using that by simp
    also have "\<dots> \<le> 4 * (h * w)" using jh by (intro mult_le_mono) simp_all
    finally show ?thesis by (simp add: mult.commute)
  qed
  have src: "k \<le> unat (?s + of_nat i - base)" if "i < 4 * w" for i
    using ap in_src [OF that] unfolding apart_def
    by (elim allE [of _ "4 * (j * w) + i"]) (simp add: ac_simps)
  then have ap': "apart ?s (4 * len) base k" using len(2) by (simp add: apart_def)
  have same: "load 4 ?d (?s + 4 * of_nat i) = (load 4 m (?s + 4 * of_nat i) :: u32)" if "i < len" for i
  proof (rule load_cong)
    fix t :: nat assume "t < 4"
    then have "k \<le> unat (?s + of_nat (4 * i + t) - base)" using that len(2) by (intro src) simp
    then show "?d (?s + 4 * of_nat i + of_nat t) = m (?s + 4 * of_nat i + of_nat t)"
      using k(1) by (simp add: drawn_def Let_def add.assoc)
  qed
  have "draw_row (pixel_addr base (int q0)) ?s (int len) ?d = drawn m base W H x y w (Suc j) src"
  proof
    fix a
    define n where "n = unat (a - base)"
    define q where "q = n div 3"
    have r: "draw_row (pixel_addr base (int q0)) ?s (int len) ?d a =
        (if q0 \<le> q \<and> q < q0 + len then pixel_bytes (load 4 ?d (?s + 4 * of_nat (q - q0))) ! (n mod 3) else ?d a)"
      using draw_row_result [OF _ k(2) ap', of q0 ?d a] q0 k(1) by (simp add: Let_def n_def q_def)
    have rng: "q0 \<le> q \<and> q < q0 + len \<longleftrightarrow> q div W = j + y \<and> x \<le> q mod W \<and> q mod W < x + w"
      using row_range [OF len(1,3), of "j + y" q] len(4) [of "q mod W"] len(3) by (simp add: q0_def)
    show "draw_row (pixel_addr base (int q0)) ?s (int len) ?d a = drawn m base W H x y w (Suc j) src a"
    proof (cases "q0 \<le> q \<and> q < q0 + len")
      case True
      then have e: "q div W = j + y" "x \<le> q mod W" "q mod W < x + w" using rng by blast+
      have qd: "q - q0 = q mod W - x"
      proof -
        have "q = (j + y) * W + q mod W" using e(1) by (metis div_mult_mod_eq)
        then show ?thesis unfolding q0_def by linarith
      qed
      have n: "n < 3 * (W * H)"
      proof -
        have "q < W * H" using True q0 by linarith
        then show ?thesis by (simp add: q_def div_less_iff_less_mult mult.commute)
      qed
      have ad: "?s + 4 * of_nat (q mod W - x) = src + 4 * of_nat ((q div W - y) * w + (q mod W - x))"
        using e(1) by (simp add: algebra_simps)
      have "q - q0 < len" using True by linarith
      from same [OF this] have "load 4 ?d (?s + 4 * of_nat (q - q0)) =
          (load 4 m (src + 4 * of_nat ((q div W - y) * w + (q mod W - x))) :: u32)"
        unfolding qd ad .
      moreover have "drawn m base W H x y w (Suc j) src a =
          pixel_bytes (load 4 m (src + 4 * of_nat ((q div W - y) * w + (q mod W - x)))) ! (n mod 3)"
        using e n unfolding drawn_def Let_def n_def [symmetric] q_def [symmetric] by simp
      ultimately show ?thesis using r True by simp
    next
      case False
      then have no: "\<not> (q div W = j + y \<and> x \<le> q mod W \<and> q mod W < x + w)" using rng by blast
      then have "drawn m base W H x y w (Suc j) src a = ?d a"
        unfolding drawn_def Let_def n_def [symmetric] q_def [symmetric]
        by (intro if_cong refl) (auto simp: less_Suc_eq)
      then show ?thesis using r False by simp
    qed
  qed
  then show ?thesis by (simp add: q0_def)
qed

lemma drawn_below_screen:
  assumes "0 < (W :: nat)" and "\<not> y + j < H"
  shows "drawn m base W H x y w (Suc j) src = drawn m base W H x y w j src"
proof
  fix a
  let ?n = "unat (a - base)"
  have "?n div 3 div W < H" if "?n < 3 * (W * H)"
  proof -
    have "?n div 3 < H * W" using that by (simp add: div_less_iff_less_mult mult.commute)
    then show ?thesis by (simp add: div_less_iff_less_mult assms(1))
  qed
  then show "drawn m base W H x y w (Suc j) src a = drawn m base W H x y w j src a"
    using assms(2) by (auto simp: drawn_def Let_def)
qed

lemma draw_rows:
  fixes x y w h W H :: nat
  assumes "x < W" and "len = (if W \<le> x + w then W - x else w)" and k: "k = 3 * (W * H)" "k \<le> 2 ^ 64"
    and ap: "apart src (4 * (w * h)) base k"
  shows "j \<le> h \<Longrightarrow> fold (\<lambda>j m. if y + j < H
       then draw_row (pixel_addr base (int (x + (j + y) * W))) (src + 4 * (of_nat j * of_nat w)) (int len) m else m)
     [0..<j] m = drawn m base W H x y w j src"
proof (induction j)
  case 0
  then show ?case by (auto simp: drawn_def Let_def fun_eq_iff)
next
  case (Suc j)
  have W: "0 < W" using assms(1) by simp
  show ?case
  proof (cases "y + j < H")
    case True
    then show ?thesis using Suc drawn_next_row [OF assms Suc.prems True] by simp
  next
    case False
    then show ?thesis using Suc drawn_below_screen [OF W False] by simp
  qed
qed

lemma draw_line_shows:
  fixes x y W H :: nat
  assumes W: "x < W" "W * H < 2 ^ 31" and j: "y + j < 2 ^ 31"
  shows "draw_line (int x) (int y) (int w) (int W) (int H) base src (int len) j m =
    Inr (if y + j < H then draw_row (pixel_addr base (int (x + (j + y) * W))) (src + 4 * (of_nat j * of_nat w)) (int len) m else m)"
proof -
  have r: "in_s32 (int y + int j)" "in_s32 (int j + int y)" using j by (simp_all add: in_s32_iff)
  show ?thesis
  proof (cases "y + j < H")
    case True
    have "x + (j + y) * W < W + (j + y) * W" using W(1) by simp
    also have "\<dots> = Suc (j + y) * W" by simp
    also have "\<dots> \<le> H * W" using True by (intro mult_le_mono1) simp
    also have "\<dots> < 2 ^ 31" using W(2) by (simp add: mult.commute)
    finally have n: "x + (j + y) * W < 2 ^ 31" .
    have c: "int y + int j < int H" "(int j + int y) * int W = int ((j + y) * W)"
      "int x + int ((j + y) * W) = int (x + (j + y) * W)" using True by simp_all
    have s: "s32 (int ((j + y) * W)) = Inr (int ((j + y) * W))" "s32 (int (x + (j + y) * W)) = Inr (int (x + (j + y) * W))"
      using n by (intro s32_Inr; unfold in_s32_of_nat; linarith)+
    show ?thesis
      by (simp only: draw_line_def s32_Inr [OF r(1)] s32_Inr [OF r(2)] rbind_simps c s True if_True of_int_of_nat_eq)
  next
    case False
    then have "\<not> int y + int j < int H" by simp
    then show ?thesis using r False by (simp add: draw_line_def)
  qed
qed

text \<open>C18: drawing a rectangle of pixels shows exactly the part of it that is on the screen: every frame
  buffer byte of a pixel \<open>(X, Y)\<close> in the rectangle is the colour component of the source pixel
  \<open>(X - x, Y - y)\<close>, also when the rectangle reaches over the right or the lower edge; all other pixels
  and the rest of memory keep their values. This is so when the right and the lower end of the rectangle are
  numbers that an \<open>int\<close> can hold; beyond that the computation overflows and nothing is promised. The screen,
  whose width is a 16-bit number, must have fewer than \<open>2 ^ 31\<close> pixels, the source must not overlap the frame buffer and the corner must be on the
  screen to the right and not negative: none of it is checked.\<close>

theorem gpu_fbdraw_shows:
  assumes "disp_w s = int W" and "disp_h s = int H" and "W * H < 2 ^ 31" and "W < 2 ^ 16"
    and "fd_x d = int x" and "fd_y d = int y" and "fd_w d = int w" and "fd_h d = int h" and "x < W" and "y < 2 ^ 31"
    and "apart (fd_pixels d) (4 * (w * h)) (fb s) (3 * (W * H))"
  shows "gpu_fbdraw d s =
    (if x + w < 2 ^ 31 \<and> y + h \<le> 2 ^ 31
     then Inr (s\<lparr>io_mem := drawn (io_mem s) (fb s) W H x y w h (fd_pixels d)\<rparr>)
     else Inl Int_overflow)"
proof (cases "x + w < 2 ^ 31")
  case False
  then have "\<not> in_s32 (int x + int w)" by (simp add: in_s32_iff)
  then show ?thesis using False by (auto simp: gpu_fbdraw_def assms(5-8) s32_def)
next
  case right: True
  define len where "len = (if W \<le> x + w then W - x else w)"
  have "in_s32 (int W - int x)" using assms(4,9) by (simp add: in_s32_iff)
  then have l: "(if int W \<le> int x + int w then s32 (int W - int x) else Inr (int w)) = Inr (int len)"
    using assms(9) by (auto simp: len_def)
  let ?line = "draw_line (int x) (int y) (int w) (int W) (int H) (fb s) (fd_pixels d) (int len)"
  note line = draw_line_shows [OF assms(9,3), of y _ w "fb s" "fd_pixels d" len]
  have run: "gpu_fbdraw d s = rbind (rfold ?line [0..<h] (io_mem s)) (\<lambda>m. Inr (s\<lparr>io_mem := m\<rparr>))"
    using right by (simp add: gpu_fbdraw_def assms(1,2,5-8) in_s32_iff l)
  show ?thesis
  proof (cases "y + h \<le> 2 ^ 31")
    case True
    have "rfold ?line [0..<h] (io_mem s) = Inr (drawn (io_mem s) (fb s) W H x y w h (fd_pixels d))"
      using True draw_rows [OF assms(9) len_def refl _ assms(11) order_refl, of y "io_mem s"] assms(3)
      by (subst rfold_fold [OF line]) simp_all
    then show ?thesis using run right True by simp
  next
    case False
    have "rfold ?line [0..<h] (io_mem s) = Inl Int_overflow"
    proof (rule rfold_fails)
      show "2 ^ 31 - y < h" using False assms(10) by linarith
      show "\<exists>s'. ?line i s0 = Inr s'" if "i < 2 ^ 31 - y" for i s0 using line [of i s0] that by simp
      show "?line (2 ^ 31 - y) s0 = Inl Int_overflow" for s0
        using assms(10) by (simp add: draw_line_def s32_def in_s32_iff of_nat_diff)
    qed
    then show ?thesis using run False by simp
  qed
qed

definition demo_ioe :: "'w \<Rightarrow> mem \<Rightarrow> 'w ioe" where
  "demo_ioe w m = \<lparr>iox = \<lparr>lapic = 0, ioapic = 0, ncpu = 1, world = w\<rparr>, io_mem = m,
     boot_date = \<lparr>year = 0, month = 0, day = 0, hour = 0, minute = 0, second = 0\<rparr>, freq_mhz = 0, uptsc = 0,
     fb = 0x100000, disp_w = int 4, disp_h = int 3, vmem = 0, vbuf = 0, vbuf_head = 0\<rparr>"

theorem gpu_fbdraw_shows_witness:
  "gpu_fbdraw \<lparr>fd_x = int 3, fd_y = int 2, fd_pixels = 0x1000, fd_w = int 2, fd_h = int 2, fd_sync = False\<rparr> (demo_ioe () (\<lambda>_. 7)) =
     Inr ((demo_ioe () (\<lambda>_. 7))\<lparr>io_mem := drawn (\<lambda>_. 7) 0x100000 4 3 3 2 2 2 0x1000\<rparr>)"
proof -
  let ?d = "\<lparr>fd_x = int 3, fd_y = int 2, fd_pixels = 0x1000, fd_w = int 2, fd_h = int 2, fd_sync = False\<rparr>"
  have "apart 0x1000 (4 * (2 * 2)) 0x100000 (3 * (4 * 3))"
    unfolding apart_def
  proof (intro allI impI)
    fix i :: nat assume "i < 4 * (2 * 2)"
    then have i: "i < 16" by simp
    have "(0x1000 + of_nat i - 0x100000 :: addr) = - of_nat (0xff000 - i)"
      using i by (simp add: of_nat_diff)
    moreover have "unat (- of_nat (0xff000 - i) :: addr) = 2 ^ 64 - (0xff000 - i)"
      by (rule unat_neg_of_nat) (use i in simp_all)
    ultimately have "unat (0x1000 + of_nat i - 0x100000 :: addr) = 2 ^ 64 - (0xff000 - i)" by (simp only:)
    then show "3 * (4 * 3) \<le> unat (0x1000 + of_nat i - 0x100000 :: addr)" by simp
  qed
  then show ?thesis
    using gpu_fbdraw_shows [of "demo_ioe () (\<lambda>_. 7)" 4 3 ?d 3 2 2 2] by (simp add: demo_ioe_def)
qed

section \<open>The other devices\<close>

lemma blk_read:
  assumes "ata_disk H content"
  shows "s + n \<le> 2 ^ 28 \<Longrightarrow> \<exists>w'. blkio_loop H False n (of_nat s) ptr m w = Some (write_bytes m ptr (sectors content s n), w')"
proof (induction n arbitrary: s ptr m w)
  case 0
  then show ?case by (simp add: sectors_def)
next
  case (Suc n)
  have "s < 2 ^ 28" using Suc.prems by simp
  from read_disk_sector [OF assms this, of ptr m w] obtain w1 where
    "blk_sector H False (of_nat s) ptr m w = Some (write_bytes m ptr (sector_bytes content s), w1)"
    by (auto simp: read_disk_def blk_sector_def SECTSIZE_def)
  moreover obtain w2 where "blkio_loop H False n (of_nat (Suc s)) (ptr + 512) (write_bytes m ptr (sector_bytes content s)) w1 =
      Some (write_bytes (write_bytes m ptr (sector_bytes content s)) (ptr + 512) (sectors content (Suc s) n), w2)"
    using Suc.IH [of "Suc s"] Suc.prems by fastforce
  moreover have "length (sector_bytes content s) + length (sectors content (Suc s) n) < 2 ^ 64"
    using Suc.prems by simp
  ultimately show ?case
    using write_bytes_append [of "sector_bytes content s" "sectors content (Suc s) n" m ptr]
    by (simp add: sectors_Suc add.commute)
qed

text \<open>A block read of any number of sectors from a disk that follows the ATA protocol returns with
  the sectors' bytes, in order, at the caller's buffer, and changes no other memory: the transfer
  fetches 128 words per sector and advances the sector number and the buffer in step.\<close>

theorem disk_read_transfers:
  assumes "ata_disk H content" and "\<not> bio_write bio"
    and "unat (bio_blkno bio) + unat (bio_blkcnt bio) \<le> 2 ^ 28"
  shows "\<exists>s'. disk_blkio H bio s = Some s' \<and>
     (\<forall>i < 512 * unat (bio_blkcnt bio).
        io_mem s' (bio_buf bio + of_nat i) = disk_byte content (512 * unat (bio_blkno bio) + i)) \<and>
     (\<forall>a. \<not> in_region (bio_buf bio) (512 * unat (bio_blkcnt bio)) a \<longrightarrow> io_mem s' a = io_mem s a)"
proof -
  let ?n = "unat (bio_blkcnt bio)" and ?b = "unat (bio_blkno bio)"
  obtain w' where w': "blkio_loop H False ?n (of_nat ?b) (bio_buf bio) (io_mem s) (iow s) =
      Some (write_bytes (io_mem s) (bio_buf bio) (sectors content ?b ?n), w')"
    using blk_read [OF assms(1,3)] by blast
  have "of_nat ?b = bio_blkno bio" by (simp only: of_nat_unat ucast_id)
  then have "disk_blkio H bio s =
      Some (set_iow w' (s\<lparr>io_mem := write_bytes (io_mem s) (bio_buf bio) (sectors content ?b ?n)\<rparr>))"
    using w' assms(2) by (simp add: disk_blkio_def)
  moreover have "512 * ?n \<le> 2 ^ 64" using unat_lt_2p [of "bio_blkcnt bio"] by simp
  moreover have "unat (of_nat i :: addr) = i" if "i < 512 * ?n" for i
    using that unat_lt_2p [of "bio_blkcnt bio"] by (intro unat_of_nat_lt) simp
  ultimately show ?thesis
    by (auto simp: set_iow_def write_bytes_apply in_region_def sectors_nth)
qed

theorem disk_read_transfers_witness:
  "\<exists>s'. disk_blkio demo_disk \<lparr>bio_write = False, bio_buf = 0x2000, bio_blkno = 5, bio_blkcnt = 2\<rparr>
       (demo_ioe (0, 0) (\<lambda>_. 7)) = Some s' \<and>
     io_mem s' 0x2201 = disk_byte demo_content (512 * 5 + 513) \<and> io_mem s' 0x1fff = 7"
proof -
  have "\<not> in_region 0x2000 (512 * unat (2 :: u32)) 0x1fff" by (simp add: in_region_def unsigned_minus_1_eq_mask mask_eq_exp_minus_1)
  then show ?thesis
    using disk_read_transfers [OF demo_ata, of "\<lparr>bio_write = False, bio_buf = 0x2000, bio_blkno = 5, bio_blkcnt = 2\<rparr>"
        "demo_ioe (0, 0) (\<lambda>_. 7)"]
    by (fastforce dest: spec [of _ 513] simp: demo_ioe_def)
qed

lemma read_rtc_bcd:
  assumes "h_inb H 0x71 (h_outb H 0x70 reg w) = (push_bit 4 (of_nat t) OR of_nat u, w')" and "t < 10" and "u < 10"
  shows "read_rtc H reg w = (int (10 * t + u), w')"
proof -
  have "\<forall>t < 10. \<forall>u < 10. uint ((push_bit 4 (of_nat t) OR of_nat u) AND 0xf :: u8) = int u \<and>
      uint (drop_bit 4 (push_bit 4 (of_nat t) OR of_nat u :: u8)) = int t"
    by code_simp
  then show ?thesis using assms by (simp add: read_rtc_def)
qed


section \<open>Registers and types\<close>

lemma bind_sum_Inl:
  "Option.bind m (case_sum (\<lambda>e. Some (Inl e)) f) = Some (Inl e) \<longleftrightarrow> m = Some (Inl e) \<or> (\<exists>x. m = Some (Inr x) \<and> f x = Some (Inl e))"
proof (cases m)
  case (Some r)
  then show ?thesis by (cases r) auto
qed simp

lemma vbuf_alloc_panics: "vbuf_alloc n s = Inl e \<Longrightarrow> \<exists>t. e = Panic t"
  by (auto simp: vbuf_alloc_def Let_def rbind_def panic_on_def guard_def split: if_splits)

definition drawing_error :: "c_error \<Rightarrow> bool" where
  "drawing_error e \<longleftrightarrow> e = Int_overflow \<or> (\<exists>t. e = Panic t)"

lemma drawing_errorI [simp]: "drawing_error Int_overflow" "drawing_error (Panic t)"
  by (simp_all add: drawing_error_def)

lemma sub_canvas_fails: "sub_canvas cv s = Inl e \<Longrightarrow> drawing_error e"
  by (auto simp: sub_canvas_def s32_def drawing_error_def dest: vbuf_alloc_panics split: if_splits)

lemma draw_pixel_fails: "draw_pixel px px_local W w h x1 y1 w1 h1 i j m = Inl e \<Longrightarrow> e = Int_overflow"
  by (auto simp: draw_pixel_def rbind_def s32_def split: if_splits)

lemma draw_canvas_fails:
  assumes "draw_canvas cv W px px_local w h s = Inl e"
  shows "drawing_error e"
proof -
  have f: "draw_pixel a b c d f g h i j k l m = Inl e \<Longrightarrow> e = Int_overflow" for a b c d f g h i j k l m e
    by (rule draw_pixel_fails)
  have g: "rfold (draw_pixel a b c d f g h i j k) xs m = Inl e \<Longrightarrow> e = Int_overflow" for a b c d f g h i j k xs m e
    by (erule rfold_Inl) (rule f)
  from assms have "rfold (\<lambda>i. rfold (draw_pixel px px_local W w h (cv_field s cv 6) (cv_field s cv 8) (cv_field s cv 10) (cv_field s cv 12) i)
      [0..<nat (cv_field s cv 12)]) [0..<nat (cv_field s cv 10)] (io_mem s) = Inl e"
    by (simp add: draw_canvas_def rbind_Inl_iff Let_def)
  then have "e = Int_overflow" by (rule rfold_Inl) (rule g)
  then show ?thesis by simp
qed

lemma render_fails:
  assumes "render b cv W px s = Some r"
  shows "\<forall>e. r = Inl e \<longrightarrow> drawing_error e"
proof (rule render.raw_induct [where P = "\<lambda>b cv W px s r. \<forall>e. r = Inl e \<longrightarrow> drawing_error e", OF _ assms])
  fix ren siblings cv W px s r
  assume IH: "\<And>siblings cv W px s r. ren siblings cv W px s = Some r \<Longrightarrow> \<forall>e. r = Inl e \<longrightarrow> drawing_error e"
    and run: "(if siblings then
        if cv = 0 then Some (Inr s)
        else Option.bind (ren False cv W px s) (\<lambda>r. case r of
            Inl e \<Rightarrow> Some (Inl e)
          | Inr s \<Rightarrow> ren True (cv_ptr s cv 14) W px s)
      else if cv_field s cv 0 = 1 then
        Some (draw_canvas cv W px (cv_ptr s cv 22) (cv_field s cv 18) (cv_field s cv 20) s)
      else if cv_field s cv 0 = 2 then
        (let w = cv_field s cv 2; h = cv_field s cv 4 in
         case sub_canvas cv s of
           Inl e \<Rightarrow> Some (Inl e)
         | Inr (px_local, s) \<Rightarrow>
             Option.bind (ren True (cv_ptr s cv 18) w px_local s) (\<lambda>r. case r of
                 Inl e \<Rightarrow> Some (Inl e)
               | Inr s \<Rightarrow> Some (draw_canvas cv W px px_local w h s)))
      else Some (Inl (Panic ''invalid node''))) = Some r"
  show "\<forall>e. r = Inl e \<longrightarrow> drawing_error e"
  proof (intro allI impI)
    fix e assume e: "r = Inl e"
    note r = run [unfolded e]
    show "drawing_error e"
    proof (cases siblings)
      case True
      then show ?thesis
        using r IH by (auto simp: bind_sum_Inl split: if_splits)
    next
      case False
      then show ?thesis
        using r IH by (auto simp: bind_sum_Inl Let_def dest: sub_canvas_fails draw_canvas_fails split: if_splits sum.split_asm)
    qed
  qed
qed

lemma gpu_render_fails: "gpu_render root s = Some (Inl e) \<Longrightarrow> drawing_error e"
  by (auto simp: gpu_render_def Let_def dest: render_fails)

lemma gpu_fbdraw_fails: "gpu_fbdraw d s = Inl e \<Longrightarrow> e = Int_overflow"
  by (auto simp: gpu_fbdraw_def Let_def rbind_def s32_def split: sum.splits if_splits elim!: rfold_Inl)
    (auto simp: draw_line_def rbind_def s32_def split: sum.splits if_splits)

lemma x86_handlers_typed:
  assumes "lut reg = Some h" and "reg_buf reg buf"
  shows "typed_access {Div_by_zero, Int_overflow} reg (run_handler H h buf s)"
proof -
  have "h = (if reg = 1 then H_uart_config else if reg = 2 then H_uart_tx else if reg = 3 then H_uart_rx else if reg = 4 then H_timer_config
    else if reg = 5 then H_timer_rtc else if reg = 6 then H_timer_uptime else if reg = 7 then H_input_config else if reg = 8 then H_input_keybrd
    else if reg = 9 then H_gpu_config else if reg = 10 then H_gpu_status else if reg = 11 then H_gpu_fbdraw else if reg = 12 then H_gpu_memcpy
    else if reg = 13 then H_gpu_render else if reg = 14 then H_audio_config else if reg = 18 then H_disk_config else if reg = 19 then H_disk_status
    else if reg = 20 then H_disk_blkio else H_net_config)"
    using assms(1) unfolding lut_def AM_reg_defs by (simp split: if_splits)
  moreover have "reg \<notin> {15, 16, 17, 22, 23, 24}" using assms(1) unfolding lut_def AM_reg_defs by (simp split: if_splits)
  ultimately show ?thesis
    using assms(2)
    by (cases buf) (auto simp: run_handler_def AM_reg_defs typed_access_def timer_uptime_def rbind_def
      dest: gpu_render_fails [unfolded drawing_error_def] gpu_fbdraw_fails split: option.split sum.split prod.split bind_splits)
qed

interpretation x86_devices: device_table lut H_fail "run_handler H" "{Div_by_zero, Int_overflow}" "\<lambda>reg. reg" for H
  by unfold_locales (simp_all add: x86_handlers_typed, simp add: run_handler_def)

lemma ioe_init_table: "ioe_init H cpu lut s0 = Some (Inr (tab, s1)) \<Longrightarrow> tab = fill_table lut H_fail"
  by (auto simp: ioe_init_def Let_def Option.bind_eq_Some_conv split: sum.splits)

definition demo_clock :: "nat hw" where
  \<comment> \<open>a clock that shows the next value for each six reads, up to 4; the state is the number of reads\<close>
  "demo_clock = \<lparr>h_inb = (\<lambda>p n. if p = 0x71 then (of_nat (min (n div 6) 4), Suc n) else (0, n)), h_inl = (\<lambda>_ n. (0, n)),
     h_outb = (\<lambda>_ _ n. n), h_outw = (\<lambda>_ _ n. n), h_outl = (\<lambda>_ _ n. n), h_load = (\<lambda>_ n. (0, n)), h_store = (\<lambda>_ _ n. n),
     h_store16 = (\<lambda>_ _ n. n), h_xchg = (\<lambda>_ _ n. (0, n)), h_rdtsc = (\<lambda>n. (of_nat n * 2 ^ 30, n)), h_cli = (\<lambda>n. n), h_sti = (\<lambda>n. n),
     h_flags = (\<lambda>_. 0)\<rparr>"

lemma demo_read: "read_rtc demo_clock reg n = (int (min (n div 6) 4), Suc n)"
proof -
  have "min (n div 6) 4 \<in> {0, 1, 2, 3, 4}" by auto
  then show ?thesis by (auto simp: read_rtc_def demo_clock_def)
qed

lemma demo_async: "read_rtc_async demo_clock n = (\<lparr>year = int (min ((Suc (Suc (Suc (Suc (Suc n))))) div 6) 4) + 2000, month = int (min ((Suc (Suc (Suc (Suc n)))) div 6) 4),
    day = int (min ((Suc (Suc (Suc n))) div 6) 4), hour = int (min ((Suc (Suc n)) div 6) 4), minute = int (min ((Suc n) div 6) 4), second = int (min (n div 6) 4)\<rparr>, Suc (Suc (Suc (Suc (Suc (Suc n))))))"
  by (simp add: read_rtc_async_def demo_read)

lemma demo_init: "\<exists>r. ioe_init demo_clock 0 lut (demo_ioe 0 (\<lambda>_. 0)) = Some (Inr r)"
proof -
  have u: "uart_init demo_clock 0 = 0" by (simp add: uart_init_def demo_clock_def COM1_def Let_def)
  have w1: "wait_sec demo_clock 0 = Some (\<lparr>year = 2001, month = 1, day = 1, hour = 1, minute = 1, second = 1\<rparr>, 12)"
    by (subst wait_sec.simps) (simp add: demo_async)
  have w2: "wait_sec demo_clock 12 = Some (\<lparr>year = 2003, month = 3, day = 3, hour = 3, minute = 3, second = 3\<rparr>, 24)"
    by (subst wait_sec.simps) (simp add: demo_async)
  have t: "h_rdtsc demo_clock n = (of_nat n * 2 ^ 30, n)" for n by (simp add: demo_clock_def)
  have e: "\<exists>f. estimate_freq demo_clock 0 = Some (f, 24)"
    by (subst estimate_freq.simps) (simp add: w1 w2 t)
  have r: "\<exists>d. timer_rtc demo_clock 24 = Some (d, 31)"
    by (subst timer_rtc.simps) (simp add: demo_async demo_read)
  show ?thesis using e r by (auto simp: ioe_init_def timer_init_def u t iow_def set_iow_def demo_ioe_def)
qed

end
