(* ===== verification/Core_Util.thy ===== *)
theory Core_Util
  imports Prelude
begin

text \<open>
  \<open>software-test/benchmarks/coremark/src/core_util.c\<close> and the types and constants of
  \<open>coremark.h\<close> and \<open>core_portme.h\<close>. The signed 16-bit type \<open>ee_s16\<close> is a 16-bit word that is read
  with \<open>sint\<close>; storing an \<open>int\<close> in it keeps the low 16 bits.
\<close>

type_synonym s16 = "16 word"

definition ID_LIST :: u32 where "ID_LIST = push_bit 0 1"
definition ID_MATRIX :: u32 where "ID_MATRIX = push_bit 1 1"
definition ID_STATE :: u32 where "ID_STATE = push_bit 2 1"
definition ALL_ALGORITHMS_MASK :: u32 where
  "ALL_ALGORITHMS_MASK = ID_LIST OR ID_MATRIX OR ID_STATE"
definition NUM_ALGORITHMS :: u32 where "NUM_ALGORITHMS = 3"

definition get_seed_32 :: "(nat \<Rightarrow> u32) \<Rightarrow> int \<Rightarrow> u32" where
  \<comment> \<open>\<open>seeds k\<close> is the value of the variable \<open>seedk_volatile\<close> at the time of the call\<close>
  "get_seed_32 seeds i =
     (if i = 1 then seeds 1 else if i = 2 then seeds 2 else if i = 3 then seeds 3
      else if i = 4 then seeds 4 else if i = 5 then seeds 5 else 0)"

section \<open>The checksum\<close>

definition crc_step :: "u8 \<times> u16 \<Rightarrow> u8 \<times> u16" where
  "crc_step = (\<lambda>(data, crc).
     let x16 = (data AND 1) XOR (ucast crc AND 1);
         data = drop_bit 1 data
     in if x16 = 1 then (data, drop_bit 1 (crc XOR 0x4002) OR 0x8000)
        else (data, drop_bit 1 crc AND 0x7fff))"

definition crcu8 :: "u8 \<Rightarrow> u16 \<Rightarrow> u16" where
  "crcu8 data crc = snd ((crc_step ^^ 8) (data, crc))"

definition crcu16 :: "u16 \<Rightarrow> u16 \<Rightarrow> u16" where
  "crcu16 newval crc = (let crc = crcu8 (ucast newval) crc in crcu8 (ucast (drop_bit 8 newval)) crc)"

definition crc16 :: "s16 \<Rightarrow> u16 \<Rightarrow> u16" where
  "crc16 newval crc = crcu16 newval crc"

definition crcu32 :: "u32 \<Rightarrow> u16 \<Rightarrow> u16" where
  "crcu32 newval crc = (let crc = crc16 (ucast newval) crc in crc16 (ucast (drop_bit 16 newval)) crc)"

record type_sizes =
  sz_u8 :: nat
  sz_u16 :: nat
  sz_s16 :: nat
  sz_s32 :: nat
  sz_u32 :: nat
  sz_ptr_int :: nat
  sz_int_ptr :: nat

definition check_data_types :: "type_sizes \<Rightarrow> u8" where
  \<comment> \<open>the sizes that the compiler gives to the types; the messages are left out\<close>
  "check_data_types t =
     (if sz_u8 t \<noteq> 1 then 1 else 0) + (if sz_u16 t \<noteq> 2 then 1 else 0) +
     (if sz_s16 t \<noteq> 2 then 1 else 0) + (if sz_s32 t \<noteq> 4 then 1 else 0) +
     (if sz_u32 t \<noteq> 4 then 1 else 0) + (if sz_ptr_int t \<noteq> sz_int_ptr t then 1 else 0)"

section \<open>Division by the polynomial\<close>

definition lfsr :: "u16 \<Rightarrow> u16" where
  \<comment> \<open>one step of the division of a bit-reflected polynomial by \<open>x^16 + x^15 + x^2 + 1\<close>\<close>
  "lfsr x = (if bit x 0 then drop_bit 1 x XOR 0xA001 else drop_bit 1 x)"

lemma bit_8000: "bit (0x8000 :: u16) n \<longleftrightarrow> n = 15"
proof -
  have "bit (push_bit 15 1 :: u16) n \<longleftrightarrow> n = 15"
    by (auto simp only: bit_push_bit_iff bit_1_iff) auto
  then show ?thesis by simp
qed

lemma bit_A001_15: "bit (0xA001 :: u16) 15"
  by (simp add: bit_iff_odd)

lemma drop_bit_1_top: "\<not> bit (drop_bit 1 (x :: u16)) 15"
  using bit_imp_le_length [of x 16] by (auto simp: bit_drop_bit_eq)

lemma lfsr_top: "bit (lfsr x) 15 \<longleftrightarrow> bit x 0"
  using drop_bit_1_top [of x] by (simp add: lfsr_def bit_xor_iff bit_A001_15)

lemma xor_cancel: "a XOR c = b XOR c \<longleftrightarrow> a = (b :: 'a::len word)"
proof
  assume "a XOR c = b XOR c"
  then have "(a XOR c) XOR c = (b XOR c) XOR c" by (simp only:)
  then show "a = b" by (simp add: xor.assoc)
qed simp

lemma lfsr_inj: "lfsr x = lfsr y \<longleftrightarrow> x = y"
proof
  assume eq: "lfsr x = lfsr y"
  then have b: "bit x 0 \<longleftrightarrow> bit y 0" using lfsr_top by metis
  with eq have d: "drop_bit 1 x = drop_bit 1 y"
    by (auto simp: lfsr_def xor_cancel simp del: One_nat_def split: if_splits)
  show "x = y"
  proof (rule bit_word_eqI)
    fix n
    show "bit x n \<longleftrightarrow> bit y n"
    proof (cases n)
      case (Suc k)
      from d have "bit (drop_bit 1 x) k \<longleftrightarrow> bit (drop_bit 1 y) k" by (simp only:)
      then show ?thesis by (simp add: bit_drop_bit_eq Suc)
    qed (simp only: b)
  qed
qed simp

lemma lfsr_pow_inj: "(lfsr ^^ n) x = (lfsr ^^ n) y \<longleftrightarrow> x = y"
  by (induction n) (auto simp: lfsr_inj)

lemma lfsr_xor: "lfsr (x XOR y) = lfsr x XOR lfsr y"
  by (rule bit_word_eqI) (auto simp: lfsr_def bit_xor_iff bit_drop_bit_eq)

lemma lfsr_pow_xor: "(lfsr ^^ n) (x XOR y) = (lfsr ^^ n) x XOR (lfsr ^^ n) y"
  by (induction n) (auto simp: lfsr_xor)

section \<open>The code computes it\<close>

lemma word_and_one: "w AND 1 = of_bool (bit w 0)" for w :: "'a::len word"
  by (simp add: and_one_eq mod_2_eq_odd bit_0)

lemma crc_step_lfsr:
  "crc_step (data, crc) = (drop_bit 1 data, lfsr (crc XOR (ucast data AND 1)))"
proof -
  let ?x = "crc XOR (ucast data AND 1)"
  have b0: "bit (ucast crc :: u8) 0 \<longleftrightarrow> bit crc 0" "bit (ucast data :: u16) 0 \<longleftrightarrow> bit data 0"
    by (simp_all add: bit_ucast_iff)
  have "bit (of_bool b :: u16) 0 \<longleftrightarrow> b" for b by (cases b) simp_all
  then have "bit ?x 0 \<longleftrightarrow> (bit crc 0 \<noteq> bit data 0)"
    by (simp only: bit_xor_iff word_and_one b0)
  moreover have "(data AND 1) XOR (ucast crc AND 1) = 1 \<longleftrightarrow> (bit crc 0 \<noteq> bit data 0)"
    unfolding word_and_one b0 by (cases "bit crc 0"; cases "bit data 0") simp_all
  ultimately have c: "(data AND 1) XOR (ucast crc AND 1) = 1 \<longleftrightarrow> bit ?x 0" by simp
  have d: "drop_bit 1 ?x = drop_bit 1 crc"
    by (rule bit_word_eqI) (simp add: bit_drop_bit_eq bit_xor_iff word_and_one bit_1_iff)
  have "drop_bit 1 (crc XOR 0x4002) OR 0x8000 = drop_bit 1 crc XOR 0xA001"
  proof (rule bit_word_eqI)
    fix n assume "n < LENGTH(16)"
    have "(0xA001 :: u16) = drop_bit 1 0x4002 XOR 0x8000" by simp
    then have "bit (drop_bit 1 crc XOR 0xA001) n
        \<longleftrightarrow> (bit (drop_bit 1 crc) n \<noteq> (bit (drop_bit 1 (0x4002 :: u16)) n \<noteq> (n = 15)))"
      by (simp only: bit_xor_iff bit_8000)
    then show "bit (drop_bit 1 (crc XOR 0x4002) OR 0x8000) n = bit (drop_bit 1 crc XOR 0xA001) n"
      using drop_bit_1_top [of crc] drop_bit_1_top [of "0x4002"]
      by (auto simp only: bit_or_iff bit_8000 bit_xor_iff drop_bit_xor)
  qed
  moreover have "drop_bit 1 crc AND 0x7fff = drop_bit 1 crc"
  proof (rule bit_word_eqI)
    fix n assume "n < LENGTH(16)"
    have m: "(0x7fff :: u16) = mask 15" by (simp add: mask_eq_exp_minus_1)
    have "bit (drop_bit 1 crc) n \<Longrightarrow> n < 15"
      using drop_bit_1_top [of crc] \<open>n < LENGTH(16)\<close> by (cases "n = 15") auto
    then show "bit (drop_bit 1 crc AND 0x7fff) n = bit (drop_bit 1 crc) n"
      unfolding m bit_and_iff bit_mask_iff by auto
  qed
  ultimately show ?thesis using c d by (simp add: crc_step_def lfsr_def del: One_nat_def)
qed

lemma lfsr_pow_push:
  assumes "n < 16"
  shows "(lfsr ^^ n) (push_bit n (of_bool b)) = of_bool b"
  using assms
proof (induction n)
  case (Suc n)
  have p: "push_bit (Suc n) (of_bool b :: u16) = push_bit 1 (push_bit n (of_bool b))" by simp
  have "lfsr (push_bit (Suc n) (of_bool b)) = push_bit n (of_bool b)"
  proof (rule bit_word_eqI)
    fix k assume "k < LENGTH(16)"
    show "bit (lfsr (push_bit (Suc n) (of_bool b))) k = bit (push_bit n (of_bool b) :: u16) k"
      using Suc.prems
      by (cases b) (auto simp: lfsr_def bit_drop_bit_eq bit_exp_iff power_Suc [symmetric] simp del: power_Suc)
  qed
  then have "(lfsr ^^ Suc n) (push_bit (Suc n) (of_bool b)) = (lfsr ^^ n) (push_bit n (of_bool b))"
    by (simp only: funpow_Suc_right o_apply)
  then show ?case using Suc by simp
qed simp

lemma take_bit_Suc_xor:
  "take_bit (Suc n) w = take_bit n w XOR push_bit n (of_bool (bit w n))" for w :: "'a::len word"
  by (rule bit_word_eqI) (auto simp: bit_simps less_Suc_eq)

lemma crc_steps:
  "n \<le> 8 \<Longrightarrow> (crc_step ^^ n) (data, crc) =
     (drop_bit n data, (lfsr ^^ n) (crc XOR take_bit n (ucast data)))"
proof (induction n)
  case (Suc n)
  let ?b = "of_bool (bit data n) :: u16"
  have "bit (ucast (drop_bit n data) :: u16) 0 \<longleftrightarrow> bit data n" "bit (ucast data :: u16) n \<longleftrightarrow> bit data n"
    using Suc.prems by (auto simp: bit_ucast_iff bit_drop_bit_eq)
  then have "(lfsr ^^ n) (crc XOR take_bit n (ucast data)) XOR (ucast (drop_bit n data) AND 1) =
      (lfsr ^^ n) (crc XOR take_bit (Suc n) (ucast data))"
    using lfsr_pow_push [of n "bit data n"] Suc.prems
    by (simp only: word_and_one take_bit_Suc_xor [of n] lfsr_pow_xor xor.assoc)
  then show ?case using Suc by (simp add: crc_step_lfsr)
qed simp

lemma crcu8_eq: "crcu8 data crc = (lfsr ^^ 8) (crc XOR ucast data)"
proof -
  have "take_bit 8 (ucast data :: u16) = ucast data"
    by (rule bit_word_eqI) (auto simp: bit_simps dest: bit_imp_le_length)
  then show ?thesis by (simp only: crcu8_def crc_steps snd_conv)
qed

lemma lfsr_pow_byte: "k \<le> 8 \<Longrightarrow> (lfsr ^^ k) (push_bit k (ucast (w :: u8))) = ucast w"
proof (induction k)
  case (Suc k)
  have "\<not> bit (push_bit (Suc k) (ucast w :: u16)) 0" by (simp only: bit_push_bit_iff) simp
  then have "lfsr (push_bit (Suc k) (ucast w)) = drop_bit 1 (push_bit (Suc k) (ucast w))"
    by (simp add: lfsr_def)
  also have "\<dots> = push_bit k (ucast w)"
    using Suc.prems
    by (intro bit_word_eqI)
      (auto simp: bit_drop_bit_eq bit_push_bit_iff bit_ucast_iff simp del: push_bit_Suc dest: bit_imp_le_length)
  finally show ?case using Suc by (simp only: funpow_Suc_right o_apply)
qed simp

lemma crcu16_eq: "crcu16 v crc = (lfsr ^^ 16) (crc XOR v)"
proof -
  let ?lo = "ucast (ucast v :: u8) :: u16" and ?hi = "ucast (ucast (drop_bit 8 v) :: u8) :: u16"
  have v: "v = ?lo XOR push_bit 8 ?hi"
    by (rule bit_word_eqI) (auto simp: bit_simps dest: bit_imp_le_length)
  have "crcu16 v crc = (lfsr ^^ 8) ((lfsr ^^ 8) (crc XOR ?lo) XOR (lfsr ^^ 8) (push_bit 8 ?hi))"
    by (simp add: crcu16_def crcu8_eq lfsr_pow_byte)
  also have "\<dots> = (lfsr ^^ 8) ((lfsr ^^ 8) ((crc XOR ?lo) XOR push_bit 8 ?hi))"
    by (simp only: lfsr_pow_xor)
  also have "\<dots> = (lfsr ^^ (8 + 8)) (crc XOR v)"
    by (subst v) (simp only: funpow_add o_apply xor.assoc)
  finally show ?thesis by simp
qed

lemma crcu32_eq: "crcu32 v crc = (lfsr ^^ 32) (crc XOR ucast v) XOR (lfsr ^^ 16) (ucast (drop_bit 16 v))"
proof -
  have "(lfsr ^^ 16) ((lfsr ^^ 16) x) = (lfsr ^^ 32) x" for x
    by (simp add: funpow_add [of 16 16, simplified, symmetric] flip: o_apply [of "lfsr ^^ 16"])
  then show ?thesis by (simp add: crcu32_def crc16_def crcu16_eq lfsr_pow_xor)
qed

section \<open>What the checksum detects\<close>

definition crc_words :: "u16 list \<Rightarrow> u16 \<Rightarrow> u16" where
  \<comment> \<open>the checksum of a sequence of 16-bit values\<close>
  "crc_words vs crc = fold crcu16 vs crc"

lemma crcu16_inj: "crcu16 v crc = crcu16 v' crc \<longleftrightarrow> v = v'" "crcu16 v crc = crcu16 v crc' \<longleftrightarrow> crc = crc'"
  by (simp_all add: crcu16_eq lfsr_pow_inj xor_cancel xor.commute [of crc v] xor.commute [of crc v'])
    (metis xor_cancel xor.commute)

lemma crc_words_inj: "crc_words vs crc = crc_words vs crc' \<longleftrightarrow> crc = crc'"
  by (induction vs arbitrary: crc crc') (auto simp: crc_words_def crcu16_inj)

text \<open>C14: the bit-by-bit loop of \<open>crcu8\<close> is the division of the message by the CRC-16 polynomial
  \<open>x^16 + x^15 + x^2 + 1\<close> (bit-reflected, eight shifts of the register per byte), \<open>crcu16\<close> takes the
  low byte first, and the checksum is linear.\<close>

theorem crc_is_polynomial_division:
  "crcu8 data crc = (lfsr ^^ 8) (crc XOR ucast data) \<and>
   crcu16 v crc = (lfsr ^^ 16) (crc XOR v) \<and> crc16 v crc = crcu16 v crc \<and>
   crcu32 w crc = crcu16 (ucast (drop_bit 16 w)) (crcu16 (ucast w) crc) \<and>
   crcu16 (v XOR v') (crc XOR crc') = crcu16 v crc XOR crcu16 v' crc'"
proof -
  have "(crc XOR crc') XOR (v XOR v') = (crc XOR v) XOR (crc' XOR v')"
    by (simp only: xor.assoc xor.left_commute xor.commute)
  then show ?thesis
    by (simp only: crcu8_eq crcu16_eq crc16_def crcu32_def Let_def lfsr_pow_xor simp_thms)
qed

text \<open>A checksum over any sequence of 16-bit values changes when exactly one of the values
  changes, whatever the values before and after it are, and also when only the start value does:
  the results that the benchmark compares do not hide a single wrong result.\<close>

theorem crc_detects_single_change:
  "(crc_words (xs @ v # ys) crc = crc_words (xs @ v' # ys) crc \<longleftrightarrow> v = v') \<and>
   (crc_words xs crc = crc_words xs crc' \<longleftrightarrow> crc = crc')"
  by (simp add: crc_words_def fold_append crcu16_inj crc_words_inj [unfolded crc_words_def])

end
