(* ===== verification/Core_State.thy ===== *)
theory Core_State
  imports Core_Util
begin

text \<open>
  \<open>software-test/benchmarks/coremark/src/core_state.c\<close>: the state machine that classifies the
  comma-separated words of a text as numbers, the text it is run on, and the benchmark that runs it,
  corrupts the text, runs it again and undoes the corruption. Loops that only end if the memory they
  scan has a terminator are partial functions.
\<close>

section \<open>The state machine\<close>

datatype core_state = CORE_START | CORE_INVALID | CORE_S1 | CORE_S2 | CORE_INT | CORE_FLOAT
  | CORE_EXPONENT | CORE_SCIENTIFIC

definition core_states :: "core_state list" where
  \<comment> \<open>in the order of the enumeration; \<open>NUM_CORE_STATES\<close> is their number\<close>
  "core_states = [CORE_START, CORE_INVALID, CORE_S1, CORE_S2, CORE_INT, CORE_FLOAT, CORE_EXPONENT,
     CORE_SCIENTIFIC]"

type_synonym counts = "core_state \<Rightarrow> u32"

definition count :: "core_state \<Rightarrow> counts \<Rightarrow> counts" where
  \<comment> \<open>\<open>counts[s]++\<close>\<close>
  "count s t = t(s := t s + 1)"

definition chr8 :: "char \<Rightarrow> u8" where "chr8 c = of_char c"

definition ee_isdigit :: "u8 \<Rightarrow> u8" where
  "ee_isdigit c = (if chr8 CHR ''0'' \<le> c \<and> c \<le> chr8 CHR ''9'' then 1 else 0)"

fun state_step :: "core_state \<Rightarrow> u8 \<Rightarrow> counts \<Rightarrow> core_state \<times> counts" where
  \<comment> \<open>the \<open>switch\<close> of \<open>core_state_transition\<close>\<close>
  "state_step CORE_START c t =
     (if ee_isdigit c \<noteq> 0 then (CORE_INT, count CORE_START t)
      else if c = chr8 CHR ''+'' \<or> c = chr8 CHR ''-'' then (CORE_S1, count CORE_START t)
      else if c = chr8 CHR ''.'' then (CORE_FLOAT, count CORE_START t)
      else (CORE_INVALID, count CORE_START (count CORE_INVALID t)))"
| "state_step CORE_S1 c t =
     (if ee_isdigit c \<noteq> 0 then (CORE_INT, count CORE_S1 t)
      else if c = chr8 CHR ''.'' then (CORE_FLOAT, count CORE_S1 t)
      else (CORE_INVALID, count CORE_S1 t))"
| "state_step CORE_INT c t =
     (if c = chr8 CHR ''.'' then (CORE_FLOAT, count CORE_INT t)
      else if ee_isdigit c = 0 then (CORE_INVALID, count CORE_INT t)
      else (CORE_INT, t))"
| "state_step CORE_FLOAT c t =
     (if c = chr8 CHR ''E'' \<or> c = chr8 CHR ''e'' then (CORE_S2, count CORE_FLOAT t)
      else if ee_isdigit c = 0 then (CORE_INVALID, count CORE_FLOAT t)
      else (CORE_FLOAT, t))"
| "state_step CORE_S2 c t =
     (if c = chr8 CHR ''+'' \<or> c = chr8 CHR ''-'' then (CORE_EXPONENT, count CORE_S2 t)
      else (CORE_INVALID, count CORE_S2 t))"
| "state_step CORE_EXPONENT c t =
     (if ee_isdigit c \<noteq> 0 then (CORE_SCIENTIFIC, count CORE_EXPONENT t)
      else (CORE_INVALID, count CORE_EXPONENT t))"
| "state_step CORE_SCIENTIFIC c t =
     (if ee_isdigit c = 0 then (CORE_INVALID, count CORE_INVALID t) else (CORE_SCIENTIFIC, t))"
| "state_step CORE_INVALID c t = (CORE_INVALID, t)"

partial_function (option) transition_loop ::
  "mem \<Rightarrow> addr \<Rightarrow> core_state \<Rightarrow> counts \<Rightarrow> (core_state \<times> addr \<times> counts) option" where
  "transition_loop m str st t =
     (if m str = 0 \<or> st = CORE_INVALID then Some (st, str, t)
      else if m str = chr8 CHR '','' then Some (st, str + 1, t)
      else case state_step st (m str) t of (st', t') \<Rightarrow> transition_loop m (str + 1) st' t')"

definition core_state_transition :: "mem \<Rightarrow> addr \<Rightarrow> counts \<Rightarrow> (core_state \<times> addr \<times> counts) option" where
  \<comment> \<open>the end state, the new value of \<open>*instr\<close> and the transition counts\<close>
  "core_state_transition m instr t = transition_loop m instr CORE_START t"

section \<open>The input\<close>

definition str8 :: "string \<Rightarrow> u8 list" where "str8 s = map chr8 s"

definition intpat :: "u8 list list" where
  "intpat = [str8 ''5012'', str8 ''1234'', str8 ''-874'', str8 ''+122'']"
definition floatpat :: "u8 list list" where
  "floatpat = [str8 ''35.54400'', str8 ''.1234500'', str8 ''-110.700'', str8 ''+0.64400'']"
definition scipat :: "u8 list list" where
  "scipat = [str8 ''5.500e+3'', str8 ''-.123e-2'', str8 ''-87e+832'', str8 ''+0.6e-12'']"
definition errpat :: "u8 list list" where
  "errpat = [str8 ''T0.3e-1F'', str8 ''-T.T++Tq'', str8 ''1T3.4e4z'', str8 ''34.0e-T^'']"

definition choose_pattern :: "s16 \<Rightarrow> u8 list \<times> u32" where
  \<comment> \<open>the new values of \<open>buf\<close> and \<open>next\<close>\<close>
  "choose_pattern seed =
     (let k = seed AND 7; i = unat (drop_bit 3 seed AND 3)
      in if k = 0 \<or> k = 1 \<or> k = 2 then (intpat ! i, 4)
         else if k = 3 \<or> k = 4 then (floatpat ! i, 8)
         else if k = 5 \<or> k = 6 then (scipat ! i, 8)
         else (errpat ! i, 8))"

definition put_pattern :: "mem \<Rightarrow> addr \<Rightarrow> u8 list \<Rightarrow> u32 \<Rightarrow> mem" where
  "put_pattern m q buf next =
     (fold (\<lambda>i m. m(q + of_nat i := buf ! i)) [0..<unat next] m)(q + ucast next := chr8 CHR '','')"

partial_function (option) init_loop ::
  "u32 \<Rightarrow> addr \<Rightarrow> mem \<Rightarrow> u32 \<Rightarrow> u32 \<Rightarrow> u8 list \<Rightarrow> s16 \<Rightarrow> (mem \<times> u32) option" where
  \<comment> \<open>\<open>while ((tot + next + 1) < sz)\<close>\<close>
  "init_loop sz p m tot next buf seed =
     (if tot + next + 1 < sz then
        let m' = if 0 < next then put_pattern m (p + ucast tot) buf next else m;
            tot' = if 0 < next then tot + next + 1 else tot;
            seed' = seed + 1
        in init_loop sz p m' tot' (snd (choose_pattern seed')) (fst (choose_pattern seed')) seed'
      else Some (m, tot))"

definition zero_fill :: "mem \<Rightarrow> addr \<Rightarrow> u32 \<Rightarrow> u32 \<Rightarrow> mem" where
  \<comment> \<open>\<open>while (tot < size) *(p + tot++) = 0;\<close>\<close>
  "zero_fill m p tot sz = fold (\<lambda>i m. m(p + of_nat i := 0)) [unat tot..<unat sz] m"

definition core_init_state :: "u32 \<Rightarrow> s16 \<Rightarrow> addr \<Rightarrow> mem \<Rightarrow> mem option" where
  "core_init_state sz seed p m =
     Option.bind (init_loop (sz - 1) p m 0 0 [] seed) (\<lambda>(m', tot). Some (zero_fill m' p tot sz))"

section \<open>The benchmark\<close>

partial_function (option) scan_loop ::
  "mem \<Rightarrow> addr \<Rightarrow> counts \<Rightarrow> counts \<Rightarrow> (counts \<times> counts) option" where
  \<comment> \<open>with the counts of final states and of transitions\<close>
  "scan_loop m p final track =
     (if m p \<noteq> 0 then
        Option.bind (core_state_transition m p track) (\<lambda>(fstate, p', track').
          scan_loop m p' (count fstate final) track')
      else Some (final, track))"

partial_function (option) corrupt_loop :: "addr \<Rightarrow> s16 \<Rightarrow> s16 \<Rightarrow> addr \<Rightarrow> mem \<Rightarrow> mem option" where
  \<comment> \<open>to the end \<open>ed\<close> of the block\<close>
  "corrupt_loop ed seed step p m =
     (if p < ed
      then corrupt_loop ed seed step (p + scast step)
             (if m p \<noteq> chr8 CHR '','' then m(p := m p XOR ucast seed) else m)
      else Some m)"

definition core_bench_state ::
  "u32 \<Rightarrow> addr \<Rightarrow> s16 \<Rightarrow> s16 \<Rightarrow> s16 \<Rightarrow> u16 \<Rightarrow> mem \<Rightarrow> (u16 \<times> mem) option" where
  "core_bench_state blksize memblock seed1 seed2 step crc m =
     (let ed = memblock + ucast blksize in
      Option.bind (scan_loop m memblock (\<lambda>_. 0) (\<lambda>_. 0)) (\<lambda>(final1, track1).
      Option.bind (corrupt_loop ed seed1 step memblock m) (\<lambda>m1.
      Option.bind (scan_loop m1 memblock final1 track1) (\<lambda>(final, track).
      Option.bind (corrupt_loop ed seed2 step memblock m1) (\<lambda>m2.
        Some (fold (\<lambda>s crc. crcu32 (track s) (crcu32 (final s) crc)) core_states crc, m2))))))"

section \<open>What the machine accepts\<close>

definition next_state :: "core_state \<Rightarrow> u8 \<Rightarrow> core_state" where
  "next_state st c = fst (state_step st c (\<lambda>_. 0))"

definition digit :: "u8 \<Rightarrow> bool" where
  "digit c \<longleftrightarrow> chr8 CHR ''0'' \<le> c \<and> c \<le> chr8 CHR ''9''"

definition sign_char :: "u8 \<Rightarrow> bool" where
  "sign_char c \<longleftrightarrow> c = chr8 CHR ''+'' \<or> c = chr8 CHR ''-''"

definition exp_char :: "u8 \<Rightarrow> bool" where
  "exp_char c \<longleftrightarrow> c = chr8 CHR ''E'' \<or> c = chr8 CHR ''e''"

abbreviation digits :: "u8 list \<Rightarrow> bool" where "digits ds \<equiv> list_all digit ds"

definition opt_sign :: "u8 list \<Rightarrow> bool" where
  "opt_sign sg \<longleftrightarrow> sg = [] \<or> (\<exists>c. sign_char c \<and> sg = [c])"

definition is_int :: "u8 list \<Rightarrow> bool" where
  "is_int w \<longleftrightarrow> (\<exists>sg ds. w = sg @ ds \<and> opt_sign sg \<and> ds \<noteq> [] \<and> digits ds)"

definition is_float :: "u8 list \<Rightarrow> bool" where
  "is_float w \<longleftrightarrow> (\<exists>sg ds fs. w = sg @ ds @ [chr8 CHR ''.''] @ fs \<and> opt_sign sg \<and> digits ds \<and> digits fs)"

definition is_sci :: "u8 list \<Rightarrow> bool" where
  "is_sci w \<longleftrightarrow> (\<exists>f e s es. w = f @ [e, s] @ es \<and> is_float f \<and> exp_char e \<and> sign_char s \<and>
     es \<noteq> [] \<and> digits es)"

definition word_class :: "core_state \<Rightarrow> u8 list \<Rightarrow> bool" where
  \<comment> \<open>the words that end in each state\<close>
  "word_class st w = (case st of
       CORE_START \<Rightarrow> w = []
     | CORE_S1 \<Rightarrow> w \<noteq> [] \<and> opt_sign w
     | CORE_INT \<Rightarrow> is_int w
     | CORE_FLOAT \<Rightarrow> is_float w
     | CORE_S2 \<Rightarrow> (\<exists>f e. w = f @ [e] \<and> is_float f \<and> exp_char e)
     | CORE_EXPONENT \<Rightarrow> (\<exists>f e s. w = f @ [e, s] \<and> is_float f \<and> exp_char e \<and> sign_char s)
     | CORE_SCIENTIFIC \<Rightarrow> is_sci w
     | CORE_INVALID \<Rightarrow> False)"

lemma state_step_fst: "fst (state_step st c t) = next_state st c"
  unfolding next_state_def by (cases st) (simp_all only: state_step.simps split: if_splits, auto)

lemma ee_isdigit_iff: "ee_isdigit c = 0 \<longleftrightarrow> \<not> digit c"
  by (simp add: ee_isdigit_def digit_def)

lemma special_chars:
  "\<not> digit (chr8 CHR ''.'')" "exp_char c \<Longrightarrow> \<not> digit c" "sign_char c \<Longrightarrow> \<not> digit c"
  "\<not> sign_char (chr8 CHR ''.'')"
  by (auto simp: digit_def exp_char_def sign_char_def chr8_def)

lemma next_state_simps [simp]:
  "next_state CORE_START c =
     (if digit c then CORE_INT else if sign_char c then CORE_S1
      else if c = chr8 CHR ''.'' then CORE_FLOAT else CORE_INVALID)"
  "next_state CORE_S1 c =
     (if digit c then CORE_INT else if c = chr8 CHR ''.'' then CORE_FLOAT else CORE_INVALID)"
  "next_state CORE_INT c =
     (if c = chr8 CHR ''.'' then CORE_FLOAT else if digit c then CORE_INT else CORE_INVALID)"
  "next_state CORE_FLOAT c =
     (if exp_char c then CORE_S2 else if digit c then CORE_FLOAT else CORE_INVALID)"
  "next_state CORE_S2 c = (if sign_char c then CORE_EXPONENT else CORE_INVALID)"
  "next_state CORE_EXPONENT c = (if digit c then CORE_SCIENTIFIC else CORE_INVALID)"
  "next_state CORE_SCIENTIFIC c = (if digit c then CORE_SCIENTIFIC else CORE_INVALID)"
  "next_state CORE_INVALID c = CORE_INVALID"
  by (simp_all add: next_state_def ee_isdigit_iff sign_char_def exp_char_def)

definition final_state :: "u8 list \<Rightarrow> core_state" where
  "final_state w = foldl next_state CORE_START w"

lemma run_digits:
  "digits ds \<Longrightarrow> st \<in> {CORE_INT, CORE_FLOAT, CORE_SCIENTIFIC} \<Longrightarrow> foldl next_state st ds = st"
  by (induction ds) (auto simp: special_chars)

lemma run_digits1:
  assumes "digits ds" and "ds \<noteq> []"
  shows "foldl next_state CORE_START ds = CORE_INT" "foldl next_state CORE_S1 ds = CORE_INT"
    "foldl next_state CORE_EXPONENT ds = CORE_SCIENTIFIC"
  using assms by (cases ds; simp add: run_digits)+

lemma run_sign: "opt_sign sg \<Longrightarrow> foldl next_state CORE_START sg \<in> {CORE_START, CORE_S1}"
  by (auto simp: opt_sign_def special_chars)

lemma is_int_run: "is_int w \<Longrightarrow> final_state w = CORE_INT"
  using run_sign run_digits1 by (fastforce simp: is_int_def final_state_def)

lemma is_float_run:
  assumes "is_float w"
  shows "final_state w = CORE_FLOAT"
proof -
  obtain sg ds fs where w: "w = sg @ ds @ [chr8 CHR ''.''] @ fs" "opt_sign sg" "digits ds" "digits fs"
    using assms by (auto simp: is_float_def)
  let ?a = "foldl next_state CORE_START sg" and ?b = "foldl next_state (foldl next_state CORE_START sg) ds"
  have "?a \<in> {CORE_START, CORE_S1}" by (rule run_sign [OF w(2)])
  then have "?b \<in> {CORE_START, CORE_S1, CORE_INT}"
    using run_digits1(1,2) [OF w(3)] by (cases "ds = []") auto
  then have "next_state ?b (chr8 CHR ''.'') = CORE_FLOAT" by (auto simp: special_chars)
  then show ?thesis by (simp add: w(1) final_state_def run_digits [OF w(4)])
qed

lemma word_class_run: "word_class st w \<Longrightarrow> final_state w = st"
proof (cases st)
  case CORE_S1
  assume "word_class st w"
  then show ?thesis using CORE_S1 by (auto simp: word_class_def opt_sign_def final_state_def special_chars)
next
  case CORE_SCIENTIFIC
  assume "word_class st w"
  then obtain f e s es where "w = f @ [e, s] @ es" "is_float f" "exp_char e" "sign_char s" "es \<noteq> []" "digits es"
    using CORE_SCIENTIFIC by (auto simp: word_class_def is_sci_def)
  then show ?thesis
    using is_float_run [of f] run_digits1(3) [of es] CORE_SCIENTIFIC by (simp add: final_state_def)
qed (auto simp: word_class_def final_state_def
      dest!: is_float_run [unfolded final_state_def] is_int_run [unfolded final_state_def])

lemma extend_word:
  "is_int w \<Longrightarrow> digit c \<Longrightarrow> is_int (w @ [c])"
  "opt_sign w \<Longrightarrow> digit c \<Longrightarrow> is_int (w @ [c])"
  "is_int w \<Longrightarrow> is_float (w @ [chr8 CHR ''.''])"
  "opt_sign w \<Longrightarrow> is_float (w @ [chr8 CHR ''.''])"
  "is_float w \<Longrightarrow> digit c \<Longrightarrow> is_float (w @ [c])"
  "is_sci w \<Longrightarrow> digit c \<Longrightarrow> is_sci (w @ [c])"
proof -
  show "is_int w \<Longrightarrow> digit c \<Longrightarrow> is_int (w @ [c])"
    unfolding is_int_def by (elim exE conjE, rule_tac x = sg in exI, rule_tac x = "ds @ [c]" in exI) simp
  show "opt_sign w \<Longrightarrow> digit c \<Longrightarrow> is_int (w @ [c])"
    unfolding is_int_def by (rule exI [of _ w], rule exI [of _ "[c]"]) simp
  show "is_int w \<Longrightarrow> is_float (w @ [chr8 CHR ''.''])"
    unfolding is_int_def is_float_def
    by (elim exE conjE, rule_tac x = sg in exI, rule_tac x = ds in exI, rule exI [of _ "[]"]) simp
  show "opt_sign w \<Longrightarrow> is_float (w @ [chr8 CHR ''.''])"
    unfolding is_float_def by (rule exI [of _ w], rule exI [of _ "[]"], rule exI [of _ "[]"]) simp
  show "is_float w \<Longrightarrow> digit c \<Longrightarrow> is_float (w @ [c])"
    unfolding is_float_def
    by (elim exE conjE, rule_tac x = sg in exI, rule_tac x = ds in exI, rule_tac x = "fs @ [c]" in exI) simp
  show "is_sci w \<Longrightarrow> digit c \<Longrightarrow> is_sci (w @ [c])"
    unfolding is_sci_def
    by (elim exE conjE, rule_tac x = f in exI, rule_tac x = e in exI, rule_tac x = s in exI,
        rule_tac x = "es @ [c]" in exI) simp
qed

lemma is_sci_first: "is_float f \<Longrightarrow> exp_char e \<Longrightarrow> sign_char s \<Longrightarrow> digit c \<Longrightarrow> is_sci (f @ [e, s, c])"
  unfolding is_sci_def
  by (rule exI [of _ f], rule exI [of _ e], rule exI [of _ s], rule exI [of _ "[c]"]) simp

lemma run_word_class: "final_state w \<noteq> CORE_INVALID \<Longrightarrow> word_class (final_state w) w"
proof (induction w rule: rev_induct)
  case (snoc c w)
  define st where "st = final_state w"
  have f: "final_state (w @ [c]) = next_state st c" by (simp add: final_state_def st_def)
  then have "st \<noteq> CORE_INVALID" using snoc.prems by auto
  then have wc: "word_class st w" using snoc.IH st_def by simp
  have nv: "next_state st c \<noteq> CORE_INVALID" using snoc.prems f by simp
  show ?case
    unfolding f
    using wc nv extend_word(1,2,5,6) [of w c] extend_word(3,4) [of w] is_sci_first
    by (cases st) (auto simp: word_class_def opt_sign_def split: if_splits)
qed (simp add: final_state_def word_class_def)

lemma final_state_iff: "st \<noteq> CORE_INVALID \<Longrightarrow> final_state w = st \<longleftrightarrow> word_class st w"
  using run_word_class word_class_run by blast

section \<open>Running it over a text\<close>

definition word_chars :: "u8 list \<Rightarrow> bool" where
  "word_chars w \<longleftrightarrow> (\<forall>c \<in> set w. c \<noteq> 0 \<and> c \<noteq> chr8 CHR '','')"

primrec scanned :: "core_state \<Rightarrow> u8 list \<Rightarrow> nat" where
  \<comment> \<open>the characters of a word that are read: up to the first that is not acceptable\<close>
  "scanned st [] = 0"
| "scanned st (c # w) = (if st = CORE_INVALID then 0 else Suc (scanned (next_state st c) w))"

lemma scanned_invalid [simp]: "scanned CORE_INVALID w = 0"
  by (cases w) simp_all

lemma run_invalid [simp]: "foldl next_state CORE_INVALID w = CORE_INVALID"
  by (induction w) simp_all

lemma scanned_all: "foldl next_state st w \<noteq> CORE_INVALID \<Longrightarrow> scanned st w = length w"
  by (induction w arbitrary: st) auto

lemma scanned_le: "scanned st w \<le> length w"
  by (induction w arbitrary: st) auto

lemma scanned_first_bad:
  "st \<noteq> CORE_INVALID \<Longrightarrow> foldl next_state st w = CORE_INVALID \<Longrightarrow>
     scanned st w = Suc k \<Longrightarrow> foldl next_state st (take k w) \<noteq> CORE_INVALID \<and>
     foldl next_state st (take (Suc k) w) = CORE_INVALID"
proof (induction w arbitrary: st k)
  case (Cons c w)
  show ?case
  proof (cases "next_state st c = CORE_INVALID")
    case False
    then have "scanned (next_state st c) w \<noteq> 0" using Cons.prems by (cases w) auto
    then obtain j where "k = Suc j" "scanned (next_state st c) w = Suc j"
      using Cons.prems by (cases k) auto
    then show ?thesis using Cons.IH [OF False, of j] Cons.prems by auto
  qed (use Cons.prems in auto)
qed simp

lemma transition_loop_run:
  assumes "stored m p w" and "word_chars w" and "m (p + of_nat (length w)) = e"
    and "e = 0 \<or> e = chr8 CHR '',''"
  shows "\<exists>t'. transition_loop m p st t =
     Some (foldl next_state st w,
       p + of_nat (scanned st w) +
         (if foldl next_state st w \<noteq> CORE_INVALID \<and> e = chr8 CHR '','' then 1 else 0), t')"
  using assms
proof (induction w arbitrary: p st t)
  case Nil
  then show ?case by (subst transition_loop.simps) (auto simp: chr8_def)
next
  case (Cons c w)
  show ?case
  proof (cases "st = CORE_INVALID")
    case False
    obtain st' t1 where s: "state_step st c t = (st', t1)" by fastforce
    then have st': "st' = next_state st c" by (metis state_step_fst fst_conv)
    have "word_chars w" "c \<noteq> 0" "c \<noteq> chr8 CHR '',''" "m p = c"
      using Cons.prems by (auto simp: word_chars_def)
    then have "transition_loop m p st t = transition_loop m (p + 1) st' t1"
      using False s by (subst transition_loop.simps) simp
    moreover obtain t' where "transition_loop m (p + 1) st' t1 =
        Some (foldl next_state st' w, p + 1 + of_nat (scanned st' w) +
         (if foldl next_state st' w \<noteq> CORE_INVALID \<and> e = chr8 CHR '','' then 1 else 0), t')"
      using Cons.IH [of "p + 1" st' t1] Cons.prems \<open>word_chars w\<close> by (auto simp: ac_simps)
    ultimately show ?thesis using False st' by (auto simp: ac_simps)
  qed (subst transition_loop.simps, simp)
qed

text \<open>C12: on a word of the text, that is, up to a comma or the end, the machine returns and its end
  state is the class of the word: an integer, a decimal number or a number in scientific notation
  exactly when the word has that form, and \<open>CORE_INVALID\<close> exactly when no form fits. A valid word is
  read whole, with its comma; an invalid one up to its first character that no continuation can
  make valid.\<close>

theorem core_state_transition_classifies:
  assumes "stored m p w" and "word_chars w" and "m (p + of_nat (length w)) \<in> {0, chr8 CHR '',''}"
  shows "\<exists>st q t'. core_state_transition m p t = Some (st, q, t') \<and>
     (st = CORE_INT \<longleftrightarrow> is_int w) \<and> (st = CORE_FLOAT \<longleftrightarrow> is_float w) \<and>
     (st = CORE_SCIENTIFIC \<longleftrightarrow> is_sci w) \<and> (st = CORE_INVALID \<longleftrightarrow> (\<forall>s. \<not> word_class s w)) \<and>
     (if st = CORE_INVALID
      then \<exists>k < length w. q = p + of_nat (Suc k) \<and> final_state (take k w) \<noteq> CORE_INVALID \<and>
        final_state (take (Suc k) w) = CORE_INVALID
      else q = p + of_nat (length w) + (if m (p + of_nat (length w)) = 0 then 0 else 1))"
proof -
  let ?e = "m (p + of_nat (length w))" and ?st = "final_state w"
  obtain t' where run: "core_state_transition m p t = Some (?st, p + of_nat (scanned CORE_START w) +
      (if ?st \<noteq> CORE_INVALID \<and> ?e = chr8 CHR '','' then 1 else 0), t')"
    using transition_loop_run [OF assms(1,2) refl, of CORE_START t] assms(3)
    by (auto simp: core_state_transition_def final_state_def)
  have e: "?e = chr8 CHR '','' \<longleftrightarrow> ?e \<noteq> 0" using assms(3) by (auto simp: chr8_def)
  have no: "\<not> word_class CORE_INVALID w" by (simp add: word_class_def)
  have inv: "?st = CORE_INVALID \<longleftrightarrow> (\<forall>s. \<not> word_class s w)"
  proof
    assume "?st = CORE_INVALID"
    then show "\<forall>s. \<not> word_class s w" using no word_class_run by metis
  next
    assume "\<forall>s. \<not> word_class s w"
    then show "?st = CORE_INVALID" using run_word_class by fast
  qed
  have cls: "?st = CORE_INT \<longleftrightarrow> is_int w" "?st = CORE_FLOAT \<longleftrightarrow> is_float w" "?st = CORE_SCIENTIFIC \<longleftrightarrow> is_sci w"
    using final_state_iff [of CORE_INT w] final_state_iff [of CORE_FLOAT w] final_state_iff [of CORE_SCIENTIFIC w]
    by (simp_all add: word_class_def)
  have pos: "\<exists>k < length w. scanned CORE_START w = Suc k \<and> final_state (take k w) \<noteq> CORE_INVALID \<and>
      final_state (take (Suc k) w) = CORE_INVALID" if "?st = CORE_INVALID"
  proof -
    have "w \<noteq> []" using that by (auto simp: final_state_def)
    then obtain k where k: "scanned CORE_START w = Suc k" by (cases w) auto
    then show ?thesis
      using scanned_first_bad [of CORE_START w k] scanned_le [of CORE_START w] that
      by (auto simp: final_state_def)
  qed
  show ?thesis
  proof (cases "?st = CORE_INVALID")
    case True
    then obtain k where k: "k < length w" "scanned CORE_START w = Suc k"
      "final_state (take k w) \<noteq> CORE_INVALID" "final_state (take (Suc k) w) = CORE_INVALID"
      using pos by blast
    have "\<exists>k' < length w. p + of_nat (Suc k) = p + of_nat (Suc k') \<and> final_state (take k' w) \<noteq> CORE_INVALID \<and>
        final_state (take (Suc k') w) = CORE_INVALID"
      using k by blast
    then show ?thesis using run cls inv True k(2) by auto
  next
    case False
    then have "scanned CORE_START w = length w" by (simp add: scanned_all final_state_def)
    then show ?thesis using run cls inv False e by auto
  qed
qed

theorem core_state_transition_classifies_witness:
  "\<exists>st q t'. core_state_transition (\<lambda>a. if a = 0 then chr8 CHR ''-'' else if a = 1 then chr8 CHR ''7'' else 0) 0 (\<lambda>_. 0)
     = Some (st, q, t') \<and> st = CORE_INT \<and> q = 2"
proof -
  let ?m = "\<lambda>a :: addr. if a = 0 then chr8 CHR ''-'' else if a = 1 then chr8 CHR ''7'' else 0"
  let ?w = "[chr8 CHR ''-'', chr8 CHR ''7'']"
  have "is_int ?w"
    unfolding is_int_def
    by (rule exI [of _ "[chr8 CHR ''-'']"], rule exI [of _ "[chr8 CHR ''7'']"])
      (simp add: opt_sign_def sign_char_def digit_def chr8_def)
  moreover have "stored ?m 0 ?w" "word_chars ?w" "?m (0 + of_nat (length ?w)) \<in> {0, chr8 CHR '',''}"
    by (simp_all add: word_chars_def chr8_def)
  ultimately show ?thesis
    using core_state_transition_classifies [of ?m 0 ?w "\<lambda>_. 0"] by force
qed

text \<open>Two patterns of the input show what the machine makes of them: the word that the source calls
  scientific, \<open>-87e+832\<close>, has no point and is rejected at its exponent.\<close>

lemma scipat_2_is_invalid: "final_state (scipat ! 2) = CORE_INVALID"
  by (simp add: scipat_def str8_def final_state_def chr8_def digit_def sign_char_def exp_char_def)

lemma patterns_end:
  "map final_state intpat = [CORE_INT, CORE_INT, CORE_INT, CORE_INT]"
  "map final_state floatpat = [CORE_FLOAT, CORE_FLOAT, CORE_FLOAT, CORE_FLOAT]"
  "map final_state errpat = [CORE_INVALID, CORE_INVALID, CORE_INVALID, CORE_INVALID]"
  by (simp_all add: intpat_def floatpat_def errpat_def str8_def final_state_def chr8_def digit_def
      sign_char_def exp_char_def)

section \<open>The initial text\<close>

definition pattern :: "s16 \<Rightarrow> u8 list" where
  "pattern seed = fst (choose_pattern seed)"

definition input_text :: "s16 \<Rightarrow> nat \<Rightarrow> u8 list" where
  \<comment> \<open>the first \<open>k\<close> patterns after the seed, each with its comma\<close>
  "input_text seed k = concat (map (\<lambda>i. pattern (seed + of_nat (Suc i)) @ [chr8 CHR '','']) [0..<k])"

lemma input_text_0 [simp]: "input_text seed 0 = []"
  by (simp add: input_text_def)

lemma less_4_cases: "n < 4 \<Longrightarrow> n = 0 \<or> n = 1 \<or> n = 2 \<or> n = (3 :: nat)"
  by linarith

lemma pattern_length:
  "unat (snd (choose_pattern seed)) = length (pattern seed)"
  "length (pattern seed) = 4 \<or> length (pattern seed) = 8"
proof -
  have i: "unat (drop_bit 3 seed AND 3) < 4"
  proof -
    have "drop_bit 3 seed AND 3 \<le> 3" by (rule word_and_le1)
    then show ?thesis by (simp add: word_le_nat_alt)
  qed
  show "unat (snd (choose_pattern seed)) = length (pattern seed)"
    "length (pattern seed) = 4 \<or> length (pattern seed) = 8"
    using less_4_cases [OF i]
    by (auto simp: pattern_def choose_pattern_def Let_def intpat_def floatpat_def scipat_def errpat_def str8_def)
qed

lemma pattern_in: "pattern seed \<in> set (intpat @ floatpat @ scipat @ errpat)"
proof -
  have "length intpat = 4" "length floatpat = 4" "length scipat = 4" "length errpat = 4"
    by (simp_all add: intpat_def floatpat_def scipat_def errpat_def)
  moreover have "unat (drop_bit 3 seed AND 3) < 4"
  proof -
    have "drop_bit 3 seed AND 3 \<le> 3" by (rule word_and_le1)
    then show ?thesis by (simp add: word_le_nat_alt)
  qed
  ultimately show ?thesis by (auto simp: pattern_def choose_pattern_def Let_def)
qed

lemma pattern_chars: "word_chars (pattern seed)"
proof -
  have "\<forall>w \<in> set (intpat @ floatpat @ scipat @ errpat). word_chars w"
    by (simp add: intpat_def floatpat_def scipat_def errpat_def str8_def word_chars_def chr8_def)
  then show ?thesis using pattern_in by blast
qed

lemma input_text_Suc:
  "input_text seed (Suc k) = input_text seed k @ pattern (seed + of_nat (Suc k)) @ [chr8 CHR '','']"
  by (simp add: input_text_def)

lemma fold_put:
  "n \<le> length buf \<Longrightarrow> n < 2 ^ 64 \<Longrightarrow>
     fold (\<lambda>i m. m(q + of_nat i := buf ! i)) [0..<n] m = write_bytes m q (take n buf)"
proof (induction n)
  case (Suc n)
  then show ?case by (simp add: take_Suc_conv_app_nth write_bytes_snoc del: fun_upd_apply)
qed simp

lemma put_pattern_write:
  assumes "unat n = length buf"
  shows "put_pattern m q buf n = write_bytes m q (buf @ [chr8 CHR '',''])"
proof -
  have l: "length buf < 2 ^ 32" using unat_lt_2p [of n] assms by simp
  then have l64: "length buf < 2 ^ 64" by simp
  have "(ucast n :: addr) = of_nat (length buf)"
    using assms by (metis of_nat_unat)
  then show ?thesis
    using fold_put [of "length buf" buf q m] l64 assms by (simp add: put_pattern_def write_bytes_snoc)
qed

lemma fold_zero:
  "lo \<le> hi \<Longrightarrow> hi < 2 ^ 64 \<Longrightarrow>
     fold (\<lambda>i m. m(p + of_nat i := 0)) [lo..<hi] m = write_bytes m (p + of_nat lo) (replicate (hi - lo) 0)"
proof (induction hi)
  case (Suc hi)
  show ?case
  proof (cases "lo = Suc hi")
    case False
    then have "lo \<le> hi" "Suc hi - lo = Suc (hi - lo)" using Suc.prems by simp_all
    moreover have "replicate (Suc (hi - lo)) (0 :: u8) = replicate (hi - lo) 0 @ [0]"
      by (simp add: replicate_append_same)
    ultimately show ?thesis
      using Suc write_bytes_snoc [of "replicate (hi - lo) 0" m "p + of_nat lo" 0]
      by (simp add: replicate_append_same add.assoc del: fun_upd_apply replicate.simps flip: of_nat_add)
  qed simp
qed simp

lemma input_text_length:
  "length (input_text seed (Suc k)) = length (input_text seed k) + length (pattern (seed + of_nat (Suc k))) + 1"
  by (simp add: input_text_Suc)

lemma init_loop_from:
  assumes "unat sz < 2 ^ 31" and "length (input_text seed k) \<le> unat sz"
    and "sd = seed + of_nat (Suc k)"
  shows "\<exists>k' \<ge> k. init_loop sz p (write_bytes m p (input_text seed k)) (of_nat (length (input_text seed k)))
      (snd (choose_pattern sd)) (fst (choose_pattern sd)) sd =
      Some (write_bytes m p (input_text seed k'), of_nat (length (input_text seed k'))) \<and>
      (k' = k \<or> length (input_text seed k') < unat sz) \<and> unat sz \<le> length (input_text seed (Suc k'))"
  using assms(2,3)
proof (induction "unat sz - length (input_text seed k)" arbitrary: k sd rule: less_induct)
  case less
  let ?l = "length (input_text seed k)" and ?n = "snd (choose_pattern sd)"
  define tt where "tt = (of_nat ?l :: u32)"
  have n: "unat ?n = length (pattern sd)" and n48: "length (pattern sd) = 4 \<or> length (pattern sd) = 8"
    by (rule pattern_length)+
  have tt: "unat tt = ?l" unfolding tt_def by (rule unat_of_nat_lt) (use less.prems assms(1) in simp)
  have un: "unat (tt + ?n + 1) = ?l + length (pattern sd) + 1"
  proof -
    have "?l + length (pattern sd) + 1 < 2 ^ 32" using n48 less.prems(1) assms(1) by (elim disjE) simp_all
    then show ?thesis using n tt by (simp add: unat_add_no_wrap)
  qed
  have L: "length (input_text seed (Suc k)) = ?l + length (pattern sd) + 1"
    using input_text_length less.prems(2) by simp
  show ?case
  proof (cases "tt + ?n + 1 < sz")
    case False
    then have "unat sz \<le> length (input_text seed (Suc k))"
      using un L by (simp add: word_less_nat_alt)
    moreover have "init_loop sz p (write_bytes m p (input_text seed k)) tt ?n (fst (choose_pattern sd)) sd =
        Some (write_bytes m p (input_text seed k), tt)"
      using False by (subst init_loop.simps) simp
    ultimately show ?thesis using tt_def by (intro exI [of _ k]) simp
  next
    case True
    then have lt: "length (input_text seed (Suc k)) < unat sz"
      using un L by (simp add: word_less_nat_alt)
    have pos: "0 < ?n" using n n48 by (auto simp: word_gt_0 unat_gt_0)
    have u: "(ucast tt :: addr) = of_nat ?l" using tt by (metis of_nat_unat)
    have "put_pattern (write_bytes m p (input_text seed k)) (p + ucast tt) (fst (choose_pattern sd)) ?n =
        write_bytes m p (input_text seed (Suc k))"
      using assms(1) L lt less.prems(2) put_pattern_write [of ?n "pattern sd"] n
      by (simp add: pattern_def [symmetric] u input_text_Suc write_bytes_append)
    moreover have "tt + ?n + 1 = of_nat (length (input_text seed (Suc k)))"
      using un L by (metis of_nat_unat ucast_id)
    ultimately have "init_loop sz p (write_bytes m p (input_text seed k)) tt ?n (fst (choose_pattern sd)) sd =
        init_loop sz p (write_bytes m p (input_text seed (Suc k))) (of_nat (length (input_text seed (Suc k))))
          (snd (choose_pattern (sd + 1))) (fst (choose_pattern (sd + 1))) (sd + 1)"
      using True pos by (subst init_loop.simps) (simp add: Let_def)
    note step = this
    have sd: "sd + 1 = seed + of_nat (Suc (Suc k))" using less.prems(2) by simp
    have d: "unat sz - length (input_text seed (Suc k)) < unat sz - length (input_text seed k)"
      using lt L by linarith
    from less.hyps [OF d less_imp_le [OF lt] sd] obtain k' where "Suc k \<le> k'" "init_loop sz p (write_bytes m p (input_text seed (Suc k)))
          (of_nat (length (input_text seed (Suc k)))) (snd (choose_pattern (sd + 1))) (fst (choose_pattern (sd + 1))) (sd + 1) =
        Some (write_bytes m p (input_text seed k'), of_nat (length (input_text seed k')))"
      "k' = Suc k \<or> length (input_text seed k') < unat sz" "unat sz \<le> length (input_text seed (Suc k'))"
      by blast
    then show ?thesis using step lt tt_def by (intro exI [of _ k']) auto
  qed
qed

lemma core_init_state_run:
  assumes "1 \<le> unat sz" and "unat sz \<le> 2 ^ 31"
  shows "\<exists>k. core_init_state sz seed p m =
       Some (write_bytes m p (input_text seed k @ replicate (unat sz - length (input_text seed k)) 0)) \<and>
     length (input_text seed k) < unat sz \<and> (k = 0 \<or> length (input_text seed k) + 1 < unat sz) \<and>
     unat sz \<le> Suc (length (input_text seed (Suc k)))"
proof -
  have s1: "unat (sz - 1) = unat sz - 1" using assms(1) by (metis unat_minus_one unat_0 not_one_le_zero)
  have fin: ?thesis if k: "init_loop (sz - 1) p m 0 0 [] seed =
      Some (write_bytes m p (input_text seed k), of_nat (length (input_text seed k)))"
      "length (input_text seed k) < unat sz" "k = 0 \<or> length (input_text seed k) + 1 < unat sz"
      "unat (sz - 1) \<le> length (input_text seed (Suc k))" for k
  proof -
    let ?l = "length (input_text seed k)"
    have "unat (of_nat ?l :: u32) = ?l" by (rule unat_of_nat_lt) (use k(2) assms(2) in simp)
    then have "zero_fill (write_bytes m p (input_text seed k)) p (of_nat ?l) sz =
        write_bytes m p (input_text seed k @ replicate (unat sz - ?l) 0)"
      using k(2) assms(2) by (simp add: zero_fill_def fold_zero write_bytes_append)
    then show ?thesis using k s1 by (intro exI [of _ k]) (simp add: core_init_state_def)
  qed
  show ?thesis
  proof (cases "1 < sz - 1")
    case False
    then have "unat (sz - 1) \<le> 1" by (simp add: word_less_nat_alt)
    moreover have "init_loop (sz - 1) p m 0 0 [] seed = Some (m, 0)"
      using False by (subst init_loop.simps) simp
    ultimately show ?thesis using assms(1) input_text_length [of seed 0]
      by (intro fin [of 0]) simp_all
  next
    case True
    then have "init_loop (sz - 1) p m 0 0 [] seed = init_loop (sz - 1) p m 0
        (snd (choose_pattern (seed + 1))) (fst (choose_pattern (seed + 1))) (seed + 1)"
      by (subst init_loop.simps) (simp add: Let_def)
    moreover have "unat (sz - 1) < 2 ^ 31" using s1 assms by linarith
    then obtain k where k: "init_loop (sz - 1) p m 0
        (snd (choose_pattern (seed + 1))) (fst (choose_pattern (seed + 1))) (seed + 1) =
        Some (write_bytes m p (input_text seed k), of_nat (length (input_text seed k)))"
      "k = 0 \<or> length (input_text seed k) < unat (sz - 1)" "unat (sz - 1) \<le> length (input_text seed (Suc k))"
      using init_loop_from [of "sz - 1" seed 0 "seed + 1" p m] by auto
    ultimately show ?thesis using s1 assms(1) by (intro fin [of k]) auto
  qed
qed

text \<open>For every size from 1 to \<open>2^31\<close>, \<open>core_init_state\<close> ends; it fills exactly the \<open>size\<close> bytes
  of the block, with as many whole patterns as leave room for the terminator, each followed by a
  comma, and with zeros after them, at least one: the text that the machine then scans is terminated
  inside the block.\<close>

theorem core_init_state_correct:
  assumes "1 \<le> unat sz" and "unat sz \<le> 2 ^ 31"
  shows "\<exists>k. core_init_state sz seed p m =
       Some (write_bytes m p (input_text seed k @ replicate (unat sz - length (input_text seed k)) 0)) \<and>
     length (input_text seed k) < unat sz \<and> unat sz \<le> Suc (length (input_text seed (Suc k)))"
  using core_init_state_run [OF assms] by blast

theorem core_init_state_correct_witness:
  "\<exists>k m'. core_init_state 2000 0 0x100 (\<lambda>_. 7) = Some m' \<and> length (input_text 0 k) < 2000"
  using core_init_state_correct [of 2000 0 "0x100" "\<lambda>_. 7"] by auto

section \<open>The corruption and its undoing\<close>

definition visited :: "addr \<Rightarrow> nat \<Rightarrow> nat \<Rightarrow> addr \<Rightarrow> bool" where
  \<comment> \<open>every \<open>d\<close>-th address of the block of \<open>n\<close> bytes at \<open>p\<close>\<close>
  "visited p n d a \<longleftrightarrow> unat (a - p) < n \<and> d dvd unat (a - p)"

definition corrupted :: "addr \<Rightarrow> nat \<Rightarrow> nat \<Rightarrow> s16 \<Rightarrow> mem \<Rightarrow> mem" where
  "corrupted p n d seed m =
     (\<lambda>a. if visited p n d a \<and> m a \<noteq> chr8 CHR '','' then m a XOR ucast seed else m a)"

abbreviation flip :: "s16 \<Rightarrow> u8 \<Rightarrow> u8" where
  \<comment> \<open>what a pass does to a byte it visits\<close>
  "flip seed c \<equiv> (if c \<noteq> chr8 CHR '','' then c XOR ucast seed else c)"

lemma corrupt_loop_from:
  assumes d: "scast step = (of_nat d :: addr)" "0 < d" and b: "unat p + n + d < 2 ^ 64"
  shows "d dvd j \<Longrightarrow> j < n + d \<Longrightarrow> corrupt_loop (p + of_nat n) seed step (p + of_nat j) m =
     Some (\<lambda>a. if visited p n d a \<and> j \<le> unat (a - p) \<and> m a \<noteq> chr8 CHR '','' then m a XOR ucast seed else m a)"
proof (induction "n - j" arbitrary: j m rule: less_induct)
  case less
  have uj: "unat (p + of_nat j) = unat p + j" and un: "unat (p + of_nat n) = unat p + n"
    using less.prems b by (simp_all add: unat_offset)
  show ?case
  proof (cases "j < n")
    case False
    then show ?thesis
      using uj un by (subst corrupt_loop.simps) (auto simp: word_less_nat_alt visited_def fun_eq_iff)
  next
    case True
    let ?m = "if m (p + of_nat j) \<noteq> chr8 CHR '','' then m(p + of_nat j := m (p + of_nat j) XOR ucast seed) else m"
    have "corrupt_loop (p + of_nat n) seed step (p + of_nat j) m =
        corrupt_loop (p + of_nat n) seed step (p + of_nat (j + d)) ?m"
      using True uj un d by (subst corrupt_loop.simps) (simp add: word_less_nat_alt ac_simps)
    also have "\<dots> = Some (\<lambda>a. if visited p n d a \<and> j + d \<le> unat (a - p) \<and> ?m a \<noteq> chr8 CHR '','' then ?m a XOR ucast seed else ?m a)"
      by (rule less.hyps) (use less.prems True d(2) in auto)
    also have "\<dots> = Some (\<lambda>a. if visited p n d a \<and> j \<le> unat (a - p) \<and> m a \<noteq> chr8 CHR '','' then m a XOR ucast seed else m a)"
    proof (intro arg_cong [where f = Some] ext)
      fix a
      have at: "a = p + of_nat j \<longleftrightarrow> unat (a - p) = j"
      proof
        assume "unat (a - p) = j"
        then have "a - p = of_nat j" by (metis of_nat_unat ucast_id)
        then show "a = p + of_nat j" by (metis diff_add_cancel add.commute)
      qed (use True b in \<open>simp add: unat_of_nat_lt\<close>)
      have v: "visited p n d (p + of_nat j)"
        using True less.prems b by (simp add: visited_def unat_of_nat_lt)
      have nx: "j \<le> unat (a - p) \<longleftrightarrow> unat (a - p) = j \<or> j + d \<le> unat (a - p)" if "visited p n d a"
      proof -
        have "d dvd unat (a - p)" using that by (simp add: visited_def)
        then obtain u where "unat (a - p) = d * u" by (rule dvdE)
        moreover obtain w where "j = d * w" using less.prems(1) by (rule dvdE)
        moreover have "d * w \<le> d * u \<longleftrightarrow> d * u = d * w \<or> d * w + d \<le> d * u"
        proof -
          have "d * w + d = d * Suc w" by simp
          then show ?thesis using d(2) by (simp only: mult_le_cancel1 mult_cancel1) linarith
        qed
        ultimately show ?thesis by simp
      qed
      show "(if visited p n d a \<and> j + d \<le> unat (a - p) \<and> ?m a \<noteq> chr8 CHR '','' then ?m a XOR ucast seed else ?m a)
          = (if visited p n d a \<and> j \<le> unat (a - p) \<and> m a \<noteq> chr8 CHR '','' then m a XOR ucast seed else m a)"
      proof (cases "a = p + of_nat j")
        case True
        then show ?thesis using at v d(2) by auto
      next
        case False
        then have "?m a = m a" by simp
        then show ?thesis using nx at False by auto
      qed
    qed
    finally show ?thesis .
  qed
qed

lemma scast_pos:
  assumes "0 < sint (step :: s16)"
  shows "scast step = (of_nat (nat (sint step)) :: addr)" "0 < nat (sint step)" "nat (sint step) < 2 ^ 15"
proof -
  show "scast step = (of_nat (nat (sint step)) :: addr)"
    unfolding scast_eq using assms by (metis of_int_of_nat_eq int_nat_eq less_imp_le)
  show "0 < nat (sint step)" using assms by simp
  show "nat (sint step) < 2 ^ 15" using sint_lt [of step] by simp
qed


lemma corrupt_block:
  assumes "0 < sint step" and "unat p + unat n + nat (sint step) < 2 ^ 64"
  shows "corrupt_loop (p + ucast n) seed step p m = Some (corrupted p (unat n) (nat (sint step)) seed m)"
proof -
  have "(ucast n :: addr) = of_nat (unat n)" by (metis of_nat_unat)
  then show ?thesis
    using corrupt_loop_from [OF scast_pos(1,2) [OF assms(1)] assms(2), of 0 seed m] scast_pos(2) [OF assms(1)]
    by (simp add: corrupted_def)
qed

text \<open>The corruption of a block visits every \<open>step\<close>-th byte of it, and changes each of them that is
  not a comma by the seed; nothing else in memory changes. Doing it twice with the same seed restores
  the block exactly when no visited byte is turned into a comma, because the second pass leaves commas
  alone: the comment that the corruption is undone when the two seeds are equal holds only then.\<close>

theorem corruption_undone:
  assumes "0 < sint step" and "unat p + unat n + nat (sint step) < 2 ^ 64"
  shows "\<exists>m1 m2. corrupt_loop (p + ucast n) seed step p m = Some m1 \<and>
     corrupt_loop (p + ucast n) seed step p m1 = Some m2 \<and>
     m1 = corrupted p (unat n) (nat (sint step)) seed m \<and>
     (m2 = m \<longleftrightarrow> (\<forall>a. visited p (unat n) (nat (sint step)) a \<longrightarrow> m a \<noteq> chr8 CHR '','' \<longrightarrow>
        m a XOR ucast seed \<noteq> chr8 CHR '',''))"
proof -
  let ?c = "corrupted p (unat n) (nat (sint step)) seed"
  have x: "(b XOR s) XOR s = b" for b s :: u8 by (simp add: xor.assoc)
  have "?c (?c m) = m \<longleftrightarrow> (\<forall>a. ?c (?c m) a = m a)" by (auto simp: fun_eq_iff)
  also have "\<dots> \<longleftrightarrow> (\<forall>a. visited p (unat n) (nat (sint step)) a \<longrightarrow> m a \<noteq> chr8 CHR '','' \<longrightarrow>
      m a XOR ucast seed \<noteq> chr8 CHR '','')"
    by (rule all_cong1) (auto simp: corrupted_def x)
  finally show ?thesis using corrupt_block [OF assms] by simp
qed

theorem corruption_undone_witness:
  "\<exists>m1. corrupt_loop (0x100 + ucast (1 :: u32)) 0x19 1 0x100 (\<lambda>_. chr8 CHR ''5'') = Some m1 \<and>
     corrupt_loop (0x100 + ucast (1 :: u32)) 0x19 1 0x100 m1 \<noteq> Some (\<lambda>_. chr8 CHR ''5'')"
proof -
  have "visited 0x100 (unat (1 :: u32)) (nat (sint (1 :: s16))) 0x100" by (simp add: visited_def)
  moreover have "chr8 CHR ''5'' XOR ucast (0x19 :: s16) = chr8 CHR '',''" "chr8 CHR ''5'' \<noteq> chr8 CHR '',''"
    by (simp_all add: chr8_def)
  ultimately show ?thesis
    using corruption_undone [of 1 "0x100" 1 "0x19" "\<lambda>_. chr8 CHR ''5''"] by auto
qed

section \<open>The benchmark ends\<close>

definition terminated :: "mem \<Rightarrow> addr \<Rightarrow> nat \<Rightarrow> bool" where
  \<comment> \<open>the first zero from \<open>p\<close> on is at \<open>p + n\<close>\<close>
  "terminated m p n \<longleftrightarrow> (\<forall>i < n. m (p + of_nat i) \<noteq> 0) \<and> m (p + of_nat n) = 0"

lemma transition_progress:
  assumes "terminated m p n" and "0 < n"
  shows "\<exists>st j t'. core_state_transition m p t = Some (st, p + of_nat j, t') \<and> 0 < j \<and> j \<le> n"
proof -
  define w where "w = takeWhile (\<lambda>c. c \<noteq> chr8 CHR '','') (read_bytes m p n)"
  have le: "length w \<le> n" using length_takeWhile_le [of _ "read_bytes m p n"] by (simp add: w_def)
  have nth: "w ! i = m (p + of_nat i)" if "i < length w" for i
    using that le unfolding w_def by (simp add: takeWhile_nth nth_read_bytes)
  then have st: "stored m p w" unfolding stored_def by (intro nth_equalityI) (simp_all add: nth_read_bytes)
  have "c \<noteq> 0 \<and> c \<noteq> chr8 CHR '',''" if "c \<in> set w" for c
  proof -
    have "c \<noteq> chr8 CHR '',''" using that unfolding w_def by (auto dest: set_takeWhileD)
    moreover have "c \<noteq> 0" using that nth le assms(1) by (auto simp: in_set_conv_nth terminated_def)
    ultimately show ?thesis by simp
  qed
  then have wc: "word_chars w" by (simp add: word_chars_def)
  have e: "m (p + of_nat (length w)) = (if length w < n then chr8 CHR '','' else 0)"
  proof (cases "length w < n")
    case True
    then show ?thesis
      using nth_length_takeWhile [of "\<lambda>c. c \<noteq> chr8 CHR '',''" "read_bytes m p n"]
      by (simp add: w_def nth_read_bytes)
  next
    case False
    then show ?thesis using le assms(1) by (simp add: terminated_def)
  qed
  let ?st = "foldl next_state CORE_START w"
  define j where "j = scanned CORE_START w + (if ?st \<noteq> CORE_INVALID \<and> length w < n then 1 else 0)"
  have "\<exists>t'. core_state_transition m p t = Some (?st, p + of_nat j, t')"
  proof (cases "length w < n")
    case True
    then have e1: "m (p + of_nat (length w)) = chr8 CHR '',''" using e by simp
    show ?thesis
      using transition_loop_run [OF st wc e1, of CORE_START t] True
      by (cases "?st = CORE_INVALID") (simp_all add: core_state_transition_def j_def ac_simps)
  next
    case False
    then have e0: "m (p + of_nat (length w)) = 0" using e by simp
    have "chr8 CHR '','' \<noteq> 0" by (simp add: chr8_def)
    then show ?thesis
      using transition_loop_run [OF st wc e0, of CORE_START t] False
      by (simp add: core_state_transition_def j_def)
  qed
  moreover have "0 < j"
  proof (cases w)
    case Nil
    then show ?thesis using assms(2) by (simp add: j_def)
  qed (simp add: j_def)
  moreover have "j \<le> n" using scanned_le [of CORE_START w] le by (auto simp: j_def)
  ultimately show ?thesis by blast
qed

lemma terminated_rest:
  assumes "terminated m p n" and "j \<le> n"
  shows "terminated m (p + of_nat j) (n - j)"
proof -
  have "m (p + of_nat j + of_nat i) \<noteq> 0" if "i < n - j" for i
  proof -
    have "j + i < n" using that by simp
    then have "m (p + of_nat (j + i)) \<noteq> 0" using assms(1) unfolding terminated_def by blast
    then show ?thesis by (simp add: add.assoc)
  qed
  moreover have "p + of_nat j + of_nat (n - j) = p + of_nat n" using assms(2) by (simp add: of_nat_diff)
  ultimately show ?thesis using assms(1) unfolding terminated_def by metis
qed

lemma scan_loop_ends: "terminated m p n \<Longrightarrow> \<exists>final' track'. scan_loop m p final track = Some (final', track')"
proof (induction n arbitrary: p final track rule: less_induct)
  case (less n)
  show ?case
  proof (cases "n = 0")
    case True
    then show ?thesis using less.prems by (subst scan_loop.simps) (simp add: terminated_def)
  next
    case False
    then have "m (p + of_nat 0) \<noteq> 0" using less.prems unfolding terminated_def by blast
    then have nz: "m p \<noteq> 0" by simp
    obtain st j t' where s: "core_state_transition m p track = Some (st, p + of_nat j, t')" "0 < j" "j \<le> n"
      using transition_progress [OF less.prems, of track] False by blast
    then have "scan_loop m p final track = scan_loop m (p + of_nat j) (count st final) t'"
      using nz by (subst scan_loop.simps) simp
    then show ?thesis using less.IH [OF _ terminated_rest [OF less.prems s(3)]] s(2,3) by simp
  qed
qed

lemma core_bench_state_ends:
  assumes "0 < sint step" and "unat p + unat n + nat (sint step) < 2 ^ 64"
    and "terminated m p i" and "terminated (corrupted p (unat n) (nat (sint step)) seed1 m) p j"
  shows "\<exists>crc'. core_bench_state n p seed1 seed2 step crc m = Some (crc',
     corrupted p (unat n) (nat (sint step)) seed2 (corrupted p (unat n) (nat (sint step)) seed1 m))"
proof -
  obtain f1 t1 where 1: "scan_loop m p (\<lambda>_. 0) (\<lambda>_. 0) = Some (f1, t1)"
    using scan_loop_ends [OF assms(3)] by blast
  moreover obtain f2 t2 where "scan_loop (corrupted p (unat n) (nat (sint step)) seed1 m) p f1 t1 = Some (f2, t2)"
    using scan_loop_ends [OF assms(4)] by blast
  ultimately show ?thesis using corrupt_block [OF assms(1,2)] by (simp add: core_bench_state_def)
qed

lemma corrupted_twice:
  "corrupted p n d seed2 (corrupted p n d seed1 m) a = (if visited p n d a then flip seed2 (flip seed1 (m a)) else m a)"
  by (simp add: corrupted_def)

lemma flip_flip: "ucast seed1 = (ucast seed2 :: u8) \<Longrightarrow>
    flip seed2 (flip seed1 c) = c \<longleftrightarrow> (c \<noteq> chr8 CHR '','' \<longrightarrow> c XOR ucast seed1 \<noteq> chr8 CHR '','')"
  by (auto simp: xor.assoc)

lemma corrupted_restores:
  assumes "ucast seed1 = (ucast seed2 :: u8)"
  shows "corrupted p n d seed2 (corrupted p n d seed1 m) = m \<longleftrightarrow>
    (\<forall>a. visited p n d a \<longrightarrow> m a \<noteq> chr8 CHR '','' \<longrightarrow> m a XOR ucast seed1 \<noteq> chr8 CHR '','')"
  unfolding fun_eq_iff corrupted_twice
  by (rule all_cong1) (use flip_flip [OF assms] in metis)

text \<open>Of two neighbouring terminators a step of at least 2 visits one at most: a text that ends in two zeros is still
  terminated after the corruption.\<close>

lemma corrupted_terminated:
  assumes i: "m (p + of_nat i) = 0" "m (p + of_nat (Suc i)) = 0" and d: "2 \<le> d" and b: "i + 1 < 2 ^ 64"
  shows "\<exists>j. terminated (corrupted p n d seed m) p j"
proof -
  have "\<not> (d dvd i \<and> d dvd Suc i)"
  proof
    assume "d dvd i \<and> d dvd Suc i"
    then have "d dvd Suc i - i" by (intro dvd_diff_nat) simp_all
    then show False using d by simp
  qed
  moreover have "unat (p + of_nat i - p) = i" "unat (p + of_nat (Suc i) - p) = Suc i"
    using b by (simp_all add: unat_of_nat_lt del: of_nat_Suc)
  ultimately have "\<exists>j. corrupted p n d seed m (p + of_nat j) = 0"
    using i by (metis corrupted_def visited_def)
  from exists_least_iff [THEN iffD1, OF this] show ?thesis unfolding terminated_def by blast
qed

lemma core_bench_state_run:
  assumes "2 \<le> sint step" and "unat p + unat n + nat (sint step) < 2 ^ 64"
    and "terminated m p i" and "m (p + of_nat (Suc i)) = 0" and "i + 1 < 2 ^ 64"
  shows "\<exists>crc'. core_bench_state n p seed1 seed2 step crc m = Some (crc',
     corrupted p (unat n) (nat (sint step)) seed2 (corrupted p (unat n) (nat (sint step)) seed1 m))"
proof -
  have z: "m (p + of_nat i) = 0" using assms(3) by (simp add: terminated_def)
  have d: "2 \<le> nat (sint step)" "0 < sint step" using assms(1) by simp_all
  obtain j where "terminated (corrupted p (unat n) (nat (sint step)) seed1 m) p j"
    using corrupted_terminated [OF z assms(4) d(1) assms(5)] by blast
  then show ?thesis by (rule core_bench_state_ends [OF d(2) assms(2,3)])
qed

lemma input_text_chars: "c \<in> set (input_text seed k) \<Longrightarrow> c \<noteq> 0"
  using pattern_chars by (auto simp: input_text_def word_chars_def chr8_def split: if_splits)

lemma init_terminated:
  assumes "length (input_text seed k) < unat sz"
  shows "terminated (write_bytes m p (input_text seed k @ replicate (unat (sz :: u32) - length (input_text seed k)) 0))
     p (length (input_text seed k))"
proof -
  let ?t = "input_text seed k" and ?b = "input_text seed k @ replicate (unat sz - length (input_text seed k)) 0"
  have l: "length ?b = unat sz" "unat sz < 2 ^ 32" using assms unat_lt_2p [of sz] by simp_all
  have "write_bytes m p ?b (p + of_nat i) = ?b ! i" if "i < unat sz" for i
    using l that by (simp add: write_bytes_apply in_region_def unat_of_nat_lt)
  then show ?thesis
    using assms input_text_chars [OF nth_mem] by (auto simp: terminated_def nth_append)
qed

lemma init_two_terminators:
  assumes "2 \<le> unat sz" and "unat sz \<le> 2 ^ 31"
  shows "\<exists>k m'. core_init_state sz seed p m = Some m' \<and>
     m' = write_bytes m p (input_text seed k @ replicate (unat sz - length (input_text seed k)) 0) \<and>
     length (input_text seed k) + 1 < unat sz \<and> terminated m' p (length (input_text seed k)) \<and>
     m' (p + of_nat (Suc (length (input_text seed k)))) = 0"
proof -
  obtain k where k: "core_init_state sz seed p m =
       Some (write_bytes m p (input_text seed k @ replicate (unat sz - length (input_text seed k)) 0))"
     "length (input_text seed k) < unat sz" "k = 0 \<or> length (input_text seed k) + 1 < unat sz"
    using core_init_state_run [of sz seed p m] assms by auto
  let ?n = "length (input_text seed k)"
  let ?b = "input_text seed k @ replicate (unat sz - ?n) 0"
  have n: "?n + 1 < unat sz" using k(3) assms(1) by (cases "k = 0") simp_all
  have l: "length ?b = unat sz" "unat sz < 2 ^ 32" using n unat_lt_2p [of sz] by simp_all
  have "write_bytes m p ?b (p + of_nat (Suc ?n)) = ?b ! Suc ?n"
    using n l by (simp add: write_bytes_apply in_region_def unat_of_nat_lt del: of_nat_Suc)
  also have "\<dots> = 0" using n by (simp add: nth_append)
  finally show ?thesis using k(1) n init_terminated [OF k(2), of m p] by blast
qed

text \<open>C13: initialising a block of at least 2 bytes and running the benchmark on it ends, whichever the two seeds are, for
  every step of at least 2 (the list benchmark uses steps from 0x22 on). The block is filled with the text and at
  least two zeros; at the end each byte that the step visits has been changed by the first seed and then by the
  second one, where a comma is left as it is by either pass, and nothing else in memory has changed. If the two
  seeds have the same low byte, this restores the block exactly when no visited byte of it was turned into a comma.\<close>

theorem state_benchmark_total:
  assumes "2 \<le> unat sz" and "unat sz \<le> 2 ^ 31" and "2 \<le> sint step"
    and "unat p + unat sz + nat (sint step) < 2 ^ 64"
  shows "\<exists>k m1 crc' m2. core_init_state sz seed p m = Some m1 \<and>
     m1 = write_bytes m p (input_text seed k @ replicate (unat sz - length (input_text seed k)) 0) \<and>
     length (input_text seed k) + 2 \<le> unat sz \<and>
     core_bench_state sz p seed1 seed2 step crc m1 = Some (crc', m2) \<and>
     (\<forall>a. m2 a = (if visited p (unat sz) (nat (sint step)) a then flip seed2 (flip seed1 (m1 a)) else m1 a)) \<and>
     (ucast seed1 = (ucast seed2 :: u8) \<longrightarrow> (m2 = m1 \<longleftrightarrow>
        (\<forall>a. visited p (unat sz) (nat (sint step)) a \<longrightarrow> m1 a \<noteq> chr8 CHR '','' \<longrightarrow> m1 a XOR ucast seed1 \<noteq> chr8 CHR '','')))"
proof -
  obtain k m1 where k: "core_init_state sz seed p m = Some m1"
     "m1 = write_bytes m p (input_text seed k @ replicate (unat sz - length (input_text seed k)) 0)"
     "length (input_text seed k) + 1 < unat sz" "terminated m1 p (length (input_text seed k))"
     "m1 (p + of_nat (Suc (length (input_text seed k)))) = 0"
    using init_two_terminators [OF assms(1,2)] by blast
  let ?c = "corrupted p (unat sz) (nat (sint step))"
  have "length (input_text seed k) + 1 < 2 ^ 64" using k(3) assms(2) by simp
  then obtain crc' where r: "core_bench_state sz p seed1 seed2 step crc m1 = Some (crc', ?c seed2 (?c seed1 m1))"
    using core_bench_state_run [OF assms(3,4) k(4,5)] by blast
  show ?thesis
    by (intro exI conjI allI impI) (rule k(1), rule k(2), use k(3) in simp, rule r, rule corrupted_twice, erule corrupted_restores)
qed

text \<open>The seeds of the performance, the validation and the profile run have the low bytes 0, 0x15 and 8; the last two
  turn only a \<open>9\<close> or a \<open>$\<close> into a comma, and no pattern has one.\<close>

definition run_seed :: "s16 \<Rightarrow> bool" where
  "run_seed s \<longleftrightarrow> ucast s \<in> {0, 0x15, 8 :: u8}"

lemma pattern_no_9: "c \<in> set (pattern seed) \<Longrightarrow> c \<noteq> chr8 CHR ''9'' \<and> c \<noteq> chr8 CHR ''$''"
proof -
  assume c: "c \<in> set (pattern seed)"
  have "\<forall>w \<in> set (intpat @ floatpat @ scipat @ errpat). chr8 CHR ''9'' \<notin> set w \<and> chr8 CHR ''$'' \<notin> set w"
    by (simp add: intpat_def floatpat_def scipat_def errpat_def str8_def chr8_def)
  then show ?thesis using c pattern_in [of seed] by blast
qed

lemma input_text_no_9: "c \<in> set (input_text seed k) \<Longrightarrow> c \<noteq> chr8 CHR ''9'' \<and> c \<noteq> chr8 CHR ''$''"
  using pattern_no_9 by (auto simp: input_text_def chr8_def split: if_splits)

lemma run_seed_comma:
  assumes "run_seed s" and "b XOR ucast s = chr8 CHR '',''"
  shows "b \<in> {chr8 CHR '','', chr8 CHR ''9'', chr8 CHR ''$''}"
proof -
  have "b = chr8 CHR '','' XOR ucast s" unfolding assms(2) [symmetric] by (simp add: xor.assoc)
  then show ?thesis using assms(1) unfolding run_seed_def by (auto simp: chr8_def)
qed

lemma run_seed_restores:
  assumes "run_seed s" and "length (input_text seed k) + 1 < unat (sz :: u32)" and "unat (a - p) < unat sz"
    and "b = write_bytes m p (input_text seed k @ replicate (unat sz - length (input_text seed k)) 0) a"
    and "b \<noteq> chr8 CHR '',''"
  shows "b XOR ucast s \<noteq> chr8 CHR '',''"
proof -
  let ?t = "input_text seed k @ replicate (unat sz - length (input_text seed k)) 0"
  have l: "length ?t = unat sz" "unat sz < 2 ^ 32" using assms(2) unat_lt_2p [of sz] by simp_all
  have "b = ?t ! unat (a - p)" using assms(3,4) l by (simp add: write_bytes_apply in_region_def)
  then have "b \<in> set ?t" using assms(3) l(1) by (metis nth_mem)
  then have "b \<noteq> chr8 CHR ''9'' \<and> b \<noteq> chr8 CHR ''$''" using input_text_no_9 [of b seed k] by (auto simp: chr8_def)
  then show ?thesis using run_seed_comma [OF assms(1), of b] assms(5) by blast
qed

theorem state_benchmark_total_witness:
  "\<exists>m' crc'. core_init_state 666 0 0x100 (\<lambda>_. 7) = Some m' \<and>
     core_bench_state 666 0x100 0x3415 0x3415 0x22 5 m' = Some (crc', m')"
proof -
  have "2 \<le> unat (666 :: u32)" "unat (666 :: u32) \<le> 2 ^ 31" "2 \<le> sint (0x22 :: s16)"
    "unat (0x100 :: addr) + unat (666 :: u32) + nat (sint (0x22 :: s16)) < 2 ^ 64" by simp_all
  from state_benchmark_total [OF this, of 0 "\<lambda>_. 7" "0x3415" "0x3415" 5]
  obtain k m1 crc' m2 where r: "core_init_state 666 0 0x100 (\<lambda>_. 7) = Some m1"
    "m1 = write_bytes (\<lambda>_. 7) 0x100 (input_text 0 k @ replicate (unat (666 :: u32) - length (input_text 0 k)) 0)"
    "length (input_text 0 k) + 2 \<le> unat (666 :: u32)"
    "core_bench_state 666 0x100 0x3415 0x3415 0x22 5 m1 = Some (crc', m2)"
    "ucast (0x3415 :: s16) = (ucast (0x3415 :: s16) :: u8) \<longrightarrow> (m2 = m1 \<longleftrightarrow>
       (\<forall>a. visited 0x100 (unat (666 :: u32)) (nat (sint (0x22 :: s16))) a \<longrightarrow> m1 a \<noteq> chr8 CHR '','' \<longrightarrow>
         m1 a XOR ucast (0x3415 :: s16) \<noteq> chr8 CHR '',''))" by blast
  have "m1 a XOR ucast (0x3415 :: s16) \<noteq> chr8 CHR '',''"
    if "visited 0x100 (unat (666 :: u32)) (nat (sint (0x22 :: s16))) a" "m1 a \<noteq> chr8 CHR '',''" for a
    by (rule run_seed_restores [where seed = 0 and k = k and sz = 666 and p = "0x100" and a = a and m = "\<lambda>_. 7"])
      (use r(2,3) that in \<open>simp_all add: visited_def run_seed_def\<close>)
  then have "m2 = m1" using r(5) by blast
  then show ?thesis using r(1,4) by blast
qed

text \<open>A corruption that visits the terminators removes them: with a step of 1 and a seed whose low byte
  does not occur in the block, no zero is left in it, and the second run reads on past the block.\<close>

lemma corruption_removes_terminators:
  assumes "\<forall>i < n. m (p + of_nat i) \<noteq> ucast seed" and "n < 2 ^ 64" and "i < n"
  shows "corrupted p n 1 seed m (p + of_nat i) \<noteq> 0"
proof -
  have "b XOR s = 0 \<longleftrightarrow> b = s" for b s :: u8
    using xor_cancel [of b s s] by simp
  then show ?thesis using assms by (auto simp: corrupted_def visited_def unat_of_nat_lt chr8_def)
qed

end
