(* ===== verification/Core_Matrix.thy ===== *)
theory Core_Matrix
  imports Core_Util
begin

text \<open>
  \<open>software-test/benchmarks/coremark/src/core_matrix.c\<close>. The matrices \<open>A\<close> and \<open>B\<close> of 16-bit values and
  \<open>C\<close> of 32-bit results are arrays, functions from the index; the block they live in shows in their addresses only.
  The dimension and the loop counters are \<open>ee_u32\<close>, so that the index \<open>i * N + j\<close> is computed modulo \<open>2^32\<close>. A result is an \<open>int\<close> whose signed arithmetic is range-checked: an
  overflow is an error of the operation.
\<close>

section \<open>Loops that may fail\<close>

definition for2 :: "nat \<Rightarrow> (nat \<Rightarrow> nat \<Rightarrow> 's \<Rightarrow> 'e + 's) \<Rightarrow> 's \<Rightarrow> 'e + 's" where
  \<comment> \<open>\<open>for (i = 0; i < N; i++) for (j = 0; j < N; j++)\<close>\<close>
  "for2 N f s = rfold (\<lambda>i. rfold (f i) [0..<N]) [0..<N] s"

section \<open>The operations\<close>

type_synonym matdat = "nat \<Rightarrow> s16"
type_synonym matres = "nat \<Rightarrow> int"

definition entry :: "u32 \<Rightarrow> nat \<Rightarrow> nat \<Rightarrow> nat" where
  \<comment> \<open>the index \<open>i * N + j\<close> for the values of the counters\<close>
  "entry N i j = unat (of_nat i * N + of_nat j)"

definition matrix_clip :: "s16 \<Rightarrow> bool \<Rightarrow> s16" where
  "matrix_clip x y = (if y then x AND 0x0ff else x AND 0xffff)"

definition matrix_big :: "s16 \<Rightarrow> s16" where "matrix_big x = 0xf000 OR x"

definition bit_extract :: "int \<Rightarrow> nat \<Rightarrow> nat \<Rightarrow> int" where
  "bit_extract x f t = (x div 2 ^ f) mod 2 ^ t"

definition add32 :: "int \<Rightarrow> int \<Rightarrow> c_error + int" where "add32 a b = s32 (a + b)"

definition matrix_sum :: "u32 \<Rightarrow> matres \<Rightarrow> s16 \<Rightarrow> c_error + s16" where
  "matrix_sum N C clipval =
     rbind (for2 (unat N) (\<lambda>i j (tmp, prev, ret).
         let cur = C (entry N i j) in
         rbind (add32 tmp cur) (\<lambda>tmp.
           if sint clipval < tmp then Inr (0, cur, ret + 10)
           else Inr (tmp, cur, ret + (if prev < cur then 1 else 0)))) (0, 0, 0))
       (\<lambda>(tmp, prev, ret). Inr ret)"

definition matrix_mul_const :: "u32 \<Rightarrow> matres \<Rightarrow> matdat \<Rightarrow> s16 \<Rightarrow> c_error + matres" where
  "matrix_mul_const N C A val =
     for2 (unat N) (\<lambda>i j C. rbind (s32 (sint (A (entry N i j)) * sint val)) (\<lambda>v. Inr (C(entry N i j := v)))) C"

definition matrix_add_const :: "u32 \<Rightarrow> matdat \<Rightarrow> s16 \<Rightarrow> matdat" where
  "matrix_add_const N A val =
     fold (\<lambda>i. fold (\<lambda>j A. A(entry N i j := A (entry N i j) + val)) [0..<unat N]) [0..<unat N] A"

definition matrix_mul_vect :: "u32 \<Rightarrow> matres \<Rightarrow> matdat \<Rightarrow> matdat \<Rightarrow> c_error + matres" where
  "matrix_mul_vect N C A B =
     rfold (\<lambda>i C. rfold (\<lambda>j C.
         rbind (s32 (sint (A (entry N i j)) * sint (B j))) (\<lambda>p.
         rbind (add32 (C i) p) (\<lambda>v. Inr (C(i := v))))) [0..<unat N] (C(i := 0))) [0..<unat N] C"

definition matrix_mul_matrix :: "u32 \<Rightarrow> matres \<Rightarrow> matdat \<Rightarrow> matdat \<Rightarrow> c_error + matres" where
  "matrix_mul_matrix N C A B =
     for2 (unat N) (\<lambda>i j C. rfold (\<lambda>k C.
         rbind (s32 (sint (A (entry N i k)) * sint (B (entry N k j)))) (\<lambda>p.
         rbind (add32 (C (entry N i j)) p) (\<lambda>v. Inr (C(entry N i j := v))))) [0..<unat N] (C(entry N i j := 0))) C"

definition matrix_mul_matrix_bitextract :: "u32 \<Rightarrow> matres \<Rightarrow> matdat \<Rightarrow> matdat \<Rightarrow> c_error + matres" where
  \<comment> \<open>the two extracted fields are unsigned, so the sum is computed modulo \<open>2^32\<close>\<close>
  "matrix_mul_matrix_bitextract N C A B =
     for2 (unat N) (\<lambda>i j C. rfold (\<lambda>k C.
         rbind (s32 (sint (A (entry N i k)) * sint (B (entry N k j)))) (\<lambda>tmp.
         let v = C (entry N i j) + bit_extract tmp 2 4 * bit_extract tmp 5 7
         in Inr (C(entry N i j := sint (word_of_int v :: u32))))) [0..<unat N] (C(entry N i j := 0))) C"

record mat_params =
  mat_N :: u32
  mat_A :: matdat
  mat_B :: matdat
  mat_C :: matres

definition matrix_test :: "u32 \<Rightarrow> matres \<Rightarrow> matdat \<Rightarrow> matdat \<Rightarrow> s16 \<Rightarrow> c_error + s16 \<times> matres \<times> matdat" where
  \<comment> \<open>the checksum and the new values of \<open>C\<close> and \<open>A\<close>; \<open>B\<close> is only read\<close>
  "matrix_test N C A B val =
     (let clipval = matrix_big val; A = matrix_add_const N A val in
      rbind (matrix_mul_const N C A val) (\<lambda>C.
      rbind (matrix_sum N C clipval) (\<lambda>s. let crc = crc16 s 0 in
      rbind (matrix_mul_vect N C A B) (\<lambda>C.
      rbind (matrix_sum N C clipval) (\<lambda>s. let crc = crc16 s crc in
      rbind (matrix_mul_matrix N C A B) (\<lambda>C.
      rbind (matrix_sum N C clipval) (\<lambda>s. let crc = crc16 s crc in
      rbind (matrix_mul_matrix_bitextract N C A B) (\<lambda>C.
      rbind (matrix_sum N C clipval) (\<lambda>s. let crc = crc16 s crc in
        Inr (crc, C, matrix_add_const N A (- val)))))))))))"

definition core_bench_matrix :: "mat_params \<Rightarrow> s16 \<Rightarrow> u16 \<Rightarrow> c_error + u16 \<times> mat_params" where
  "core_bench_matrix p seed crc =
     rbind (matrix_test (mat_N p) (mat_C p) (mat_A p) (mat_B p) seed) (\<lambda>(r, C, A).
       Inr (crc16 r crc, p\<lparr>mat_C := C, mat_A := A\<rparr>))"

section \<open>Initialisation\<close>

definition align_mem :: "addr \<Rightarrow> addr" where
  "align_mem x = 4 + ((x - 1) AND NOT 3)"

partial_function (option) matrix_dim :: "u32 \<Rightarrow> u32 \<Rightarrow> u32 \<Rightarrow> u32 option" where
  \<comment> \<open>\<open>while (j < blksize) { i++; j = i * i * 2 * 4; }\<close>, then \<open>N = i - 1\<close>\<close>
  "matrix_dim blksize i j =
     (if j < blksize then matrix_dim blksize (i + 1) ((i + 1) * (i + 1) * 2 * 4) else Some (i - 1))"

record mat_init =
  mi_seed :: int
  mi_order :: int
  mi_A :: matdat
  mi_B :: matdat

definition init_element :: "nat \<Rightarrow> mat_init \<Rightarrow> c_error + mat_init" where
  \<comment> \<open>the body of the loops at index \<open>i * N + j\<close>\<close>
  "init_element k s =
     rbind (s32 (mi_order s * mi_seed s)) (\<lambda>p.
       let seed = c_mod p 65536;
           val = matrix_clip (word_of_int (seed + mi_order s)) False;
           val' = matrix_clip (word_of_int (sint val + mi_order s)) True
       in Inr \<lparr>mi_seed = seed, mi_order = mi_order s + 1, mi_A = (mi_A s)(k := val'), mi_B = (mi_B s)(k := val)\<rparr>)"

definition core_init_matrix ::
  "u32 \<Rightarrow> addr \<Rightarrow> int \<Rightarrow> mat_params \<Rightarrow> (c_error + u32 \<times> mat_params \<times> addr \<times> addr \<times> addr) option" where
  \<comment> \<open>\<open>N\<close>, the matrices, and the addresses of \<open>A\<close>, \<open>B\<close> and \<open>C\<close>\<close>
  "core_init_matrix blksize memblk seed p =
     Option.bind (matrix_dim blksize 0 0) (\<lambda>N.
       let a = align_mem memblk; b = a + 2 * ucast (N * N); c = align_mem (b + 2 * ucast (N * N)) in
       Some (rbind (for2 (unat N) (\<lambda>i j. init_element (entry N i j))
                \<lparr>mi_seed = (if seed = 0 then 1 else seed), mi_order = 1, mi_A = mat_A p, mi_B = mat_B p\<rparr>)
              (\<lambda>s. Inr (N, p\<lparr>mat_N := N, mat_A := mi_A s, mat_B := mi_B s\<rparr>, a, b, c))))"

section \<open>Loops over a matrix\<close>

lemma mat_index_inj:
  fixes i j i' j' N :: nat
  assumes "j < N" and "j' < N"
  shows "i * N + j = i' * N + j' \<longleftrightarrow> i = i' \<and> j = j'"
proof
  assume "i * N + j = i' * N + j'"
  then have "(i * N + j) div N = (i' * N + j') div N" "(i * N + j) mod N = (i' * N + j') mod N" by simp_all
  then show "i = i' \<and> j = j'" using assms by simp
qed simp

lemma for2_inv:
  assumes "P 0 s"
    and "\<And>i j s. i < N \<Longrightarrow> j < N \<Longrightarrow> P (i * N + j) s \<Longrightarrow> \<exists>s'. f i j s = Inr s' \<and> P (Suc (i * N + j)) s'"
  shows "\<exists>s'. for2 N f s = Inr s' \<and> P (N * N) s'"
proof -
  have row: "\<exists>s'. rfold (f i) [0..<N] s = Inr s' \<and> P (Suc i * N) s'" if "i < N" "P (i * N) s" for i s
  proof -
    have "\<exists>s'. rfold (f i) [0..<N] s = Inr s' \<and> P (i * N + N) s'"
      by (rule rfold_inv [where P = "\<lambda>j. P (i * N + j)"]) (use assms(2) that in auto)
    then show ?thesis by (simp add: add.commute)
  qed
  show ?thesis
    unfolding for2_def by (rule rfold_inv [where P = "\<lambda>i. P (i * N)"]) (use assms(1) row in auto)
qed

text \<open>Up to the dimension 65536 the indices do not wrap around.\<close>

lemma entry_eq:
  assumes "unat N \<le> 65536" and "i < unat N" and "j < unat N"
  shows "entry N i j = i * unat N + j"
proof -
  have "i * unat N + j < Suc i * unat N" using assms(3) by simp
  also have "\<dots> \<le> 65536 * 65536" using assms(1,2) by (intro mult_mono) simp_all
  finally have "unat (of_nat (i * unat N + j) :: u32) = i * unat N + j" by (intro unat_of_nat_lt) simp
  then show ?thesis by (simp add: entry_def)
qed

text \<open>From 65537 on they do: the program then writes an entry of an earlier row.\<close>

lemma entry_wraps: "entry 65537 65535 1 = 0"
  by (simp add: entry_def)

section \<open>The matrices that are meant\<close>

definition entry_bound :: "nat \<Rightarrow> matdat \<Rightarrow> int \<Rightarrow> bool" where
  "entry_bound n A a \<longleftrightarrow> (\<forall>k < n. \<bar>sint (A k)\<bar> \<le> a)"

definition mat_scaled :: "matdat \<Rightarrow> s16 \<Rightarrow> nat \<Rightarrow> int" where
  "mat_scaled A val t = sint (A t) * sint val"

definition mat_vec :: "nat \<Rightarrow> matdat \<Rightarrow> matdat \<Rightarrow> nat \<Rightarrow> int" where
  "mat_vec N A B i = (\<Sum>j<N. sint (A (i * N + j)) * sint (B j))"

definition mat_prod :: "nat \<Rightarrow> matdat \<Rightarrow> matdat \<Rightarrow> nat \<Rightarrow> int" where
  \<comment> \<open>the entry at index \<open>i * N + j\<close> of the product\<close>
  "mat_prod N A B t = (\<Sum>k<N. sint (A (t div N * N + k)) * sint (B (k * N + t mod N)))"

definition mat_bits :: "nat \<Rightarrow> matdat \<Rightarrow> matdat \<Rightarrow> nat \<Rightarrow> int" where
  "mat_bits N A B t = (\<Sum>k<N. let p = sint (A (t div N * N + k)) * sint (B (k * N + t mod N))
     in bit_extract p 2 4 * bit_extract p 5 7)"

definition written :: "nat \<Rightarrow> matres \<Rightarrow> (nat \<Rightarrow> int) \<Rightarrow> matres" where
  \<comment> \<open>the first \<open>n\<close> entries replaced\<close>
  "written n C f = (\<lambda>t. if t < n then f t else C t)"

lemma written_Suc: "(written n C f)(n := f n) = written (Suc n) C f"
  by (auto simp: written_def fun_eq_iff)

lemma written_0 [simp]: "written 0 C f = C"
  by (simp add: written_def)

lemma s16_bound: "\<bar>sint (x :: s16)\<bar> \<le> 32768"
  using sint_ge [of x] sint_lt [of x] by simp

lemma s16_prod: "in_s32 (sint (x :: s16) * sint (y :: s16))"
proof -
  have "\<bar>sint x * sint y\<bar> \<le> 32768 * 32768"
    unfolding abs_mult by (intro mult_mono s16_bound) simp_all
  then show ?thesis unfolding in_s32_iff by linarith
qed

lemma dot_product:
  fixes x y :: "nat \<Rightarrow> s16"
  assumes "\<And>k. k < N \<Longrightarrow> \<bar>sint (x k) * sint (y k)\<bar> \<le> c" and "int N * c < 2147483648"
  shows "rfold (\<lambda>k C. rbind (s32 (sint (x k) * sint (y k))) (\<lambda>p.
       rbind (add32 (C t) p) (\<lambda>v. Inr (C(t := v))))) [0..<N] (C(t := 0)) =
     Inr (C(t := \<Sum>k<N. sint (x k) * sint (y k)))"
proof -
  have "\<exists>s'. rfold (\<lambda>k C. rbind (s32 (sint (x k) * sint (y k))) (\<lambda>p.
       rbind (add32 (C t) p) (\<lambda>v. Inr (C(t := v))))) [0..<N] (C(t := 0)) = Inr s' \<and>
     s' = C(t := \<Sum>k<N. sint (x k) * sint (y k))"
  proof (rule rfold_inv [where P = "\<lambda>n s. s = C(t := \<Sum>k<n. sint (x k) * sint (y k))"])
    fix i s assume i: "i < N" and s: "s = C(t := \<Sum>k<i. sint (x k) * sint (y k))"
    let ?z = "\<Sum>k<Suc i. sint (x k) * sint (y k)"
    have "\<bar>?z\<bar> \<le> (\<Sum>k<Suc i. \<bar>sint (x k) * sint (y k)\<bar>)" by (rule sum_abs)
    also have "\<dots> \<le> (\<Sum>k<Suc i. c)" by (rule sum_mono) (use assms(1) i in auto)
    also have "\<dots> = int (Suc i) * c" by simp
    also have "\<dots> \<le> int N * c"
      using i assms(1) [OF i] by (intro mult_right_mono) simp_all
    finally have "\<bar>?z\<bar> \<le> int N * c" .
    then have "in_s32 ?z" using assms(2) by (simp only: in_s32_iff) linarith
    then show "\<exists>s'. rbind (s32 (sint (x i) * sint (y i))) (\<lambda>p. rbind (add32 (s t) p) (\<lambda>v. Inr (s(t := v)))) = Inr s' \<and>
        s' = C(t := ?z)"
      using s by (simp add: s16_prod add32_def)
  qed simp
  then show ?thesis by simp
qed

lemma index_div_mod: "j < (N :: nat) \<Longrightarrow> (i * N + j) div N = i \<and> (i * N + j) mod N = j"
  by simp

lemma index_lt: "i < N \<Longrightarrow> j < N \<Longrightarrow> i * N + j < N * (N :: nat)"
proof -
  assume "i < N" "j < N"
  then have "i * N + j < Suc i * N" by simp
  also have "\<dots> \<le> N * N" using \<open>i < N\<close> by (intro mult_le_mono1) simp
  finally show ?thesis .
qed

lemma entry_prod:
  assumes "entry_bound n A a" and "entry_bound m B b" and "k < n" and "l < m"
  shows "\<bar>sint (A k) * sint (B l)\<bar> \<le> a * b"
  unfolding abs_mult using assms by (intro mult_mono) (auto simp: entry_bound_def intro: order_trans [OF abs_ge_zero])

lemma mul_matrix_run:
  fixes N :: u32
  defines "n \<equiv> unat N"
  assumes N: "n \<le> 65536"
    and bounds: "entry_bound (n * n) A a" "entry_bound (n * n) B b" "int n * (a * b) < 2147483648"
  shows "matrix_mul_matrix N C A B = Inr (written (n * n) C (mat_prod n A B))"
proof -
  note ix = entry_eq [of N, folded n_def, OF N]
  have "\<exists>s'. matrix_mul_matrix N C A B = Inr s' \<and> s' = written (n * n) C (mat_prod n A B)"
    unfolding matrix_mul_matrix_def n_def [symmetric]
  proof (rule for2_inv [where P = "\<lambda>m s. s = written m C (mat_prod n A B)"])
    fix i j s assume ij: "i < n" "j < n" and s: "s = written (i * n + j) C (mat_prod n A B)"
    have "\<bar>sint (A (entry N i k)) * sint (B (entry N k j))\<bar> \<le> a * b" if "k < n" for k
      unfolding ix [OF ij(1) that] ix [OF that ij(2)] using that ij by (intro entry_prod [OF bounds(1,2)] index_lt)
    from dot_product [where x = "\<lambda>k. A (entry N i k)" and y = "\<lambda>k. B (entry N k j)", OF this bounds(3),
        where t = "entry N i j" and C = s]
    have "rfold (\<lambda>k C. rbind (s32 (sint (A (entry N i k)) * sint (B (entry N k j)))) (\<lambda>p.
         rbind (add32 (C (entry N i j)) p) (\<lambda>v. Inr (C(entry N i j := v))))) [0..<n] (s(entry N i j := 0)) =
       Inr (s(entry N i j := \<Sum>k<n. sint (A (entry N i k)) * sint (B (entry N k j))))" by simp
    moreover have "(\<Sum>k<n. sint (A (entry N i k)) * sint (B (entry N k j))) = mat_prod n A B (i * n + j)"
      unfolding mat_prod_def using index_div_mod [OF ij(2), of i] by (intro sum.cong) (simp_all add: ix ij)
    ultimately show "\<exists>s'. rfold (\<lambda>k C. rbind (s32 (sint (A (entry N i k)) * sint (B (entry N k j)))) (\<lambda>p.
         rbind (add32 (C (entry N i j)) p) (\<lambda>v. Inr (C(entry N i j := v))))) [0..<n] (s(entry N i j := 0)) = Inr s' \<and>
         s' = written (Suc (i * n + j)) C (mat_prod n A B)"
      unfolding ix [OF ij] s by (simp add: written_Suc del: fun_upd_apply)
  qed simp
  then show ?thesis by simp
qed

lemma mul_vect_run:
  fixes N :: u32
  defines "n \<equiv> unat N"
  assumes N: "n \<le> 65536"
    and bounds: "entry_bound (n * n) A a" "entry_bound (n * n) B b" "int n * (a * b) < 2147483648"
  shows "matrix_mul_vect N C A B = Inr (written n C (mat_vec n A B))"
proof -
  note ix = entry_eq [of N, folded n_def, OF N]
  have "\<exists>s'. matrix_mul_vect N C A B = Inr s' \<and> s' = written n C (mat_vec n A B)"
    unfolding matrix_mul_vect_def n_def [symmetric]
  proof (rule rfold_inv [where P = "\<lambda>m s. s = written m C (mat_vec n A B)"])
    fix i s assume i: "i < n" and s: "s = written i C (mat_vec n A B)"
    have "\<bar>sint (A (entry N i j)) * sint (B j)\<bar> \<le> a * b" if "j < n" for j
      unfolding ix [OF i that] using that i index_lt [of 0 n j] by (intro entry_prod [OF bounds(1,2)] index_lt) simp_all
    from dot_product [where x = "\<lambda>j. A (entry N i j)" and y = B, OF this bounds(3), where t = i and C = s]
    have "rfold (\<lambda>j C. rbind (s32 (sint (A (entry N i j)) * sint (B j))) (\<lambda>p.
         rbind (add32 (C i) p) (\<lambda>v. Inr (C(i := v))))) [0..<n] (s(i := 0)) =
       Inr (s(i := \<Sum>j<n. sint (A (entry N i j)) * sint (B j)))" by simp
    moreover have "(\<Sum>j<n. sint (A (entry N i j)) * sint (B j)) = mat_vec n A B i"
      unfolding mat_vec_def by (intro sum.cong) (simp_all add: ix i)
    ultimately show "\<exists>s'. rfold (\<lambda>j C. rbind (s32 (sint (A (entry N i j)) * sint (B j))) (\<lambda>p.
         rbind (add32 (C i) p) (\<lambda>v. Inr (C(i := v))))) [0..<n] (s(i := 0)) = Inr s' \<and> s' = written (Suc i) C (mat_vec n A B)"
      unfolding s by (simp add: written_Suc del: fun_upd_apply)
  qed simp
  then show ?thesis by simp
qed

lemma mul_const_run:
  fixes N :: u32
  defines "n \<equiv> unat N"
  assumes N: "n \<le> 65536"
  shows "matrix_mul_const N C A val = Inr (written (n * n) C (mat_scaled A val))"
proof -
  have "\<exists>s'. matrix_mul_const N C A val = Inr s' \<and> s' = written (n * n) C (mat_scaled A val)"
    unfolding matrix_mul_const_def n_def [symmetric]
    by (rule for2_inv [where P = "\<lambda>m s. s = written m C (mat_scaled A val)"])
      (auto simp: entry_eq [of N, folded n_def, OF N] s16_prod mat_scaled_def written_Suc [symmetric] simp del: fun_upd_apply)
  then show ?thesis by simp
qed

lemma bit_extract_range: "0 \<le> bit_extract x f t" "bit_extract x f t < 2 ^ t"
  by (simp_all add: bit_extract_def)

lemma bits_prod: "0 \<le> bit_extract p 2 4 * bit_extract p 5 7 \<and> bit_extract p 2 4 * bit_extract p 5 7 \<le> 1905"
proof -
  have "bit_extract p 2 4 * bit_extract p 5 7 \<le> 15 * 127"
    using bit_extract_range [of p 2 4] bit_extract_range [of p 5 7] by (intro mult_mono) simp_all
  then show ?thesis using bit_extract_range [of p 2 4] bit_extract_range [of p 5 7] by simp
qed

lemma sint_word_of_int_small: "- (2 ^ 31) \<le> v \<Longrightarrow> v < 2 ^ 31 \<Longrightarrow> sint (word_of_int v :: u32) = v"
  by (subst sint_sbintrunc', rule signed_take_bit_int_eq_self) simp_all

lemma bits_sum:
  fixes x y :: "nat \<Rightarrow> s16"
  assumes "int n * 1905 < 2147483648"
  shows "rfold (\<lambda>k C. rbind (s32 (sint (x k) * sint (y k))) (\<lambda>tmp. let v = C t + bit_extract tmp 2 4 * bit_extract tmp 5 7
       in Inr (C(t := sint (word_of_int v :: u32))))) [0..<n] (s(t := 0)) =
     Inr (s(t := \<Sum>k<n. let p = sint (x k) * sint (y k) in bit_extract p 2 4 * bit_extract p 5 7))"
proof -
  let ?p = "\<lambda>k. sint (x k) * sint (y k)"
  let ?e = "\<lambda>k. bit_extract (?p k) 2 4 * bit_extract (?p k) 5 7"
  have "\<exists>s'. rfold (\<lambda>k C. rbind (s32 (?p k)) (\<lambda>tmp. let v = C t + bit_extract tmp 2 4 * bit_extract tmp 5 7
       in Inr (C(t := sint (word_of_int v :: u32))))) [0..<n] (s(t := 0)) = Inr s' \<and> s' = s(t := \<Sum>k<n. ?e k)"
  proof (rule rfold_inv [where P = "\<lambda>m s'. s' = s(t := \<Sum>k<m. ?e k)"])
    fix k s' assume k: "k < n" and s': "s' = s(t := \<Sum>l<k. ?e l)"
    have "(\<Sum>l<Suc k. ?e l) \<le> (\<Sum>l<Suc k. 1905)" by (rule sum_mono) (use bits_prod in blast)
    also have "\<dots> = 1905 * int (Suc k)" by simp
    also have "\<dots> < 2 ^ 31" using k assms by simp
    finally have "(\<Sum>l<Suc k. ?e l) < 2 ^ 31" .
    moreover have "0 \<le> (\<Sum>l<Suc k. ?e l)" by (rule sum_nonneg) (use bits_prod in blast)
    ultimately have "sint (word_of_int (\<Sum>l<Suc k. ?e l) :: u32) = (\<Sum>l<Suc k. ?e l)"
      by (intro sint_word_of_int_small) simp_all
    then show "\<exists>s''. rbind (s32 (?p k)) (\<lambda>tmp. let v = s' t + bit_extract tmp 2 4 * bit_extract tmp 5 7
       in Inr (s'(t := sint (word_of_int v :: u32)))) = Inr s'' \<and> s'' = s(t := \<Sum>l<Suc k. ?e l)"
      using s' by (simp add: s16_prod Let_def)
  qed simp
  then show ?thesis by (simp add: Let_def)
qed

lemma bitextract_run:
  fixes N :: u32
  defines "n \<equiv> unat N"
  assumes N: "n \<le> 65536" and small: "int n * 1905 < 2147483648"
  shows "matrix_mul_matrix_bitextract N C A B = Inr (written (n * n) C (mat_bits n A B))"
proof -
  note ix = entry_eq [of N, folded n_def, OF N]
  have "\<exists>s'. matrix_mul_matrix_bitextract N C A B = Inr s' \<and> s' = written (n * n) C (mat_bits n A B)"
    unfolding matrix_mul_matrix_bitextract_def n_def [symmetric]
  proof (rule for2_inv [where P = "\<lambda>m s. s = written m C (mat_bits n A B)"])
    fix i j s assume ij: "i < n" "j < n" and s: "s = written (i * n + j) C (mat_bits n A B)"
    have "(\<Sum>k<n. let p = sint (A (entry N i k)) * sint (B (entry N k j)) in bit_extract p 2 4 * bit_extract p 5 7) =
        mat_bits n A B (i * n + j)"
      unfolding mat_bits_def using index_div_mod [OF ij(2), of i] by (intro sum.cong) (simp_all add: ix ij)
    then show "\<exists>s'. rfold (\<lambda>k C. rbind (s32 (sint (A (entry N i k)) * sint (B (entry N k j)))) (\<lambda>tmp.
         let v = C (entry N i j) + bit_extract tmp 2 4 * bit_extract tmp 5 7
         in Inr (C(entry N i j := sint (word_of_int v :: u32))))) [0..<n] (s(entry N i j := 0)) = Inr s' \<and>
         s' = written (Suc (i * n + j)) C (mat_bits n A B)"
      unfolding bits_sum [OF small, of "\<lambda>k. A (entry N i k)" "\<lambda>k. B (entry N k j)" "entry N i j" s]
      unfolding ix [OF ij] s
      by (simp add: written_Suc del: fun_upd_apply)
  qed simp
  then show ?thesis by simp
qed

lemma add_const_run:
  assumes N: "unat N \<le> 65536"
  shows "matrix_add_const N A val = (\<lambda>t. if t < unat N * unat N then A t + val else A t)"
proof -
  let ?n = "unat N"
  have row: "fold (\<lambda>j A. A(entry N i j := A (entry N i j) + val)) [0..<m] A =
      (\<lambda>t. if i * ?n \<le> t \<and> t < i * ?n + m then A t + val else A t)" if "i < ?n" "m \<le> ?n" for i m A
    using that(2)
  proof (induction m)
    case (Suc m)
    then have "entry N i m = i * ?n + m" using entry_eq [OF N that(1), of m] by simp
    then show ?case using Suc by (simp del: fun_upd_apply) (auto simp: fun_eq_iff)
  qed (auto simp: fun_eq_iff)
  have "fold (\<lambda>i. fold (\<lambda>j A. A(entry N i j := A (entry N i j) + val)) [0..<?n]) [0..<m] A =
      (\<lambda>t. if t < m * ?n then A t + val else A t)" if "m \<le> ?n" for m
    using that
  proof (induction m)
    case (Suc m)
    then show ?case by (simp add: row del: fun_upd_apply) (auto simp: fun_eq_iff)
  qed (simp add: fun_eq_iff)
  then show ?thesis by (simp add: matrix_add_const_def)
qed

lemma add_const_undo: "unat N \<le> 65536 \<Longrightarrow> matrix_add_const N (matrix_add_const N A val) (- val) = A"
  by (auto simp: add_const_run fun_eq_iff)


text \<open>C19: matrix_mul_matrix computes the matrix product: for a dimension N of at most 65536 (the 32-bit index i * N + j wraps
  around beyond it), entries bounded by a and b, and N * a * b below 2^31 no signed operation overflows, the first N * N results
  are the sums over k of A(i,k) * B(k,j) and the rest of the result array is untouched.\<close>

theorem matrix_mul_matrix_correct:
  assumes "n = unat N" and "n \<le> 65536"
    and "entry_bound (n * n) A a" and "entry_bound (n * n) B b" and "int n * (a * b) < 2147483648"
  shows "matrix_mul_matrix N C A B = Inr (\<lambda>t. if t < n * n
    then \<Sum>k<n. sint (A (t div n * n + k)) * sint (B (k * n + t mod n)) else C t)"
  using mul_matrix_run [of N A a B b C] assms(2-) unfolding written_def mat_prod_def assms(1) by blast

lemma matrix_mul_matrix_correct_witness:
  "matrix_mul_matrix 2 (\<lambda>_. 7) (\<lambda>k. of_nat k) (\<lambda>k. - 1) = Inr (\<lambda>t. if t < 2 * 2
    then \<Sum>k<2. sint (of_nat (t div 2 * 2 + k) :: s16) * sint (- 1 :: s16) else 7)"
proof -
  have "\<bar>sint (of_nat k :: s16)\<bar> \<le> 3" if "k < 4" for k
  proof -
    have "k = 0 \<or> k = 1 \<or> k = 2 \<or> k = 3" using that by linarith
    then show ?thesis by auto
  qed
  then have "entry_bound (2 * 2) (\<lambda>k. of_nat k) 3" "entry_bound (2 * 2) (\<lambda>k. - 1 :: s16) 1"
    by (simp_all add: entry_bound_def)
  from matrix_mul_matrix_correct [OF _ _ this, of 2 "\<lambda>_. 7"] show ?thesis by simp
qed

section \<open>The checksum\<close>

lemma matrix_sum_run:
  assumes N: "unat N \<le> 65536"
    and C: "\<And>t. t < unat N * unat N \<Longrightarrow> \<bar>C t\<bar> \<le> c" and lim: "int (unat N * unat N) * c + 32768 < 2147483648"
  shows "\<exists>r. matrix_sum N C clipval = Inr r"
proof -
  let ?n = "unat N"
  let ?P = "\<lambda>n (tmp, prev, ret :: s16). \<bar>tmp :: int\<bar> \<le> int n * c"
  have "\<exists>s'. for2 ?n (\<lambda>i j (tmp, prev, ret).
         let cur = C (entry N i j) in
         rbind (add32 tmp cur) (\<lambda>tmp.
           if sint clipval < tmp then Inr (0, cur, ret + 10)
           else Inr (tmp, cur, ret + (if prev < cur then 1 else 0)))) (0, 0, 0) = Inr s' \<and> ?P (?n * ?n) s'"
  proof (rule for2_inv)
    show "?P 0 (0, 0, 0)" by simp
  next
    fix i j :: nat and s :: "int \<times> int \<times> s16"
    assume ij: "i < ?n" "j < ?n" and P: "?P (i * ?n + j) s"
    obtain tmp prev ret where s: "s = (tmp, prev, ret)" by (cases s)
    let ?t = "i * ?n + j"
    have t: "?t < ?n * ?n" by (rule index_lt [OF ij])
    have cur: "\<bar>C ?t\<bar> \<le> c" by (rule C [OF t])
    have "\<bar>tmp + C ?t\<bar> \<le> int ?t * c + c" using P s cur by simp
    then have b: "\<bar>tmp + C ?t\<bar> \<le> int (Suc ?t) * c" by (simp add: algebra_simps)
    have "int (Suc ?t) * c \<le> int (?n * ?n) * c" using t cur by (intro mult_right_mono) linarith+
    then have "in_s32 (tmp + C ?t)" using b lim by (simp only: in_s32_iff) linarith
    moreover have "0 \<le> int (Suc ?t) * c" using b by linarith
    ultimately show "\<exists>s'. (case s of (tmp, prev, ret) \<Rightarrow> let cur = C (entry N i j) in
         rbind (add32 tmp cur) (\<lambda>tmp.
           if sint clipval < tmp then Inr (0, cur, ret + 10)
           else Inr (tmp, cur, ret + (if prev < cur then 1 else 0)))) = Inr s' \<and> ?P (Suc ?t) s'"
      using b by (simp add: s add32_def Let_def entry_eq [OF N ij])
  qed
  then show ?thesis by (auto simp: matrix_sum_def)
qed

lemma sum_bound:
  fixes f :: "nat \<Rightarrow> int"
  assumes "\<And>k. k < n \<Longrightarrow> \<bar>f k\<bar> \<le> c"
  shows "\<bar>\<Sum>k<n. f k\<bar> \<le> int n * c"
proof -
  have "\<bar>\<Sum>k<n. f k\<bar> \<le> (\<Sum>k<n. \<bar>f k\<bar>)" by (rule sum_abs)
  also have "\<dots> \<le> (\<Sum>k<n. c)" by (rule sum_mono) (use assms in auto)
  finally show ?thesis by simp
qed

lemma matrix_test_run:
  fixes N :: u32
  defines "n \<equiv> unat N"
  assumes bA: "entry_bound (n * n) (\<lambda>t. A t + val) a" and bB: "entry_bound (n * n) B b" and bv: "\<bar>sint val\<bar> \<le> b"
    and lim3: "int (n * n * n) * max (a * b) 1905 + 32768 < 2147483648"
  shows "\<exists>crc. matrix_test N C A B val =
    Inr (crc, written (n * n) C (mat_bits n (\<lambda>t. if t < n * n then A t + val else A t) B), A)"
proof -
  let ?A = "\<lambda>t. if t < n * n then A t + val else A t"
  let ?c = "max (a * b) 1905"
  let ?C1 = "written (n * n) C (mat_scaled ?A val)"
  let ?C2 = "written n ?C1 (mat_vec n ?A B)"
  let ?C3 = "written (n * n) ?C2 (mat_prod n ?A B)"
  let ?C4 = "written (n * n) ?C3 (mat_bits n ?A B)"
  have A: "entry_bound (n * n) ?A a" using bA by (simp add: entry_bound_def)
  have N1: "n \<le> n * (n * n)" by (cases n) simp_all
  have N3: "int n \<le> int (n * n * n)" using N1 by (simp only: of_nat_le_iff mult.assoc)
  have lim: "int (n * n) * (int n * ?c) + 32768 < 2147483648" using lim3 by (simp add: algebra_simps)
  have "int n * (a * b) \<le> int n * ?c" by (intro mult_left_mono) simp_all
  also have "\<dots> \<le> int (n * n * n) * ?c" using N3 by (intro mult_right_mono) simp_all
  finally have le: "int n * (a * b) < 2147483648" using lim3 by linarith
  have "int n * 1905 \<le> int n * ?c" by (intro mult_left_mono) simp_all
  also have "\<dots> \<le> int (n * n * n) * ?c" using N3 by (intro mult_right_mono) simp_all
  finally have small: "int n * 1905 < 2147483648" using lim3 by linarith
  have N: "n \<le> 65536"
  proof (rule ccontr)
    assume "\<not> n \<le> 65536"
    then have "65537 * 65537 * 1 \<le> n * n * n" by (intro mult_le_mono) simp_all
    then have "int (65537 * 65537 * 1) \<le> int (n * n * n)" by (simp only: of_nat_le_iff)
    then have "int (65537 * 65537 * 1) * 1905 \<le> int (n * n * n) * ?c" by (intro mult_mono) simp_all
    then show False using lim3 by simp
  qed
  have prod: "\<bar>sint (?A k) * sint (B l)\<bar> \<le> ?c" if "k < n * n" "l < n * n" for k l
    using entry_prod [OF A bB that] by simp
  have c: "?c \<le> int n * ?c" if "0 < n" using that by (simp add: mult_le_cancel_right1)
  have b1: "\<bar>?C1 t\<bar> \<le> int n * ?c" if t: "t < n * n" for t
  proof -
    have n: "0 < n" using t by (cases n) simp_all
    have "\<bar>sint (?A t) * sint val\<bar> \<le> a * b"
      unfolding abs_mult using A bv t by (intro mult_mono) (auto simp: entry_bound_def intro: order_trans [OF abs_ge_zero])
    then show ?thesis using c [OF n] t by (simp add: written_def mat_scaled_def)
  qed
  have idx: "i * n + k < n * n" if "i < n" "k < n" for i k by (rule index_lt [OF that])
  have b2: "\<bar>?C2 t\<bar> \<le> int n * ?c" if t: "t < n * n" for t
  proof (cases "t < n")
    case True
    have "\<bar>mat_vec n ?A B t\<bar> \<le> int n * ?c"
      unfolding mat_vec_def by (rule sum_bound, rule prod) (use True idx [of 0] idx [of t] in simp_all)
    then show ?thesis using True by (simp add: written_def)
  next
    case False
    then have "?C2 t = ?C1 t" by (simp add: written_def)
    then show ?thesis using b1 [OF t] by simp
  qed
  have dm: "t div n < n" "t mod n < n" if t: "t < n * n" for t
    using t by (cases n; simp add: less_mult_imp_div_less)+
  have b3: "\<bar>?C3 t\<bar> \<le> int n * ?c" if t: "t < n * n" for t
  proof -
    have "\<bar>mat_prod n ?A B t\<bar> \<le> int n * ?c"
      unfolding mat_prod_def by (rule sum_bound, rule prod) (use dm [OF t] idx in simp_all)
    then show ?thesis using t by (simp add: written_def)
  qed
  have b4: "\<bar>?C4 t\<bar> \<le> int n * ?c" if t: "t < n * n" for t
  proof -
    have "\<bar>mat_bits n ?A B t\<bar> \<le> int n * ?c"
      unfolding mat_bits_def Let_def by (rule sum_bound) (use bits_prod in \<open>auto simp: abs_le_iff le_max_iff_disj intro: order_trans\<close>)
    then show ?thesis using t by (simp add: written_def)
  qed
  note sum = matrix_sum_run [of N, folded n_def, OF N]
  obtain s1 where s1: "matrix_sum N ?C1 (matrix_big val) = Inr s1" using sum [where C = ?C1, OF b1 lim] by blast
  obtain s2 where s2: "matrix_sum N ?C2 (matrix_big val) = Inr s2" using sum [where C = ?C2, OF b2 lim] by blast
  obtain s3 where s3: "matrix_sum N ?C3 (matrix_big val) = Inr s3" using sum [where C = ?C3, OF b3 lim] by blast
  obtain s4 where s4: "matrix_sum N ?C4 (matrix_big val) = Inr s4" using sum [where C = ?C4, OF b4 lim] by blast
  have "?C4 = written (n * n) C (mat_bits n ?A B)"
    using idx [of 0] by (auto simp: written_def fun_eq_iff)
  then show ?thesis
    using s1 s2 s3 s4 mul_vect_run [of N, folded n_def, OF N A bB le] mul_matrix_run [of N, folded n_def, OF N A bB le]
      mul_const_run [of N, folded n_def, OF N] bitextract_run [of N, folded n_def, OF N small]
      add_const_undo [of N, folded n_def, OF N, of A val] add_const_run [of N, folded n_def, OF N, of A val]
    by (simp add: matrix_test_def Let_def)
qed

text \<open>Matrix_test, on a matrix A whose entries stay bounded by a after adding val and a matrix B bounded, as val
  is, by b, returns without overflow as long as N * N * N times a * b (or the 1905 two extracted fields can make) is in
  range; it gives A back as it was and leaves in C the products of the extracted fields of the shifted A with B.\<close>

theorem matrix_test_restores:
  assumes "n = unat N"
    and "entry_bound (n * n) (\<lambda>t. A t + val) a" and "entry_bound (n * n) B b" and "\<bar>sint val\<bar> \<le> b"
    and "int (n * n * n) * max (a * b) 1905 + 32768 < 2147483648"
  shows "\<exists>crc. matrix_test N C A B val =
    Inr (crc, written (n * n) C (mat_bits n (\<lambda>t. if t < n * n then A t + val else A t) B), A)"
  using matrix_test_run [of N A val a B b C] assms by simp

lemma matrix_test_restores_witness:
  "\<exists>crc. matrix_test 2 (\<lambda>_. 0) (\<lambda>_. 3) (\<lambda>_. - 1) 4 =
    Inr (crc, written (2 * 2) (\<lambda>_. 0) (mat_bits 2 (\<lambda>t. if t < 2 * 2 then 3 + 4 else 3) (\<lambda>_. - 1)), \<lambda>_. 3)"
  by (rule matrix_test_restores [where a = 7 and b = 4]) (simp_all add: entry_bound_def)


section \<open>The dimension\<close>

lemma matrix_dim_run:
  assumes "i \<le> 16384" and "unat blksize \<le> 2147483648" and "0 < i \<Longrightarrow> 8 * (i - 1) ^ 2 < unat blksize"
    and "0 < unat blksize"
  shows "\<exists>N. matrix_dim blksize (of_nat i) (of_nat (8 * i ^ 2)) = Some (of_nat N) \<and> N < 16384 \<and>
    8 * N ^ 2 < unat blksize \<and> unat blksize \<le> 8 * (N + 1) ^ 2"
  using assms
proof (induction "16384 - i" arbitrary: i rule: less_induct)
  case less
  have sq: "i ^ 2 \<le> 16384 ^ 2" using less.prems(1) by (rule power_mono) simp
  have j: "unat (of_nat (8 * i ^ 2) :: u32) = 8 * i ^ 2" by (rule unat_of_nat_lt) (use sq in simp)
  show ?case
  proof (cases "8 * i ^ 2 < unat blksize")
    case True
    then have "i \<noteq> 16384" using less.prems(2) by auto
    then have i: "i < 16384" using less.prems(1) by simp
    have "(of_nat (8 * Suc i ^ 2) :: u32) = (of_nat i + 1) * (of_nat i + 1) * 2 * 4"
      by (simp add: power2_eq_square algebra_simps)
    moreover have "\<exists>N. matrix_dim blksize (of_nat (Suc i)) (of_nat (8 * Suc i ^ 2)) = Some (of_nat N) \<and> N < 16384 \<and>
        8 * N ^ 2 < unat blksize \<and> unat blksize \<le> 8 * (N + 1) ^ 2"
      by (rule less.hyps) (use i True less.prems in simp_all)
    moreover have "(of_nat (8 * i ^ 2) :: u32) < blksize" using True j by (simp add: word_less_nat_alt del: of_nat_mult)
    ultimately show ?thesis
      by (subst matrix_dim.simps) (simp add: add.commute del: of_nat_mult of_nat_power of_nat_add)
  next
    case False
    obtain N where N: "i = Suc N" using False less.prems(4) by (cases i) auto
    have "\<not> (of_nat (8 * i ^ 2) :: u32) < blksize" using False j by (simp add: word_less_nat_alt del: of_nat_mult)
    then have "matrix_dim blksize (of_nat i) (of_nat (8 * i ^ 2)) = Some (of_nat N)"
      by (subst matrix_dim.simps) (simp add: N del: of_nat_mult of_nat_power)
    then show ?thesis using less.prems False N by auto
  qed
qed


lemma matrix_dim_empty: "matrix_dim 0 0 0 = Some (- 1)"
  by (subst matrix_dim.simps) simp

lemma align_mem_mult4: "align_mem (push_bit 2 k) = push_bit 2 k"
proof -
  let ?p = "push_bit 2 (k - 1) :: addr"
  have m: "(3 :: addr) = mask 2" by (simp add: mask_eq_exp_minus_1)
  have z: "?p AND 3 = 0" unfolding m by (rule bit_eqI) (auto simp: bit_simps)
  have "push_bit 2 k - 1 = ?p + 3" by (simp add: push_bit_eq_mult algebra_simps)
  also have "\<dots> = ?p OR 3" using z by (rule disjunctive_add_eq_or)
  finally have "(push_bit 2 k - 1) AND NOT 3 = (?p OR 3) AND NOT 3" by simp
  also have "\<dots> = ?p" unfolding m by (rule bit_eqI) (auto simp: bit_simps)
  finally show ?thesis by (simp add: align_mem_def push_bit_eq_mult algebra_simps)
qed

lemma and_3_zero:
  fixes x :: addr
  assumes "x AND 3 = 0"
  shows "x = push_bit 2 (drop_bit 2 x)"
proof -
  have "take_bit 2 x = x AND 3" by (simp add: take_bit_eq_mask mask_eq_exp_minus_1)
  then have "take_bit 2 x = 0" using assms by simp
  then show ?thesis using bits_ident [of 2 x] by simp
qed

lemma c_mod_bound: "0 < b \<Longrightarrow> \<bar>c_mod a b\<bar> < b"
proof -
  assume b: "0 < b"
  have "a = sgn a * \<bar>a\<bar>" by (simp add: sgn_mult_abs)
  then have "c_mod a b = sgn a * (\<bar>a\<bar> - b * (\<bar>a\<bar> div b))"
    using b by (simp add: c_mod_def c_div_def algebra_simps)
  also have "\<bar>a\<bar> - b * (\<bar>a\<bar> div b) = \<bar>a\<bar> mod b" by (simp add: minus_mult_div_eq_mod)
  finally have "\<bar>c_mod a b\<bar> \<le> \<bar>a\<bar> mod b" using b by (simp add: abs_mult abs_sgn_eq)
  then show ?thesis using b pos_mod_bound [of b "\<bar>a\<bar>"] by linarith
qed

lemma clip_range: "0 \<le> sint (matrix_clip x True) \<and> sint (matrix_clip x True) \<le> 255"
proof -
  have "matrix_clip x True = take_bit 8 x"
    by (simp add: matrix_clip_def take_bit_eq_mask mask_eq_exp_minus_1)
  then have "uint (matrix_clip x True) = take_bit 8 (uint x)" by (simp add: unsigned_take_bit_eq)
  then have u: "uint (matrix_clip x True) < 256" using take_bit_int_less_exp [of 8 "uint x"] by simp
  then have "sint (matrix_clip x True) = uint (matrix_clip x True)"
    unfolding sint_uint by (intro signed_take_bit_int_eq_self) (simp_all add: order.trans [of _ 0])
  then show ?thesis using u by simp
qed

lemma init_elements:
  assumes "n * n \<le> 32767" and "in_s32 seed" and N: "n = unat N"
  shows "\<exists>s. for2 n (\<lambda>i j. init_element (entry N i j)) \<lparr>mi_seed = seed, mi_order = 1, mi_A = A, mi_B = B\<rparr> = Inr s \<and>
    (\<forall>t < n * n. 0 \<le> sint (mi_A s t) \<and> sint (mi_A s t) \<le> 255)"
proof -
  let ?P = "\<lambda>n s. mi_order s = int n + 1 \<and> (\<bar>mi_seed s\<bar> < 65536 \<or> n = 0 \<and> mi_seed s = seed) \<and>
    (\<forall>t < n. 0 \<le> sint (mi_A s t) \<and> sint (mi_A s t) \<le> 255)"
  have "\<exists>s. for2 n (\<lambda>i j. init_element (entry N i j)) \<lparr>mi_seed = seed, mi_order = 1, mi_A = A, mi_B = B\<rparr> = Inr s \<and> ?P (n * n) s"
  proof (rule for2_inv)
    fix i j :: nat and s :: mat_init assume ij: "i < n" "j < n" and P: "?P (i * n + j) s"
    let ?t = "i * n + j"
    have t: "?t < n * n" by (rule index_lt [OF ij])
    have "in_s32 (mi_order s * mi_seed s)"
    proof (cases "?t = 0 \<and> mi_seed s = seed")
      case True
      then have "mi_order s = int 0 + 1" using P by metis
      then show ?thesis using True assms(2) by simp
    next
      case False
      have "mi_order s \<le> 32767" using P t assms(1) by linarith
      then have "\<bar>mi_order s * mi_seed s\<bar> \<le> 32767 * 65536"
        unfolding abs_mult using P False by (intro mult_mono) auto
      then show ?thesis by (simp only: in_s32_iff) linarith
    qed
    moreover have "n \<le> 65536"
    proof (rule ccontr)
      assume "\<not> n \<le> 65536"
      then have "65537 * 65537 \<le> n * n" by (intro mult_le_mono) simp_all
      then show False using assms(1) by simp
    qed
    then have "entry N i j = ?t" using entry_eq [of N i j] ij N by simp
    ultimately show "\<exists>s'. init_element (entry N i j) s = Inr s' \<and> ?P (Suc ?t) s'"
      using P clip_range c_mod_bound [of 65536] by (auto simp: init_element_def Let_def less_Suc_eq)
  qed simp
  then show ?thesis by auto
qed

text \<open>Core_init_matrix, given a block of 1 to 262144 bytes at an address that is a multiple of 4, ends its search
  for the dimension with the largest N whose 8 * N * N bytes are less than the block, fills both matrices without overflow
  (A with values of 8 bits), and lays A, B and C out one after the other inside the block.\<close>

theorem core_init_matrix_fits:
  assumes "0 < blksize" and "blksize \<le> 262144" and "memblk AND 3 = 0" and "in_s32 seed"
  shows "\<exists>N p'. core_init_matrix blksize memblk seed p =
      Some (Inr (of_nat N, p', memblk, memblk + 2 * of_nat (N * N), memblk + 4 * of_nat (N * N))) \<and>
    mat_N p' = of_nat N \<and> 8 * N ^ 2 < unat blksize \<and> unat blksize \<le> 8 * (N + 1) ^ 2 \<and>
    (\<forall>t < N * N. 0 \<le> sint (mat_A p' t) \<and> sint (mat_A p' t) \<le> 255)"
proof -
  have b: "0 < unat blksize" "unat blksize \<le> 262144" using assms(1,2) by (simp_all add: word_less_nat_alt word_le_nat_alt)
  then obtain N where N: "matrix_dim blksize 0 0 = Some (of_nat N)" "N < 16384"
    and lt: "8 * N ^ 2 < unat blksize" and ge: "unat blksize \<le> 8 * (N + 1) ^ 2"
    using matrix_dim_run [of 0 blksize] by auto
  have NN: "N * N \<le> 32767" using lt b by (simp add: power2_eq_square)
  have dim: "unat (of_nat N :: u32) = N" by (rule unat_of_nat_lt) (use N(2) in simp)
  let ?seed = "if seed = 0 then 1 else seed"
  have seed: "in_s32 ?seed" using assms(4) by (simp add: in_s32_iff)
  obtain s where s: "for2 N (\<lambda>i j. init_element (entry (of_nat N) i j))
      \<lparr>mi_seed = ?seed, mi_order = 1, mi_A = mat_A p, mi_B = mat_B p\<rparr> = Inr s"
    and A: "\<forall>t < N * N. 0 \<le> sint (mi_A s t) \<and> sint (mi_A s t) \<le> 255"
    using init_elements [OF NN seed dim [symmetric], of "mat_A p" "mat_B p"] by blast
  have "(of_nat N * of_nat N :: u32) = of_nat (N * N)" by simp
  moreover have "take_bit LENGTH(32) (N * N) = N * N" by (rule take_bit_nat_eq_self) (use NN in simp)
  ultimately have sq: "(ucast (of_nat N * of_nat N :: u32) :: addr) = of_nat (N * N)"
    by (simp only: unsigned_of_nat)
  have c: "memblk + 2 * of_nat (N * N) + 2 * of_nat (N * N) = push_bit 2 (drop_bit 2 memblk + of_nat (N * N))"
    using and_3_zero [OF assms(3)] by (simp add: push_bit_eq_mult algebra_simps)
  have "align_mem memblk = memblk" using and_3_zero [OF assms(3)] align_mem_mult4 by metis
  moreover have "align_mem (memblk + 2 * of_nat (N * N) + 2 * of_nat (N * N)) = memblk + 4 * of_nat (N * N)"
    unfolding c align_mem_mult4 unfolding c [symmetric] by (simp add: algebra_simps)
  ultimately show ?thesis
    using N(1) s A lt ge by (intro exI [of _ N]) (simp add: core_init_matrix_def dim sq Let_def del: of_nat_mult)
qed

lemma core_init_matrix_fits_witness:
  "\<exists>N p'. core_init_matrix 666 0x1000 0 \<lparr>mat_N = 0, mat_A = (\<lambda>_. 0), mat_B = (\<lambda>_. 0), mat_C = (\<lambda>_. 0)\<rparr> =
      Some (Inr (of_nat N, p', 0x1000, 0x1000 + 2 * of_nat (N * N), 0x1000 + 4 * of_nat (N * N))) \<and>
    mat_N p' = of_nat N \<and> 8 * N ^ 2 < unat (666 :: u32) \<and> unat (666 :: u32) \<le> 8 * (N + 1) ^ 2 \<and>
    (\<forall>t < N * N. 0 \<le> sint (mat_A p' t) \<and> sint (mat_A p' t) \<le> 255)"
  by (rule core_init_matrix_fits) (simp_all add: in_s32_iff)

end
