(* ===== verification/Linked.thy ===== *)
theory Linked
  imports Prelude
begin

text \<open>
  What the parts with linked structures share: steps that may fail or not end, the check of a pointer that is followed, loops
  over a range, and lists in memory. \<open>lseg h x as y\<close> says that the links \<open>h\<close> lead from \<open>x\<close> through the cells \<open>as\<close>
  to \<open>y\<close>; \<open>is_list\<close> ends at the null pointer 0.
\<close>

type_synonym 'a outcome = "(c_error + 'a) option"

section \<open>Steps that may fail or not end\<close>

definition xbind :: "('e + 'a) option \<Rightarrow> ('a \<Rightarrow> ('e + 'b) option) \<Rightarrow> ('e + 'b) option" where
  "xbind m f = Option.bind m (\<lambda>r. case r of Inl e \<Rightarrow> Some (Inl e) | Inr x \<Rightarrow> f x)"

lemma xbind_simps [simp]:
  "xbind (Some (Inr x)) f = f x"
  "xbind (Some (Inl e)) f = Some (Inl e)"
  "xbind None f = None"
  by (simp_all add: xbind_def)

lemma xbind_assoc: "xbind (xbind m f) g = xbind m (\<lambda>x. xbind (f x) g)"
  by (simp add: xbind_def split: option.split sum.split bind_splits)

lemma xbind_mono [partial_function_mono]:
  assumes "mono_option B" and "\<And>y. mono_option (\<lambda>f. C y f)"
  shows "mono_option (\<lambda>f. xbind (B f) (\<lambda>y. C y f))"
  unfolding xbind_def
proof (rule bind_mono [OF assms(1)])
  show "mono_option (\<lambda>f. case y of Inl e \<Rightarrow> Some (Inl e) | Inr x \<Rightarrow> C x f)" for y
    using assms(2) by (cases y) (simp_all add: option.const_mono)
qed

definition nonnull :: "addr \<Rightarrow> (c_error + 'a) option \<Rightarrow> (c_error + 'a) option" where
  \<comment> \<open>the operand of \<open>->\<close>\<close>
  "nonnull p r = (if p = 0 then Some (Inl Null_deref) else r)"

lemma nonnull_mono [partial_function_mono]: "mono_option B \<Longrightarrow> mono_option (\<lambda>f. nonnull p (B f))"
  by (cases "p = 0") (simp_all add: nonnull_def option.const_mono)

lemma nonnull_simps [simp]: "p \<noteq> 0 \<Longrightarrow> nonnull p r = r" "nonnull 0 r = Some (Inl Null_deref)"
  by (simp_all add: nonnull_def)

fun xfold :: "('a \<Rightarrow> 's \<Rightarrow> ('e + 's) option) \<Rightarrow> 'a list \<Rightarrow> 's \<Rightarrow> ('e + 's) option" where
  "xfold f [] s = Some (Inr s)"
| "xfold f (x # xs) s = xbind (f x s) (xfold f xs)"

lemma xfold_append [simp]: "xfold f (xs @ ys) s = xbind (xfold f xs s) (xfold f ys)"
proof (induction xs arbitrary: s)
  case (Cons x xs)
  then have "xfold f (xs @ ys) = (\<lambda>s. xbind (xfold f xs s) (xfold f ys))" by (rule ext)
  then show ?case by (simp add: xbind_assoc)
qed simp

lemma xfold_inv:
  assumes "P 0 s" and "\<And>i s. i < n \<Longrightarrow> P i s \<Longrightarrow> \<exists>s'. f i s = Some (Inr s') \<and> P (Suc i) s'"
  shows "\<exists>s'. xfold f [0..<n] s = Some (Inr s') \<and> P n s'"
  using assms(2)
proof (induction n)
  case 0
  then show ?case using assms(1) by simp
next
  case (Suc n)
  then obtain s1 where "xfold f [0..<n] s = Some (Inr s1)" "P n s1" by (metis less_Suc_eq)
  moreover obtain s2 where "f n s1 = Some (Inr s2)" "P (Suc n) s2" using Suc.prems [of n s1] calculation by auto
  ultimately show ?case by simp
qed

section \<open>Lists in memory\<close>

fun lseg :: "(addr \<Rightarrow> addr) \<Rightarrow> addr \<Rightarrow> addr list \<Rightarrow> addr \<Rightarrow> bool" where
  "lseg h x [] y \<longleftrightarrow> x = y"
| "lseg h x (a # as) y \<longleftrightarrow> x = a \<and> a \<noteq> 0 \<and> lseg h (h a) as y"

abbreviation is_list :: "(addr \<Rightarrow> addr) \<Rightarrow> addr \<Rightarrow> addr list \<Rightarrow> bool" where
  "is_list h x as \<equiv> lseg h x as 0"

lemma lseg_append: "lseg h x (as @ bs) y \<longleftrightarrow> (\<exists>z. lseg h x as z \<and> lseg h z bs y)"
  by (induction as arbitrary: x) auto

lemma lseg_upd [simp]: "a \<notin> set as \<Longrightarrow> lseg (h(a := v)) x as y \<longleftrightarrow> lseg h x as y"
  by (induction as arbitrary: x) auto

lemma lseg_cong: "(\<And>a. a \<in> set as \<Longrightarrow> h a = h' a) \<Longrightarrow> lseg h x as y \<longleftrightarrow> lseg h' x as y"
  by (induction as arbitrary: x) auto

lemma lseg_nonzero: "lseg h x as y \<Longrightarrow> 0 \<notin> set as"
  by (induction as arbitrary: x) auto

lemma is_list_unique: "is_list h x as \<Longrightarrow> is_list h x bs \<Longrightarrow> as = bs"
proof (induction as arbitrary: x bs)
  case Nil
  then show ?case by (cases bs) auto
next
  case (Cons a as)
  then show ?case by (cases bs) auto
qed

lemma is_list_0 [simp]: "is_list h 0 as \<longleftrightarrow> as = []"
  by (cases as) auto

lemma is_list_nonzero: "is_list h x as \<Longrightarrow> x \<noteq> 0 \<longleftrightarrow> as \<noteq> []"
  by (cases as) auto

lemma is_list_distinct: "is_list h x as \<Longrightarrow> distinct as"
proof (induction as arbitrary: x)
  case (Cons a as)
  have "a \<notin> set as"
  proof
    assume "a \<in> set as"
    then obtain us vs where as: "as = us @ a # vs" by (meson split_list)
    then have "is_list h a (a # vs)" using Cons.prems by (auto simp: lseg_append)
    moreover have "is_list h a (a # as)" using Cons.prems by auto
    ultimately have "a # vs = a # as" by (rule is_list_unique)
    then show False using as by simp
  qed
  then show ?case using Cons by auto
qed simp

lemma is_list_split:
  assumes "is_list h x (as @ bs)"
  shows "\<exists>z. lseg h x as z \<and> is_list h z bs"
  using assms by (simp add: lseg_append)

end
