(* ===== verification/Core_List.thy ===== *)
theory Core_List
  imports Core_State Core_Matrix Linked
begin

text \<open>
  \<open>software-test/benchmarks/coremark/src/core_list_join.c\<close>, the linked list, and the structures of
  \<open>coremark.h\<close> it needs. The memory is one map per structure field (\<open>next\<close> and \<open>info\<close> of a list cell, the data of
  an item); the block of the state machine is a byte memory, the matrices are the arrays of
  \<open>Core_Matrix\<close>. Address 0 is \<open>NULL\<close> and following it is an error (see \<open>Linked\<close>). Pointers are those of a 64-bit build (16 bytes a cell, 4 bytes an item).
\<close>

section \<open>The structures\<close>

record list_data =
  data16 :: s16
  idx :: s16

record core_results =
  seed1 :: s16
  seed2 :: s16
  seed3 :: s16
  memblock :: "nat \<Rightarrow> addr"
  res_size :: u32
  iterations :: u32
  execs :: u32
  res_list :: addr
  mat :: mat_params
  crc :: u16
  crclist :: u16
  crcmatrix :: u16
  crcstate :: u16
  err :: s16

record world =
  nxt :: "addr \<Rightarrow> addr"
  info :: "addr \<Rightarrow> addr"
  dat :: "addr \<Rightarrow> list_data"
  bytes :: mem
  res :: core_results

definition set_next :: "addr \<Rightarrow> addr \<Rightarrow> world \<Rightarrow> world" where
  "set_next p v w = w\<lparr>nxt := (nxt w)(p := v)\<rparr>"

definition set_info :: "addr \<Rightarrow> addr \<Rightarrow> world \<Rightarrow> world" where
  "set_info p v w = w\<lparr>info := (info w)(p := v)\<rparr>"

definition set_data16 :: "addr \<Rightarrow> s16 \<Rightarrow> world \<Rightarrow> world" where
  "set_data16 a v w = w\<lparr>dat := (dat w)(a := (dat w a)\<lparr>data16 := v\<rparr>)\<rparr>"

definition set_idx :: "addr \<Rightarrow> s16 \<Rightarrow> world \<Rightarrow> world" where
  "set_idx a v w = w\<lparr>dat := (dat w)(a := (dat w a)\<lparr>idx := v\<rparr>)\<rparr>"

section \<open>The data of an item\<close>

definition calc_func :: "addr \<Rightarrow> world \<Rightarrow> (s16 \<times> world) outcome" where
  "calc_func pdata w =
     (let data = data16 (dat w pdata); optype = signed_drop_bit 7 data AND 1; r = res w
      in if optype \<noteq> 0 then Some (Inr (data AND 0x007f, w))
      else let flag = data AND 0x7; dtype = signed_drop_bit 3 data AND 0xf; dtype = dtype OR push_bit 4 dtype
      in xbind
        (if flag = 0 then
           let dtype = (if sint dtype < 0x22 then 0x22 else dtype) in
           Option.bind (core_bench_state (res_size r) (memblock r 3) (seed1 r) (seed2 r) dtype (crc r) (bytes w)) (\<lambda>(v, m).
           let retval = ucast v in
             Some (Inr (retval, w\<lparr>bytes := m, res := (if crcstate r = 0 then r\<lparr>crcstate := ucast retval\<rparr> else r)\<rparr>)))
         else if flag = 1 then
           (case core_bench_matrix (mat r) dtype (crc r) of
              Inl e \<Rightarrow> Some (Inl e)
            | Inr (v, p) \<Rightarrow>
                let retval = ucast v; r = r\<lparr>mat := p\<rparr> in
                Some (Inr (retval, w\<lparr>res := (if crcmatrix r = 0 then r\<lparr>crcmatrix := ucast retval\<rparr> else r)\<rparr>)))
         else Some (Inr (data, w)))
        (\<lambda>(retval, w).
           let w = w\<lparr>res := (res w)\<lparr>crc := crcu16 (ucast retval) (crc (res w))\<rparr>\<rparr>;
               retval = retval AND 0x007f
           in Some (Inr (retval, set_data16 pdata ((data AND 0xff00) OR 0x0080 OR retval) w))))"

type_synonym list_cmp = "addr \<Rightarrow> addr \<Rightarrow> world \<Rightarrow> (int \<times> world) outcome"

definition cmp_complex :: list_cmp where
  "cmp_complex a b w =
     xbind (calc_func a w) (\<lambda>(val1, w). xbind (calc_func b w) (\<lambda>(val2, w).
       Some (Inr (sint val1 - sint val2, w))))"

definition restore_data :: "addr \<Rightarrow> world \<Rightarrow> world" where
  "restore_data a w = set_data16 a ((data16 (dat w a) AND 0xff00) OR (0x00ff AND signed_drop_bit 8 (data16 (dat w a)))) w"

definition cmp_idx :: "bool \<Rightarrow> list_cmp" where
  \<comment> \<open>the first argument tells that \<open>res\<close> is \<open>NULL\<close>\<close>
  "cmp_idx null a b w =
     (let w = (if null then restore_data b (restore_data a w) else w)
      in Some (Inr (sint (idx (dat w a)) - sint (idx (dat w b)), w)))"

definition copy_info :: "addr \<Rightarrow> list_data \<Rightarrow> world \<Rightarrow> world" where
  "copy_info to from w = set_idx to (idx from) (set_data16 to (data16 from) w)"

section \<open>Operations on the list\<close>

definition core_list_insert_new ::
  "addr \<Rightarrow> list_data \<Rightarrow> addr \<Rightarrow> addr \<Rightarrow> addr \<Rightarrow> addr \<Rightarrow> world \<Rightarrow> (addr \<times> addr \<times> addr \<times> world) outcome" where
  \<comment> \<open>the new item and the new values of \<open>*memblock\<close> and \<open>*datablock\<close>\<close>
  "core_list_insert_new insert_point new memblk datablock memblock_end datablock_end w =
     (if memblock_end \<le> memblk + 16 then Some (Inr (0, memblk, datablock, w))
      else if datablock_end \<le> datablock + 4 then Some (Inr (0, memblk, datablock, w))
      else let newitem = memblk in
        nonnull newitem (nonnull insert_point (
          let w = set_next newitem (nxt w insert_point) w;
              w = set_next insert_point newitem w;
              w = set_info newitem datablock w;
              w = copy_info (info w newitem) new w
          in Some (Inr (newitem, memblk + 16, datablock + 4, w)))))"

definition core_list_remove :: "addr \<Rightarrow> world \<Rightarrow> (addr \<times> world) outcome" where
  "core_list_remove item w =
     nonnull item (let ret = nxt w item; tmp = info w item in
       nonnull ret (let w = set_info item (info w ret) w;
                        w = set_info ret tmp w;
                        w = set_next item (nxt w (nxt w item)) w;
                        w = set_next ret 0 w
                    in Some (Inr (ret, w))))"

definition core_list_undo_remove :: "addr \<Rightarrow> addr \<Rightarrow> world \<Rightarrow> (addr \<times> world) outcome" where
  "core_list_undo_remove item_removed item_modified w =
     nonnull item_removed (nonnull item_modified (
       let tmp = info w item_removed;
           w = set_info item_removed (info w item_modified) w;
           w = set_info item_modified tmp w;
           w = set_next item_removed (nxt w item_modified) w;
           w = set_next item_modified item_removed w
       in Some (Inr (item_removed, w))))"

partial_function (option) find_by :: "(list_data \<Rightarrow> bool) \<Rightarrow> world \<Rightarrow> addr \<Rightarrow> addr option" where
  \<comment> \<open>\<open>while (list && !found) list = list->next;\<close>\<close>
  "find_by found w l = (if l \<noteq> 0 \<and> \<not> found (dat w (info w l)) then find_by found w (nxt w l) else Some l)"

definition core_list_find :: "addr \<Rightarrow> list_data \<Rightarrow> world \<Rightarrow> addr option" where
  "core_list_find l new w =
     (if 0 \<le> sint (idx new) then find_by (\<lambda>d. idx d = idx new) w l
      else find_by (\<lambda>d. data16 d AND 0xff = data16 new) w l)"

partial_function (option) reverse_loop :: "addr \<Rightarrow> addr \<Rightarrow> world \<Rightarrow> (addr \<times> world) option" where
  "reverse_loop l next w =
     (if l \<noteq> 0 then let tmp = nxt w l in reverse_loop tmp l (set_next l next w) else Some (next, w))"

definition core_list_reverse :: "addr \<Rightarrow> world \<Rightarrow> (addr \<times> world) option" where
  "core_list_reverse l w = reverse_loop l 0 w"

section \<open>The merge sort\<close>

record merge_state =
  ms_p :: addr
  ms_q :: addr
  ms_psize :: nat
  ms_qsize :: nat
  ms_list :: addr
  ms_tail :: addr

fun step_along :: "nat \<Rightarrow> addr \<Rightarrow> nat \<Rightarrow> world \<Rightarrow> (addr \<times> nat) outcome" where
  \<comment> \<open>\<open>q\<close> and \<open>psize\<close> after at most \<open>n\<close> steps\<close>
  "step_along 0 q psize w = Some (Inr (q, psize))"
| "step_along (Suc n) q psize w =
     nonnull q (let psize = psize + 1; q = nxt w q
      in if q = 0 then Some (Inr (q, psize)) else step_along n q psize w)"

definition choose_list :: "list_cmp \<Rightarrow> merge_state \<Rightarrow> world \<Rightarrow> (bool \<times> world) outcome" where
  \<comment> \<open>whether the next element comes from \<open>p\<close>\<close>
  "choose_list cmp t w =
     (if ms_psize t = 0 then Some (Inr (False, w))
      else if ms_qsize t = 0 \<or> ms_q t = 0 then Some (Inr (True, w))
      else nonnull (ms_p t) (xbind (cmp (info w (ms_p t)) (info w (ms_q t)) w) (\<lambda>(v, w). Some (Inr (v \<le> 0, w)))))"

definition append_next :: "bool \<Rightarrow> merge_state \<Rightarrow> world \<Rightarrow> (merge_state \<times> world) outcome" where
  \<comment> \<open>take the element \<open>e\<close> off its list and put it at the tail of the merged one\<close>
  "append_next from_p t w =
     (let e = (if from_p then ms_p t else ms_q t) in
      nonnull e (
        let t = (if from_p then t\<lparr>ms_p := nxt w e, ms_psize := ms_psize t - 1\<rparr>
                 else t\<lparr>ms_q := nxt w e, ms_qsize := ms_qsize t - 1\<rparr>);
            w = (if ms_tail t \<noteq> 0 then set_next (ms_tail t) e w else w);
            t = (if ms_tail t \<noteq> 0 then t else t\<lparr>ms_list := e\<rparr>)
        in Some (Inr (t\<lparr>ms_tail := e\<rparr>, w))))"

partial_function (option) merge_loop :: "list_cmp \<Rightarrow> merge_state \<Rightarrow> world \<Rightarrow> (merge_state \<times> world) outcome" where
  "merge_loop cmp t w =
     (if 0 < ms_psize t \<or> (0 < ms_qsize t \<and> ms_q t \<noteq> 0) then
        xbind (choose_list cmp t w) (\<lambda>(b, w).
        xbind (append_next b t w) (\<lambda>(t, w). merge_loop cmp t w))
      else Some (Inr (t, w)))"

partial_function (option) pass_loop ::
  "list_cmp \<Rightarrow> int \<Rightarrow> addr \<Rightarrow> addr \<Rightarrow> addr \<Rightarrow> int \<Rightarrow> world \<Rightarrow> (addr \<times> addr \<times> int \<times> world) outcome" where
  \<comment> \<open>\<open>while (p)\<close>: the list, its tail and the number of merges\<close>
  "pass_loop cmp insize p l tail nmerges w =
     (if p \<noteq> 0 then
        (case s32 (nmerges + 1) of Inl e \<Rightarrow> Some (Inl e) | Inr nmerges \<Rightarrow>
        xbind (step_along (nat insize) p 0 w) (\<lambda>(q, psize).
        xbind (merge_loop cmp \<lparr>ms_p = p, ms_q = q, ms_psize = psize, ms_qsize = nat insize,
                 ms_list = l, ms_tail = tail\<rparr> w) (\<lambda>(t, w).
        pass_loop cmp insize (ms_q t) (ms_list t) (ms_tail t) nmerges w)))
      else Some (Inr (l, tail, nmerges, w)))"

partial_function (option) sort_loop :: "list_cmp \<Rightarrow> int \<Rightarrow> addr \<Rightarrow> world \<Rightarrow> (addr \<times> world) outcome" where
  "sort_loop cmp insize l w =
     xbind (pass_loop cmp insize l 0 0 0 w) (\<lambda>(l, tail, nmerges, w).
     nonnull tail (let w = set_next tail 0 w in
       if nmerges \<le> 1 then Some (Inr (l, w))
       else (case s32 (insize * 2) of Inl e \<Rightarrow> Some (Inl e) | Inr insize \<Rightarrow> sort_loop cmp insize l w)))"

definition core_list_mergesort :: "addr \<Rightarrow> list_cmp \<Rightarrow> world \<Rightarrow> (addr \<times> world) outcome" where
  "core_list_mergesort l cmp w = sort_loop cmp 1 l w"

section \<open>The benchmark\<close>

record find_state =
  fs_list :: addr
  fs_retval :: u16
  fs_found :: u16
  fs_missed :: u16
  fs_info :: list_data

definition find_round :: "nat \<Rightarrow> find_state \<times> world \<Rightarrow> (find_state \<times> world) outcome" where
  \<comment> \<open>the body of \<open>for (i = 0; i < find_num; i++)\<close>\<close>
  "find_round i fw =
     (let (f, w) = fw; key = (fs_info f)\<lparr>data16 := of_nat i AND 0xff\<rparr> in
      Option.bind (core_list_find (fs_list f) key w) (\<lambda>this_find.
      Option.bind (core_list_reverse (fs_list f) w) (\<lambda>(l, w).
        let f = f\<lparr>fs_list := l, fs_info := (if 0 \<le> sint (idx key) then key\<lparr>idx := idx key + 1\<rparr> else key)\<rparr> in
        if this_find = 0 then
          nonnull l (nonnull (nxt w l)
            (Some (Inr (f\<lparr>fs_missed := fs_missed f + 1,
                fs_retval := fs_retval f + ucast (signed_drop_bit 8 (data16 (dat w (info w (nxt w l)))) AND 1)\<rparr>, w))))
        else
          let d = data16 (dat w (info w this_find));
              f = f\<lparr>fs_found := fs_found f + 1,
                fs_retval := fs_retval f + (if d AND 1 \<noteq> 0 then ucast (signed_drop_bit 9 d AND 1) else 0)\<rparr>
          in if nxt w this_find \<noteq> 0 then
            nonnull l (let finder = nxt w this_find;
                w = set_next this_find (nxt w finder) w;
                w = set_next finder (nxt w l) w;
                w = set_next l finder w
              in Some (Inr (f, w)))
          else Some (Inr (f, w)))))"

partial_function (option) crc_list :: "addr \<Rightarrow> addr \<Rightarrow> world \<Rightarrow> u16 \<Rightarrow> u16 outcome" where
  \<comment> \<open>\<open>while (finder) { retval = crc16(list->info->data16, retval); finder = finder->next; }\<close>\<close>
  "crc_list l finder w retval =
     (if finder \<noteq> 0 then nonnull l (crc_list l (nxt w finder) w (crc16 (data16 (dat w (info w l))) retval))
      else Some (Inr retval))"

definition core_bench_list :: "s16 \<Rightarrow> world \<Rightarrow> (u16 \<times> addr \<times> world) outcome" where
  \<comment> \<open>the checksum, and the head of the list as the function leaves it (\<open>res->list\<close> keeps the old one)\<close>
  "core_bench_list finder_idx w =
     xbind (xfold find_round [0..<nat (sint (seed3 (res w)))]
       (\<lparr>fs_list = res_list (res w), fs_retval = 0, fs_found = 0, fs_missed = 0,
         fs_info = \<lparr>data16 = 0, idx = finder_idx\<rparr>\<rparr>, w)) (\<lambda>(f, w).
     let retval = fs_retval f + (fs_found f * 4 - fs_missed f) in
     xbind (if 0 < sint finder_idx then core_list_mergesort (fs_list f) cmp_complex w else Some (Inr (fs_list f, w))) (\<lambda>(l, w).
     nonnull l (
     xbind (core_list_remove (nxt w l) w) (\<lambda>(remover, w).
     Option.bind (core_list_find l (fs_info f) w) (\<lambda>finder.
     xbind (crc_list l (if finder = 0 then nxt w l else finder) w retval) (\<lambda>retval.
     xbind (core_list_undo_remove remover (nxt w l) w) (\<lambda>(remover, w).
     xbind (core_list_mergesort l (cmp_idx True) w) (\<lambda>(l, w).
     nonnull l (
     xbind (crc_list l (nxt w l) w retval) (\<lambda>retval.
       Some (Inr (retval, l, w))))))))))))"

section \<open>Initialisation\<close>

definition fill_item :: "u32 \<Rightarrow> s16 \<Rightarrow> addr \<Rightarrow> addr \<Rightarrow> addr \<Rightarrow> nat \<Rightarrow> addr \<times> addr \<times> world \<Rightarrow> (addr \<times> addr \<times> world) outcome" where
  \<comment> \<open>the body of \<open>for (i = 0; i < size; i++)\<close>\<close>
  "fill_item sz seed l memblock_end datablock_end i s =
     (let (memblk, datablock, w) = s;
          datpat = (ucast (scast seed XOR (of_nat i :: u32)) AND 0xf) :: u16;
          d = push_bit 3 datpat OR (of_nat i AND 7);
          new = \<lparr>data16 = ucast (push_bit 8 d OR d), idx = 0x7fff\<rparr>
      in xbind (core_list_insert_new l new memblk datablock memblock_end datablock_end w)
           (\<lambda>(_, memblk, datablock, w). Some (Inr (memblk, datablock, w))))"

partial_function (option) index_items :: "u32 \<Rightarrow> s16 \<Rightarrow> addr \<Rightarrow> u32 \<Rightarrow> world \<Rightarrow> world outcome" where
  \<comment> \<open>\<open>while (finder->next != NULL)\<close>\<close>
  "index_items sz seed finder i w =
     nonnull finder
      (if nxt w finder \<noteq> 0 then
         let v = (if i < sz div 5 then ucast i
                  else let pat = ucast (i XOR scast seed) :: u16 in ucast (0x3fff AND (push_bit 8 (ucast (i + 1) AND 7) OR pat)))
         in index_items sz seed (nxt w finder) (i + 1) (set_idx (info w finder) v w)
       else Some (Inr w))"

definition core_list_init :: "u32 \<Rightarrow> addr \<Rightarrow> s16 \<Rightarrow> world \<Rightarrow> (addr \<times> world) outcome" where
  "core_list_init blksize memblk seed w =
     (let per_item = 16 + 4;
          sz = blksize div per_item - 2;
          memblock_end = memblk + 16 * ucast sz;
          datablock = memblock_end;
          datablock_end = datablock + 4 * ucast sz;
          l = memblk
      in nonnull l (
        let w = set_next l 0 w;
            w = set_info l datablock w;
            w = set_data16 (info w l) 0x8080 (set_idx (info w l) 0 w);
            new = \<lparr>data16 = 0xffff, idx = 0x7fff\<rparr>
        in
        xbind (core_list_insert_new l new (memblk + 16) (datablock + 4) memblock_end datablock_end w)
          (\<lambda>(_, memblk, datablock, w).
        xbind (xfold (fill_item sz seed l memblock_end datablock_end) [0..<unat sz] (memblk, datablock, w))
          (\<lambda>(memblk, datablock, w).
        xbind (index_items sz seed (nxt w l) 1 w) (\<lambda>w.
          core_list_mergesort l (cmp_idx True) w)))))"


section \<open>Finding and reversing\<close>

lemma find_by_run:
  assumes "is_list (nxt w) l as"
  shows "find_by found w l = Some (case List.find (\<lambda>a. found (dat w (info w a))) as of None \<Rightarrow> 0 | Some a \<Rightarrow> a)"
  using assms
proof (induction as arbitrary: l)
  case Nil
  then show ?case by (subst find_by.simps) simp
next
  case (Cons a as)
  then show ?case by (subst find_by.simps) auto
qed

lemma reverse_loop_run:
  assumes "is_list (nxt w) l as" and "is_list (nxt w) r bs" and "set as \<inter> set bs = {}"
  shows "\<exists>h w'. reverse_loop l r w = Some (h, w') \<and> is_list (nxt w') h (rev as @ bs) \<and>
    w' = w\<lparr>nxt := nxt w'\<rparr> \<and> (\<forall>a. a \<notin> set as \<longrightarrow> nxt w' a = nxt w a)"
  using assms
proof (induction as arbitrary: l r bs w)
  case Nil
  then show ?case by (subst reverse_loop.simps) simp
next
  case (Cons a as)
  let ?w = "set_next l r w"
  have d: "a \<notin> set as" using is_list_distinct [OF Cons.prems(1)] by simp
  have l: "l = a" "l \<noteq> 0" using Cons.prems(1) by auto
  have 1: "is_list (nxt ?w) (nxt w l) as" using Cons.prems(1) d by (simp add: set_next_def)
  have 2: "is_list (nxt ?w) l (l # bs)" using Cons.prems(2,3) l by (simp add: set_next_def)
  have 3: "set as \<inter> set (l # bs) = {}" using Cons.prems(3) d l by auto
  obtain h w' where r: "reverse_loop (nxt w l) l ?w = Some (h, w')" "is_list (nxt w') h (rev as @ l # bs)"
    "w' = ?w\<lparr>nxt := nxt w'\<rparr>" "\<forall>a. a \<notin> set as \<longrightarrow> nxt w' a = nxt ?w a"
    using Cons.IH [OF 1 2 3] by blast
  have "w' = w\<lparr>nxt := nxt w'\<rparr>" using r(3) by (simp add: set_next_def)
  moreover have "\<forall>b. b \<notin> set (a # as) \<longrightarrow> nxt w' b = nxt w b" using r(4) l by (simp add: set_next_def)
  ultimately show ?case
    using r(1,2) l by (subst reverse_loop.simps) auto
qed

lemma reverse_run:
  assumes "is_list (nxt w) l as"
  shows "\<exists>h w'. core_list_reverse l w = Some (h, w') \<and> is_list (nxt w') h (rev as) \<and>
    w' = w\<lparr>nxt := nxt w'\<rparr> \<and> (\<forall>a. a \<notin> set as \<longrightarrow> nxt w' a = nxt w a)"
  using reverse_loop_run [OF assms, of 0 "[]"] by (simp add: core_list_reverse_def)

end
