(* ===== verification/Core_Sort.thy ===== *)
theory Core_Sort
  imports Core_List "HOL-Library.Multiset"
begin

text \<open>
  The in-place merge sort of \<open>core_list_join.c\<close> refines sorting the list of cells: \<open>merged\<close> and
  \<open>passed\<close> describe what one merge and one pass do to the sequence of cells, the locale
  \<open>comparison\<close> is what the sort relies on in a comparison function (it may change the data, never the links) and
  what it does to the two items it is given, which the sort then has done to every item of the list,
  \<open>ordered_comparison\<close> adds that it compares a key, for which the sort is the stable \<open>sort_key\<close>.
\<close>

section \<open>Sequences\<close>

inductive merged :: "('a \<Rightarrow> 'a \<Rightarrow> bool) \<Rightarrow> ('a \<Rightarrow> 'a \<Rightarrow> bool) \<Rightarrow> 'a list \<Rightarrow> 'a list \<Rightarrow> 'a list \<Rightarrow> bool"
  for LE GT where
  merged_Nil1: "merged LE GT [] qs qs"
| merged_Nil2: "merged LE GT ps [] ps"
| merged_LE: "LE p q \<Longrightarrow> merged LE GT ps (q # qs) ms \<Longrightarrow> merged LE GT (p # ps) (q # qs) (p # ms)"
| merged_GT: "GT p q \<Longrightarrow> merged LE GT (p # ps) qs ms \<Longrightarrow> merged LE GT (p # ps) (q # qs) (q # ms)"

lemma merged_mset: "merged LE GT ps qs ms \<Longrightarrow> mset ms = mset ps + mset qs"
  by (induction rule: merged.induct) auto

lemma merged_set: "merged LE GT ps qs ms \<Longrightarrow> set ms = set ps \<union> set qs"
  by (drule merged_mset) (metis set_mset_mset set_mset_union)

lemma merged_length: "merged LE GT ps qs ms \<Longrightarrow> length ms = length ps + length qs"
  by (drule merged_mset) (metis size_mset size_union)

inductive passed :: "('a \<Rightarrow> 'a \<Rightarrow> bool) \<Rightarrow> ('a \<Rightarrow> 'a \<Rightarrow> bool) \<Rightarrow> nat \<Rightarrow> 'a list \<Rightarrow> nat \<Rightarrow> 'a list \<Rightarrow> bool"
  for LE GT n where
  passed_Nil: "passed LE GT n [] 0 []"
| passed_step: "xs \<noteq> [] \<Longrightarrow> merged LE GT (take n xs) (take n (drop n xs)) ms \<Longrightarrow>
    passed LE GT n (drop n (drop n xs)) k ms' \<Longrightarrow> passed LE GT n xs (Suc k) (ms @ ms')"

lemma passed_mset: "passed LE GT n xs k ms \<Longrightarrow> mset ms = mset xs"
proof (induction rule: passed.induct)
  case (passed_step xs ms k ms')
  then have "mset (ms @ ms') = mset (take n xs @ take n (drop n xs) @ drop n (drop n xs))"
    by (simp add: merged_mset)
  then show ?case by (simp only: append_take_drop_id)
qed simp

lemma passed_length: "passed LE GT n xs k ms \<Longrightarrow> length ms = length xs"
  by (drule passed_mset) (metis size_mset)

lemma passed_count:
  assumes "passed LE GT n xs k ms" and "0 < n"
  shows "k \<le> length xs" and "k \<le> 1 \<longleftrightarrow> length xs \<le> 2 * n"
  using assms(1)
proof (induction rule: passed.induct)
  case (passed_step xs ms k ms')
  { case 1
    have "length (drop n (drop n xs)) < length xs" using passed_step.hyps(1) assms(2) by (cases xs) auto
    then show ?case using passed_step.IH(1) by simp
  next
    case 2
    have "k = 0 \<longleftrightarrow> drop n (drop n xs) = []" using passed_step.hyps(3) by (auto elim: passed.cases)
    then show ?case by auto
  }
qed simp_all

section \<open>The keys\<close>

lemma merged_sorted:
  fixes key :: "'a \<Rightarrow> 'k::linorder"
  assumes "merged (\<lambda>a b. key a \<le> key b) (\<lambda>a b. key b < key a) ps qs ms"
    and "sorted (map key ps)" and "sorted (map key qs)"
  shows "sorted (map key ms)" and "filter (\<lambda>x. key x = k) ms = filter (\<lambda>x. key x = k) ps @ filter (\<lambda>x. key x = k) qs"
  using assms
proof (induction rule: merged.induct)
  case (merged_LE p q ps qs ms)
  { case 1
    then show ?case using merged_LE merged_set [OF merged_LE.hyps(2)] by fastforce
  next
    case 2
    then show ?case using merged_LE by auto
  }
next
  case (merged_GT p q ps qs ms)
  { case 1
    then show ?case using merged_GT merged_set [OF merged_GT.hyps(2)] by fastforce
  next
    case 2
    have "filter (\<lambda>x. key x = k) (p # ps) = []" if "key q = k"
      using that 2 merged_GT.hyps(1) by (fastforce simp: filter_empty_conv)
    then show ?case using 2 merged_GT by auto
  }
qed simp_all


definition each_run :: "('a list \<Rightarrow> bool) \<Rightarrow> nat \<Rightarrow> 'a list \<Rightarrow> bool" where
  \<comment> \<open>what holds of each of the pieces of length \<open>n\<close>, the last of which may be shorter\<close>
  "each_run Q n xs \<longleftrightarrow> (\<forall>i. Q (take n (drop (i * n) xs)))"

lemma each_run_whole: "each_run Q n xs \<Longrightarrow> length xs \<le> n \<Longrightarrow> Q xs"
  by (auto simp: each_run_def dest: spec [of _ 0])

lemma each_run_first: "each_run Q n xs \<Longrightarrow> Q (take n xs)"
  by (auto simp: each_run_def dest: spec [of _ 0])

lemma each_run_drop: "each_run Q n xs \<Longrightarrow> each_run Q n (drop n xs)"
  unfolding each_run_def drop_drop by (metis mult_Suc add.commute)

lemma each_run_mono: "each_run Q n xs \<Longrightarrow> (\<And>r. Q r \<Longrightarrow> Q' r) \<Longrightarrow> each_run Q' n xs"
  by (simp add: each_run_def)

lemma each_run_append:
  assumes "Q ms" and "length ms = n \<or> length ms \<le> n \<and> ms' = []" and "each_run Q n ms'"
  shows "each_run Q n (ms @ ms')"
proof -
  have "Q (take n (drop (i * n) (ms @ ms')))" for i
  proof (cases i)
    case 0
    then show ?thesis using assms(1,2) by auto
  next
    case (Suc j)
    have "drop (i * n) (ms @ ms') = drop (j * n) ms'"
      using assms(2) Suc by auto
    then show ?thesis using assms(3) by (simp add: each_run_def)
  qed
  then show ?thesis by (simp add: each_run_def)
qed

abbreviation runs :: "('a \<Rightarrow> 'k::linorder) \<Rightarrow> nat \<Rightarrow> 'a list \<Rightarrow> bool" where
  \<comment> \<open>the pieces of length \<open>n\<close> are sorted\<close>
  "runs key \<equiv> each_run (\<lambda>r. sorted (map key r))"

lemma runs_1: "runs key 1 xs"
proof -
  have "sorted (map key (take 1 ys))" for ys by (cases ys) simp_all
  then show ?thesis by (simp add: each_run_def)
qed

lemma runs_first: "runs key n xs \<Longrightarrow> sorted (map key (take n xs))"
  by (rule each_run_first)

lemma merged_pieces:
  assumes "merged LE GT (take n xs) (take n (drop n xs)) ms" and "passed LE GT n (drop n (drop n xs)) k ms'"
  shows "length ms = 2 * n \<or> length ms \<le> 2 * n \<and> ms' = []"
proof -
  have "length ms = min n (length xs) + min n (length xs - n)" using merged_length [OF assms(1)] by simp
  moreover have "length ms' = length xs - n - n" using passed_length [OF assms(2)] by simp
  ultimately show ?thesis by auto
qed

lemma passed_sorted:
  fixes key :: "'a \<Rightarrow> 'k::linorder"
  assumes "passed (\<lambda>a b. key a \<le> key b) (\<lambda>a b. key b < key a) n xs c ms" and "runs key n xs"
  shows "runs key (2 * n) ms" and "filter (\<lambda>x. key x = k) ms = filter (\<lambda>x. key x = k) xs"
  using assms
proof (induction rule: passed.induct)
  case (passed_step xs ms c ms')
  note m = merged_sorted [OF passed_step.hyps(2) runs_first runs_first [OF each_run_drop]]
  { case 1
    show ?case
      by (rule each_run_append [OF m(1) [OF 1 1] merged_pieces [OF passed_step.hyps(2,3)]
            passed_step.IH(1) [OF each_run_drop [OF each_run_drop [OF 1]]]])
  next
    case 2
    let ?f = "filter (\<lambda>x. key x = k)"
    have "?f (ms @ ms') = ?f (take n xs @ take n (drop n xs) @ drop n (drop n xs))"
      using m(2) [OF 2 2] passed_step.IH(2) [OF each_run_drop [OF each_run_drop [OF 2]]] by simp
    then show ?case by (simp only: append_take_drop_id)
  }
qed (simp_all add: each_run_def)


section \<open>The list that is being built\<close>

definition built :: "(addr \<Rightarrow> addr) \<Rightarrow> addr \<Rightarrow> addr \<Rightarrow> addr list \<Rightarrow> bool" where
  \<comment> \<open>the cells linked from \<open>l\<close> to \<open>tail\<close>, the link of the last one not set yet\<close>
  "built h l tail out \<longleftrightarrow> (if out = [] then l = 0 \<and> tail = 0 else
     tail = last out \<and> tail \<noteq> 0 \<and> lseg h l (butlast out) tail)"

lemma built_Nil [simp]: "built h 0 0 []"
  by (simp add: built_def)

lemma built_tail: "built h l tail out \<Longrightarrow> tail \<noteq> 0 \<longleftrightarrow> out \<noteq> []"
  by (auto simp: built_def split: if_splits)

lemma built_append:
  assumes "built h l tail out" and "distinct (out @ [e])" and "e \<noteq> 0"
  shows "built (if tail \<noteq> 0 then h(tail := e) else h) (if tail \<noteq> 0 then l else e) e (out @ [e])"
proof (cases "out = []")
  case True
  then show ?thesis using assms by (simp add: built_def)
next
  case False
  then obtain us where us: "out = us @ [tail]" and t: "tail \<noteq> 0" and l: "lseg h l us tail"
    using assms(1) by (metis append_butlast_last_id built_def)
  have "tail \<notin> set us" using assms(2) us by auto
  then show ?thesis using us t l assms(3) by (simp add: built_def lseg_append butlast_append)
qed

lemma built_finish:
  assumes "built h l tail out" and "out \<noteq> []" and "distinct out"
  shows "is_list (h(tail := 0)) l out"
proof -
  obtain us where us: "out = us @ [tail]" and t: "tail \<noteq> 0" and l: "lseg h l us tail"
    using assms(1,2) by (metis append_butlast_last_id built_def)
  have "tail \<notin> set us" using assms(3) us by auto
  then show ?thesis using us t l by (simp add: lseg_append)
qed

lemma step_along_run:
  assumes "is_list (nxt w) q Q" and "Q \<noteq> [] \<or> n = 0"
  shows "\<exists>q'. step_along n q c w = Some (Inr (q', c + min n (length Q))) \<and>
    lseg (nxt w) q (take n Q) q' \<and> is_list (nxt w) q' (drop n Q)"
  using assms
proof (induction n arbitrary: q Q c)
  case (Suc n)
  then obtain Q' where Q: "Q = q # Q'" "q \<noteq> 0" "is_list (nxt w) (nxt w q) Q'" by (cases Q) auto
  show ?case
  proof (cases "nxt w q = 0")
    case True
    then show ?thesis using Q by simp
  next
    case False
    then have "Q' \<noteq> [] \<or> n = 0" using Q(3) by auto
    then obtain q' where q': "step_along n (nxt w q) (Suc c) w = Some (Inr (q', Suc c + min n (length Q')))"
      "lseg (nxt w) (nxt w q) (take n Q') q'" "is_list (nxt w) q' (drop n Q')"
      using Suc.IH [OF Q(3)] by blast
    have "step_along (Suc n) q c w = Some (Inr (q', c + min (Suc n) (length Q)))"
      using q'(1) Q(1,2) False by (simp add: Let_def)
    then show ?thesis using q'(2,3) Q(1,2) by simp
  qed
qed simp

section \<open>Merging, for any comparison function\<close>

locale comparison =
  fixes cmp :: list_cmp and I :: "world \<Rightarrow> bool" and LE GT :: "addr \<Rightarrow> addr \<Rightarrow> bool"
    and C :: "addr \<Rightarrow> world \<Rightarrow> bool"
  assumes cmp_returns: "I w \<Longrightarrow> \<exists>v w'. cmp a b w = Some (Inr (v, w')) \<and> I w' \<and> nxt w' = nxt w \<and> info w' = info w \<and>
      (if v \<le> 0 then LE a b else GT a b) \<and> C a w' \<and> C b w' \<and> (\<forall>x. C x w \<longrightarrow> C x w')"
    and I_set_next: "I w \<Longrightarrow> I (set_next p v w)"
    and C_set_next: "C x w \<Longrightarrow> C x (set_next p v w)"
begin

definition kept :: "world \<Rightarrow> world \<Rightarrow> bool" where
  \<comment> \<open>what has been done to an item stays done\<close>
  "kept w w' \<longleftrightarrow> (\<forall>x. C x w \<longrightarrow> C x w')"

lemma set_next_info: "info (set_next p v w) = info w"
  by (simp add: set_next_def)

lemma kept_refl [simp]: "kept w w"
  by (simp add: kept_def)

lemma kept_trans: "kept w w1 \<Longrightarrow> kept w1 w2 \<Longrightarrow> kept w w2"
  by (simp add: kept_def)

lemma append_next_run:
  assumes "built (nxt w) (ms_list t) (ms_tail t) out" and "distinct (out @ [if b then ms_p t else ms_q t])"
    and "(if b then ms_p t else ms_q t) \<noteq> 0" and "I w"
  shows "\<exists>t' w'. append_next b t w = Some (Inr (t', w')) \<and> I w' \<and> info w' = info w \<and> kept w w' \<and>
    built (nxt w') (ms_list t') (ms_tail t') (out @ [if b then ms_p t else ms_q t]) \<and>
    (\<forall>a. a \<notin> set out \<longrightarrow> nxt w' a = nxt w a) \<and>
    (if b then ms_p t' = nxt w (ms_p t) \<and> ms_psize t' = ms_psize t - 1 \<and> ms_q t' = ms_q t \<and> ms_qsize t' = ms_qsize t
     else ms_q t' = nxt w (ms_q t) \<and> ms_qsize t' = ms_qsize t - 1 \<and> ms_p t' = ms_p t \<and> ms_psize t' = ms_psize t)"
proof -
  have "ms_tail t \<in> set out" if "ms_tail t \<noteq> 0"
    using assms(1) that by (auto simp: built_def split: if_splits)
  then show ?thesis
    using assms I_set_next [OF assms(4)] built_append [OF assms(1-3)]
    by (cases b; cases "ms_tail t = 0") (auto simp: append_next_def Let_def set_next_def kept_def C_set_next [unfolded set_next_def])
qed

end


context comparison begin

definition merging :: "world \<Rightarrow> merge_state \<Rightarrow> addr list \<Rightarrow> addr list \<Rightarrow> addr list \<Rightarrow> bool" where
  \<comment> \<open>\<open>out\<close> is merged, \<open>ps\<close> is left of the first list and \<open>Q\<close> starts at the second\<close>
  "merging w t out ps Q \<longleftrightarrow> I w \<and> built (nxt w) (ms_list t) (ms_tail t) out \<and> (\<exists>z. lseg (nxt w) (ms_p t) ps z) \<and>
     ms_psize t = length ps \<and> is_list (nxt w) (ms_q t) Q \<and> distinct (out @ ps @ Q)"

lemma merging_cong:
  assumes "merging w t out ps Q" and "I w'" and "nxt w' = nxt w"
  shows "merging w' t out ps Q"
  using assms by (simp add: merging_def)

lemma take_p:
  assumes "merging w t out (p # ps) Q"
  shows "\<exists>t' w'. append_next True t w = Some (Inr (t', w')) \<and> merging w' t' (out @ [p]) ps Q \<and> info w' = info w \<and>
    ms_qsize t' = ms_qsize t \<and> (\<forall>a. a \<notin> set out \<longrightarrow> nxt w' a = nxt w a) \<and> kept w w'"
proof -
  obtain z where z: "lseg (nxt w) (ms_p t) (p # ps) z" using assms by (auto simp: merging_def)
  then have p: "ms_p t = p" "p \<noteq> 0" by auto
  obtain t' w' where a: "append_next True t w = Some (Inr (t', w'))" "I w'" "info w' = info w"
    "built (nxt w') (ms_list t') (ms_tail t') (out @ [p])" "\<forall>a. a \<notin> set out \<longrightarrow> nxt w' a = nxt w a"
    "ms_p t' = nxt w p" "ms_psize t' = ms_psize t - 1" "ms_q t' = ms_q t" "ms_qsize t' = ms_qsize t" "kept w w'"
    using append_next_run [of w t out True] assms p by (auto simp: merging_def)
  have "lseg (nxt w') (nxt w p) ps z"
    by (rule lseg_cong [THEN iffD1, of _ "nxt w"]) (use a(5) assms z p in \<open>auto simp: merging_def\<close>)
  moreover have "is_list (nxt w') (ms_q t) Q"
    by (rule lseg_cong [THEN iffD1, of _ "nxt w"]) (use a(5) assms in \<open>auto simp: merging_def\<close>)
  ultimately have "merging w' t' (out @ [p]) ps Q" using a assms by (auto simp: merging_def)
  then show ?thesis using a by blast
qed

lemma take_q:
  assumes "merging w t out ps (q # Q)"
  shows "\<exists>t' w'. append_next False t w = Some (Inr (t', w')) \<and> merging w' t' (out @ [q]) ps Q \<and> info w' = info w \<and>
    ms_qsize t' = ms_qsize t - 1 \<and> (\<forall>a. a \<notin> set out \<longrightarrow> nxt w' a = nxt w a) \<and> kept w w'"
proof -
  obtain z where z: "lseg (nxt w) (ms_p t) ps z" using assms by (auto simp: merging_def)
  have q: "ms_q t = q" "q \<noteq> 0" using assms by (auto simp: merging_def)
  obtain t' w' where a: "append_next False t w = Some (Inr (t', w'))" "I w'" "info w' = info w"
    "built (nxt w') (ms_list t') (ms_tail t') (out @ [q])" "\<forall>a. a \<notin> set out \<longrightarrow> nxt w' a = nxt w a"
    "ms_q t' = nxt w q" "ms_qsize t' = ms_qsize t - 1" "ms_p t' = ms_p t" "ms_psize t' = ms_psize t" "kept w w'"
    using append_next_run [of w t out False] assms q by (auto simp: merging_def)
  have "lseg (nxt w') (ms_p t) ps z"
    by (rule lseg_cong [THEN iffD1, of _ "nxt w"]) (use a(5) assms z in \<open>auto simp: merging_def\<close>)
  moreover have "is_list (nxt w') (nxt w q) Q"
    by (rule lseg_cong [THEN iffD1, of _ "nxt w"]) (use a(5) assms q in \<open>auto simp: merging_def\<close>)
  ultimately have "merging w' t' (out @ [q]) ps Q" using a assms by (auto simp: merging_def)
  then show ?thesis using a by blast
qed

abbreviation le_of :: "(addr \<Rightarrow> addr) \<Rightarrow> addr \<Rightarrow> addr \<Rightarrow> bool" where "le_of f a b \<equiv> LE (f a) (f b)"
abbreviation gt_of :: "(addr \<Rightarrow> addr) \<Rightarrow> addr \<Rightarrow> addr \<Rightarrow> bool" where "gt_of f a b \<equiv> GT (f a) (f b)"

definition heads :: "addr list \<Rightarrow> addr list \<Rightarrow> world \<Rightarrow> bool" where
  \<comment> \<open>the first items of two lists have been compared\<close>
  "heads ps qs w \<longleftrightarrow> (ps \<noteq> [] \<longrightarrow> qs \<noteq> [] \<longrightarrow> C (info w (hd ps)) w \<and> C (info w (hd qs)) w)"

lemma heads_Nil [simp]: "heads [] qs w" "heads ps [] w"
  by (simp_all add: heads_def)

lemma heads_kept: "heads ps qs w \<Longrightarrow> kept w w' \<Longrightarrow> info w' = info w \<Longrightarrow> heads ps qs w'"
  by (simp add: heads_def kept_def)

definition merges :: "world \<Rightarrow> merge_state \<Rightarrow> addr list \<Rightarrow> addr list \<Rightarrow> addr list \<Rightarrow> bool" where
  \<comment> \<open>the loop appends a merge of what is left of the first list and of the next \<open>ms_qsize\<close> cells of the second\<close>
  "merges w t out ps Q \<longleftrightarrow> (\<exists>t' w' ms. merge_loop cmp t w = Some (Inr (t', w')) \<and> info w' = info w \<and>
    merged (le_of (info w)) (gt_of (info w)) ps (take (ms_qsize t) Q) ms \<and>
    merging w' t' (out @ ms) [] (drop (ms_qsize t) Q) \<and> (\<forall>a. a \<notin> set (out @ ms) \<longrightarrow> nxt w' a = nxt w a) \<and>
    kept w w' \<and> heads ps (take (ms_qsize t) Q) w')"

lemma merging_q_zero: "merging w t out ps Q \<Longrightarrow> ms_q t = 0 \<longleftrightarrow> Q = []"
  using is_list_nonzero [of "nxt w" "ms_q t" Q] by (auto simp: merging_def)

lemma merges_p:
  assumes mg: "merging w t out (p # ps) Q" and ch: "choose_list cmp t w = Some (Inr (True, w1))"
    and w1: "I w1" "nxt w1 = nxt w" "info w1 = info w" "kept w w1" "heads (p # ps) (take (ms_qsize t) Q) w1"
    and ok: "\<And>ms. merged (le_of (info w)) (gt_of (info w)) ps (take (ms_qsize t) Q) ms \<Longrightarrow>
      merged (le_of (info w)) (gt_of (info w)) (p # ps) (take (ms_qsize t) Q) (p # ms)"
    and rest: "\<And>w2 t2. merging w2 t2 (out @ [p]) ps Q \<Longrightarrow> ms_qsize t2 = ms_qsize t \<Longrightarrow> merges w2 t2 (out @ [p]) ps Q"
  shows "merges w t out (p # ps) Q"
proof -
  obtain t2 w2 where s: "append_next True t w1 = Some (Inr (t2, w2))" "merging w2 t2 (out @ [p]) ps Q"
    "info w2 = info w" "ms_qsize t2 = ms_qsize t" "\<forall>a. a \<notin> set out \<longrightarrow> nxt w2 a = nxt w a" "kept w1 w2"
    using take_p [OF merging_cong [OF mg w1(1,2)]] w1 by auto
  obtain t' w' ms where r: "merge_loop cmp t2 w2 = Some (Inr (t', w'))" "info w' = info w"
    "merged (le_of (info w)) (gt_of (info w)) ps (take (ms_qsize t) Q) ms"
    "merging w' t' (out @ p # ms) [] (drop (ms_qsize t) Q)" "\<forall>a. a \<notin> set (out @ p # ms) \<longrightarrow> nxt w' a = nxt w2 a" "kept w2 w'"
    using rest [OF s(2,4)] s(3,4) by (auto simp: merges_def)
  have "merge_loop cmp t w = Some (Inr (t', w'))"
    using mg ch s(1) r(1) by (subst merge_loop.simps) (simp add: merging_def)
  moreover have k: "kept w1 w'" by (rule kept_trans [OF s(6) r(6)])
  moreover have "heads (p # ps) (take (ms_qsize t) Q) w'" by (rule heads_kept [OF w1(5) k]) (simp add: r(2) w1(3))
  ultimately show ?thesis using ok [OF r(3)] r s(5) kept_trans [OF w1(4)] by (auto simp: merges_def)
qed

lemma merges_q:
  assumes mg: "merging w t out ps (q # Q)" and n: "ms_qsize t = Suc n" and ch: "choose_list cmp t w = Some (Inr (False, w1))"
    and w1: "I w1" "nxt w1 = nxt w" "info w1 = info w" "kept w w1" "heads ps (q # take n Q) w1"
    and ok: "\<And>ms. merged (le_of (info w)) (gt_of (info w)) ps (take n Q) ms \<Longrightarrow>
      merged (le_of (info w)) (gt_of (info w)) ps (q # take n Q) (q # ms)"
    and rest: "\<And>w2 t2. merging w2 t2 (out @ [q]) ps Q \<Longrightarrow> ms_qsize t2 = n \<Longrightarrow> merges w2 t2 (out @ [q]) ps Q"
  shows "merges w t out ps (q # Q)"
proof -
  obtain t2 w2 where s: "append_next False t w1 = Some (Inr (t2, w2))" "merging w2 t2 (out @ [q]) ps Q"
    "info w2 = info w" "ms_qsize t2 = n" "\<forall>a. a \<notin> set out \<longrightarrow> nxt w2 a = nxt w a" "kept w1 w2"
    using take_q [OF merging_cong [OF mg w1(1,2)]] w1 n by auto
  obtain t' w' ms where r: "merge_loop cmp t2 w2 = Some (Inr (t', w'))" "info w' = info w"
    "merged (le_of (info w)) (gt_of (info w)) ps (take n Q) ms"
    "merging w' t' (out @ q # ms) [] (drop n Q)" "\<forall>a. a \<notin> set (out @ q # ms) \<longrightarrow> nxt w' a = nxt w2 a" "kept w2 w'"
    using rest [OF s(2,4)] s(3,4) by (auto simp: merges_def)
  have "merge_loop cmp t w = Some (Inr (t', w'))"
    using merging_q_zero [OF mg] n ch s(1) r(1) by (subst merge_loop.simps) simp
  moreover have k: "kept w1 w'" by (rule kept_trans [OF s(6) r(6)])
  moreover have "heads ps (q # take n Q) w'" by (rule heads_kept [OF w1(5) k]) (simp add: r(2) w1(3))
  ultimately show ?thesis using ok [OF r(3)] r s(5) n kept_trans [OF w1(4)] by (auto simp: merges_def)
qed

lemma merged_Nil_iff:
  "merged le gt [] qs ms \<longleftrightarrow> ms = qs" "merged le gt ps [] ms \<longleftrightarrow> ms = ps"
  by (auto intro: merged_Nil1 merged_Nil2 elim: merged.cases)

lemma merges_Nil:
  assumes "merging w t out [] Q" and "take (ms_qsize t) Q = []"
  shows "merges w t out [] Q"
proof -
  have "merge_loop cmp t w = Some (Inr (t, w))"
    using assms merging_q_zero [OF assms(1)] by (subst merge_loop.simps) (auto simp: merging_def)
  moreover have "drop (ms_qsize t) Q = Q" using assms(2) by auto
  ultimately show ?thesis
    using assms unfolding merges_def by (auto intro!: exI [of _ "[]"] merged_Nil1)
qed

lemma merges_both:
  assumes mg: "merging w t out (p # ps) (q # Q)" and n: "ms_qsize t = Suc n"
    and fp: "\<And>w2 t2. merging w2 t2 (out @ [p]) ps (q # Q) \<Longrightarrow> ms_qsize t2 = Suc n \<Longrightarrow> merges w2 t2 (out @ [p]) ps (q # Q)"
    and fq: "\<And>w2 t2. merging w2 t2 (out @ [q]) (p # ps) Q \<Longrightarrow> ms_qsize t2 = n \<Longrightarrow> merges w2 t2 (out @ [q]) (p # ps) Q"
  shows "merges w t out (p # ps) (q # Q)"
proof -
  have pq: "ms_p t = p" "p \<noteq> 0" "ms_q t = q" "q \<noteq> 0" "I w" using mg by (auto simp: merging_def)
  obtain v w1 where c: "cmp (info w p) (info w q) w = Some (Inr (v, w1))" "I w1" "nxt w1 = nxt w" "info w1 = info w"
    "kept w w1" "C (info w p) w1" "C (info w q) w1"
    "if v \<le> 0 then LE (info w p) (info w q) else GT (info w p) (info w q)"
    using cmp_returns [OF pq(5), of "info w p" "info w q"] unfolding kept_def by blast
  have hd: "heads (p # ps) (q # take n Q) w1" using c(4,6,7) by (simp add: heads_def)
  have ch: "choose_list cmp t w = Some (Inr (v \<le> 0, w1))"
    using mg n pq c(1) by (simp add: choose_list_def merging_def)
  show ?thesis
  proof (cases "v \<le> 0")
    case True
    show ?thesis
      by (rule merges_p [OF mg _ c(2-5)]) (use ch True c(8) n fp hd in \<open>auto intro: merged_LE\<close>)
  next
    case False
    show ?thesis
      by (rule merges_q [OF mg n _ c(2-5) hd]) (use ch False c(8) fq in \<open>auto intro: merged_GT\<close>)
  qed
qed

lemma merge_loop_merges: "merging w t out ps Q \<Longrightarrow> merges w t out ps Q"
proof (induction "length ps + length (take (ms_qsize t) Q)" arbitrary: w t out ps Q rule: less_induct)
  case less
  note mg = less.prems
  have sz: "ms_psize t = length ps" "I w" using mg by (auto simp: merging_def)
  have q0: "ms_q t = 0 \<longleftrightarrow> Q = []" by (rule merging_q_zero [OF mg])
  show ?case
  proof (cases "take (ms_qsize t) Q")
    case none: Nil
    show ?thesis
    proof (cases ps)
      case Nil
      then show ?thesis using merges_Nil mg none by simp
    next
      case (Cons p ps')
      have "choose_list cmp t w = Some (Inr (True, w))" using sz Cons none q0 by (auto simp: choose_list_def)
      then show ?thesis unfolding Cons
        by (rule merges_p [OF mg [unfolded Cons] _ sz(2) refl refl kept_refl])
          (use none Cons less.hyps in \<open>auto simp: merged_Nil_iff\<close>)
    qed
  next
    case (Cons q qs)
    then obtain Q' n where Q: "Q = q # Q'" and n: "ms_qsize t = Suc n" by (cases Q; cases "ms_qsize t") auto
    show ?thesis
    proof (cases ps)
      case Nil
      have "choose_list cmp t w = Some (Inr (False, w))" using sz Nil by (simp add: choose_list_def)
      then show ?thesis unfolding Q
        by (rule merges_q [OF mg [unfolded Q] n _ sz(2) refl refl kept_refl])
          (use Q n Nil less.hyps in \<open>auto simp: merged_Nil_iff\<close>)
    next
      case (Cons p ps')
      show ?thesis unfolding Q Cons
        by (rule merges_both [OF mg [unfolded Q Cons] n]) (rule less.hyps; simp add: Q n Cons)+
    qed
  qed
qed

lemmas merge_loop_run = merge_loop_merges [unfolded merges_def]

definition settled :: "world \<Rightarrow> addr list \<Rightarrow> bool" where
  \<comment> \<open>all items of a run have been compared, unless it has a single one\<close>
  "settled w r \<longleftrightarrow> length r \<le> 1 \<or> (\<forall>c \<in> set r. C (info w c) w)"

lemma settled_kept: "settled w r \<Longrightarrow> kept w w' \<Longrightarrow> info w' = info w \<Longrightarrow> settled w' r"
  by (auto simp: settled_def kept_def)

lemma settled_head: "settled w r \<Longrightarrow> r \<noteq> [] \<Longrightarrow> C (info w (hd r)) w \<Longrightarrow> c \<in> set r \<Longrightarrow> C (info w c) w"
  unfolding settled_def by (cases r) auto

lemma settled_merged:
  assumes "settled w ps" and "settled w qs" and "heads ps qs w" and "merged le gt ps qs ms"
  shows "settled w ms"
proof (cases "ps = [] \<or> qs = []")
  case True
  then show ?thesis using assms by (auto simp: merged_Nil_iff)
next
  case False
  then have "C (info w (hd ps)) w" "C (info w (hd qs)) w" using assms(3) by (simp_all add: heads_def)
  then have "C (info w c) w" if "c \<in> set ps \<union> set qs" for c
    using that False settled_head [OF assms(1)] settled_head [OF assms(2)] by blast
  then have "\<forall>c \<in> set ms. C (info w c) w" unfolding merged_set [OF assms(4)] by blast
  then show ?thesis by (simp add: settled_def)
qed

end


section \<open>Passes and the sort\<close>

context comparison begin

lemma pass_loop_run:
  assumes "I w" and "built (nxt w) l tail out" and "is_list (nxt w) p P" and "distinct (out @ P)" and "0 < n"
    and "0 \<le> nm" and "nm + int (length P) < 2147483648"
  shows "\<exists>l' tail' k ms w'. pass_loop cmp (int n) p l tail nm w = Some (Inr (l', tail', nm + int k, w')) \<and>
    passed (le_of (info w)) (gt_of (info w)) n P k ms \<and> I w' \<and> info w' = info w \<and>
    built (nxt w') l' tail' (out @ ms) \<and> (\<forall>a. a \<notin> set (out @ P) \<longrightarrow> nxt w' a = nxt w a) \<and>
    kept w w' \<and> (each_run (settled w) n P \<longrightarrow> each_run (settled w') (2 * n) ms)"
  using assms
proof (induction "length P" arbitrary: w l tail out p P nm rule: less_induct)
  case less
  show ?case
  proof (cases "P = []")
    case True
    then show ?thesis
      using less.prems by (subst pass_loop.simps) (auto intro!: exI [of _ 0] exI [of _ "[]"] passed_Nil simp: each_run_def)
  next
    case False
    have p: "p \<noteq> 0" using is_list_nonzero less.prems(3) False by blast
    have s: "s32 (nm + 1) = Inr (nm + 1)"
      by (rule s32_Inr) (use less.prems(6,7) False in \<open>cases P; simp add: in_s32_iff\<close>)
    obtain q where q: "step_along n p 0 w = Some (Inr (q, min n (length P)))" "lseg (nxt w) p (take n P) q"
      "is_list (nxt w) q (drop n P)"
      using step_along_run [OF less.prems(3), of n 0] False by auto
    let ?t = "\<lparr>ms_p = p, ms_q = q, ms_psize = min n (length P), ms_qsize = n, ms_list = l, ms_tail = tail\<rparr>"
    have "distinct (out @ take n P @ drop n P)" using less.prems(4) by (simp only: append_take_drop_id)
    then have mg: "merging w ?t out (take n P) (drop n P)"
      using less.prems(1,2) q by (auto simp: merging_def)
    then obtain t1 w1 ms where m: "merge_loop cmp ?t w = Some (Inr (t1, w1))" "info w1 = info w"
      "merged (le_of (info w)) (gt_of (info w)) (take n P) (take n (drop n P)) ms"
      "merging w1 t1 (out @ ms) [] (drop n (drop n P))" "\<forall>a. a \<notin> set (out @ ms) \<longrightarrow> nxt w1 a = nxt w a"
      "kept w w1" "heads (take n P) (take n (drop n P)) w1"
      using merge_loop_run [OF mg] unfolding merge_state.select_convs by blast
    have lt: "length (drop n (drop n P)) < length P" using False less.prems(5) by (cases P) auto
    have 1: "I w1" "built (nxt w1) (ms_list t1) (ms_tail t1) (out @ ms)" "is_list (nxt w1) (ms_q t1) (drop n (drop n P))"
      "distinct ((out @ ms) @ drop n (drop n P))" using m(4) by (auto simp: merging_def)
    have 2: "nm + 1 + int (length (drop n (drop n P))) < 2147483648" using less.prems(7) lt by linarith
    obtain l' tail' k ms' w' where r: "pass_loop cmp (int n) (ms_q t1) (ms_list t1) (ms_tail t1) (nm + 1) w1 =
        Some (Inr (l', tail', nm + 1 + int k, w'))"
      "passed (le_of (info w)) (gt_of (info w)) n (drop n (drop n P)) k ms'" "I w'" "info w' = info w"
      "built (nxt w') l' tail' (out @ ms @ ms')" "\<forall>a. a \<notin> set ((out @ ms) @ drop n (drop n P)) \<longrightarrow> nxt w' a = nxt w1 a"
      "kept w1 w'" "each_run (settled w1) n (drop n (drop n P)) \<longrightarrow> each_run (settled w') (2 * n) ms'"
      using less.hyps [OF lt 1 less.prems(5) _ 2] less.prems(6) m(2) by auto
    have 3: "pass_loop cmp (int n) p l tail nm w = Some (Inr (l', tail', nm + int (Suc k), w'))"
      using p s q(1) m(1) r(1) by (subst pass_loop.simps) (simp add: algebra_simps)
    have 4: "passed (le_of (info w)) (gt_of (info w)) n P (Suc k) (ms @ ms')"
      by (rule passed_step [OF False m(3) r(2)])
    have "nxt w' a = nxt w a" if a: "a \<notin> set (out @ P)" for a
    proof -
      have "set ms \<subseteq> set P" using merged_set [OF m(3)] by (auto dest: in_set_takeD in_set_dropD)
      moreover have "set (drop n (drop n P)) \<subseteq> set P" by (meson order_trans set_drop_subset)
      ultimately have "a \<notin> set ((out @ ms) @ drop n (drop n P))" "a \<notin> set (out @ ms)" using a by auto
      then show ?thesis using r(6) m(5) by metis
    qed
    moreover have "each_run (settled w') (2 * n) (ms @ ms')" if e: "each_run (settled w) n P"
    proof (rule each_run_append [OF _ merged_pieces [OF m(3) r(2)]])
      have "settled w1 ms"
        by (rule settled_merged [OF _ _ m(7,3)])
          (rule settled_kept [OF _ m(6,2)], rule each_run_first, use e each_run_drop in blast)+
      then show "settled w' ms" by (rule settled_kept [OF _ r(7)]) (simp add: r(4) m(2))
      have "each_run (settled w1) n (drop n (drop n P))"
        by (rule each_run_mono [OF each_run_drop [OF each_run_drop [OF e]]]) (rule settled_kept [OF _ m(6,2)])
      then show "each_run (settled w') (2 * n) ms'" using r(8) by blast
    qed
    ultimately show ?thesis using 3 4 r(3-5) kept_trans [OF m(6) r(7)]
      by (intro exI [of _ l'] exI [of _ tail'] exI [of _ "Suc k"] exI [of _ "ms @ ms'"] exI [of _ w']) blast
  qed
qed

lemma sort_pass:
  assumes "I w" and "is_list (nxt w) l P" and "P \<noteq> []" and "0 < n" and "length P < 2147483648"
  shows "\<exists>l' tail k ms w'. pass_loop cmp (int n) l 0 0 0 w = Some (Inr (l', tail, int k, w')) \<and> tail \<noteq> 0 \<and>
    (k \<le> 1 \<longleftrightarrow> length P \<le> 2 * n) \<and> passed (le_of (info w)) (gt_of (info w)) n P k ms \<and>
    I (set_next tail 0 w') \<and> info (set_next tail 0 w') = info w \<and> is_list (nxt (set_next tail 0 w')) l' ms \<and>
    (\<forall>a. a \<notin> set P \<longrightarrow> nxt (set_next tail 0 w') a = nxt w a) \<and>
    (each_run (settled w) n P \<longrightarrow> each_run (settled (set_next tail 0 w')) (2 * n) ms)"
proof -
  have len: "0 + int (length P) < 2147483648" using assms(5) by simp
  have d: "distinct ([] @ P)" using is_list_distinct [OF assms(2)] by simp
  obtain l' tail k ms w' where r: "pass_loop cmp (int n) l 0 0 0 w = Some (Inr (l', tail, int k, w'))"
    "passed (le_of (info w)) (gt_of (info w)) n P k ms" "I w'" "info w' = info w"
    "built (nxt w') l' tail ms" "\<forall>a. a \<notin> set P \<longrightarrow> nxt w' a = nxt w a" "kept w w'"
    "each_run (settled w) n P \<longrightarrow> each_run (settled w') (2 * n) ms"
    using pass_loop_run [OF assms(1) built_Nil assms(2) d assms(4) order.refl len]
    unfolding append_Nil add_0 by (elim exE conjE) (rule that)
  have m: "mset ms = mset P" by (rule passed_mset [OF r(2)])
  have ms: "distinct ms" using mset_eq_imp_distinct_iff [OF m] is_list_distinct [OF assms(2)] by blast
  have st: "set ms = set P" by (rule mset_eq_setD [OF m])
  have ne: "ms \<noteq> []" using assms(3) st by (metis set_empty)
  then have t: "tail \<in> set P" "tail \<noteq> 0" using r(5) st last_in_set [OF ne] unfolding built_def by (metis, metis)
  have "is_list (nxt (set_next tail 0 w')) l' ms" using built_finish [OF r(5) ne ms] by (simp add: set_next_def)
  moreover have "\<forall>a. a \<notin> set P \<longrightarrow> nxt (set_next tail 0 w') a = nxt w a" using r(6) t by (auto simp: set_next_def)
  moreover have "info (set_next tail 0 w') = info w" using r(4) by (simp add: set_next_def)
  moreover have "settled (set_next tail 0 w') xs" if "settled w' xs" for xs
    by (rule settled_kept [OF that]) (simp_all add: kept_def C_set_next set_next_info)
  then have "each_run (settled w) n P \<longrightarrow> each_run (settled (set_next tail 0 w')) (2 * n) ms"
    using r(8) each_run_mono by blast
  ultimately show ?thesis
    using r(1,2) t(2) passed_count(2) [OF r(2) assms(4)] I_set_next [OF r(3)] by blast
qed

lemma sort_loop_run:
  assumes "I w" and "is_list (nxt w) l P" and "P \<noteq> []" and "0 < n" and "length P < 2147483648" and "R n P"
    and "\<And>n P k ms. R n P \<Longrightarrow> passed (le_of (info w)) (gt_of (info w)) n P k ms \<Longrightarrow> R (2 * n) ms"
  shows "\<exists>l' m w' ms. sort_loop cmp (int n) l w = Some (Inr (l', w')) \<and> I w' \<and> info w' = info w \<and>
    is_list (nxt w') l' ms \<and> R m ms \<and> length P \<le> m \<and> mset ms = mset P \<and> (\<forall>a. a \<notin> set P \<longrightarrow> nxt w' a = nxt w a) \<and>
    (each_run (settled w) n P \<longrightarrow> each_run (settled w') m ms)"
  using assms
proof (induction "length P - n" arbitrary: n w l P rule: less_induct)
  case less
  obtain l1 tail k ms w0 where p: "pass_loop cmp (int n) l 0 0 0 w = Some (Inr (l1, tail, int k, w0))" "tail \<noteq> 0"
    "k \<le> 1 \<longleftrightarrow> length P \<le> 2 * n" "passed (le_of (info w)) (gt_of (info w)) n P k ms"
    and w1: "I (set_next tail 0 w0)" "info (set_next tail 0 w0) = info w" "is_list (nxt (set_next tail 0 w0)) l1 ms"
      "\<forall>a. a \<notin> set P \<longrightarrow> nxt (set_next tail 0 w0) a = nxt w a"
      "each_run (settled w) n P \<longrightarrow> each_run (settled (set_next tail 0 w0)) (2 * n) ms"
    using sort_pass [OF less.prems(1-5)] by blast
  have m: "mset ms = mset P" by (rule passed_mset [OF p(4)])
  have len: "length ms = length P" by (rule passed_length [OF p(4)])
  have R: "R (2 * n) ms" by (rule less.prems(7) [OF less.prems(6) p(4)])
  show ?case
  proof (cases "k \<le> 1")
    case True
    then have "sort_loop cmp (int n) l w = Some (Inr (l1, set_next tail 0 w0))"
      using p(1,2) by (subst sort_loop.simps) (simp add: Let_def)
    then show ?thesis using w1 R m p(3) True by (auto intro!: exI)
  next
    case False
    then have big: "2 * n < length P" using p(3) by simp
    have "s32 (int n * 2) = Inr (int (2 * n))" using big less.prems(5) by (simp add: in_s32_iff)
    then have step: "sort_loop cmp (int n) l w = sort_loop cmp (int (2 * n)) l1 (set_next tail 0 w0)"
      using p(1,2) False by (subst sort_loop.simps) (simp add: Let_def)
    have "\<exists>l' m w' ms'. sort_loop cmp (int (2 * n)) l1 (set_next tail 0 w0) = Some (Inr (l', w')) \<and> I w' \<and>
        info w' = info (set_next tail 0 w0) \<and> is_list (nxt w') l' ms' \<and> R m ms' \<and> length ms \<le> m \<and> mset ms' = mset ms \<and>
        (\<forall>a. a \<notin> set ms \<longrightarrow> nxt w' a = nxt (set_next tail 0 w0) a) \<and>
        (each_run (settled (set_next tail 0 w0)) (2 * n) ms \<longrightarrow> each_run (settled w') m ms')"
      by (rule less.hyps) (use w1 R len big less.prems m in auto)
    then show ?thesis using step m len w1 mset_eq_setD [OF m] by auto
  qed
qed

lemma settled_1: "each_run (settled w) 1 P"
  by (simp add: each_run_def settled_def)

lemma settled_whole: "each_run (settled w) m ms \<Longrightarrow> length ms \<le> m \<Longrightarrow> 2 \<le> length ms \<Longrightarrow> c \<in> set ms \<Longrightarrow> C (info w c) w"
  by (drule (1) each_run_whole) (auto simp: settled_def)

lemma mergesort_run:
  assumes "I w" and "is_list (nxt w) l P" and "P \<noteq> []" and "length P < 2147483648"
  shows "\<exists>l' w' ms. core_list_mergesort l cmp w = Some (Inr (l', w')) \<and> I w' \<and> info w' = info w \<and>
    is_list (nxt w') l' ms \<and> mset ms = mset P \<and> (\<forall>a. a \<notin> set P \<longrightarrow> nxt w' a = nxt w a)"
  using sort_loop_run [OF assms(1-3) _ assms(4), of 1 "\<lambda>_ _. True"] by (auto simp: core_list_mergesort_def)

end


section \<open>Comparing keys\<close>

locale ordered_comparison = comparison cmp I "\<lambda>a b. key a \<le> key b" "\<lambda>a b. key b < key a" C
  for cmp :: list_cmp and I :: "world \<Rightarrow> bool" and key :: "addr \<Rightarrow> int" and C :: "addr \<Rightarrow> world \<Rightarrow> bool"
begin

lemma mergesort_sorts:
  assumes "I w" and "is_list (nxt w) l P" and "P \<noteq> []" and "length P < 2147483648"
  shows "\<exists>l' w'. core_list_mergesort l cmp w = Some (Inr (l', w')) \<and> I w' \<and> info w' = info w \<and>
    is_list (nxt w') l' (sort_key (\<lambda>c. key (info w c)) P) \<and> (\<forall>a. a \<notin> set P \<longrightarrow> nxt w' a = nxt w a) \<and>
    (2 \<le> length P \<longrightarrow> (\<forall>c \<in> set P. C (info w c) w'))"
proof -
  let ?k = "\<lambda>c. key (info w c)"
  let ?R = "\<lambda>n xs. runs ?k n xs \<and> (\<forall>v. filter (\<lambda>c. ?k c = v) xs = filter (\<lambda>c. ?k c = v) P)"
  have start: "?R 1 P" using runs_1 by blast
  have step: "?R (2 * n) ms" if R: "?R n xs"
    and ps: "passed (\<lambda>a b. ?k a \<le> ?k b) (\<lambda>a b. ?k b < ?k a) n xs c ms" for n xs c ms
    using passed_sorted [OF ps] R by metis
  have ex: "\<exists>l' m w' ms. sort_loop cmp (int 1) l w = Some (Inr (l', w')) \<and> I w' \<and> info w' = info w \<and>
      is_list (nxt w') l' ms \<and> ?R m ms \<and> length P \<le> m \<and> mset ms = mset P \<and> (\<forall>a. a \<notin> set P \<longrightarrow> nxt w' a = nxt w a) \<and>
      (each_run (settled w) 1 P \<longrightarrow> each_run (settled w') m ms)"
    by (rule sort_loop_run [where R = ?R, OF assms(1-3) zero_less_one assms(4) start]) (rule step)
  obtain l' m w' ms where r: "sort_loop cmp (int 1) l w = Some (Inr (l', w'))" "I w'" "info w' = info w"
    "is_list (nxt w') l' ms" "?R m ms" "length P \<le> m" "mset ms = mset P" "\<forall>a. a \<notin> set P \<longrightarrow> nxt w' a = nxt w a"
    "each_run (settled w') m ms"
    using ex settled_1 by (elim exE conjE) (rule that, assumption+, blast, assumption+, blast)
  have "length ms \<le> m" using r(6) mset_eq_length [OF r(7)] by simp
  then have s: "sorted (map ?k ms)" using each_run_whole [of "\<lambda>r. sorted (map ?k r)"] r(5) by blast
  have "\<forall>c \<in> set P. C (info w c) w'" if "2 \<le> length P"
    using settled_whole [OF r(9) \<open>length ms \<le> m\<close>] that mset_eq_length [OF r(7)] mset_eq_setD [OF r(7)] r(3) by simp
  moreover have "sort_key ?k P = ms"
    by (rule properties_for_sort_key) (use r(5,7) s in \<open>auto simp: eq_commute\<close>)
  ultimately show ?thesis using r(1-4,8) by (auto simp: core_list_mergesort_def)
qed

end

text \<open>Comparing the indices of the items changes the data they carry, never an index: without results it gives the
  data of both items their upper byte twice, which keeps the upper bytes.\<close>

abbreviation regen :: "s16 \<Rightarrow> s16" where
  \<comment> \<open>the upper byte in both halves\<close>
  "regen v \<equiv> (v AND 0xff00) OR (0x00ff AND signed_drop_bit 8 v)"

lemma bit_ff00: "bit (0xff00 :: s16) n \<longleftrightarrow> 8 \<le> n \<and> n < 16"
proof -
  have "(0xff00 :: s16) = NOT (mask 8)" by (simp add: mask_eq_exp_minus_1)
  then show ?thesis by (simp only: bit_not_iff bit_mask_iff) auto
qed

lemma bit_ff: "bit (0x00ff :: s16) n \<longleftrightarrow> n < 8"
proof -
  have "(0xff :: s16) = mask 8" by (simp add: mask_eq_exp_minus_1)
  then show ?thesis by (simp only: bit_mask_iff) auto
qed

lemma regen_upper: "regen v AND 0xff00 = v AND 0xff00"
  by (rule bit_word_eqI) (auto simp only: bit_and_iff bit_or_iff bit_ff00 bit_ff)

lemma regen_cong:
  assumes "v AND 0xff00 = u AND 0xff00"
  shows "regen v = regen u"
proof -
  have "bit v n \<longleftrightarrow> bit u n" if "8 \<le> n" "n < 16" for n
    using arg_cong [OF assms, where f = "\<lambda>x. bit x n"] that by (simp only: bit_and_iff bit_ff00) blast
  then show ?thesis
    unfolding assms
    by (intro bit_word_eqI) (auto simp: bit_and_iff bit_or_iff bit_ff bit_signed_drop_bit_iff simp del: bit_numeral_word_iff)
qed

lemma regen_regen: "regen (regen v) = regen v"
  by (rule regen_cong [OF regen_upper])

definition regenerated :: "addr \<Rightarrow> world \<Rightarrow> bool" where
  "regenerated a w \<longleftrightarrow> data16 (dat w a) = regen (data16 (dat w a))"

definition items_indexed :: "(addr \<Rightarrow> s16 \<times> s16) \<Rightarrow> core_results \<Rightarrow> mem \<Rightarrow> world \<Rightarrow> bool" where
  \<comment> \<open>the items have these indices and upper bytes\<close>
  "items_indexed ix r m w \<longleftrightarrow> (\<forall>a. (idx (dat w a), data16 (dat w a) AND 0xff00) = ix a) \<and> res w = r \<and> bytes w = m"

lemma restore_data_run:
  "items_indexed ix r m w \<Longrightarrow> items_indexed ix r m (restore_data a w)" "regenerated a (restore_data a w)"
  "regenerated x w \<Longrightarrow> regenerated x (restore_data a w)"
  by (simp_all add: items_indexed_def restore_data_def set_data16_def regenerated_def regen_upper regen_regen [simplified regen_upper] regen_regen)

interpretation idx_order: ordered_comparison "cmp_idx null" "items_indexed ix r m" "\<lambda>a. sint (fst (ix a))"
  "\<lambda>a w. null \<longrightarrow> regenerated a w" for null ix r m
proof unfold_locales
  fix w a b assume w: "items_indexed ix r m w"
  let ?w = "if null then restore_data b (restore_data a w) else w"
  have "cmp_idx null a b w = Some (Inr (sint (idx (dat ?w a)) - sint (idx (dat ?w b)), ?w))"
    by (simp add: cmp_idx_def Let_def)
  moreover have i: "items_indexed ix r m ?w" using w by (simp add: restore_data_run)
  moreover have "idx (dat ?w x) = fst (ix x)" for x using i unfolding items_indexed_def by (metis fst_conv)
  moreover have "nxt ?w = nxt w" "info ?w = info w" by (simp_all add: restore_data_def set_data16_def)
  ultimately show "\<exists>v w'. cmp_idx null a b w = Some (Inr (v, w')) \<and> items_indexed ix r m w' \<and> nxt w' = nxt w \<and>
      info w' = info w \<and> (if v \<le> 0 then sint (fst (ix a)) \<le> sint (fst (ix b)) else sint (fst (ix b)) < sint (fst (ix a))) \<and>
      (null \<longrightarrow> regenerated a w') \<and> (null \<longrightarrow> regenerated b w') \<and> (\<forall>x. (null \<longrightarrow> regenerated x w) \<longrightarrow> null \<longrightarrow> regenerated x w')"
    by (intro exI conjI) (assumption | simp add: restore_data_run | (rule allI, simp add: restore_data_run))+
qed (auto simp: items_indexed_def set_next_def regenerated_def)


text \<open>C20: core_list_mergesort with cmp_idx, on any list that is not empty and has fewer than 2^31 cells, ends without an
  error and relinks exactly the given cells into their stable order by index; it changes no info pointer, no
  index and no link outside of the list.\<close>

theorem core_list_mergesort_sorts:
  assumes "is_list (nxt w) l P" and "P \<noteq> []" and "length P < 2147483648"
  shows "\<exists>l' w'. core_list_mergesort l (cmp_idx null) w = Some (Inr (l', w')) \<and> info w' = info w \<and>
    is_list (nxt w') l' (sort_key (\<lambda>c. sint (idx (dat w (info w c)))) P) \<and>
    (\<forall>a. idx (dat w' a) = idx (dat w a)) \<and> (\<forall>a. a \<notin> set P \<longrightarrow> nxt w' a = nxt w a)"
proof -
  have "items_indexed (\<lambda>a. (idx (dat w a), data16 (dat w a) AND 0xff00)) (res w) (bytes w) w" by (simp add: items_indexed_def)
  from idx_order.mergesort_sorts [OF this assms, of null] show ?thesis
    unfolding items_indexed_def fst_conv prod.inject by blast
qed

definition sample_world :: "(addr \<Rightarrow> s16) \<Rightarrow> addr \<Rightarrow> world" where
  \<comment> \<open>cells at 16, 32, \<open>\<dots>\<close>, \<open>n\<close>, the last one first, each with an item of its own\<close>
  "sample_world ix n = \<lparr>nxt = (\<lambda>a. a - 16), info = (\<lambda>a. a + 0x1000), dat = (\<lambda>a. \<lparr>data16 = 0, idx = ix a\<rparr>), bytes = (\<lambda>_. 0),
     res = \<lparr>seed1 = 0x3415, seed2 = 0x3415, seed3 = 0x66, memblock = (\<lambda>_. 0), res_size = 2, iterations = 0, execs = 0, res_list = 48,
       mat = \<lparr>mat_N = 0, mat_A = (\<lambda>_. 0), mat_B = (\<lambda>_. 0), mat_C = (\<lambda>_. 0)\<rparr>, crc = 0, crclist = 0, crcmatrix = 0, crcstate = 0, err = 0\<rparr>\<rparr>"

lemma core_list_mergesort_sorts_witness:
  "\<exists>l' w'. core_list_mergesort 48 (cmp_idx True) (sample_world ucast 48) = Some (Inr (l', w')) \<and>
    is_list (nxt w') l' [16, 32, 48]"
proof -
  have 1: "is_list (nxt (sample_world ucast 48)) 48 [48, 32, 16]" by (simp add: sample_world_def)
  have 2: "sort_key (\<lambda>c. sint (idx (dat (sample_world ucast 48) (info (sample_world ucast 48) c)))) [48, 32, 16] = [16, 32, 48]"
    by (simp add: sample_world_def)
  obtain l' w' where "core_list_mergesort 48 (cmp_idx True) (sample_world ucast 48) = Some (Inr (l', w'))"
    "is_list (nxt w') l' (sort_key (\<lambda>c. sint (idx (dat (sample_world ucast 48) (info (sample_world ucast 48) c)))) [48, 32, 16])"
    using core_list_mergesort_sorts [OF 1, of True] by auto
  then show ?thesis unfolding 2 by blast
qed

end
