(* ===== verification/Core_Bench.thy ===== *)
theory Core_Bench
  imports Core_Sort
begin

text \<open>
  What the list benchmark of \<open>core_list_join.c\<close> does: the comparison functions return and leave the inputs of the
  benchmark alone, removing an item and linking it back are inverse, each round of finding permutes the
  list, and \<open>core_bench_list\<close> leaves the list as it was. \<open>core_list_init\<close> builds a list with
  these properties.
\<close>

section \<open>The operations return\<close>

definition matrices_small :: "mat_params \<Rightarrow> bool" where
  \<comment> \<open>a bound on the entries under which no sum of products leaves the range of \<open>MATRES\<close>\<close>
  "matrices_small p \<longleftrightarrow> (let n = unat (mat_N p) in \<exists>b. 255 \<le> b \<and> entry_bound (n * n) (mat_A p) 255 \<and>
     entry_bound (n * n) (mat_B p) b \<and> int (n * n * n) * max (510 * b) 1905 + 32768 < 2147483648)"

lemma core_bench_matrix_returns:
  assumes "matrices_small p" and "0 \<le> sint val" and "sint val \<le> 255"
  shows "\<exists>r p'. core_bench_matrix p val c = Inr (r, p') \<and> p' = p\<lparr>mat_C := mat_C p'\<rparr>"
proof -
  let ?n = "unat (mat_N p)"
  obtain b where b: "255 \<le> b" "entry_bound (?n * ?n) (mat_A p) 255" "entry_bound (?n * ?n) (mat_B p) b"
    "int (?n * ?n * ?n) * max (510 * b) 1905 + 32768 < 2147483648"
    using assms(1) unfolding matrices_small_def Let_def by blast
  have s: "sint (x + val) = sint x + sint val" if "\<bar>sint x\<bar> \<le> 255" for x
  proof -
    have "sint (x + val) = sint (word_of_int (sint x + sint val) :: s16)" by simp
    also have "\<dots> = sint x + sint val"
      by (subst sint_sbintrunc', rule signed_take_bit_int_eq_self) (use that assms in simp_all)
    finally show ?thesis .
  qed
  have "entry_bound (?n * ?n) (\<lambda>t. mat_A p t + val) 510"
    using b(2) assms(2,3) by (auto simp: entry_bound_def s)
  moreover have "\<bar>sint val\<bar> \<le> b" using assms(2,3) b(1) by simp
  ultimately show ?thesis
    using matrix_test_run [of "mat_N p" "mat_A p" val 510 "mat_B p" b "mat_C p"] b(3,4)
    by (auto simp: core_bench_matrix_def)
qed


definition state_ready :: "core_results \<Rightarrow> mem \<Rightarrow> bool" where
  \<comment> \<open>the text in the block of the state machine ends with two zeros, and the second pass undoes the first\<close>
  "state_ready r m \<longleftrightarrow> unat (memblock r 3) + unat (res_size r) + 256 < 2 ^ 64 \<and>
     (\<exists>i. i + 1 < unat (res_size r) \<and> terminated m (memblock r 3) i \<and> m (memblock r 3 + of_nat (Suc i)) = 0) \<and>
     ucast (seed1 r) = (ucast (seed2 r) :: u8) \<and>
     (\<forall>a. unat (a - memblock r 3) < unat (res_size r) \<longrightarrow> m a \<noteq> chr8 CHR '','' \<longrightarrow> m a XOR ucast (seed1 r) \<noteq> chr8 CHR '','')"

lemma state_ready_update [simp]:
  "state_ready (r\<lparr>crc := c\<rparr>) m = state_ready r m" "state_ready (r\<lparr>crcstate := c\<rparr>) m = state_ready r m"
  "state_ready (r\<lparr>crcmatrix := c\<rparr>) m = state_ready r m" "state_ready (r\<lparr>mat := p\<rparr>) m = state_ready r m"
  by (simp_all add: state_ready_def)

lemma initialised_state_ready:
  assumes "2 \<le> unat (res_size r)" and "unat (res_size r) \<le> 2 ^ 31" and "unat (memblock r 3) + unat (res_size r) + 256 < 2 ^ 64"
    and "run_seed (seed1 r)" and "seed2 r = seed1 r"
  shows "\<exists>m'. core_init_state (res_size r) seed (memblock r 3) m = Some m' \<and> state_ready r m'"
proof -
  obtain k m' where k: "core_init_state (res_size r) seed (memblock r 3) m = Some m'"
     "m' = write_bytes m (memblock r 3) (input_text seed k @ replicate (unat (res_size r) - length (input_text seed k)) 0)"
     "length (input_text seed k) + 1 < unat (res_size r)" "terminated m' (memblock r 3) (length (input_text seed k))"
     "m' (memblock r 3 + of_nat (Suc (length (input_text seed k)))) = 0"
    using init_two_terminators [OF assms(1,2)] by blast
  have "state_ready r m'"
    unfolding state_ready_def using k(3-5) run_seed_restores [OF assms(4) k(3) _ fun_cong [OF k(2)]] assms(3,5) by auto
  then show ?thesis using k(1) by blast
qed

definition bench_ready :: "world \<Rightarrow> bool" where
  "bench_ready w \<longleftrightarrow> matrices_small (mat (res w)) \<and> state_ready (res w) (bytes w)"

definition inputs :: "core_results \<Rightarrow> s16 \<times> s16 \<times> s16 \<times> (nat \<Rightarrow> addr) \<times> u32 \<times> u32 \<times> u32 \<times> addr" where
  "inputs r = (seed1 r, seed2 r, seed3 r, memblock r, res_size r, iterations r, execs r, res_list r)"

lemma byte_s16:
  assumes "\<And>n. bit (x :: s16) n \<Longrightarrow> n < 8"
  shows "0 \<le> sint x \<and> sint x \<le> 255"
proof -
  have "x = take_bit 8 x" by (rule bit_eqI) (use assms in \<open>auto simp: bit_take_bit_iff\<close>)
  also have "\<dots> = matrix_clip x True"
    by (simp add: matrix_clip_def take_bit_eq_mask mask_eq_exp_minus_1)
  finally show ?thesis using clip_range [of x] by simp
qed

lemma bit_15: "bit (0xf :: s16) n \<Longrightarrow> n < 4"
proof -
  assume "bit (0xf :: s16) n"
  moreover have "(0xf :: s16) = mask 4" by (simp add: mask_eq_exp_minus_1)
  ultimately have "bit (mask 4 :: s16) n" by simp
  then show ?thesis by (simp add: bit_mask_iff)
qed

lemma dtype_range:
  fixes x :: s16
  shows "0 \<le> sint ((x AND 0xf) OR push_bit 4 (x AND 0xf)) \<and> sint ((x AND 0xf) OR push_bit 4 (x AND 0xf)) \<le> 255"
proof -
  have "0 \<le> sint (y OR push_bit 4 y) \<and> sint (y OR push_bit 4 y) \<le> 255" if y: "\<And>n. bit y n \<Longrightarrow> n < 4" for y :: s16
  proof (rule byte_s16)
    fix n assume "bit (y OR push_bit 4 y) n"
    then show "n < 8" using y [of n] y [of "n - 4"] by (auto simp: bit_or_iff bit_push_bit_iff)
  qed
  moreover have "n < 4" if "bit (x AND 0xf) n" for n
    using bit_15 [of n] that by (simp add: bit_and_iff)
  ultimately show ?thesis by blast
qed

lemma core_bench_state_returns:
  assumes "state_ready r m" and "2 \<le> sint step" and "sint step \<le> 255"
  shows "\<exists>c'. core_bench_state (res_size r) (memblock r 3) (seed1 r) (seed2 r) step c m = Some (c', m)"
proof -
  obtain i where i: "i + 1 < unat (res_size r)" "terminated m (memblock r 3) i" "m (memblock r 3 + of_nat (Suc i)) = 0"
    using assms(1) by (auto simp: state_ready_def)
  let ?c = "corrupted (memblock r 3) (unat (res_size r)) (nat (sint step))"
  have "?c (seed2 r) (?c (seed1 r) m) = m"
    using assms(1) by (subst corrupted_restores) (auto simp: state_ready_def visited_def)
  moreover have "unat (memblock r 3) + unat (res_size r) + nat (sint step) < 2 ^ 64"
    using assms(1,3) unfolding state_ready_def by linarith
  moreover have "i + 1 < 2 ^ 64" using i(1) unat_lt_2p [of "res_size r"] by simp
  ultimately show ?thesis using core_bench_state_run [OF assms(2) _ i(2,3), of "res_size r" "seed1 r" "seed2 r" c] by auto
qed

text \<open>Caching a result in the data of an item keeps its upper byte.\<close>

abbreviation upper :: "world \<Rightarrow> addr \<Rightarrow> s16" where "upper w a \<equiv> data16 (dat w a) AND 0xff00"

lemma upper_cached: "((v AND 0xff00) OR 0x0080 OR (u AND 0x007f)) AND 0xff00 = v AND 0xff00" for v :: s16
proof -
  have "u AND 0x7f AND 0xff00 = (0 :: s16)" by (simp add: and.assoc)
  then show ?thesis by (simp add: bit.conj_disj_distrib2 and.assoc)
qed

lemma calc_func_returns:
  assumes "bench_ready w"
  shows "\<exists>v w'. calc_func a w = Some (Inr (v, w')) \<and> bench_ready w' \<and> nxt w' = nxt w \<and> info w' = info w \<and>
    (\<forall>b. idx (dat w' b) = idx (dat w b)) \<and> inputs (res w') = inputs (res w) \<and> bytes w' = bytes w \<and> (\<forall>b. upper w' b = upper w b)"
proof -
  let ?data = "data16 (dat w a)"
  let ?x = "signed_drop_bit 3 ?data"
  let ?dtype = "(?x AND 0xf) OR push_bit 4 (?x AND 0xf)"
  note small = assms [unfolded bench_ready_def]
  show ?thesis
  proof (cases "signed_drop_bit 7 ?data AND 1 \<noteq> 0")
    case True
    then show ?thesis using assms by (simp add: calc_func_def Let_def)
  next
    case False
    note step = dtype_range [of ?x]
    consider "?data AND 7 = 0" | "?data AND 7 = 1" | "?data AND 7 \<noteq> 0" "?data AND 7 \<noteq> 1" by blast
    then show ?thesis
    proof cases
      case 1
      let ?d = "if sint ?dtype < 0x22 then 0x22 else ?dtype"
      have d: "2 \<le> sint ?d" "sint ?d \<le> 255" using step by simp_all
      obtain c' where "core_bench_state (res_size (res w)) (memblock (res w) 3) (seed1 (res w)) (seed2 (res w)) ?d (crc (res w)) (bytes w) =
          Some (c', bytes w)"
        using core_bench_state_returns [OF _ d] small by blast
      then show ?thesis
        using False 1 small
        by (simp add: calc_func_def Let_def set_data16_def bench_ready_def inputs_def upper_cached)
    next
      case 2
      obtain r p' where m: "core_bench_matrix (mat (res w)) ?dtype (crc (res w)) = Inr (r, p')" "p' = (mat (res w))\<lparr>mat_C := mat_C p'\<rparr>"
        using core_bench_matrix_returns [of "mat (res w)" ?dtype] step small by blast
      define C where "C = mat_C p'"
      have "p' = (mat (res w))\<lparr>mat_C := C\<rparr>" using m(2) by (simp add: C_def)
      then have "matrices_small p'" using small by (simp add: matrices_small_def)
      then show ?thesis
        using False 2 small m(1)
        by (simp add: calc_func_def Let_def set_data16_def bench_ready_def inputs_def upper_cached)
    next
      case 3
      then show ?thesis
        using False small
        by (simp add: calc_func_def Let_def set_data16_def bench_ready_def inputs_def upper_cached)
    qed
  qed
qed

lemma cmp_complex_returns:
  assumes "bench_ready w"
  shows "\<exists>v w'. cmp_complex a b w = Some (Inr (v, w')) \<and> bench_ready w' \<and> nxt w' = nxt w \<and> info w' = info w \<and>
    (\<forall>b. idx (dat w' b) = idx (dat w b)) \<and> inputs (res w') = inputs (res w) \<and> bytes w' = bytes w \<and> (\<forall>b. upper w' b = upper w b)"
proof -
  obtain v1 w1 where 1: "calc_func a w = Some (Inr (v1, w1))" "bench_ready w1" "nxt w1 = nxt w" "info w1 = info w"
    "\<forall>b. idx (dat w1 b) = idx (dat w b)" "inputs (res w1) = inputs (res w)"
    "bytes w1 = bytes w" "\<forall>b. upper w1 b = upper w b"
    using calc_func_returns [OF assms] by blast
  obtain v2 w2 where 2: "calc_func b w1 = Some (Inr (v2, w2))" "bench_ready w2" "nxt w2 = nxt w1" "info w2 = info w1"
    "\<forall>b. idx (dat w2 b) = idx (dat w1 b)" "inputs (res w2) = inputs (res w1)"
    "bytes w2 = bytes w1" "\<forall>b. upper w2 b = upper w1 b"
    using calc_func_returns [OF 1(2)] by blast
  show ?thesis using 1 2 by (simp add: cmp_complex_def)
qed

definition ready_with :: "world \<Rightarrow> world \<Rightarrow> bool" where
  \<comment> \<open>ready for the benchmarks, with the inputs, the blocks, the indices and the upper bytes of the other world\<close>
  "ready_with w0 w \<longleftrightarrow> bench_ready w \<and> (\<forall>a. idx (dat w a) = idx (dat w0 a)) \<and> (\<forall>a. upper w a = upper w0 a) \<and>
     inputs (res w) = inputs (res w0) \<and> bytes w = bytes w0"

interpretation complex_order: comparison cmp_complex "ready_with w0" "\<lambda>_ _. True" "\<lambda>_ _. True" "\<lambda>_ _. True" for w0
proof unfold_locales
  fix w a b assume w: "ready_with w0 w"
  then obtain v w' where "cmp_complex a b w = Some (Inr (v, w'))" "bench_ready w'" "nxt w' = nxt w" "info w' = info w"
    "\<forall>b. idx (dat w' b) = idx (dat w b)" "inputs (res w') = inputs (res w)"
    "bytes w' = bytes w" "\<forall>b. upper w' b = upper w b"
    using cmp_complex_returns [of w a b] by (auto simp: ready_with_def)
  then show "\<exists>v w'. cmp_complex a b w = Some (Inr (v, w')) \<and> ready_with w0 w' \<and> nxt w' = nxt w \<and> info w' = info w \<and>
      (if v \<le> 0 then True else True) \<and> True \<and> True \<and> (\<forall>x :: addr. True \<longrightarrow> True)"
    using w by (simp add: ready_with_def)
qed (auto simp: ready_with_def bench_ready_def set_next_def)


section \<open>Removing and linking back\<close>

lemma remove_run:
  assumes "is_list (nxt w) x (x # y # rest)"
  shows "\<exists>w1. core_list_remove x w = Some (Inr (y, w1)) \<and> is_list (nxt w1) x (x # rest) \<and>
    core_list_undo_remove y x w1 = Some (Inr (y, w)) \<and> info w1 x = info w y \<and> info w1 y = info w x \<and>
    (\<forall>a. a \<noteq> x \<longrightarrow> a \<noteq> y \<longrightarrow> info w1 a = info w a \<and> nxt w1 a = nxt w a) \<and> dat w1 = dat w \<and> bytes w1 = bytes w \<and> res w1 = res w"
proof -
  have d: "x \<noteq> y" "x \<notin> set rest" "y \<notin> set rest" using is_list_distinct [OF assms] by auto
  have h: "x \<noteq> 0" "y \<noteq> 0" "nxt w x = y" "is_list (nxt w) (nxt w y) rest" using assms by auto
  let ?w1 = "w\<lparr>nxt := (nxt w)(x := nxt w y, y := 0), info := (info w)(x := info w y, y := info w x)\<rparr>"
  have "core_list_remove x w = Some (Inr (y, ?w1))"
    using h d by (simp add: core_list_remove_def Let_def set_next_def set_info_def)
  moreover have "is_list (nxt ?w1) x (x # rest)" using h d by simp
  moreover have "core_list_undo_remove y x ?w1 = Some (Inr (y, w))"
  proof -
    have "(nxt ?w1)(y := nxt ?w1 x, x := y) = nxt w" using h(3) d(1) by (auto simp: fun_eq_iff)
    moreover have "(info ?w1)(y := info ?w1 x, x := info ?w1 y) = info w" using d(1) by (auto simp: fun_eq_iff)
    ultimately show ?thesis
      using h(1,2) d(1) by (simp add: core_list_undo_remove_def Let_def set_next_def set_info_def)
  qed
  ultimately show ?thesis using d(1) by auto
qed

text \<open>Core_list_remove on a cell that has a successor takes the successor out of the list, moving its item into the cell,
  and returns it; core_list_undo_remove with the returned cell restores the memory exactly.\<close>

theorem remove_undo_remove:
  assumes "is_list (nxt w) x (x # y # rest)"
  shows "\<exists>w1. core_list_remove x w = Some (Inr (y, w1)) \<and> is_list (nxt w1) x (x # rest) \<and>
    info w1 x = info w y \<and> core_list_undo_remove y x w1 = Some (Inr (y, w))"
  using remove_run [OF assms] by auto

lemma remove_undo_remove_witness:
  "\<exists>w1. core_list_remove 48 (sample_world ucast 48) = Some (Inr (32, w1)) \<and> is_list (nxt w1) 48 [48, 16] \<and>
    info w1 48 = info (sample_world ucast 48) 32 \<and> core_list_undo_remove 32 48 w1 = Some (Inr (32, sample_world ucast 48))"
  by (rule remove_undo_remove) (simp add: sample_world_def)

section \<open>A round of finding\<close>

lemma find_run:
  assumes "is_list (nxt w) l Q"
  shows "\<exists>a. core_list_find l new w = Some a \<and> (a = 0 \<or> a \<in> set Q)"
proof -
  have "\<exists>a. find_by p w l = Some a \<and> (a = 0 \<or> a \<in> set Q)" for p
    using find_by_run [OF assms, of p] by (auto split: option.split simp: find_Some_iff in_set_conv_nth)
  then show ?thesis by (simp add: core_list_find_def)
qed

lemma move_to_front:
  assumes "is_list h l R" and "a \<in> set R" and "h a \<noteq> 0"
  shows "\<exists>R'. is_list (h(a := h (h a), h a := (h(a := h (h a))) l, l := h a)) l R' \<and> mset R' = mset R \<and>
    h a \<in> set R \<and> l \<in> set R"
proof -
  obtain us vs where R: "R = us @ a # vs" using assms(2) by (meson split_list)
  then obtain z where "lseg h l us z" "is_list h z (a # vs)" using assms(1) by (auto simp: lseg_append)
  then have us: "lseg h l us a" and "a \<noteq> 0" and vs0: "is_list h (h a) vs" by auto
  then obtain f vs' where f: "vs = f # vs'" "h a = f" "f \<noteq> 0" "is_list h (h f) vs'" using assms(3) by (cases vs) auto
  have d: "distinct (us @ a # f # vs')" using is_list_distinct [OF assms(1)] R f by simp
  show ?thesis
  proof (cases us)
    case Nil
    then have "l = a" using us by simp
    then have "h(a := h (h a), h a := (h(a := h (h a))) l, l := h a) = h" using f d Nil by (auto simp: fun_eq_iff)
    then show ?thesis using assms(1) R f \<open>l = a\<close> by auto
  next
    case (Cons u us')
    then have l: "u = l" "l \<noteq> 0" "lseg h (h l) us' a" using us by auto
    have n: "l \<noteq> a" "l \<noteq> f" "a \<noteq> f" "l \<notin> set us'" "a \<notin> set us'" "f \<notin> set us'" "l \<notin> set vs'" "a \<notin> set vs'" "f \<notin> set vs'"
      using d Cons l(1) by auto
    have L: "is_list (h(a := h f, f := h l, l := f)) l (l # f # us' @ a # vs')"
      using n l f(3,4) \<open>a \<noteq> 0\<close> by (auto simp: lseg_append)
    have E: "h(a := h (h a), h a := (h(a := h (h a))) l, l := h a) = h(a := h f, f := h l, l := f)"
      using f(2) n by simp
    have M: "mset (l # f # us' @ a # vs') = mset R" "h a \<in> set R" "l \<in> set R" using R f Cons l by simp_all
    show ?thesis unfolding E by (intro exI conjI) (rule L, rule M, rule M, rule M)
  qed
qed

definition permuted :: "world \<Rightarrow> addr list \<Rightarrow> addr \<Rightarrow> world \<Rightarrow> bool" where
  \<comment> \<open>only links inside the list have changed, and the list has the same cells\<close>
  "permuted w0 P l w \<longleftrightarrow> (\<exists>Q. is_list (nxt w) l Q \<and> mset Q = mset P) \<and> w = w0\<lparr>nxt := nxt w\<rparr> \<and>
     (\<forall>a. a \<notin> set P \<longrightarrow> nxt w a = nxt w0 a)"

lemma permutedI:
  "is_list h l Q \<Longrightarrow> mset Q = mset P \<Longrightarrow> (\<And>x. x \<notin> set P \<Longrightarrow> h x = nxt w0 x) \<Longrightarrow> permuted w0 P l (w0\<lparr>nxt := h\<rparr>)"
  by (auto simp: permuted_def)

lemma find_round_run:
  assumes "permuted w0 P (fs_list f) w" and "2 \<le> length P"
  shows "\<exists>f' w'. find_round i (f, w) = Some (Inr (f', w')) \<and> permuted w0 P (fs_list f') w'"
proof -
  obtain Q where Q: "is_list (nxt w) (fs_list f) Q" "mset Q = mset P" and w: "w = w0\<lparr>nxt := nxt w\<rparr>"
    and fr: "\<forall>a. a \<notin> set P \<longrightarrow> nxt w a = nxt w0 a" using assms(1) by (auto simp: permuted_def)
  have S: "set Q = set P" by (rule mset_eq_setD [OF Q(2)])
  have len: "2 \<le> length (rev Q)" using assms(2) mset_eq_length [OF Q(2)] by simp
  let ?key = "(fs_info f)\<lparr>data16 := of_nat i AND 0xff\<rparr>"
  obtain a where a: "core_list_find (fs_list f) ?key w = Some a" "a = 0 \<or> a \<in> set Q" using find_run [OF Q(1)] by blast
  obtain l w1 where r: "core_list_reverse (fs_list f) w = Some (l, w1)" "is_list (nxt w1) l (rev Q)"
    "w1 = w\<lparr>nxt := nxt w1\<rparr>" "\<forall>a. a \<notin> set Q \<longrightarrow> nxt w1 a = nxt w a"
    using reverse_run [OF Q(1)] by blast
  obtain b c R where R: "rev Q = b # c # R" using len by (metis Suc_le_length_iff numeral_2_eq_2)
  have l: "l \<noteq> 0" "nxt w1 l \<noteq> 0" using r(2) unfolding R by auto
  define h where "h = nxt w1"
  have "w1 = (w0\<lparr>nxt := nxt w\<rparr>)\<lparr>nxt := nxt w1\<rparr>" using r(3) w by metis
  then have w1: "w1 = w0\<lparr>nxt := h\<rparr>" by (simp add: h_def)
  have fr1: "h x = nxt w0 x" if "x \<notin> set P" for x using r(4) fr that S by (simp add: h_def)
  have m: "mset (rev Q) = mset P" using Q(2) by simp
  have same: "permuted w0 P l w1" unfolding w1
    by (rule permutedI [OF r(2) [folded h_def] m fr1])
  show ?thesis
  proof (cases "a = 0 \<or> nxt w1 a = 0")
    case True
    then show ?thesis using a(1) r(1) l same by (auto simp: find_round_def Let_def)
  next
    case False
    then have a': "a \<in> set (rev Q)" "h a \<noteq> 0" using a(2) by (auto simp: h_def)
    let ?h = "h(a := h (h a), h a := (h(a := h (h a))) l, l := h a)"
    let ?w = "w0\<lparr>nxt := ?h\<rparr>"
    obtain R' where R': "is_list ?h l R'" "mset R' = mset P" "h a \<in> set (rev Q)" "l \<in> set (rev Q)"
      using move_to_front [OF r(2) [folded h_def] a'] m by auto
    have "?h x = nxt w0 x" if "x \<notin> set P" for x
      using that fr1 R'(3,4) a'(1) S by auto
    then have "permuted w0 P l ?w" by (rule permutedI [OF R'(1,2)])
    moreover have "set_next l (h a) (set_next (h a) (nxt (set_next a (h (h a)) w1) l) (set_next a (h (h a)) w1)) = ?w"
      by (simp add: set_next_def w1)
    ultimately show ?thesis
      using a(1) r(1) l False by (auto simp: find_round_def Let_def h_def)
  qed
qed


section \<open>The benchmark restores the list\<close>

lemma crc_list_run:
  assumes "is_list (nxt w) p Q" and "l \<noteq> 0"
  shows "\<exists>r. crc_list l p w v = Some (Inr r)"
  using assms(1)
proof (induction Q arbitrary: p v)
  case Nil
  then show ?case by (subst crc_list.simps) simp
next
  case (Cons a Q)
  then obtain r where "crc_list l (nxt w p) w (crc16 (data16 (dat w (info w l))) v) = Some (Inr r)" by auto
  then show ?case using Cons.prems assms(2) by (subst crc_list.simps) simp
qed

lemma is_list_from: "is_list h l P \<Longrightarrow> a \<in> set P \<Longrightarrow> \<exists>S. is_list h a S"
proof -
  assume l: "is_list h l P" and "a \<in> set P"
  then obtain us vs where P: "P = us @ a # vs" by (meson split_list)
  then obtain z where "is_list h z (a # vs)" using l by (auto simp: lseg_append)
  moreover from this have "z = a" by simp
  ultimately show ?thesis by blast
qed

lemma is_list_links: "is_list h l P \<Longrightarrow> is_list h' l P \<Longrightarrow> a \<in> set P \<Longrightarrow> h' a = h a"
proof (induction P arbitrary: l)
  case (Cons b P)
  have "h' l = h l" using Cons.prems(1,2) by (cases P) auto
  then show ?case using Cons by auto
qed simp

lemma bench_ready_next [simp]: "bench_ready (w\<lparr>nxt := h\<rparr>) = bench_ready w"
  by (simp add: bench_ready_def)

lemma find_rounds_run:
  assumes "permuted w P (fs_list f0) w" and "2 \<le> length P"
  shows "\<exists>f w1. xfold find_round [0..<n] (f0, w) = Some (Inr (f, w1)) \<and> permuted w P (fs_list f) w1"
proof -
  have "\<exists>s'. xfold find_round [0..<n] (f0, w) = Some (Inr s') \<and> (case s' of (f, w') \<Rightarrow> permuted w P (fs_list f) w')"
  proof (rule xfold_inv [where P = "\<lambda>_ s. case s of (f, w') \<Rightarrow> permuted w P (fs_list f) w'"])
    show "\<exists>s'. find_round i s = Some (Inr s') \<and> (case s' of (f, w') \<Rightarrow> permuted w P (fs_list f) w')"
      if "case s of (f, w') \<Rightarrow> permuted w P (fs_list f) w'" for i s
      using find_round_run [of w P "fst s" "snd s" i] that assms(2) by (cases s) auto
  qed (use assms(1) in simp)
  then show ?thesis by fast
qed

definition shuffled :: "world \<Rightarrow> addr list \<Rightarrow> addr \<Rightarrow> world \<Rightarrow> bool" where
  \<comment> \<open>the cells of the list are in some order, and everything the benchmarks need is as it was\<close>
  "shuffled w0 P l w \<longleftrightarrow> ready_with w0 w \<and> info w = info w0 \<and>
     (\<exists>Q. is_list (nxt w) l Q \<and> mset Q = mset P) \<and> (\<forall>a. a \<notin> set P \<longrightarrow> nxt w a = nxt w0 a)"

lemma permuted_shuffled:
  assumes "bench_ready w0" and p: "permuted w0 P l w"
  shows "shuffled w0 P l w"
proof -
  have w: "w = w0\<lparr>nxt := nxt w\<rparr>" using p by (simp add: permuted_def)
  have "ready_with w0 w" "info w = info w0"
    by (subst w, simp add: ready_with_def assms(1) [unfolded bench_ready_def] bench_ready_def) (subst w, simp)
  then show ?thesis using p by (auto simp: shuffled_def permuted_def)
qed

lemma complex_sort_run:
  assumes sh: "shuffled w0 P l w" and P: "P \<noteq> []" "length P < 2147483648"
  shows "\<exists>l2 w2. (if b then core_list_mergesort l cmp_complex w else Some (Inr (l, w))) = Some (Inr (l2, w2)) \<and>
    shuffled w0 P l2 w2"
proof (cases b)
  case True
  obtain Q where Q: "is_list (nxt w) l Q" "mset Q = mset P" and rw: "ready_with w0 w"
    using sh by (auto simp: shuffled_def)
  have s: "Q \<noteq> []" "length Q < 2147483648" "set Q = set P"
    using mset_eq_length [OF Q(2)] mset_eq_setD [OF Q(2)] P by auto
  obtain l2 w2 Q2 where "core_list_mergesort l cmp_complex w = Some (Inr (l2, w2))" "ready_with w0 w2"
    "info w2 = info w" "is_list (nxt w2) l2 Q2" "mset Q2 = mset Q" "\<forall>a. a \<notin> set Q \<longrightarrow> nxt w2 a = nxt w a"
    using complex_order.mergesort_run [OF rw Q(1) s(1,2)] by blast
  then show ?thesis using True sh Q(2) s(3) by (auto simp: shuffled_def)
qed (use sh in simp)

lemma remove_and_find_run:
  assumes Q: "is_list (nxt w) l Q" "3 \<le> length Q"
  shows "\<exists>y w3 a c. core_list_remove (nxt w l) w = Some (Inr (y, w3)) \<and> core_list_find l i w3 = Some a \<and>
    crc_list l (if a = 0 then nxt w3 l else a) w3 r = Some (Inr c) \<and>
    core_list_undo_remove y (nxt w3 l) w3 = Some (Inr (y, w))"
proof -
  obtain b x y rest where R: "Q = b # x # y # rest" using Q(2) by (metis Suc_le_length_iff numeral_3_eq_3)
  have x: "l = b" "l \<noteq> 0" "nxt w l = x" "is_list (nxt w) x (x # y # rest)" using Q(1) R by auto
  have d: "l \<noteq> x" "l \<noteq> y" using is_list_distinct [OF Q(1)] R x(1) by auto
  obtain w3 where r: "core_list_remove x w = Some (Inr (y, w3))" "is_list (nxt w3) x (x # rest)"
    "core_list_undo_remove y x w3 = Some (Inr (y, w))" "nxt w3 l = nxt w l"
    using remove_run [OF x(4)] d by blast
  have l3: "is_list (nxt w3) l (l # x # rest)" using r(2,4) x by simp
  obtain a where a: "core_list_find l i w3 = Some a" "a = 0 \<or> a \<in> set (l # x # rest)"
    using find_run [OF l3] by blast
  have "is_list (nxt w3) (nxt w3 l) (x # rest)" using r(2,4) x(3) by metis
  moreover have "\<exists>S. is_list (nxt w3) a S" if "a \<noteq> 0" using is_list_from [OF l3, of a] a(2) that by blast
  ultimately have "\<exists>S. is_list (nxt w3) (if a = 0 then nxt w3 l else a) S" by (simp only: split: if_split) blast
  then obtain c where "crc_list l (if a = 0 then nxt w3 l else a) w3 r = Some (Inr c)"
    using crc_list_run x(2) by blast
  then show ?thesis using r(1,3,4) x(3) a(1) by auto
qed

lemma index_sort_restores:
  assumes sh: "shuffled w P l2 w2" and P: "is_list (nxt w) l P" "P \<noteq> []" "length P < 2147483648"
    and key: "sorted (map (\<lambda>c. sint (idx (dat w (info w c)))) P)" "inj_on (\<lambda>c. idx (dat w (info w c))) (set P)"
    and two: "2 \<le> length P" and regen: "\<forall>c \<in> set P. regenerated (info w c) w"
  shows "\<exists>w4. core_list_mergesort l2 (cmp_idx True) w2 = Some (Inr (l, w4)) \<and> nxt w4 = nxt w \<and> info w4 = info w \<and>
    (\<forall>a. idx (dat w4 a) = idx (dat w a)) \<and> (\<forall>c \<in> set P. dat w4 (info w c) = dat w (info w c)) \<and>
    bench_ready w4 \<and> inputs (res w4) = inputs (res w) \<and> bytes w4 = bytes w"
proof -
  let ?ix = "\<lambda>a. (idx (dat w a), upper w a)"
  obtain Q where w2: "ready_with w w2" "info w2 = info w" "\<forall>a. a \<notin> set P \<longrightarrow> nxt w2 a = nxt w a"
    and Q: "is_list (nxt w2) l2 Q" "mset Q = mset P" using sh by (auto simp: shuffled_def)
  have s: "Q \<noteq> []" "length Q < 2147483648" "set Q = set P"
    using mset_eq_length [OF Q(2)] mset_eq_setD [OF Q(2)] P by auto
  have ii: "items_indexed ?ix (res w2) (bytes w2) w2" using w2(1) by (simp add: items_indexed_def ready_with_def)
  obtain l4 w4 where m: "core_list_mergesort l2 (cmp_idx True) w2 = Some (Inr (l4, w4))" "items_indexed ?ix (res w2) (bytes w2) w4"
    "info w4 = info w2" "is_list (nxt w4) l4 (sort_key (\<lambda>c. sint (fst (?ix (info w2 c)))) Q)" "\<forall>a. a \<notin> set Q \<longrightarrow> nxt w4 a = nxt w2 a"
    "2 \<le> length Q \<longrightarrow> (\<forall>c \<in> set Q. True \<longrightarrow> regenerated (info w2 c) w4)"
    using idx_order.mergesort_sorts [OF ii Q(1) s(1,2)] by blast
  have "inj_on (\<lambda>c. sint (fst (?ix (info w2 c)))) (set Q)" using key(2) w2(2) s(3) by (auto simp: inj_on_def dest: signed_word_eqI)
  then have "sort_key (\<lambda>c. sint (fst (?ix (info w2 c)))) Q = P"
    by (rule sort_key_inj_key_eq [OF Q(2)]) (use key(1) w2(2) in simp)
  then have l4: "is_list (nxt w4) l4 P" using m(4) by simp
  have hd: "l4 = l" using l4 P(1,2) by (cases P) auto
  have "nxt w4 a = nxt w a" for a
  proof (cases "a \<in> set P")
    case True
    then show ?thesis by (rule is_list_links [OF P(1) l4 [unfolded hd]])
  qed (use m(5) w2(3) s(3) in simp)
  moreover have w4: "bench_ready w4" "inputs (res w4) = inputs (res w)" "bytes w4 = bytes w"
    "\<forall>a. idx (dat w4 a) = idx (dat w a)" "\<forall>a. upper w4 a = upper w a"
    using m(2) w2(1) by (auto simp: items_indexed_def ready_with_def bench_ready_def)
  moreover have "dat w4 (info w c) = dat w (info w c)" if c: "c \<in> set P" for c
  proof -
    have "regenerated (info w c) w4" using m(6) c two mset_eq_length [OF Q(2)] s(3) w2(2) by simp
    then have "data16 (dat w4 (info w c)) = data16 (dat w (info w c))"
      using regen c regen_cong [of "data16 (dat w4 (info w c))" "data16 (dat w (info w c))"] w4(5)
      unfolding regenerated_def by metis
    then show ?thesis using w4(4) by (intro list_data.equality) simp_all
  qed
  ultimately show ?thesis using m(1,3) w2(2) hd by auto
qed

lemma core_bench_list_run:
  assumes ready: "bench_ready w" and P: "is_list (nxt w) (res_list (res w)) P" "3 \<le> length P" "length P < 2147483648"
    and key: "sorted (map (\<lambda>c. sint (idx (dat w (info w c)))) P)" "inj_on (\<lambda>c. idx (dat w (info w c))) (set P)"
    and regen: "\<forall>c \<in> set P. regenerated (info w c) w"
  shows "\<exists>r w'. core_bench_list fi w = Some (Inr (r, res_list (res w), w')) \<and> nxt w' = nxt w \<and> info w' = info w \<and>
    (\<forall>a. idx (dat w' a) = idx (dat w a)) \<and> (\<forall>c \<in> set P. dat w' (info w c) = dat w (info w c)) \<and>
    bench_ready w' \<and> inputs (res w') = inputs (res w) \<and> bytes w' = bytes w"
proof -
  let ?l = "res_list (res w)"
  let ?f0 = "\<lparr>fs_list = ?l, fs_retval = 0, fs_found = 0, fs_missed = 0, fs_info = \<lparr>data16 = 0, idx = fi\<rparr>\<rparr>"
  have ne: "P \<noteq> []" "2 \<le> length P" using P(2) by auto
  have "permuted w P ?l (w\<lparr>nxt := nxt w\<rparr>)" by (rule permutedI [OF P(1)]) simp_all
  then have "permuted w P (fs_list ?f0) w" by simp
  then obtain f w1 where f: "xfold find_round [0..<nat (sint (seed3 (res w)))] (?f0, w) = Some (Inr (f, w1))"
    "permuted w P (fs_list f) w1" using find_rounds_run [of w P ?f0, OF _ ne(2)] by blast
  let ?r = "fs_retval f + (fs_found f * 4 - fs_missed f)"
  obtain l2 w2 where s: "(if 0 < sint fi then core_list_mergesort (fs_list f) cmp_complex w1 else Some (Inr (fs_list f, w1))) = Some (Inr (l2, w2))"
    and sh: "shuffled w P l2 w2"
    using complex_sort_run [OF permuted_shuffled [OF ready f(2)] ne(1) P(3)] by blast
  obtain Q where Q: "is_list (nxt w2) l2 Q" "mset Q = mset P" using sh by (auto simp: shuffled_def)
  have Q3: "3 \<le> length Q" using P(2) mset_eq_length [OF Q(2)] by simp
  then have l2: "l2 \<noteq> 0" using Q(1) by (cases Q) auto
  obtain y w3 a c1 where r: "core_list_remove (nxt w2 l2) w2 = Some (Inr (y, w3))" "core_list_find l2 (fs_info f) w3 = Some a"
    "crc_list l2 (if a = 0 then nxt w3 l2 else a) w3 ?r = Some (Inr c1)"
    "core_list_undo_remove y (nxt w3 l2) w3 = Some (Inr (y, w2))"
    using remove_and_find_run [OF Q(1) Q3] by blast
  obtain w4 where m: "core_list_mergesort l2 (cmp_idx True) w2 = Some (Inr (?l, w4))" "nxt w4 = nxt w" "info w4 = info w"
    "\<forall>a. idx (dat w4 a) = idx (dat w a)" "bench_ready w4" "inputs (res w4) = inputs (res w)" "bytes w4 = bytes w"
    "\<forall>c \<in> set P. dat w4 (info w c) = dat w (info w c)"
    using index_sort_restores [OF sh P(1) ne(1) P(3) key ne(2) regen] by blast
  have l: "?l \<noteq> 0" "is_list (nxt w4) (nxt w4 ?l) (tl P)" using P(1) ne(1) m(2) by (cases P; simp)+
  then obtain c2 where c2: "crc_list ?l (nxt w4 ?l) w4 c1 = Some (Inr c2)" using crc_list_run by blast
  have "core_bench_list fi w = Some (Inr (c2, ?l, w4))"
    unfolding core_bench_list_def Let_def f(1) xbind_simps prod.case s nonnull_simps(1) [OF l2] r(1,2)
    by (simp only: Option.bind.simps xbind_simps prod.case r(3,4) m(1) nonnull_simps(1) [OF l(1)] c2)
  then show ?thesis using m by blast
qed


lemma sample_world_ready: "bench_ready (sample_world ix n)"
proof -
  have "matrices_small (mat (res (sample_world ix n)))"
    unfolding matrices_small_def Let_def by (rule exI [of _ 255]) (simp add: sample_world_def entry_bound_def)
  moreover have "state_ready (res (sample_world ix n)) (bytes (sample_world ix n))"
    by (auto simp: state_ready_def sample_world_def terminated_def chr8_def intro!: exI [of _ 0])
  ultimately show ?thesis by (simp add: bench_ready_def)
qed

lemma sample_world_regenerated: "regenerated a (sample_world ix n)"
  by (simp add: regenerated_def sample_world_def)



section \<open>Building the list\<close>

lemma insert_new_full:
  "mend \<le> new + 16 \<or> dend \<le> db + 4 \<Longrightarrow> core_list_insert_new l d new db mend dend w = Some (Inr (0, new, db, w))"
  by (auto simp: core_list_insert_new_def)

lemma insert_new_run:
  assumes "is_list (nxt w) l (l # xs)" and "\<not> mend \<le> new + 16" and "\<not> dend \<le> db + 4" and "new \<noteq> 0" and "new \<notin> set (l # xs)"
  shows "\<exists>w'. core_list_insert_new l d new db mend dend w = Some (Inr (new, new + 16, db + 4, w')) \<and>
    is_list (nxt w') l (l # new # xs) \<and> info w' = (info w)(new := db) \<and> dat w' = (dat w)(db := d)"
proof -
  have "l \<notin> set xs" using is_list_distinct [OF assms(1)] by simp
  moreover have "(dat w db)\<lparr>data16 := data16 d, idx := idx d\<rparr> = d" by (cases d) simp
  ultimately show ?thesis
    using assms by (auto simp: core_list_insert_new_def Let_def set_next_def set_info_def copy_info_def set_idx_def set_data16_def fun_eq_iff)
qed

lemma sint_and_3fff: "0 \<le> sint (ucast (0x3fff AND (x :: u16)) :: s16)"
proof -
  have "\<not> bit (ucast (0x3fff AND x) :: s16) 15" by (simp add: bit_and_iff bit_ucast_iff)
  then show ?thesis using bit_last_iff [of "ucast (0x3fff AND x) :: s16"] by simp
qed

lemma sint_ucast_small:
  assumes "unat (i :: u32) < 32768"
  shows "0 \<le> sint (ucast i :: s16)"
proof -
  have "take_bit 15 (unat i) = unat i" by (rule take_bit_nat_eq_self) (use assms in simp)
  then have "take_bit 15 i = i" by (intro word_unat_eq_iff [THEN iffD2]) (simp add: unsigned_take_bit_eq)
  then have "\<not> bit i 15" by (metis bit_take_bit_iff less_irrefl)
  then have "\<not> bit (ucast i :: s16) 15" by (simp add: bit_ucast_iff)
  then show ?thesis using bit_last_iff [of "ucast i :: s16"] by simp
qed

lemma index_items_run:
  assumes "is_list (nxt w) f Q" and "Q \<noteq> []" and "unat sz div 5 \<le> 32768"
  shows "\<exists>w'. index_items sz seed f i w = Some (Inr w') \<and> nxt w' = nxt w \<and> info w' = info w \<and>
    (\<forall>a. a \<notin> info w ` set Q \<longrightarrow> dat w' a = dat w a) \<and> (\<forall>a. idx (dat w' a) = idx (dat w a) \<or> 0 \<le> sint (idx (dat w' a)))"
  using assms(1,2)
proof (induction Q arbitrary: f i w)
  case (Cons a Q)
  have f: "f = a" "f \<noteq> 0" "is_list (nxt w) (nxt w f) Q" using Cons.prems(1) by auto
  show ?case
  proof (cases "nxt w f = 0")
    case True
    then show ?thesis using f by (subst index_items.simps) simp
  next
    case False
    let ?v = "if i < sz div 5 then ucast i
                  else let pat = ucast (i XOR scast seed) :: u16 in ucast (0x3fff AND (push_bit 8 (ucast (i + 1) AND 7) OR pat)) :: s16"
    define v where "v = ?v"
    let ?w = "set_idx (info w f) v w"
    have v: "0 \<le> sint v"
    proof (cases "i < sz div 5")
      case True
      then have "unat i < 32768" using assms(3) by (simp add: word_less_nat_alt unat_div)
      then show ?thesis using True sint_ucast_small by (simp add: v_def)
    next
      case False
      then show ?thesis using sint_and_3fff by (simp only: v_def Let_def if_False)
    qed
    have "Q \<noteq> []" using f(3) False by auto
    moreover have "is_list (nxt ?w) (nxt w f) Q" using f(3) by (simp add: set_idx_def)
    ultimately obtain w' where w': "index_items sz seed (nxt w f) (i + 1) ?w = Some (Inr w')" "nxt w' = nxt w" "info w' = info w"
      "\<forall>a. a \<notin> info w ` set Q \<longrightarrow> dat w' a = dat ?w a" "\<forall>a. idx (dat w' a) = idx (dat ?w a) \<or> 0 \<le> sint (idx (dat w' a))"
      using Cons.IH [of ?w "nxt w f" "i + 1"] by (auto simp: set_idx_def)
    have "index_items sz seed f i w = Some (Inr w')"
      using w'(1) f False by (subst index_items.simps) (simp add: v_def Let_def)
    moreover have "dat w' b = dat w b" if "b \<notin> info w ` set (a # Q)" for b
      using w'(4) that f(1) by (auto simp: set_idx_def)
    moreover have "idx (dat w' b) = idx (dat w b) \<or> 0 \<le> sint (idx (dat w' b))" for b
    proof (cases "b = info w f")
      case True
      then have "idx (dat ?w b) = v" by (simp add: set_idx_def)
      then show ?thesis using w'(5) v by metis
    next
      case False
      then have "idx (dat ?w b) = idx (dat w b)" by (simp add: set_idx_def)
      then show ?thesis using w'(5) by metis
    qed
    ultimately show ?thesis using w'(2,3) by blast
  qed
qed simp


definition cell :: "addr \<Rightarrow> nat \<Rightarrow> addr" where "cell p k = p + 16 * of_nat k"
definition item :: "addr \<Rightarrow> nat \<Rightarrow> nat \<Rightarrow> addr" where "item p n k = p + 16 * of_nat n + 4 * of_nat k"

lemma unat_cell: "unat p + 16 * k < 2 ^ 64 \<Longrightarrow> unat (cell p k) = unat p + 16 * k"
  using unat_offset [of p "16 * k"] by (simp add: cell_def)

lemma unat_item: "unat p + 16 * n + 4 * k < 2 ^ 64 \<Longrightarrow> unat (item p n k) = unat p + 16 * n + 4 * k"
  using unat_offset [of p "16 * n + 4 * k"] by (simp add: item_def add.assoc)

definition filled :: "addr \<Rightarrow> nat \<Rightarrow> nat \<Rightarrow> world \<Rightarrow> bool" where
  \<comment> \<open>the list after \<open>j\<close> insertions behind its head\<close>
  "filled p n j w \<longleftrightarrow> is_list (nxt w) (cell p 0) (cell p 0 # map (cell p) (rev [1..<Suc j])) \<and>
     (\<forall>k \<le> j. info w (cell p k) = item p n k) \<and> idx (dat w (item p n 0)) = 0 \<and>
     (\<forall>k. 1 \<le> k \<and> k \<le> j \<longrightarrow> idx (dat w (item p n k)) = 0x7fff)"

lemma insert_filled:
  assumes "filled p n j w" and "j + 2 < n" and "unat p + 20 * n < 2 ^ 64" and "p \<noteq> 0" and "idx d = 0x7fff"
  shows "\<exists>w'. core_list_insert_new (cell p 0) d (cell p (Suc j)) (item p n (Suc j)) (cell p n) (item p n n) w =
      Some (Inr (cell p (Suc j), cell p (Suc (Suc j)), item p n (Suc (Suc j)), w')) \<and> filled p n (Suc j) w'"
proof -
  have uc: "unat (cell p k) = unat p + 16 * k" if "k \<le> n" for k by (rule unat_cell) (use that assms(3) in simp)
  have ui: "unat (item p n k) = unat p + 16 * n + 4 * k" if "k \<le> n" for k by (rule unat_item) (use that assms(3) in simp)
  have p0: "0 < unat p" using assms(4) by (simp add: unat_gt_0)
  have s: "cell p (Suc k) = cell p k + 16" "item p n (Suc k) = item p n k + 4" for k
    by (simp_all add: cell_def item_def)
  have inj: "cell p a = cell p b \<longleftrightarrow> a = b" "item p n a = item p n b \<longleftrightarrow> a = b" if "a \<le> n" "b \<le> n" for a b
  proof -
    have "a = b" if e: "cell p a = cell p b"
      using arg_cong [OF e, of unat] unfolding uc [OF \<open>a \<le> n\<close>] uc [OF \<open>b \<le> n\<close>] by linarith
    then show "cell p a = cell p b \<longleftrightarrow> a = b" by blast
    have "a = b" if e: "item p n a = item p n b"
      using arg_cong [OF e, of unat] unfolding ui [OF \<open>a \<le> n\<close>] ui [OF \<open>b \<le> n\<close>] by linarith
    then show "item p n a = item p n b \<longleftrightarrow> a = b" by blast
  qed
  have c: "\<not> cell p n \<le> cell p (Suc j) + 16" "\<not> item p n n \<le> item p n (Suc j) + 4"
    using uc [of n] uc [of "Suc (Suc j)"] ui [of n] ui [of "Suc (Suc j)"] assms(2) by (simp_all add: s [symmetric] word_le_nat_alt)
  have nz: "cell p (Suc j) \<noteq> 0" using uc [of "Suc j"] assms(2) p0 by (auto dest: arg_cong [where f = unat])
  have fresh: "cell p (Suc j) \<notin> set (cell p 0 # map (cell p) (rev [1..<Suc j]))"
  proof
    assume "cell p (Suc j) \<in> set (cell p 0 # map (cell p) (rev [1..<Suc j]))"
    moreover have "set (cell p 0 # map (cell p) (rev [1..<Suc j])) \<subseteq> cell p ` {..j}" by auto
    ultimately obtain k where "k \<le> j" "cell p (Suc j) = cell p k" by blast
    then show False using inj(1) [of "Suc j" k] assms(2) by simp
  qed
  have l: "is_list (nxt w) (cell p 0) (cell p 0 # map (cell p) (rev [1..<Suc j]))" using assms(1) unfolding filled_def by blast
  obtain w' where w': "core_list_insert_new (cell p 0) d (cell p (Suc j)) (item p n (Suc j)) (cell p n) (item p n n) w =
      Some (Inr (cell p (Suc j), cell p (Suc j) + 16, item p n (Suc j) + 4, w'))"
    "is_list (nxt w') (cell p 0) (cell p 0 # cell p (Suc j) # map (cell p) (rev [1..<Suc j]))"
    "info w' = (info w)(cell p (Suc j) := item p n (Suc j))" "dat w' = (dat w)(item p n (Suc j) := d)"
    using insert_new_run [OF l c nz fresh] by blast
  have "filled p n (Suc j) w'"
    unfolding filled_def
  proof (intro conjI allI impI)
    show "is_list (nxt w') (cell p 0) (cell p 0 # map (cell p) (rev [1..<Suc (Suc j)]))" using w'(2) by simp
    show "info w' (cell p k) = item p n k" if "k \<le> Suc j" for k
      using that assms(1,2) inj(1) [of k "Suc j"] w'(3) by (auto simp: filled_def le_Suc_eq)
    show "idx (dat w' (item p n 0)) = 0"
      using assms(1,2) inj(2) [of 0 "Suc j"] w'(4) by (simp add: filled_def)
    show "idx (dat w' (item p n k)) = 0x7fff" if "1 \<le> k \<and> k \<le> Suc j" for k
      using that assms(1,2,5) inj(2) [of k "Suc j"] w'(4) by (auto simp: filled_def le_Suc_eq)
  qed
  then show ?thesis using w'(1) by (simp add: s)
qed


lemma fill_items_run:
  assumes "filled p n 1 w" and "3 \<le> n" and "unat p + 20 * n < 2 ^ 64" and "p \<noteq> 0"
  shows "\<exists>w'. xfold (fill_item sz seed (cell p 0) (cell p n) (item p n n)) [0..<n] (cell p 2, item p n 2, w) =
      Some (Inr (cell p (n - 1), item p n (n - 1), w')) \<and> filled p n (n - 2) w'"
proof -
  let ?f = "fill_item sz seed (cell p 0) (cell p n) (item p n n)"
  let ?P = "\<lambda>i s. \<exists>j w'. s = (cell p (Suc j), item p n (Suc j), w') \<and> filled p n j w' \<and> j = min (Suc i) (n - 2)"
  have "\<exists>s'. xfold ?f [0..<n] (cell p 2, item p n 2, w) = Some (Inr s') \<and> ?P n s'"
  proof (rule xfold_inv [where P = ?P])
    show "?P 0 (cell p 2, item p n 2, w)"
      by (rule exI [of _ 1], rule exI [of _ w]) (use assms(1,2) in \<open>simp add: numeral_2_eq_2\<close>)
  next
    fix i s assume "i < n" and "?P i s"
    then obtain j w1 where s: "s = (cell p (Suc j), item p n (Suc j), w1)" "filled p n j w1" "j = min (Suc i) (n - 2)" by blast
    show "\<exists>s'. ?f i s = Some (Inr s') \<and> ?P (Suc i) s'"
    proof (cases "j + 2 < n")
      case True
      have j: "Suc j = min (Suc (Suc i)) (n - 2)" using s(3) True by linarith
      obtain d where d: "?f i s = xbind (core_list_insert_new (cell p 0) d (cell p (Suc j)) (item p n (Suc j)) (cell p n) (item p n n) w1)
          (\<lambda>(_, memblk, datablock, w). Some (Inr (memblk, datablock, w)))" "idx d = 0x7fff"
        by (rule that [OF _ list_data.select_convs(2)]) (simp add: fill_item_def s(1) Let_def)
      obtain w2 where "core_list_insert_new (cell p 0) d (cell p (Suc j)) (item p n (Suc j)) (cell p n) (item p n n) w1 =
          Some (Inr (cell p (Suc j), cell p (Suc (Suc j)), item p n (Suc (Suc j)), w2))" "filled p n (Suc j) w2"
        using insert_filled [OF s(2) True assms(3,4) d(2)] by blast
      then show ?thesis using d(1) j by auto
    next
      case False
      then have "j = n - 2" "n = Suc (Suc j)" using s(3) assms(2) by linarith+
      then have "cell p n \<le> cell p (Suc j) + 16" by (simp add: cell_def algebra_simps)
      then have "?f i s = Some (Inr s)" by (simp add: fill_item_def s(1) insert_new_full)
      moreover have "j = min (Suc (Suc i)) (n - 2)" using s(3) \<open>j = n - 2\<close> by linarith
      ultimately show ?thesis using s(1,2) by blast
    qed
  qed
  moreover have "min (Suc n) (n - 2) = n - 2" by simp
  ultimately obtain w' where "xfold ?f [0..<n] (cell p 2, item p n 2, w) =
      Some (Inr (cell p (Suc (n - 2)), item p n (Suc (n - 2)), w'))" "filled p n (n - 2) w'"
    by (simp only:) blast
  moreover have "Suc (n - 2) = n - 1" using assms(2) by simp
  ultimately show ?thesis by auto
qed

lemma sort_key_least: "(\<And>y. y \<in> set xs \<Longrightarrow> f x \<le> f y) \<Longrightarrow> sort_key f (x # xs) = x # sort_key f xs"
  by (simp add: insort_is_Cons)

lemma ucast_u32_addr: "(ucast (x :: u32) :: addr) = of_nat (unat x)"
proof -
  have "unat (of_nat (unat x) :: addr) = unat x" by (rule unat_of_nat_lt) (use unat_lt_2p [of x] in simp)
  then show ?thesis by (intro word_unat_eq_iff [THEN iffD2]) (simp add: unsigned_ucast_eq)
qed

lemma sint_7fff: "idx d = 0x7fff \<Longrightarrow> idx e = idx d \<or> 0 \<le> sint (idx e) \<Longrightarrow> 0 \<le> sint (idx e)"
  by auto

lemma filled_head_apart:
  assumes "j \<le> n" and b: "unat p + 20 * n < 2 ^ 64" and info: "\<forall>k \<le> j. info w (cell p k) = item p n k"
  shows "item p n 0 \<notin> info w ` set (map (cell p) (rev [1..<Suc j]))"
proof
  assume "item p n 0 \<in> info w ` set (map (cell p) (rev [1..<Suc j]))"
  then obtain k where k: "item p n 0 = item p n k" "1 \<le> k" "k \<le> j" using info by force
  have "unat (item p n 0) = unat p + 16 * n + 4 * 0" by (rule unat_item) (use b in linarith)
  moreover have "unat (item p n k) = unat p + 16 * n + 4 * k" by (rule unat_item) (use assms(1) b k(3) in linarith)
  ultimately show False using arg_cong [OF k(1), of unat] k(2) by linarith
qed

text \<open>The first index stays 0 and the others stay at or above it.\<close>

lemma filled_indexed:
  assumes f: "filled p n j w" and j: "j \<le> n" and b: "unat p + 20 * n < 2 ^ 64"
    and w': "info w' = info w" "\<forall>a. a \<notin> info w ` set (map (cell p) (rev [1..<Suc j])) \<longrightarrow> dat w' a = dat w a"
      "\<forall>a. idx (dat w' a) = idx (dat w a) \<or> 0 \<le> sint (idx (dat w' a))"
  shows "sint (idx (dat w' (info w' (cell p 0)))) = 0"
    "c \<in> set (map (cell p) (rev [1..<Suc j])) \<Longrightarrow> 0 \<le> sint (idx (dat w' (info w' c)))"
proof -
  have items: "\<forall>k \<le> j. info w (cell p k) = item p n k" using f by (simp add: filled_def)
  have "dat w' (item p n 0) = dat w (item p n 0)"
    by (rule w'(2) [rule_format, OF filled_head_apart [OF j b items]])
  then show "sint (idx (dat w' (info w' (cell p 0)))) = 0" using f items w'(1) by (simp add: filled_def)
  show "0 \<le> sint (idx (dat w' (info w' c)))" if c: "c \<in> set (map (cell p) (rev [1..<Suc j]))"
  proof -
    obtain k where k: "c = cell p k" "1 \<le> k" "k \<le> j" using c by auto
    have "idx (dat w (info w c)) = 0x7fff" using f k by (simp add: filled_def)
    then show ?thesis using w'(1,3) by (metis sint_7fff)
  qed
qed

lemma cells_in_block:
  assumes "unat p + 20 * n < 2 ^ 64" and "j + 2 \<le> n" and c: "c = cell p 0 \<or> c \<in> set (map (cell p) (rev [1..<Suc j]))"
  shows "unat p \<le> unat c \<and> unat c + 16 \<le> unat p + 20 * n"
proof -
  obtain k where k: "c = cell p k" "k \<le> j" using c by (cases "c = cell p 0") auto
  have "unat c = unat p + 16 * k" using unat_cell [of p k] k assms(1,2) by simp
  then show ?thesis using k(2) assms(2) by simp
qed

lemma list_head_filled:
  assumes "p \<noteq> 0"
  shows "filled p n 0 (let w = set_next p 0 w; w = set_info p (item p n 0) w
    in set_data16 (info w p) 0x8080 (set_idx (info w p) 0 w))"
  using assms by (simp add: filled_def cell_def Let_def set_next_def set_info_def set_idx_def set_data16_def)

lemma core_list_init_run:
  assumes blk: "100 \<le> unat blksize" "unat blksize \<le> 3000000" and p: "unat p + unat blksize < 2 ^ 64" "p \<noteq> 0"
  shows "\<exists>w' P. core_list_init blksize p seed w = Some (Inr (p, w')) \<and> is_list (nxt w') p P \<and>
    length P = unat blksize div 20 - 3 \<and> sorted (map (\<lambda>c. sint (idx (dat w' (info w' c)))) P) \<and>
    (\<forall>c \<in> set P. unat p \<le> unat c \<and> unat c + 16 \<le> unat p + unat blksize) \<and> (\<forall>c \<in> set P. regenerated (info w' c) w')"
proof -
  define n where "n = unat blksize div 20 - 2"
  have n: "3 \<le> n" "20 * n \<le> unat blksize" "n < 2 ^ 32" using blk by (auto simp: n_def)
  have un: "unat (blksize div 20 - 2) = n"
  proof -
    have "2 \<le> blksize div 20" using blk(1) by (simp add: word_le_nat_alt unat_div)
    then show ?thesis by (simp add: unat_sub unat_div n_def)
  qed
  then have uc: "(ucast (blksize div 20 - 2) :: addr) = of_nat n"
    using ucast_u32_addr by metis
  have b: "unat p + 20 * n < 2 ^ 64" using n(2) p(1) by linarith
  have c0: "cell p 0 = p" "cell p (Suc 0) = p + 16" "cell p 2 = p + 16 + 16" "cell p n = p + 16 * of_nat n"
    "item p n 0 = p + 16 * of_nat n" "item p n (Suc 0) = p + 16 * of_nat n + 4" "item p n n = p + 16 * of_nat n + 4 * of_nat n"
    by (simp_all add: cell_def item_def)
  define w0 where "w0 = (let w = set_next p 0 w; w = set_info p (item p n 0) w
    in set_data16 (info w p) 0x8080 (set_idx (info w p) 0 w))"
  have "filled p n 0 w0" unfolding w0_def by (rule list_head_filled [OF p(2)])
  then obtain w1 where w1: "core_list_insert_new p \<lparr>data16 = 0xffff, idx = 0x7fff\<rparr> (p + 16) (item p n 0 + 4) (cell p n) (item p n n) w0 =
      Some (Inr (cell p 1, cell p 2, item p n 2, w1))" "filled p n 1 w1"
    using insert_filled [of p n 0 w0 "\<lparr>data16 = 0xffff, idx = 0x7fff\<rparr>"] n b p(2) by (auto simp: c0 numeral_2_eq_2)
  obtain w2 where w2: "xfold (fill_item (blksize div 20 - 2) seed p (cell p n) (item p n n)) [0..<n] (cell p 2, item p n 2, w1) =
      Some (Inr (cell p (n - 1), item p n (n - 1), w2))" "filled p n (n - 2) w2"
    using fill_items_run [OF w1(2) n(1) b p(2), of "blksize div 20 - 2" seed] by (auto simp: c0)
  let ?Q = "map (cell p) (rev [1..<Suc (n - 2)])"
  have L: "is_list (nxt w2) p (p # ?Q)" using w2(2) unfolding filled_def c0 by blast
  have Q: "?Q \<noteq> []" "is_list (nxt w2) (nxt w2 p) ?Q" using n(1) L by auto
  have "unat (blksize div 20 - 2) div 5 \<le> 32768" using n(2) blk(2) by (simp add: un)
  then obtain w3 where w3: "index_items (blksize div 20 - 2) seed (nxt w2 p) 1 w2 = Some (Inr w3)" "nxt w3 = nxt w2" "info w3 = info w2"
    "\<forall>a. a \<notin> info w2 ` set ?Q \<longrightarrow> dat w3 a = dat w2 a" "\<forall>a. idx (dat w3 a) = idx (dat w2 a) \<or> 0 \<le> sint (idx (dat w3 a))"
    using index_items_run [OF Q(2,1)] by blast
  let ?f = "\<lambda>c. sint (idx (dat w3 (info w3 c)))"
  note nn = filled_indexed [OF w2(2) _ b, of w3, OF _ w3(3-5)]
  have sk: "sort_key ?f (p # ?Q) = p # sort_key ?f ?Q"
  proof (rule sort_key_least)
    show "?f p \<le> ?f y" if "y \<in> set ?Q" for y
      using nn(1) nn(2) [OF _ that] by (simp add: c0)
  qed
  have "length ?Q = n - 2" by (simp only: length_map length_rev length_upt)
  then have Ql: "length (p # ?Q) = n - 1" using n(1) by simp
  then have len: "length (p # ?Q) < 2147483648" using n(2) blk(2) by linarith
  have ii: "items_indexed (\<lambda>a. (idx (dat w3 a), upper w3 a)) (res w3) (bytes w3) w3" by (simp add: items_indexed_def)
  have L3: "is_list (nxt w3) p (p # ?Q)" using L w3(2) by simp
  obtain l4 w4 where w4: "core_list_mergesort p (cmp_idx True) w3 = Some (Inr (l4, w4))" "info w4 = info w3"
    "is_list (nxt w4) l4 (p # sort_key ?f ?Q)" "items_indexed (\<lambda>a. (idx (dat w3 a), upper w3 a)) (res w3) (bytes w3) w4"
    "\<forall>c \<in> set (p # ?Q). regenerated (info w3 c) w4"
    using idx_order.mergesort_sorts [OF ii L3 list.distinct(2) len, of True] Ql n(1) unfolding fst_conv sk by auto
  have keys: "(\<lambda>c. sint (idx (dat w4 (info w4 c)))) = ?f" using w4(2,4) by (simp add: items_indexed_def)
  have "core_list_init blksize p seed w = Some (Inr (p, w4))"
  proof -
    have "core_list_init blksize p seed w = core_list_mergesort p (cmp_idx True) w3"
      using p(2) w1(1) w2(1) w3(1) unfolding core_list_init_def Let_def
      by (simp add: un uc c0 w0_def Let_def)
    then show ?thesis using w4(1,3) by simp
  qed
  moreover have "is_list (nxt w4) p (p # sort_key ?f ?Q)" using w4(3) by auto
  moreover have "length (p # sort_key ?f ?Q) = unat blksize div 20 - 3"
    using Ql n(1) by (simp add: n_def)
  moreover have "sorted (map ?f (p # sort_key ?f ?Q))" unfolding sk [symmetric] by (rule sorted_sort_key)
  moreover have "unat p \<le> unat c \<and> unat c + 16 \<le> unat p + unat blksize" if c: "c \<in> set (p # sort_key ?f ?Q)" for c
  proof -
    have "c = cell p 0 \<or> c \<in> set ?Q" using c c0(1) by simp
    then show ?thesis using cells_in_block [OF b _, of "n - 2" c] n(1,2) by linarith
  qed
  moreover have "\<forall>c \<in> set (p # sort_key ?f ?Q). regenerated (info w4 c) w4" using w4(2,5) by simp
  ultimately show ?thesis using keys by metis
qed

text \<open>Core_list_init, given a block of 100 to 3000000 bytes that does not wrap around, builds a list of
  blksize / 20 - 3 cells, all inside the block, that starts at the block and is in the order of the indices, and the two bytes of
  the data of each item are equal.\<close>

theorem core_list_init_correct:
  assumes "100 \<le> unat blksize" and "unat blksize \<le> 3000000" and "unat p + unat blksize < 2 ^ 64" and "p \<noteq> 0"
  shows "\<exists>w' P. core_list_init blksize p seed w = Some (Inr (p, w')) \<and> is_list (nxt w') p P \<and>
    length P = unat blksize div 20 - 3 \<and> sorted (map (\<lambda>c. sint (idx (dat w' (info w' c)))) P) \<and>
    (\<forall>c \<in> set P. unat p \<le> unat c \<and> unat c + 16 \<le> unat p + unat blksize) \<and> (\<forall>c \<in> set P. regenerated (info w' c) w')"
  using assms by (rule core_list_init_run)

lemma core_list_init_correct_witness:
  "\<exists>w' P. core_list_init 666 0x1000 0 (sample_world ucast 48) = Some (Inr (0x1000, w')) \<and> is_list (nxt w') 0x1000 P \<and>
    length P = 30"
  using core_list_init_correct [of 666 "0x1000" 0 "sample_world ucast 48"] by auto

lemma small_block_full:
  fixes blksize :: u32 and p :: addr
  assumes "60 \<le> unat blksize" and "unat blksize < 100" and "unat p + 100 < 2 ^ 64"
  shows "p + 16 * ucast (blksize div 20 - 2) \<le> p + 16 + 16"
proof -
  let ?n = "unat blksize div 20 - 2"
  have "2 \<le> blksize div 20" using assms(1) by (simp add: word_le_nat_alt unat_div)
  then have "unat (blksize div 20 - 2) = ?n" by (simp add: unat_sub unat_div)
  then have e: "(ucast (blksize div 20 - 2) :: addr) = of_nat ?n" using ucast_u32_addr by metis
  have n: "?n \<le> 2" using assms(2) by linarith
  have "unat (p + of_nat (16 * ?n)) = unat p + 16 * ?n" by (rule unat_offset) (use assms(3) n in linarith)
  moreover have "unat (p + of_nat 32) = unat p + 32" by (rule unat_offset) (use assms(3) in linarith)
  ultimately have "p + of_nat (16 * ?n) \<le> p + of_nat 32" using n by (simp only: word_le_nat_alt)
  then show ?thesis unfolding e by (simp only: of_nat_mult of_nat_numeral add.assoc) simp
qed

text \<open>The errors of the list: sorting the empty list, which a comment says is allowed for, follows the null pointer
  tail; so does initialising the list in a block of 60 to 99 bytes, where even the tail item does not fit, on the
  null link of the head.\<close>

theorem list_errors:
  "core_list_mergesort 0 cmp w = Some (Inl Null_deref) \<and>
   (60 \<le> unat blksize \<and> unat blksize < 100 \<and> unat p + 100 < 2 ^ 64 \<and> p \<noteq> 0 \<longrightarrow>
    core_list_init blksize p seed w = Some (Inl Null_deref))"
proof (intro conjI impI)
  have "pass_loop cmp 1 0 0 0 0 w = Some (Inr (0, 0, 0, w))" by (subst pass_loop.simps) simp
  then show "core_list_mergesort 0 cmp w = Some (Inl Null_deref)"
    unfolding core_list_mergesort_def by (subst sort_loop.simps) simp
next
  assume a: "60 \<le> unat blksize \<and> unat blksize < 100 \<and> unat p + 100 < 2 ^ 64 \<and> p \<noteq> 0"
  let ?sz = "blksize div 20 - 2"
  have full: "core_list_insert_new l d (p + 16) db (p + 16 * ucast ?sz) dend w1 = Some (Inr (0, p + 16, db, w1))" for l d db dend w1
    by (rule insert_new_full) (use small_block_full a in blast)
  have fill: "xfold (fill_item ?sz seed p (p + 16 * ucast ?sz) dend) xs (p + 16, db, w1) = Some (Inr (p + 16, db, w1))" for dend xs db w1
    by (induction xs) (simp_all add: fill_item_def full)
  have "index_items ?sz seed 0 1 w1 = Some (Inl Null_deref)" for w1 by (subst index_items.simps) simp
  then show "core_list_init blksize p seed w = Some (Inl Null_deref)"
    using a by (simp add: core_list_init_def Let_def full fill set_next_def set_info_def set_data16_def set_idx_def)
qed

lemma list_errors_witness:
  "core_list_init 80 0x1000 0 (sample_world ucast 48) = Some (Inl Null_deref)"
  using list_errors [of undefined "sample_world ucast 48" 80 "0x1000" 0] by simp

end
