(* ===== verification/Core_Main.thy ===== *)
theory Core_Main
  imports Core_Bench
begin

text \<open>
  \<open>software-test/benchmarks/coremark/src/core_main.c\<close> with \<open>core_portme.c\<close>, in the configuration of this port: one
  context, a static block of \<open>TOTAL_DATA_SIZE\<close> bytes, no floating point, seeds from volatile variables. The readings of the clock
  and the seeds are parameters; the report is the list of formats that are printed with their arguments (without the
  line ends).
\<close>

section \<open>The port\<close>

record port =
  pw :: world
  reads :: nat             \<comment> \<open>how many times the clock has been read\<close>
  start_time_val :: u64
  stop_time_val :: u64
  portable_id :: u8

type_synonym clock = "nat \<Rightarrow> u64"
type_synonym report = "(string \<times> int list) list"

definition ITERATIONS :: u32 where "ITERATIONS = 1000"
definition TOTAL_DATA_SIZE :: u32 where "TOTAL_DATA_SIZE = 2 * 1000"

definition port_seeds :: "nat \<Rightarrow> u32" where
  \<comment> \<open>the initial values of \<open>seed1_volatile\<close> to \<open>seed5_volatile\<close>\<close>
  "port_seeds k =
     (let run = (if TOTAL_DATA_SIZE = 1200 then (8, 8, 8) else if TOTAL_DATA_SIZE = 2000 then (0, 0, 0x66) else (0x3415, 0x3415, 0x66))
      in if k = 1 then fst run else if k = 2 then fst (snd run) else if k = 3 then snd (snd run)
      else if k = 4 then ITERATIONS else 0)"

definition uptime_ms :: "clock \<Rightarrow> port \<Rightarrow> u32 \<times> port" where
  "uptime_ms ck s = (ucast (ck (reads s) div 1000), s\<lparr>reads := reads s + 1\<rparr>)"

definition start_time :: "clock \<Rightarrow> port \<Rightarrow> port" where
  "start_time ck s = (let (t, s) = uptime_ms ck s in s\<lparr>start_time_val := ucast t\<rparr>)"

definition stop_time :: "clock \<Rightarrow> port \<Rightarrow> port" where
  "stop_time ck s = (let (t, s) = uptime_ms ck s in s\<lparr>stop_time_val := ucast t\<rparr>)"

definition get_time :: "port \<Rightarrow> u32" where
  "get_time s = ucast (stop_time_val s - start_time_val s)"

definition time_in_secs :: "u32 \<Rightarrow> u32" where "time_in_secs ticks = ticks"

definition portable_init :: "type_sizes \<Rightarrow> port \<Rightarrow> port \<times> report" where
  "portable_init t s =
     (s\<lparr>portable_id := 1\<rparr>,
      (if sz_ptr_int t \<noteq> sz_int_ptr t then [(''ERROR! Please define ee_ptr_int to a type that holds a pointer!'', [])] else []) @
      (if sz_u32 t \<noteq> 4 then [(''ERROR! Please define ee_u32 to a 32b unsigned type!'', [])] else []))"

definition portable_fini :: "port \<Rightarrow> port" where
  "portable_fini s = s\<lparr>portable_id := 0\<rparr>"

section \<open>One run\<close>

definition list_known_crc :: "u16 list" where "list_known_crc = [0xd4b0, 0x3340, 0x6a79, 0xe714, 0xe3c1]"
definition matrix_known_crc :: "u16 list" where "matrix_known_crc = [0xbe52, 0x1199, 0x5608, 0x1fd7, 0x0747]"
definition state_known_crc :: "u16 list" where "state_known_crc = [0x5e47, 0x39bf, 0xe5a4, 0x8e3a, 0x8d84]"

definition bench_once :: "s16 \<Rightarrow> world \<Rightarrow> world outcome" where
  "bench_once finder w =
     xbind (core_bench_list finder w) (\<lambda>(c, _, w). Some (Inr (w\<lparr>res := (res w)\<lparr>crc := crcu16 c (crc (res w))\<rparr>\<rparr>)))"

definition iterate_round :: "nat \<Rightarrow> world \<Rightarrow> world outcome" where
  "iterate_round i w =
     xbind (bench_once 1 w) (\<lambda>w.
     xbind (bench_once (- 1) w) (\<lambda>w.
       Some (Inr (if i = 0 then w\<lparr>res := (res w)\<lparr>crclist := crc (res w)\<rparr>\<rparr> else w))))"

definition iterate :: "world \<Rightarrow> world outcome" where
  "iterate w =
     (let n = iterations (res w); w = w\<lparr>res := (res w)\<lparr>crc := 0, crclist := 0, crcmatrix := 0, crcstate := 0\<rparr>\<rparr>
      in xfold iterate_round [0..<unat n] w)"

section \<open>Set-up\<close>

definition init_seeds :: "(nat \<Rightarrow> u32) \<Rightarrow> core_results \<Rightarrow> core_results" where
  "init_seeds seeds r =
     (let get_seed = (\<lambda>x. ucast (get_seed_32 seeds x) :: s16);
          r = r\<lparr>seed1 := get_seed 1, seed2 := get_seed 2, seed3 := get_seed 3, iterations := get_seed_32 seeds 4, execs := get_seed_32 seeds 5\<rparr>;
          r = (if execs r = 0 then r\<lparr>execs := ALL_ALGORITHMS_MASK\<rparr> else r);
          r = (if seed1 r = 0 \<and> seed2 r = 0 \<and> seed3 r = 0 then r\<lparr>seed1 := 0, seed2 := 0, seed3 := 0x66\<rparr> else r)
      in if seed1 r = 1 \<and> seed2 r = 0 \<and> seed3 r = 0 then r\<lparr>seed1 := 0x3415, seed2 := 0x3415, seed3 := 0x66\<rparr> else r)"

definition chosen :: "core_results \<Rightarrow> nat \<Rightarrow> bool" where
  \<comment> \<open>\<open>(1 << i) & results[0].execs\<close>\<close>
  "chosen r i \<longleftrightarrow> push_bit i 1 AND execs r \<noteq> 0"

definition assign_blocks :: "addr \<Rightarrow> core_results \<Rightarrow> c_error + core_results" where
  \<comment> \<open>the blocks of the chosen algorithms in the static block\<close>
  "assign_blocks static_memblk r =
     (let r = r\<lparr>memblock := (memblock r)(0 := static_memblk), res_size := TOTAL_DATA_SIZE, err := 0\<rparr>;
          n = fold (\<lambda>i (n :: u16). if chosen r i then n + 1 else n) [0..<unat NUM_ALGORITHMS] 0
      in if n = 0 then Inl Div_by_zero
      else let r = r\<lparr>res_size := res_size r div ucast n\<rparr>
      in Inr (snd (fold (\<lambda>i (j :: u16, r). if chosen r i
            then (j + 1, r\<lparr>memblock := (memblock r)(i + 1 := memblock r 0 + ucast (res_size r * ucast j))\<rparr>) else (j, r))
          [0..<unat NUM_ALGORITHMS] (0, r))))"

definition call_inits :: "world \<Rightarrow> world outcome" where
  "call_inits w =
     xbind (if execs (res w) AND ID_LIST \<noteq> 0
       then xbind (core_list_init (res_size (res w)) (memblock (res w) 1) (seed1 (res w)) w)
              (\<lambda>(l, w). Some (Inr (w\<lparr>res := (res w)\<lparr>res_list := l\<rparr>\<rparr>)))
       else Some (Inr w)) (\<lambda>w.
     xbind (if execs (res w) AND ID_MATRIX \<noteq> 0
       then xbind (core_init_matrix (res_size (res w)) (memblock (res w) 2)
                (sint (scast (seed1 (res w)) OR push_bit 16 (scast (seed2 (res w))) :: 32 word)) (mat (res w)))
              (\<lambda>(_, p, _). Some (Inr (w\<lparr>res := (res w)\<lparr>mat := p\<rparr>\<rparr>)))
       else Some (Inr w)) (\<lambda>w.
     if execs (res w) AND ID_STATE \<noteq> 0
     then Option.bind (core_init_state (res_size (res w)) (seed1 (res w)) (memblock (res w) 3) (bytes w)) (\<lambda>m. Some (Inr (w\<lparr>bytes := m\<rparr>)))
     else Some (Inr w)))"

section \<open>Timed runs\<close>

definition timed_iterate :: "clock \<Rightarrow> port \<Rightarrow> port outcome" where
  "timed_iterate ck s =
     (let s = start_time ck s in
      xbind (iterate (pw s)) (\<lambda>w. Some (Inr (stop_time ck (s\<lparr>pw := w\<rparr>)))))"

definition set_iterations :: "u32 \<Rightarrow> port \<Rightarrow> port" where
  "set_iterations n s = s\<lparr>pw := (pw s)\<lparr>res := (res (pw s))\<lparr>iterations := n\<rparr>\<rparr>\<rparr>"

partial_function (option) calibrate :: "clock \<Rightarrow> u32 \<Rightarrow> port \<Rightarrow> (u32 \<times> port) outcome" where
  \<comment> \<open>\<open>while (secs_passed < 1)\<close>\<close>
  "calibrate ck secs_passed s =
     (if secs_passed < 1 then
        xbind (timed_iterate ck (set_iterations (iterations (res (pw s)) * 10) s))
          (\<lambda>s. calibrate ck (time_in_secs (get_time s)) s)
      else Some (Inr (secs_passed, s)))"

definition auto_iterations :: "clock \<Rightarrow> port \<Rightarrow> port outcome" where
  "auto_iterations ck s =
     (if iterations (res (pw s)) = 0 then
        xbind (calibrate ck 0 (set_iterations 1 s)) (\<lambda>(secs_passed, s).
          let divisor = (if secs_passed = 0 then 1 else secs_passed)
          in Some (Inr (set_iterations (iterations (res (pw s)) * (1 + 10 div divisor)) s)))
      else Some (Inr s))"

section \<open>The report\<close>

definition seed_crc :: "core_results \<Rightarrow> u16" where
  "seed_crc r = crc16 (ucast (res_size r)) (crc16 (seed3 r) (crc16 (seed2 r) (crc16 (seed1 r) 0)))"

definition known_run :: "u16 \<Rightarrow> (nat \<times> string) option" where
  \<comment> \<open>\<open>known_id\<close> and the message; no known run sets \<open>total_errors\<close> to -1\<close>
  "known_run seedcrc =
     (if seedcrc = 0x8a02 then Some (0, ''6k performance run parameters for coremark.'')
      else if seedcrc = 0x7b05 then Some (1, ''6k validation run parameters for coremark.'')
      else if seedcrc = 0x4eaf then Some (2, ''Profile generation run parameters for coremark.'')
      else if seedcrc = 0xe9f5 then Some (3, ''2K performance run parameters for coremark.'')
      else if seedcrc = 0x18f2 then Some (4, ''2K validation run parameters for coremark.'')
      else None)"

definition check_crc :: "string \<Rightarrow> u32 \<Rightarrow> u16 \<Rightarrow> u16 \<Rightarrow> core_results \<times> report \<Rightarrow> core_results \<times> report" where
  "check_crc msg ident got known rr =
     (let (r, rep) = rr in
      if execs r AND ident \<noteq> 0 \<and> got \<noteq> known then (r\<lparr>err := err r + 1\<rparr>, rep @ [(msg, [0, uint got, uint known])]) else (r, rep))"

definition count_errors :: "nat \<Rightarrow> core_results \<Rightarrow> core_results \<times> report" where
  "count_errors known_id r =
     check_crc ''[%u]ERROR! state crc 0x%04x - should be 0x%04x'' ID_STATE (crcstate r) (state_known_crc ! known_id)
     (check_crc ''[%u]ERROR! matrix crc 0x%04x - should be 0x%04x'' ID_MATRIX (crcmatrix r) (matrix_known_crc ! known_id)
     (check_crc ''[%u]ERROR! list crc 0x%04x - should be 0x%04x'' ID_LIST (crclist r) (list_known_crc ! known_id)
        (r\<lparr>err := 0\<rparr>, [])))"

definition validate :: "type_sizes \<Rightarrow> core_results \<Rightarrow> s16 \<times> core_results \<times> report" where
  \<comment> \<open>\<open>total_errors\<close>\<close>
  "validate t r =
     (let (errors, r, rep) = (case known_run (seed_crc r) of
            None \<Rightarrow> (- 1, r, [])
          | Some (known_id, msg) \<Rightarrow> let (r, rep) = count_errors known_id r in (err r, r, (msg, []) # rep))
      in (errors + ucast (check_data_types t), r, rep))"

definition print_report :: "u32 \<Rightarrow> core_results \<Rightarrow> s16 \<Rightarrow> c_error + report" where
  "print_report total_time r total_errors =
     rbind (if total_errors = 0 then
         if time_in_secs total_time = 0 then Inl Div_by_zero
         else Inr [(''=================================================='', []),
           (''CoreMark PASS       %d Marks'', [sint (2921400 div time_in_secs total_time * ITERATIONS div 1000 :: 32 word)]),
           (''                vs. 100000 Marks (i7-7700K @ 4.20GHz)'', [])]
       else Inr []) (\<lambda>pass.
     Inr ([(''CoreMark Size    : %d'', [sint (res_size r)]),
           (''Total time (ms)  : %d'', [sint (time_in_secs total_time)]),
           (''Iterations       : %d'', [sint (iterations r)]),
           (''Compiler version : %s'', []),
           (''seedcrc          : 0x%04x'', [uint (seed_crc r)])] @
       (if execs r AND ID_LIST \<noteq> 0 then [(''[%d]crclist       : 0x%04x'', [0, uint (crclist r)])] else []) @
       (if execs r AND ID_MATRIX \<noteq> 0 then [(''[%d]crcmatrix     : 0x%04x'', [0, uint (crcmatrix r)])] else []) @
       (if execs r AND ID_STATE \<noteq> 0 then [(''[%d]crcstate      : 0x%04x'', [0, uint (crcstate r)])] else []) @
       [(''[%d]crcfinal      : 0x%04x'', [0, uint (crc r)]), (''Finised in %d ms.'', [sint total_time])] @ pass @
       (if 0 < sint total_errors then [(''Errors detected'', [])] else []) @
       (if sint total_errors < 0 then [(''Cannot validate operation for these seed values, please compare with results on a known platform.'', [])] else [])))"

section \<open>The program\<close>

definition main :: "clock \<Rightarrow> type_sizes \<Rightarrow> (nat \<Rightarrow> u32) \<Rightarrow> addr \<Rightarrow> port \<Rightarrow> (s16 \<times> report \<times> port) outcome" where
  \<comment> \<open>the clock, the sizes of the types, the seeds and the address of \<open>static_memblk\<close>\<close>
  "main ck t seeds static_memblk s =
     (let (s, rep1) = portable_init t s in
      case assign_blocks static_memblk (init_seeds seeds (res (pw s))) of
        Inl e \<Rightarrow> Some (Inl e)
      | Inr r \<Rightarrow>
        xbind (call_inits ((pw s)\<lparr>res := r\<rparr>)) (\<lambda>w.
        xbind (auto_iterations ck (s\<lparr>pw := w\<rparr>)) (\<lambda>s.
        xbind (timed_iterate ck s) (\<lambda>s.
          let total_time = get_time s; (total_errors, r, rep2) = validate t (res (pw s)) in
          case print_report total_time r total_errors of
            Inl e \<Rightarrow> Some (Inl e)
          | Inr rep3 \<Rightarrow> Some (Inr (total_errors,
              (''Running CoreMark for %d iterations'', [sint ITERATIONS]) # rep1 @ rep2 @ rep3,
              portable_fini (s\<lparr>pw := (pw s)\<lparr>res := r\<rparr>\<rparr>)))))))"


section \<open>Iterating\<close>

definition iterable :: "addr list \<Rightarrow> world \<Rightarrow> bool" where
  \<comment> \<open>what an iteration needs of the list and of the blocks, and keeps\<close>
  "iterable P w \<longleftrightarrow> bench_ready w \<and> is_list (nxt w) (res_list (res w)) P \<and> 3 \<le> length P \<and> length P < 2147483648 \<and>
     sorted (map (\<lambda>c. sint (idx (dat w (info w c)))) P) \<and> inj_on (\<lambda>c. idx (dat w (info w c))) (set P) \<and>
     (\<forall>c \<in> set P. regenerated (info w c) w)"

lemma iterable_outputs [simp]:
  "iterable P (w\<lparr>res := (res w)\<lparr>crc := c\<rparr>\<rparr>) = iterable P w"
  "iterable P (w\<lparr>res := (res w)\<lparr>crclist := c\<rparr>\<rparr>) = iterable P w"
  "iterable P (w\<lparr>res := (res w)\<lparr>crc := c, crclist := c1, crcmatrix := c2, crcstate := c3\<rparr>\<rparr>) = iterable P w"
  by (simp_all add: iterable_def bench_ready_def state_ready_def regenerated_def)

lemma inputs_outputs [simp]:
  "inputs (r\<lparr>crc := c\<rparr>) = inputs r"
  "inputs (r\<lparr>crclist := c\<rparr>) = inputs r"
  "inputs (r\<lparr>crc := c, crclist := c1, crcmatrix := c2, crcstate := c3\<rparr>) = inputs r"
  by (simp_all add: inputs_def)

definition like :: "world \<Rightarrow> world \<Rightarrow> bool" where
  \<comment> \<open>the same links, items, indices and inputs\<close>
  "like w0 w \<longleftrightarrow> nxt w = nxt w0 \<and> info w = info w0 \<and> (\<forall>a. idx (dat w a) = idx (dat w0 a)) \<and> inputs (res w) = inputs (res w0)"

lemma bench_once_run:
  assumes "iterable P w" and "like w0 w"
  shows "\<exists>w'. bench_once fi w = Some (Inr w') \<and> iterable P w' \<and> like w0 w'"
proof -
  note i = assms(1) [unfolded iterable_def]
  obtain r w' where r: "core_bench_list fi w = Some (Inr (r, res_list (res w), w'))" "nxt w' = nxt w" "info w' = info w"
    "\<forall>a. idx (dat w' a) = idx (dat w a)" "bench_ready w'" "inputs (res w') = inputs (res w)"
    "\<forall>c \<in> set P. dat w' (info w c) = dat w (info w c)"
    using core_bench_list_run [of w P fi] i by blast
  have "res_list (res w') = res_list (res w)" using r(6) by (simp add: inputs_def)
  then have "iterable P w'" using i r(2-5,7) by (simp add: iterable_def regenerated_def)
  moreover have "like w0 w'" using assms(2) r(2-4,6) by (simp add: like_def)
  ultimately show ?thesis using r(1) by (simp add: bench_once_def like_def)
qed

lemma iterate_run:
  assumes "iterable P w"
  shows "\<exists>w'. iterate w = Some (Inr w') \<and> iterable P w' \<and> like w w'"
proof -
  let ?w = "w\<lparr>res := (res w)\<lparr>crc := 0, crclist := 0, crcmatrix := 0, crcstate := 0\<rparr>\<rparr>"
  have round: "\<exists>w'. iterate_round i w1 = Some (Inr w') \<and> iterable P w' \<and> like w w'" if w1: "iterable P w1" "like w w1" for i w1
  proof -
    obtain w2 where 2: "bench_once 1 w1 = Some (Inr w2)" "iterable P w2" "like w w2" using bench_once_run [OF w1] by blast
    obtain w3 where 3: "bench_once (- 1) w2 = Some (Inr w3)" "iterable P w3" "like w w3" using bench_once_run [OF 2(2,3)] by blast
    show ?thesis using 2(1) 3 by (simp add: iterate_round_def like_def)
  qed
  have "\<exists>w'. xfold iterate_round [0..<n] ?w = Some (Inr w') \<and> (iterable P w' \<and> like w w')" for n
    by (rule xfold_inv [where P = "\<lambda>_ w'. iterable P w' \<and> like w w'"]) (use round assms in \<open>auto simp: like_def\<close>)
  then show ?thesis by (simp add: iterate_def)
qed

text \<open>Iterate ends for every number of iterations when the list and the blocks are as a benchmark
  needs them, and leaves them so: the links, the info pointers, the indices and the inputs are those of the start.\<close>

theorem iterate_ends:
  assumes "iterable P w"
  shows "\<exists>w'. iterate w = Some (Inr w') \<and> iterable P w' \<and> nxt w' = nxt w \<and> info w' = info w \<and>
    (\<forall>a. idx (dat w' a) = idx (dat w a)) \<and> inputs (res w') = inputs (res w)"
  using iterate_run [OF assms] by (auto simp: like_def)

lemma iterate_ends_witness:
  "\<exists>w'. iterate (sample_world (\<lambda>a. - ucast a) 48) = Some (Inr w') \<and> nxt w' = nxt (sample_world (\<lambda>a. - ucast a) 48)"
proof -
  let ?w = "sample_world (\<lambda>a. - ucast a) 48"
  have "iterable [48, 32, 16] ?w"
    unfolding iterable_def by (simp add: sample_world_ready sample_world_regenerated) (simp add: sample_world_def inj_on_def)
  from iterate_ends [OF this] show ?thesis by blast
qed

section \<open>The blocks\<close>

lemma seed_crc_default: "crc16 666 (crc16 0x66 (crc16 0 (crc16 0 0))) = 0xe9f5"
  by code_simp


definition block_count :: "core_results \<Rightarrow> nat" where
  "block_count r = length (filter (chosen r) [0..<3])"

definition block_offset :: "core_results \<Rightarrow> nat \<Rightarrow> nat" where
  \<comment> \<open>the place of algorithm \<open>i\<close> in the static block\<close>
  "block_offset r i = 2000 div block_count r * length (filter (chosen r) [0..<i])"

lemma upt_3: "[0..<3] = [0, 1, 2 :: nat]" "[0..<2] = [0, 1 :: nat]" "[0..<1] = [0 :: nat]" "[0..<0] = ([] :: nat list)"
  by (simp_all add: upt_rec)

lemma assign_blocks_run:
  "(block_count r = 0 \<longrightarrow> assign_blocks b r = Inl Div_by_zero) \<and>
   (block_count r \<noteq> 0 \<longrightarrow> (\<exists>r'. assign_blocks b r = Inr r' \<and> unat (res_size r') = 2000 div block_count r \<and>
      execs r' = execs r \<and> seed1 r' = seed1 r \<and> seed2 r' = seed2 r \<and> seed3 r' = seed3 r \<and> iterations r' = iterations r \<and>
      (\<forall>i < 3. chosen r i \<longrightarrow> memblock r' (i + 1) = b + of_nat (block_offset r i))))"
proof -
  have i3: "(\<forall>i < 3. Q i) \<longleftrightarrow> Q 0 \<and> Q 1 \<and> Q (2 :: nat)" for Q
    by (auto simp: numeral_3_eq_3 numeral_2_eq_2 less_Suc_eq)
  have ch: "chosen (r\<lparr>memblock := x, res_size := y, err := z\<rparr>) = chosen r" "chosen (r\<lparr>memblock := x, res_size := y, err := z, res_size := u\<rparr>) = chosen r"
    "chosen (r\<lparr>memblock := x\<rparr>) = chosen r" "chosen (r\<lparr>res_size := y\<rparr>) = chosen r" "chosen (r\<lparr>err := z\<rparr>) = chosen r" for r x y z u
    by (simp_all add: fun_eq_iff chosen_def)
  have half: "2000 div Suc (Suc 0) = (1000 :: nat)" by (simp flip: numeral_2_eq_2)
  have num: "unat NUM_ALGORITHMS = 3" by (simp add: NUM_ALGORITHMS_def)
  show ?thesis
    unfolding assign_blocks_def block_count_def block_offset_def num upt_3 TOTAL_DATA_SIZE_def
    by (cases "chosen r 0"; cases "chosen r 1"; cases "chosen r 2") (simp_all add: i3 upt_3 ch half Let_def)
qed

lemma block_offset_room:
  assumes "i < 3" and "chosen r i"
  shows "block_offset r i + 2000 div block_count r \<le> 2000" and "j < i \<Longrightarrow> chosen r j \<Longrightarrow> block_offset r j + 2000 div block_count r \<le> block_offset r i"
proof -
  have step: "length (filter (chosen r) [0..<Suc k]) = Suc (length (filter (chosen r) [0..<k]))" if "chosen r k" for k using that by simp
  have mono: "length (filter (chosen r) [0..<k]) \<le> length (filter (chosen r) [0..<l])" if "k \<le> l" for k l
    using that by (induction l) (auto simp: le_Suc_eq)
  have off: "block_offset r k + 2000 div block_count r \<le> 2000 div block_count r * length (filter (chosen r) [0..<l])"
    if "chosen r k" "k < l" for k l
  proof -
    have "Suc (length (filter (chosen r) [0..<k])) \<le> length (filter (chosen r) [0..<l])"
      using step [OF that(1)] mono [of "Suc k" l] that(2) by simp
    from mult_le_mono2 [OF this, of "2000 div block_count r"] show ?thesis by (simp add: block_offset_def)
  qed
  have "2000 div block_count r * block_count r \<le> 2000" by (rule div_times_less_eq_dividend)
  then show "block_offset r i + 2000 div block_count r \<le> 2000" using off [OF assms(2,1)] unfolding block_count_def by linarith
  show "block_offset r j + 2000 div block_count r \<le> block_offset r i" if "j < i" "chosen r j"
    using off [OF that(2,1)] by (simp add: block_offset_def)
qed

text \<open>The static block is divided among the algorithms that execs chooses: each gets an equal share, the blocks lie inside the
  2000 bytes and do not overlap; if execs chooses none of them the size is divided by zero.\<close>

theorem assign_blocks_disjoint:
  "(block_count r = 0 \<longrightarrow> assign_blocks b r = Inl Div_by_zero) \<and>
   (block_count r \<noteq> 0 \<longrightarrow> (\<exists>r'. assign_blocks b r = Inr r' \<and>
      (\<forall>i < 3. chosen r i \<longrightarrow> memblock r' (i + 1) = b + of_nat (block_offset r i) \<and> block_offset r i + unat (res_size r') \<le> 2000 \<and>
        (\<forall>j < i. chosen r j \<longrightarrow> block_offset r j + unat (res_size r') \<le> block_offset r i))))"
  using assign_blocks_run [of r b] block_offset_room [of _ r] by auto

lemma assign_blocks_disjoint_witness:
  "assign_blocks b (init_seeds (\<lambda>_. 8) (res (sample_world ucast 48))) = Inl Div_by_zero"
proof -
  have "execs (init_seeds (\<lambda>_. 8) (res (sample_world ucast 48))) = 8"
    by (simp add: init_seeds_def get_seed_32_def Let_def)
  then have "\<not> chosen (init_seeds (\<lambda>_. 8) (res (sample_world ucast 48))) i" if "i \<in> {0, 1, 2}" for i
    using that by (auto simp: chosen_def)
  then have "block_count (init_seeds (\<lambda>_. 8) (res (sample_world ucast 48))) = 0"
    by (simp add: block_count_def upt_3)
  then show ?thesis using assign_blocks_disjoint [of "init_seeds (\<lambda>_. 8) (res (sample_world ucast 48))" b] by blast
qed

section \<open>The verdict\<close>

lemma check_data_types_ok:
  "check_data_types \<lparr>sz_u8 = 1, sz_u16 = 2, sz_s16 = 2, sz_s32 = 4, sz_u32 = 4, sz_ptr_int = 8, sz_int_ptr = 8\<rparr> = 0"
  by (simp add: check_data_types_def)

text \<open>In the configuration of this port the seeds choose the 2K performance run: three blocks of 666 bytes, the known
  run 3; and then the verdict is no error exactly if all three checksums are the recorded ones.\<close>

theorem default_run_verdict:
  assumes "check_data_types t = 0"
  shows "\<exists>r. assign_blocks b (init_seeds port_seeds r0) = Inr r \<and> res_size r = 666 \<and> memblock r 1 = b \<and>
    memblock r 2 = b + 666 \<and> memblock r 3 = b + 1332 \<and> iterations r = 1000 \<and>
    (\<forall>l m s c. fst (validate t (r\<lparr>crclist := l, crcmatrix := m, crcstate := s, crc := c\<rparr>)) = 0 \<longleftrightarrow>
       l = 0xe714 \<and> m = 0x1fd7 \<and> s = 0x8e3a)"
proof -
  let ?r = "init_seeds port_seeds r0"
  have r: "seed1 ?r = 0" "seed2 ?r = 0" "seed3 ?r = 0x66" "iterations ?r = 1000" "execs ?r = 7"
    by (simp_all add: init_seeds_def get_seed_32_def port_seeds_def TOTAL_DATA_SIZE_def ITERATIONS_def
        ALL_ALGORITHMS_MASK_def ID_LIST_def ID_MATRIX_def ID_STATE_def Let_def)
  have ch: "chosen ?r 0" "chosen ?r 1" "chosen ?r 2" by (simp_all add: chosen_def r)
  have n: "block_count ?r = 3" "block_offset ?r 0 = 0" "block_offset ?r 1 = 666" "block_offset ?r 2 = 1332"
    using ch by (simp_all add: block_count_def block_offset_def upt_3)
  obtain r' where r': "assign_blocks b ?r = Inr r'" "unat (res_size r') = 666" "execs r' = 7" "seed1 r' = 0" "seed2 r' = 0"
    "seed3 r' = 0x66" "iterations r' = 1000" "\<forall>i < 3. chosen ?r i \<longrightarrow> memblock r' (i + 1) = b + of_nat (block_offset ?r i)"
    using assign_blocks_run [of ?r b] r n(1) by auto
  have m: "memblock r' 1 = b" "memblock r' 2 = b + 666" "memblock r' 3 = b + 1332"
    using spec [OF r'(8), of 0] spec [OF r'(8), of 1] spec [OF r'(8), of 2] ch n by (simp_all add: numeral_2_eq_2 numeral_3_eq_3)
  have sz: "res_size r' = 666" using r'(2) by (simp add: word_unat_eq_iff)
  have known: "known_run (seed_crc (r'\<lparr>crclist := l, crcmatrix := x, crcstate := s, crc := c\<rparr>)) =
      Some (3, ''2K performance run parameters for coremark.'')" for l x s c
    using seed_crc_default by (simp add: seed_crc_def r' sz known_run_def)
  have "fst (validate t (r'\<lparr>crclist := l, crcmatrix := x, crcstate := s, crc := c\<rparr>)) = 0 \<longleftrightarrow>
      l = 0xe714 \<and> x = 0x1fd7 \<and> s = 0x8e3a" for l x s c
    unfolding validate_def known
    by (cases "l = 0xe714"; cases "x = 0x1fd7"; cases "s = 0x8e3a")
      (simp_all add: count_errors_def check_crc_def assms r' ID_LIST_def ID_MATRIX_def ID_STATE_def
        list_known_crc_def matrix_known_crc_def state_known_crc_def)
  then show ?thesis using r'(1,7) sz m by blast
qed

lemma default_run_verdict_witness:
  "\<exists>r. assign_blocks 0x1000 (init_seeds port_seeds (res (sample_world ucast 48))) = Inr r \<and> memblock r 3 = 0x1000 + 1332"
  using default_run_verdict [OF check_data_types_ok, of "0x1000" "res (sample_world ucast 48)"] by blast

end
