(* ===== verification/Native_VME.thy ===== *)
theory Native_VME
  imports AM_Base Linked
begin

text \<open>
  The native platform's virtual memory, \<open>abstract-machine/am/src/native/vme.c\<close> and the page mapping of \<open>platform.c\<close>. The pages of
  an address space are a linked list of \<open>PageMap\<close> cells with a hash table from page addresses to cells; switching to it
  asks the operating system to map them. The allocator, the hash table's and the system's verdicts (they may fail) and the signal
  context of the C library are parameters; the mappings the system holds are part of the state.
\<close>

section \<open>State\<close>

datatype signal = SIGUSR1 | SIGUSR2 | SIGVTALRM | SIGSEGV | Other_signal nat
datatype greg = REG_RIP | REG_RSP | REG_RDI | REG_RSI | Other_greg nat

record ucontext_t =
  gregs :: "greg \<Rightarrow> u64"
  uc_sigmask :: "signal set"

record Context =
  ksp :: u64
  vm_head :: addr
  uc :: ucontext_t

record PageMap =
  pm_va :: addr
  pm_pa :: addr
  pm_prot :: u64
  pm_mapped :: bool

record VMHead =
  vh_head :: addr
  vh_hash :: "u32 \<Rightarrow> addr option"   \<comment> \<open>keyed by the text \<open>%x\<close> prints of the page address: its low 32 bits\<close>
  vh_nr_page :: nat

record AddrSpace =
  as_pgsize :: u64
  as_area :: Area
  as_ptr :: addr

record 'a nvm =
  vme_enable :: bool
  pages :: 'a                          \<comment> \<open>the state of the page allocator\<close>
  pmap :: "addr \<Rightarrow> PageMap"
  pm_next :: "addr \<Rightarrow> addr"
  vheads :: "addr \<Rightarrow> VMHead"
  cpu_head :: addr                     \<comment> \<open>\<open>thiscpu->vm_head\<close>\<close>
  host :: "addr \<Rightarrow> (u64 \<times> u64) option"   \<comment> \<open>the system's user pages: offset in the memory object and protection\<close>

record 'a os =
  pgalloc :: "'a \<Rightarrow> addr \<times> 'a"
  pgsize :: u64
  pmem :: addr
  mmap_ok :: "addr \<Rightarrow> bool"
  munmap_ok :: "addr \<Rightarrow> bool"
  hcreate_ok :: bool
  enter_ok :: "VMHead \<Rightarrow> bool"          \<comment> \<open>whether \<open>hsearch_r\<close> can enter one more key\<close>
  uc_example :: ucontext_t
  sizeof_Context :: u64

definition USER_SPACE :: Area where "USER_SPACE = RANGE 0x40000000 0xc0000000"

definition PROT_READ :: u64 where "PROT_READ = 1"
definition PROT_WRITE :: u64 where "PROT_WRITE = 2"
definition PROT_EXEC :: u64 where "PROT_EXEC = 4"

definition check :: "bool \<Rightarrow> 'a outcome \<Rightarrow> 'a outcome" where
  \<comment> \<open>\<open>assert\<close>\<close>
  "check b r = (if b then r else Some (Inl Assert_fail))"

lemma check_mono [partial_function_mono]: "mono_option B \<Longrightarrow> mono_option (\<lambda>f. check b (B f))"
  by (cases b) (simp_all add: check_def option.const_mono)

lemma check_simps [simp]: "check True r = r" "check False r = Some (Inl Assert_fail)"
  by (simp_all add: check_def)

section \<open>The pages of the system\<close>

definition mmap_prot :: "u64 \<Rightarrow> u64" where
  "mmap_prot prot =
     (if prot AND MMAP_READ \<noteq> 0 then PROT_READ OR PROT_EXEC else 0) OR (if prot AND MMAP_WRITE \<noteq> 0 then PROT_WRITE else 0)"

definition pmem_map :: "'a os \<Rightarrow> addr \<Rightarrow> addr \<Rightarrow> u64 \<Rightarrow> 'a nvm \<Rightarrow> 'a nvm outcome" where
  "pmem_map E va pa prot s =
     check (mmap_ok E va) (Some (Inr (s\<lparr>host := (host s)(va \<mapsto> (pa - pmem E, mmap_prot prot))\<rparr>)))"

definition pmem_unmap :: "'a os \<Rightarrow> addr \<Rightarrow> 'a nvm \<Rightarrow> 'a nvm outcome" where
  "pmem_unmap E va s = check (munmap_ok E va) (Some (Inr (s\<lparr>host := (host s)(va := None)\<rparr>)))"

section \<open>Address spaces\<close>

definition vme_init :: "'a nvm \<Rightarrow> 'a nvm" where
  "vme_init s = s\<lparr>vme_enable := True\<rparr>"

definition protect :: "'a os \<Rightarrow> 'a nvm \<Rightarrow> (AddrSpace \<times> 'a nvm) outcome" where
  "protect E s =
     (let (h, a) = pgalloc E (pages s); s = s\<lparr>pages := a\<rparr> in
      check (h \<noteq> 0) (
      let s = s\<lparr>vheads := (vheads s)(h := \<lparr>vh_head = 0, vh_hash = (\<lambda>_. None), vh_nr_page = 0\<rparr>)\<rparr> in
      check (hcreate_ok E) (Some (Inr (\<lparr>as_pgsize = pgsize E, as_area = USER_SPACE, as_ptr = h\<rparr>, s)))))"

definition unprotect :: "AddrSpace \<Rightarrow> 'a nvm \<Rightarrow> 'a nvm" where "unprotect _ s = s"

definition set_mapped :: "addr \<Rightarrow> bool \<Rightarrow> 'a nvm \<Rightarrow> 'a nvm" where
  "set_mapped pp b s = s\<lparr>pmap := (pmap s)(pp := (pmap s pp)\<lparr>pm_mapped := b\<rparr>)\<rparr>"

partial_function (option) unmap_all :: "'a os \<Rightarrow> addr \<Rightarrow> 'a nvm \<Rightarrow> 'a nvm outcome" where
  \<comment> \<open>\<open>list_foreach(pp, now_head->head)\<close>\<close>
  "unmap_all E pp s =
     (if pp \<noteq> 0 then
        xbind (if pm_mapped (pmap s pp)
               then xbind (pmem_unmap E (pm_va (pmap s pp)) s) (\<lambda>s. Some (Inr (set_mapped pp False s)))
               else Some (Inr s)) (\<lambda>s. unmap_all E (pm_next s pp) s)
      else Some (Inr s))"

partial_function (option) map_all :: "'a os \<Rightarrow> addr \<Rightarrow> 'a nvm \<Rightarrow> 'a nvm outcome" where
  \<comment> \<open>\<open>list_foreach(pp, head->head)\<close>\<close>
  "map_all E pp s =
     (if pp \<noteq> 0 then
        check (IN_RANGE (pm_va (pmap s pp)) USER_SPACE) (
        xbind (pmem_map E (pm_va (pmap s pp)) (pm_pa (pmap s pp)) (pm_prot (pmap s pp)) s) (\<lambda>s.
          let s = set_mapped pp True s in map_all E (pm_next s pp) s))
      else Some (Inr s))"

definition am_switch :: "'a os \<Rightarrow> Context \<Rightarrow> 'a nvm \<Rightarrow> 'a nvm outcome" where
  "am_switch E c s =
     (if \<not> vme_enable s then Some (Inr s)
      else let head = vm_head c; now_head = cpu_head s in
        if head = now_head then Some (Inr (s\<lparr>cpu_head := head\<rparr>))
        else
          xbind (if now_head \<noteq> 0 then unmap_all E (vh_head (vheads s now_head)) s else Some (Inr s)) (\<lambda>s.
          xbind (if head \<noteq> 0 then map_all E (vh_head (vheads s head)) s else Some (Inr s)) (\<lambda>s.
            Some (Inr (s\<lparr>cpu_head := head\<rparr>)))))"

definition find_page :: "'a os \<Rightarrow> addr \<Rightarrow> addr \<Rightarrow> 'a nvm \<Rightarrow> (addr \<times> 'a nvm) outcome" where
  \<comment> \<open>the cell of a page of the address space with this head, a new one if there is none\<close>
  "find_page E h va s =
     (let key = ucast va :: u32; vh = vheads s h in
      case vh_hash vh key of
        Some pp \<Rightarrow> Some (Inr (pp, s))
      | None \<Rightarrow>
          let (pp, a) = pgalloc E (pages s); s = s\<lparr>pages := a\<rparr> in
          nonnull pp (check (enter_ok E vh)
            (Some (Inr (pp, s\<lparr>vheads := (vheads s)(h := vh\<lparr>vh_hash := (vh_hash vh)(key \<mapsto> pp), vh_nr_page := vh_nr_page vh + 1\<rparr>)\<rparr>)))))"

definition map_page :: "'a os \<Rightarrow> AddrSpace \<Rightarrow> addr \<Rightarrow> addr \<Rightarrow> u64 \<Rightarrow> 'a nvm \<Rightarrow> 'a nvm outcome" where
  "map_page E aspace va pa prot s =
     check (IN_RANGE va USER_SPACE) (check (va mod pgsize E = 0) (check (pa mod pgsize E = 0) (
     let h = as_ptr aspace in check (h \<noteq> 0) (
     xbind (find_page E h va s) (\<lambda>(pp, s).
       let s = s\<lparr>pmap := (pmap s)(pp := \<lparr>pm_va = va, pm_pa = pa, pm_prot = prot, pm_mapped = False\<rparr>),
                 pm_next := (pm_next s)(pp := vh_head (vheads s h)),
                 vheads := (vheads s)(h := (vheads s h)\<lparr>vh_head := pp\<rparr>)\<rparr>
       in if h = cpu_head s
          then xbind (pmem_map E va pa prot s) (\<lambda>s. Some (Inr (set_mapped pp True s)))
          else Some (Inr s))))))"

definition ucontext :: "'a os \<Rightarrow> AddrSpace \<Rightarrow> Area \<Rightarrow> u64 \<Rightarrow> addr \<times> Context" where
  \<comment> \<open>the context and where it is stored\<close>
  "ucontext E aspace kstack entry =
     (a_end kstack - sizeof_Context E,
      \<lparr>ksp = a_end kstack, vm_head = as_ptr aspace,
       uc = (uc_example E)\<lparr>gregs := (gregs (uc_example E))(REG_RIP := entry, REG_RSP := a_end USER_SPACE), uc_sigmask := {}\<rparr>\<rparr>)"

definition in_userspace :: "addr \<Rightarrow> 'a nvm \<Rightarrow> bool" where
  "in_userspace a s \<longleftrightarrow> vme_enable s \<and> cpu_head s \<noteq> 0 \<and> IN_RANGE a USER_SPACE"


section \<open>What an address space maps\<close>

definition entry :: "'a os \<Rightarrow> 'a nvm \<Rightarrow> addr \<Rightarrow> addr \<times> u64 \<times> u64" where
  "entry E s pp = (pm_va (pmap s pp), pm_pa (pmap s pp) - pmem E, mmap_prot (pm_prot (pmap s pp)))"

definition space :: "'a os \<Rightarrow> 'a nvm \<Rightarrow> addr list \<Rightarrow> addr \<Rightarrow> (u64 \<times> u64) option" where
  \<comment> \<open>the pages that the cells describe\<close>
  "space E s P = map_of (map (entry E s) P)"

definition space_ok :: "'a nvm \<Rightarrow> addr \<Rightarrow> addr list \<Rightarrow> bool" where
  "space_ok s h P \<longleftrightarrow> is_list (pm_next s) (vh_head (vheads s h)) P \<and> distinct (map (\<lambda>pp. pm_va (pmap s pp)) P) \<and>
     (\<forall>pp \<in> set P. IN_RANGE (pm_va (pmap s pp)) USER_SPACE \<and> (pm_mapped (pmap s pp) \<longleftrightarrow> h = cpu_head s)) \<and>
     (\<forall>k pp. vh_hash (vheads s h) k = Some pp \<longleftrightarrow> pp \<in> set P \<and> k = ucast (pm_va (pmap s pp)))"

definition nvm_ok :: "'a os \<Rightarrow> addr set \<Rightarrow> (addr \<Rightarrow> addr list) \<Rightarrow> 'a nvm \<Rightarrow> bool" where
  \<comment> \<open>the address spaces with heads in \<open>H\<close> and cells \<open>L\<close>, the current one of which the system maps\<close>
  "nvm_ok E H L s \<longleftrightarrow> 0 \<notin> H \<and> (cpu_head s = 0 \<or> cpu_head s \<in> H) \<and> (\<forall>h \<in> H. space_ok s h (L h)) \<and>
     (\<forall>h \<in> H. \<forall>h' \<in> H. h \<noteq> h' \<longrightarrow> set (L h) \<inter> set (L h') = {}) \<and>
     host s = (if cpu_head s = 0 then Map.empty else space E s (L (cpu_head s)))"

lemma space_dom: "dom (space E s P) = (\<lambda>pp. pm_va (pmap s pp)) ` set P"
  by (simp add: space_def dom_map_of_conv_image_fst image_image entry_def)

lemma space_cong: "(\<And>pp. pp \<in> set P \<Longrightarrow> entry E s pp = entry E s' pp) \<Longrightarrow> space E s P = space E s' P"
  by (simp add: space_def cong: map_cong)

lemma user_space_key:
  assumes "IN_RANGE a USER_SPACE" and "IN_RANGE b USER_SPACE" and "(ucast a :: u32) = ucast b"
  shows "a = b"
proof -
  have "unat (ucast c :: u32) = unat c" if "IN_RANGE c USER_SPACE" for c :: addr
  proof -
    have "unat c < 0xc0000000" using that by (simp add: IN_RANGE_def USER_SPACE_def RANGE_def word_less_nat_alt)
    then have "take_bit 32 (unat c) = unat c" by (intro take_bit_nat_eq_self) simp
    then show ?thesis by (simp add: unsigned_ucast_eq)
  qed
  then show ?thesis using assms by (metis word_unat_eq_iff)
qed

section \<open>Switching\<close>

lemma unmap_all_run:
  assumes "is_list (pm_next s) p P" and "\<And>pp. pp \<in> set P \<Longrightarrow> pm_mapped (pmap s pp)" and "\<And>va. munmap_ok E va"
  shows "unmap_all E p s = Some (Inr (s\<lparr>host := (host s) |` (- (\<lambda>pp. pm_va (pmap s pp)) ` set P),
    pmap := (\<lambda>pp. if pp \<in> set P then (pmap s pp)\<lparr>pm_mapped := False\<rparr> else pmap s pp)\<rparr>))"
  using assms(1,2)
proof (induction P arbitrary: p s)
  case Nil
  then show ?case by (subst unmap_all.simps) (simp add: restrict_map_def)
next
  case (Cons a P)
  have a: "p = a" "a \<noteq> 0" "is_list (pm_next s) (pm_next s a) P" "a \<notin> set P"
    using Cons.prems(1) is_list_distinct [OF Cons.prems(1)] by auto
  let ?s = "set_mapped a False (s\<lparr>host := (host s)(pm_va (pmap s a) := None)\<rparr>)"
  have m: "pm_mapped (pmap ?s pp)" if "pp \<in> set P" for pp
    using that Cons.prems(2) a(4) by (auto simp: set_mapped_def)
  have "is_list (pm_next ?s) (pm_next s a) P" using a(3) by (simp add: set_mapped_def)
  note r = Cons.IH [OF this m]
  have im: "(\<lambda>pp. pm_va (pmap ?s pp)) ` set P = (\<lambda>pp. pm_va (pmap s pp)) ` set P"
    using a(4) by (intro image_cong) (auto simp: set_mapped_def)
  have "unmap_all E p s = unmap_all E (pm_next s a) ?s"
    using a Cons.prems(2) [of a] assms(3) by (subst unmap_all.simps) (simp add: pmem_unmap_def set_mapped_def)
  also note r
  also have "?s\<lparr>host := host ?s |` (- (\<lambda>pp. pm_va (pmap ?s pp)) ` set P),
      pmap := (\<lambda>pp. if pp \<in> set P then (pmap ?s pp)\<lparr>pm_mapped := False\<rparr> else pmap ?s pp)\<rparr> =
    s\<lparr>host := (host s) |` (- (\<lambda>pp. pm_va (pmap s pp)) ` set (a # P)),
      pmap := (\<lambda>pp. if pp \<in> set (a # P) then (pmap s pp)\<lparr>pm_mapped := False\<rparr> else pmap s pp)\<rparr>"
    unfolding im using a(4) by (auto simp: set_mapped_def fun_eq_iff restrict_map_def intro!: nvm.fold_congs)
  finally show ?case .
qed

lemma map_all_run:
  assumes "is_list (pm_next s) p P" and "\<And>pp. pp \<in> set P \<Longrightarrow> IN_RANGE (pm_va (pmap s pp)) USER_SPACE"
    and "distinct (map (\<lambda>pp. pm_va (pmap s pp)) P)" and "\<And>va. mmap_ok E va"
  shows "map_all E p s = Some (Inr (s\<lparr>host := host s ++ space E s P,
    pmap := (\<lambda>pp. if pp \<in> set P then (pmap s pp)\<lparr>pm_mapped := True\<rparr> else pmap s pp)\<rparr>))"
  using assms(1,2,3)
proof (induction P arbitrary: p s)
  case Nil
  then show ?case by (subst map_all.simps) (simp add: space_def)
next
  case (Cons a P)
  have a: "p = a" "a \<noteq> 0" "is_list (pm_next s) (pm_next s a) P" "a \<notin> set P"
    using Cons.prems(1) is_list_distinct [OF Cons.prems(1)] by auto
  let ?s = "set_mapped a True (s\<lparr>host := (host s)(pm_va (pmap s a) \<mapsto> snd (entry E s a))\<rparr>)"
  have sp: "space E ?s P = space E s P"
    by (rule space_cong) (simp add: entry_def set_mapped_def)
  have va: "pm_va (pmap ?s pp) = pm_va (pmap s pp)" for pp by (simp add: set_mapped_def)
  have 1: "is_list (pm_next ?s) (pm_next s a) P" using a(3) by (simp add: set_mapped_def)
  have 2: "\<And>pp. pp \<in> set P \<Longrightarrow> IN_RANGE (pm_va (pmap ?s pp)) USER_SPACE" "distinct (map (\<lambda>pp. pm_va (pmap ?s pp)) P)"
    using Cons.prems(2,3) va by simp_all
  note r = Cons.IH [OF 1 2]
  have nd: "pm_va (pmap s a) \<notin> dom (space E s P)" using Cons.prems(3) by (auto simp: space_dom)
  have hs: "host ?s ++ space E ?s P = host s ++ space E s (a # P)"
  proof -
    have "space E s (a # P) = (space E s P)(pm_va (pmap s a) \<mapsto> snd (entry E s a))"
      by (simp add: space_def entry_def)
    then show ?thesis using nd sp by (simp add: set_mapped_def map_add_upd_left)
  qed
  have "map_all E p s = map_all E (pm_next s a) ?s"
    using a(1,2) Cons.prems(2) [of a] assms(4) by (subst map_all.simps) (simp add: pmem_map_def set_mapped_def entry_def Let_def)
  also note r
  also have "?s\<lparr>host := host ?s ++ space E ?s P,
      pmap := (\<lambda>pp. if pp \<in> set P then (pmap ?s pp)\<lparr>pm_mapped := True\<rparr> else pmap ?s pp)\<rparr> =
    s\<lparr>host := host s ++ space E s (a # P),
      pmap := (\<lambda>pp. if pp \<in> set (a # P) then (pmap s pp)\<lparr>pm_mapped := True\<rparr> else pmap s pp)\<rparr>"
    unfolding hs using a(4) by (auto simp: set_mapped_def fun_eq_iff intro!: nvm.fold_congs)
  finally show ?case .
qed

definition alike :: "'a nvm \<Rightarrow> 'a nvm \<Rightarrow> bool" where
  \<comment> \<open>the same cells and links, up to which cells are marked as mapped\<close>
  "alike s s' \<longleftrightarrow> pm_next s' = pm_next s \<and> vheads s' = vheads s \<and> vme_enable s' = vme_enable s \<and>
     (\<forall>pp. pm_va (pmap s' pp) = pm_va (pmap s pp) \<and> pm_pa (pmap s' pp) = pm_pa (pmap s pp) \<and> pm_prot (pmap s' pp) = pm_prot (pmap s pp))"

lemma space_ok_alike:
  assumes "space_ok s h P" and "alike s s'" and "\<And>pp. pp \<in> set P \<Longrightarrow> pm_mapped (pmap s' pp) \<longleftrightarrow> h = cpu_head s'"
  shows "space_ok s' h P"
  using assms by (simp add: space_ok_def alike_def)

lemma space_alike: "alike s s' \<Longrightarrow> space E s' P = space E s P"
  by (rule space_cong) (simp add: alike_def entry_def)

lemma unmap_now_run:
  assumes ok: "nvm_ok E H L s" and sys: "\<And>va. munmap_ok E va"
  shows "\<exists>s1. (if cpu_head s \<noteq> 0 then unmap_all E (vh_head (vheads s (cpu_head s))) s else Some (Inr s)) = Some (Inr s1) \<and>
    alike s s1 \<and> host s1 = Map.empty \<and> (\<forall>g \<in> H. \<forall>pp \<in> set (L g). \<not> pm_mapped (pmap s1 pp))"
proof (cases "cpu_head s = 0")
  case True
  have sp: "space_ok s g (L g)" if "g \<in> H" for g using ok that by (simp add: nvm_ok_def)
  have "\<not> pm_mapped (pmap s pp)" if "g \<in> H" "pp \<in> set (L g)" for g pp
    using sp [OF that(1)] that True ok by (auto simp: space_ok_def nvm_ok_def)
  then show ?thesis using True ok by (auto simp: alike_def nvm_ok_def)
next
  case False
  let ?now = "cpu_head s"
  have sp: "space_ok s g (L g)" if "g \<in> H" for g using ok that by (simp add: nvm_ok_def)
  have now: "?now \<in> H" using ok False by (simp add: nvm_ok_def)
  let ?s1 = "s\<lparr>host := (host s) |` (- (\<lambda>pp. pm_va (pmap s pp)) ` set (L ?now)),
    pmap := (\<lambda>pp. if pp \<in> set (L ?now) then (pmap s pp)\<lparr>pm_mapped := False\<rparr> else pmap s pp)\<rparr>"
  have "unmap_all E (vh_head (vheads s ?now)) s = Some (Inr ?s1)"
    by (rule unmap_all_run) (use sp [OF now] sys in \<open>auto simp: space_ok_def\<close>)
  moreover have "host ?s1 = Map.empty"
    using ok False space_dom [of E s "L ?now"] by (auto simp: nvm_ok_def restrict_map_def fun_eq_iff dom_def)
  moreover have "\<not> pm_mapped (pmap ?s1 pp)" if "g \<in> H" "pp \<in> set (L g)" for g pp
    using sp [OF that(1)] that(2) by (cases "g = ?now") (simp_all add: space_ok_def)
  ultimately show ?thesis using False by (auto simp: alike_def)
qed

lemma map_head_run:
  assumes ok: "nvm_ok E H L s" and h: "h = 0 \<or> h \<in> H" and sys: "\<And>va. mmap_ok E va"
    and s1: "alike s s1" "host s1 = Map.empty" "\<forall>g \<in> H. \<forall>pp \<in> set (L g). \<not> pm_mapped (pmap s1 pp)"
  shows "\<exists>s2. (if h \<noteq> 0 then map_all E (vh_head (vheads s1 h)) s1 else Some (Inr s1)) = Some (Inr s2) \<and> alike s s2 \<and>
    host s2 = (if h = 0 then Map.empty else space E s (L h)) \<and>
    (\<forall>g \<in> H. \<forall>pp \<in> set (L g). pm_mapped (pmap s2 pp) \<longleftrightarrow> g = h)"
proof (cases "h = 0")
  case True
  then show ?thesis using s1 ok by (auto simp: nvm_ok_def)
next
  case False
  then have hd: "h \<in> H" using h by simp
  have disj: "set (L g) \<inter> set (L g') = {}" if "g \<in> H" "g' \<in> H" "g \<noteq> g'" for g g' using ok that by (simp add: nvm_ok_def)
  have sp: "space_ok s h (L h)" using ok hd by (simp add: nvm_ok_def)
  let ?s2 = "s1\<lparr>host := host s1 ++ space E s1 (L h),
    pmap := (\<lambda>pp. if pp \<in> set (L h) then (pmap s1 pp)\<lparr>pm_mapped := True\<rparr> else pmap s1 pp)\<rparr>"
  have "map_all E (vh_head (vheads s1 h)) s1 = Some (Inr ?s2)"
    by (rule map_all_run) (use sp s1(1) sys in \<open>auto simp: space_ok_def alike_def\<close>)
  moreover have "alike s ?s2" using s1(1) by (auto simp: alike_def)
  moreover have "host ?s2 = space E s (L h)" using s1(2) space_alike [OF s1(1)] by simp
  moreover have "pm_mapped (pmap ?s2 pp) \<longleftrightarrow> g = h" if "g \<in> H" "pp \<in> set (L g)" for g pp
    using disj [OF that(1) hd] that s1(3) by (cases "g = h") auto
  ultimately show ?thesis using False by auto
qed

lemma am_switch_run:
  assumes ok: "nvm_ok E H L s" and en: "vme_enable s" and h: "vm_head c = 0 \<or> vm_head c \<in> H"
    and sys: "\<And>va. munmap_ok E va" "\<And>va. mmap_ok E va"
  shows "\<exists>s'. am_switch E c s = Some (Inr s') \<and> nvm_ok E H L s' \<and> cpu_head s' = vm_head c \<and>
    (\<forall>g \<in> H. space E s' (L g) = space E s (L g))"
proof (cases "vm_head c = cpu_head s")
  case True
  have "s\<lparr>cpu_head := cpu_head s\<rparr> = s" by simp
  then show ?thesis using True ok en by (simp add: am_switch_def Let_def)
next
  case False
  let ?now = "cpu_head s" and ?head = "vm_head c"
  obtain s1 where s1: "(if ?now \<noteq> 0 then unmap_all E (vh_head (vheads s ?now)) s else Some (Inr s)) = Some (Inr s1)" "alike s s1"
    "host s1 = Map.empty" "\<forall>g \<in> H. \<forall>pp \<in> set (L g). \<not> pm_mapped (pmap s1 pp)"
    using unmap_now_run [OF ok sys(1)] by blast
  obtain s2 where s2: "(if ?head \<noteq> 0 then map_all E (vh_head (vheads s1 ?head)) s1 else Some (Inr s1)) = Some (Inr s2)" "alike s s2"
    "host s2 = (if ?head = 0 then Map.empty else space E s (L ?head))" "\<forall>g \<in> H. \<forall>pp \<in> set (L g). pm_mapped (pmap s2 pp) \<longleftrightarrow> g = ?head"
    using map_head_run [OF ok h sys(2) s1(2-4)] by blast
  let ?s' = "s2\<lparr>cpu_head := ?head\<rparr>"
  have al: "alike s ?s'" using s2(2) by (simp add: alike_def)
  have sp: "space_ok s g (L g)" if "g \<in> H" for g using ok that by (simp add: nvm_ok_def)
  have "am_switch E c s = Some (Inr ?s')"
    unfolding am_switch_def Let_def using en False s1(1) s2(1) by simp
  moreover have "space_ok ?s' g (L g)" if "g \<in> H" for g
    by (rule space_ok_alike [OF sp [OF that] al]) (use s2(4) that in simp)
  then have "nvm_ok E H L ?s'"
    using ok h s2(3) space_alike [OF al] by (auto simp: nvm_ok_def)
  ultimately show ?thesis using space_alike [OF al] by auto
qed

section \<open>Mapping a page\<close>

text \<open>The state after a new cell \<open>pp\<close> of the space of \<open>h\<close> describes the page at \<open>va\<close>.\<close>

definition linked :: "'a os \<Rightarrow> addr \<Rightarrow> addr \<Rightarrow> 'a \<Rightarrow> addr \<Rightarrow> u64 \<Rightarrow> u64 \<Rightarrow> 'a nvm \<Rightarrow> 'a nvm" where
  "linked E h pp a va pa prot s = s\<lparr>pages := a,
     pmap := (pmap s)(pp := \<lparr>pm_va = va, pm_pa = pa, pm_prot = prot, pm_mapped = (h = cpu_head s)\<rparr>),
     pm_next := (pm_next s)(pp := vh_head (vheads s h)),
     vheads := (vheads s)(h := (vheads s h)\<lparr>vh_hash := (vh_hash (vheads s h))(ucast va \<mapsto> pp),
       vh_nr_page := vh_nr_page (vheads s h) + 1, vh_head := pp\<rparr>),
     host := (if h = cpu_head s then (host s)(va \<mapsto> (pa - pmem E, mmap_prot prot)) else host s)\<rparr>"

lemma linked_cells:
  "q \<noteq> pp \<Longrightarrow> pmap (linked E h pp a va pa prot s) q = pmap s q"
  "pm_va (pmap (linked E h pp a va pa prot s) pp) = va"
  "pm_mapped (pmap (linked E h pp a va pa prot s) pp) \<longleftrightarrow> h = cpu_head s"
  "cpu_head (linked E h pp a va pa prot s) = cpu_head s"
  by (simp_all add: linked_def)

lemma linked_space:
  assumes "pp \<notin> set P"
  shows "space E (linked E h pp a va pa prot s) P = space E s P"
  by (rule space_cong) (use assms in \<open>auto simp: linked_def entry_def\<close>)

lemma linked_space_Cons:
  assumes "pp \<notin> set P"
  shows "space E (linked E h pp a va pa prot s) (pp # P) = (space E s P)(va \<mapsto> (pa - pmem E, mmap_prot prot))"
  using linked_space [OF assms, of E h a va pa prot s] by (simp add: space_def) (simp add: linked_def entry_def)

lemma linked_other_ok:
  assumes sp: "space_ok s g P" and n: "pp \<notin> set P" and g: "g \<noteq> h"
  shows "space_ok (linked E h pp a va pa prot s) g P"
proof -
  let ?s = "linked E h pp a va pa prot s"
  have eq: "pmap ?s q = pmap s q" if "q \<in> set P" for q using that n linked_cells(1) by metis
  have "map (\<lambda>q. pm_va (pmap ?s q)) P = map (\<lambda>q. pm_va (pmap s q)) P" using eq by simp
  then have d: "distinct (map (\<lambda>q. pm_va (pmap ?s q)) P)" using sp by (simp only: space_ok_def)
  have "vheads ?s g = vheads s g" "is_list (pm_next ?s) (vh_head (vheads s g)) P"
    using sp n g by (simp_all add: linked_def space_ok_def)
  then show ?thesis using sp d eq unfolding space_ok_def by (auto simp: linked_cells(4))
qed

lemma linked_hash:
  assumes sp: "space_ok s h P" and n: "pp \<notin> set P" and none: "vh_hash (vheads s h) (ucast va) = None"
  shows "vh_hash (vheads (linked E h pp a va pa prot s) h) k = Some q \<longleftrightarrow>
    q \<in> set (pp # P) \<and> k = ucast (pm_va (pmap (linked E h pp a va pa prot s) q))"
proof -
  have old: "vh_hash (vheads s h) k = Some q \<longleftrightarrow> q \<in> set P \<and> k = ucast (pm_va (pmap s q))" for q
    using sp by (simp add: space_ok_def)
  show ?thesis
  proof (cases "q = pp")
    case True
    have "vh_hash (vheads s h) k \<noteq> Some pp" using old [of pp] n by simp
    then show ?thesis using True by (simp add: linked_def)
  next
    case False
    then show ?thesis using old [of q] none by (cases "k = ucast va") (auto simp: linked_def)
  qed
qed

lemma linked_ok:
  assumes sp: "space_ok s h P" and n: "pp \<notin> set P" "pp \<noteq> 0" and none: "vh_hash (vheads s h) (ucast va) = None"
    and va: "IN_RANGE va USER_SPACE" "va \<notin> dom (space E s P)"
  shows "space_ok (linked E h pp a va pa prot s) h (pp # P)"
  unfolding space_ok_def
proof (intro conjI ballI allI)
  let ?s = "linked E h pp a va pa prot s"
  have eq: "pmap ?s q = pmap s q" if "q \<in> set P" for q using that n(1) linked_cells(1) by metis
  show "is_list (pm_next ?s) (vh_head (vheads ?s h)) (pp # P)"
    using sp n by (simp add: space_ok_def linked_def)
  have m: "map (\<lambda>q. pm_va (pmap ?s q)) (pp # P) = va # map (\<lambda>q. pm_va (pmap s q)) P"
    using eq by (simp add: linked_cells(2))
  show "distinct (map (\<lambda>q. pm_va (pmap ?s q)) (pp # P))"
    unfolding m using sp va(2) by (auto simp: space_ok_def space_dom)
  show "IN_RANGE (pm_va (pmap ?s q)) USER_SPACE" if "q \<in> set (pp # P)" for q
    using that sp va(1) eq by (auto simp: space_ok_def linked_cells)
  show "pm_mapped (pmap ?s q) \<longleftrightarrow> h = cpu_head ?s" if "q \<in> set (pp # P)" for q
    using that sp eq by (auto simp: space_ok_def linked_cells)
  show "vh_hash (vheads ?s h) k = Some q \<longleftrightarrow> q \<in> set (pp # P) \<and> k = ucast (pm_va (pmap ?s q))" for k q
    by (rule linked_hash [OF sp n(1) none])
qed

lemma unmapped_not_hashed:
  assumes sp: "space_ok s h P" and va: "IN_RANGE va USER_SPACE" "va \<notin> dom (space E s P)"
  shows "vh_hash (vheads s h) (ucast va) = None"
proof (rule ccontr)
  assume "vh_hash (vheads s h) (ucast va) \<noteq> None"
  then obtain q where "vh_hash (vheads s h) (ucast va) = Some q" by auto
  then have q: "q \<in> set P" "(ucast va :: u32) = ucast (pm_va (pmap s q))" using sp by (simp_all add: space_ok_def)
  then have "va = pm_va (pmap s q)"
    using user_space_key [OF va(1), of "pm_va (pmap s q)"] sp by (simp add: space_ok_def)
  then show False using va(2) q(1) by (auto simp: space_dom)
qed

lemma linked_nvm_ok:
  assumes ok: "nvm_ok E H L s" and h: "h \<in> H" and va: "IN_RANGE va USER_SPACE" "va \<notin> dom (space E s (L h))"
    and new: "pp \<noteq> 0" "\<And>g. g \<in> H \<Longrightarrow> pp \<notin> set (L g)"
  shows "nvm_ok E H (L(h := pp # L h)) (linked E h pp a va pa prot s)"
  unfolding nvm_ok_def
proof (intro conjI ballI impI)
  let ?s = "linked E h pp a va pa prot s"
  let ?L = "L(h := pp # L h)"
  have sp: "space_ok s g (L g)" if "g \<in> H" for g using ok that by (simp add: nvm_ok_def)
  have h0: "h \<noteq> 0" using h ok by (auto simp: nvm_ok_def)
  note none = unmapped_not_hashed [OF sp [OF h] va]
  show "0 \<notin> H" "cpu_head ?s = 0 \<or> cpu_head ?s \<in> H" using ok by (simp_all add: nvm_ok_def linked_cells(4))
  show "space_ok ?s g (?L g)" if "g \<in> H" for g
    using linked_ok [OF sp [OF h] new(2) [OF h] new(1) none va] linked_other_ok [OF sp [OF that] new(2) [OF that]]
    by (cases "g = h") simp_all
  show "set (?L g) \<inter> set (?L g') = {}" if "g \<in> H" "g' \<in> H" "g \<noteq> g'" for g g'
  proof -
    have "set (L g) \<inter> set (L g') = {}" using ok that by (simp add: nvm_ok_def)
    then show ?thesis using new(2) that by auto
  qed
  show "host ?s = (if cpu_head ?s = 0 then Map.empty else space E ?s (?L (cpu_head ?s)))"
  proof (cases "h = cpu_head s")
    case True
    have "host ?s = (host s)(va \<mapsto> (pa - pmem E, mmap_prot prot))" using True by (simp add: linked_def)
    then show ?thesis
      using ok h0 True [symmetric] linked_space_Cons [OF new(2) [OF h], of E h a va pa prot s] by (simp add: nvm_ok_def linked_cells(4))
  next
    case False
    have "host ?s = host s" using False by (simp add: linked_def)
    then show ?thesis using ok False linked_space [OF new(2), of "cpu_head s" E h a va pa prot s] by (auto simp: nvm_ok_def linked_cells(4))
  qed
qed

lemma map_page_new:
  assumes ok: "nvm_ok E H L s" and h: "as_ptr A \<in> H"
    and va: "IN_RANGE va USER_SPACE" "va mod pgsize E = 0" "pa mod pgsize E = 0" "va \<notin> dom (space E s (L (as_ptr A)))"
    and new: "pgalloc E (pages s) = (pp, a)" "pp \<noteq> 0" "\<And>g. g \<in> H \<Longrightarrow> pp \<notin> set (L g)"
    and sys: "\<And>v. enter_ok E v" "\<And>v. mmap_ok E v"
  shows "\<exists>s'. map_page E A va pa prot s = Some (Inr s') \<and> nvm_ok E H (L(as_ptr A := pp # L (as_ptr A))) s' \<and> cpu_head s' = cpu_head s \<and>
    space E s' (pp # L (as_ptr A)) = (space E s (L (as_ptr A)))(va \<mapsto> (pa - pmem E, mmap_prot prot)) \<and>
    (\<forall>g \<in> H - {as_ptr A}. space E s' (L g) = space E s (L g))"
proof -
  let ?h = "as_ptr A"
  let ?s = "linked E ?h pp a va pa prot s"
  have sp: "space_ok s ?h (L ?h)" and h0: "?h \<noteq> 0" using ok h by (auto simp: nvm_ok_def)
  note none = unmapped_not_hashed [OF sp va(1,4)]
  have "map_page E A va pa prot s = Some (Inr ?s)"
    using va(1-3) h0 none new(1,2) sys
    by (cases "?h = cpu_head s")
      (simp_all add: map_page_def find_page_def pmem_map_def set_mapped_def Let_def linked_def)
  then show ?thesis
    using linked_nvm_ok [OF ok h va(1,4) new(2,3), of a pa prot] linked_space_Cons [OF new(3) [OF h], of E ?h a va pa prot s]
      linked_space [OF new(3), where E = E and s = s]
    by (intro exI [of _ ?s]) (simp add: linked_cells(4))
qed

lemma protect_run:
  assumes "nvm_ok E H L s" and "pgalloc E (pages s) = (h, a)" and "h \<noteq> 0" and "h \<notin> H" and "hcreate_ok E"
  shows "\<exists>s'. protect E s = Some (Inr (\<lparr>as_pgsize = pgsize E, as_area = USER_SPACE, as_ptr = h\<rparr>, s')) \<and>
    nvm_ok E (insert h H) (L(h := [])) s'"
proof -
  let ?s' = "s\<lparr>pages := a, vheads := (vheads s)(h := \<lparr>vh_head = 0, vh_hash = (\<lambda>_. None), vh_nr_page = 0\<rparr>)\<rparr>"
  have "space E ?s' P = space E s P" for P by (rule space_cong) (simp add: entry_def)
  moreover have "space_ok ?s' g ((L(h := [])) g)" if "g \<in> insert h H" for g
    using assms(1,4) that by (cases "g = h") (auto simp: nvm_ok_def space_ok_def)
  moreover have "cpu_head s \<noteq> h" using assms(1,3,4) by (auto simp: nvm_ok_def)
  ultimately have "nvm_ok E (insert h H) (L(h := [])) ?s'"
    using assms(1,3) by (auto simp: nvm_ok_def)
  then show ?thesis using assms(2,3,5) by (simp add: protect_def Let_def)
qed

section \<open>Mapping a page again\<close>

lemma unmap_all_diverges:
  assumes run: "unmap_all E p s = Some r" and C: "0 \<notin> C"
  shows "\<not> (p \<in> C \<and> (\<forall>x \<in> C. pm_next s x \<in> C) \<and> (\<forall>va. munmap_ok E va))"
proof (rule unmap_all.raw_induct [where P = "\<lambda>E p s r. \<not> (p \<in> C \<and> (\<forall>x \<in> C. pm_next s x \<in> C) \<and> (\<forall>va. munmap_ok E va))", OF _ run],
    rule notI)
  fix f and E :: "'a os" and p and s :: "'a nvm" and r
  assume IH: "\<And>E p s r. f E p s = Some r \<Longrightarrow> \<not> (p \<in> C \<and> (\<forall>x \<in> C. pm_next s x \<in> C) \<and> (\<forall>va. munmap_ok E va))"
    and body: "(if p \<noteq> 0 then
        xbind (if pm_mapped (pmap s p)
               then xbind (pmem_unmap E (pm_va (pmap s p)) s) (\<lambda>s. Some (Inr (set_mapped p False s)))
               else Some (Inr s)) (\<lambda>s. f E (pm_next s p) s)
      else Some (Inr s)) = Some r"
    and p: "p \<in> C \<and> (\<forall>x \<in> C. pm_next s x \<in> C) \<and> (\<forall>va. munmap_ok E va)"
  have "p \<noteq> 0" using p C by auto
  moreover obtain s1 where s1: "(if pm_mapped (pmap s p) then xbind (pmem_unmap E (pm_va (pmap s p)) s) (\<lambda>s. Some (Inr (set_mapped p False s)))
      else Some (Inr s)) = Some (Inr s1)" "pm_next s1 = pm_next s"
    using p by (cases "pm_mapped (pmap s p)") (auto simp: pmem_unmap_def set_mapped_def)
  ultimately have "f E (pm_next s p) s1 = Some r" using body by simp
  from IH [OF this] show False using p s1(2) by simp
qed

lemma lseg_closed: "lseg f x us y \<Longrightarrow> a \<in> set us \<Longrightarrow> f a \<in> insert y (set us)"
proof (induction us arbitrary: x)
  case (Cons b us)
  show ?case
  proof (cases "a = b")
    case True
    have "lseg f (f b) us y" using Cons.prems(1) by simp
    then have "f b \<in> insert y (set us)" by (cases us) auto
    then show ?thesis using True by auto
  next
    case False
    then show ?thesis using Cons by auto
  qed
qed simp

lemma map_page_again:
  assumes ok: "nvm_ok E H L s" and h: "as_ptr A \<in> H" and cur: "cpu_head s = as_ptr A" and en: "vme_enable s"
    and va: "va mod pgsize E = 0" "pa mod pgsize E = 0" "va \<in> dom (space E s (L (as_ptr A)))"
    and sys: "\<And>v. mmap_ok E v" "\<And>v. munmap_ok E v"
  shows "\<exists>s'. map_page E A va pa prot s = Some (Inr s') \<and> (\<forall>c. vm_head c \<noteq> as_ptr A \<longrightarrow> am_switch E c s' = None)"
proof -
  let ?h = "as_ptr A"
  have sp: "space_ok s ?h (L ?h)" using ok h by (simp add: nvm_ok_def)
  have h0: "?h \<noteq> 0" using h ok by (auto simp: nvm_ok_def)
  obtain pp where pp: "pp \<in> set (L ?h)" "pm_va (pmap s pp) = va" using va(3) by (auto simp: space_dom)
  then have found: "vh_hash (vheads s ?h) (ucast va) = Some pp" and rg: "IN_RANGE va USER_SPACE"
    using sp by (auto simp: space_ok_def)
  obtain us vs where L: "L ?h = us @ pp # vs" using pp(1) by (meson split_list)
  have isl: "is_list (pm_next s) (vh_head (vheads s ?h)) (us @ pp # vs)" using sp L by (simp add: space_ok_def)
  then have us: "lseg (pm_next s) (vh_head (vheads s ?h)) us pp" and pp0: "pp \<noteq> 0" by (auto simp: lseg_append)
  have d: "pp \<notin> set us" using is_list_distinct [OF isl] by simp
  let ?s' = "set_mapped pp True (s\<lparr>pmap := (pmap s)(pp := \<lparr>pm_va = va, pm_pa = pa, pm_prot = prot, pm_mapped = False\<rparr>),
     pm_next := (pm_next s)(pp := vh_head (vheads s ?h)), vheads := (vheads s)(?h := (vheads s ?h)\<lparr>vh_head := pp\<rparr>),
     host := (host s)(va \<mapsto> (pa - pmem E, mmap_prot prot))\<rparr>)"
  have run: "map_page E A va pa prot s = Some (Inr ?s')"
    using rg va(1,2) h0 found cur sys by (simp add: map_page_def find_page_def pmem_map_def Let_def)
  let ?C = "insert pp (set us)"
  have closed: "pm_next ?s' x \<in> ?C" if "x \<in> ?C" for x
  proof (cases "x = pp")
    case True
    have "vh_head (vheads s ?h) \<in> ?C" using us by (cases us) auto
    then show ?thesis using True by (simp add: set_mapped_def)
  next
    case False
    then show ?thesis using lseg_closed [OF us, of x] that by (simp add: set_mapped_def)
  qed
  have "0 \<notin> ?C" using lseg_nonzero [OF us] pp0 by auto
  have "unmap_all E (vh_head (vheads ?s' ?h)) ?s' = None"
  proof (cases "unmap_all E (vh_head (vheads ?s' ?h)) ?s'")
    case (Some r)
    have "vh_head (vheads ?s' ?h) \<in> ?C" by (simp add: set_mapped_def)
    then show ?thesis using unmap_all_diverges [OF Some \<open>0 \<notin> ?C\<close>] closed sys(2) by blast
  qed simp
  moreover have "cpu_head ?s' = ?h" "vme_enable ?s'" using cur en by (simp_all add: set_mapped_def)
  ultimately have "am_switch E c ?s' = None" if "vm_head c \<noteq> ?h" for c
    using that h0 by (simp add: am_switch_def Let_def)
  then show ?thesis using run by blast
qed


text \<open>C22: Switching address spaces in the native platform: from any state in which the system maps exactly the pages of the current
  address space, \<open>__am_switch\<close> to the address space of a context (or to none) ends without an error in such a state
  with that one current: afterwards the system's user pages are exactly the pages mapped into the new space.\<close>

theorem am_switch_refines:
  assumes "nvm_ok E H L s" and "vme_enable s" and "vm_head c = 0 \<or> vm_head c \<in> H"
    and "\<And>va. munmap_ok E va" and "\<And>va. mmap_ok E va"
  shows "\<exists>s'. am_switch E c s = Some (Inr s') \<and> nvm_ok E H L s' \<and> cpu_head s' = vm_head c \<and>
    host s' = (if vm_head c = 0 then Map.empty else space E s (L (vm_head c)))"
proof -
  obtain s' where "am_switch E c s = Some (Inr s')" "nvm_ok E H L s'" "cpu_head s' = vm_head c" "\<forall>g \<in> H. space E s' (L g) = space E s (L g)"
    using am_switch_run [OF assms] by blast
  then show ?thesis using assms(3) by (auto simp: nvm_ok_def)
qed

definition demo_os :: "nat os" where
  \<comment> \<open>pages one after the other from \<open>0x1001000\<close> on; the system never refuses\<close>
  "demo_os = \<lparr>pgalloc = (\<lambda>n. (0x1000000 + 4096 * of_nat (n + 1), n + 1)), pgsize = 4096, pmem = 0x1000000, mmap_ok = (\<lambda>_. True),
     munmap_ok = (\<lambda>_. True), hcreate_ok = True, enter_ok = (\<lambda>_. True), uc_example = \<lparr>gregs = (\<lambda>_. 0), uc_sigmask = {}\<rparr>, sizeof_Context = 1088\<rparr>"

definition demo_nvm :: "addr \<Rightarrow> nat nvm" where
  \<comment> \<open>one empty address space with head \<open>0x1001000\<close>\<close>
  "demo_nvm cur = \<lparr>vme_enable = True, pages = 1, pmap = (\<lambda>_. \<lparr>pm_va = 0, pm_pa = 0, pm_prot = 0, pm_mapped = False\<rparr>), pm_next = (\<lambda>_. 0),
     vheads = (\<lambda>_. \<lparr>vh_head = 0, vh_hash = (\<lambda>_. None), vh_nr_page = 0\<rparr>), cpu_head = cur, host = Map.empty\<rparr>"

lemma demo_ok: "cur = 0 \<or> cur = 0x1001000 \<Longrightarrow> nvm_ok demo_os {0x1001000} (\<lambda>_. []) (demo_nvm cur)"
  by (auto simp: nvm_ok_def demo_nvm_def space_ok_def space_def)

definition demo_space :: AddrSpace where
  "demo_space = \<lparr>as_pgsize = 4096, as_area = USER_SPACE, as_ptr = 0x1001000\<rparr>"

lemma am_switch_refines_witness:
  "\<exists>s'. am_switch demo_os (snd (ucontext demo_os demo_space (RANGE 0 0x2000000) 0x40000000)) (demo_nvm 0) = Some (Inr s') \<and>
    cpu_head s' = 0x1001000"
proof -
  let ?c = "snd (ucontext demo_os demo_space (RANGE 0 0x2000000) 0x40000000)"
  have "vm_head ?c = 0x1001000" by (simp add: ucontext_def demo_space_def)
  moreover have "vme_enable (demo_nvm 0)" by (simp add: demo_nvm_def)
  moreover have "\<And>va. munmap_ok demo_os va" "\<And>va. mmap_ok demo_os va" by (simp_all add: demo_os_def)
  ultimately show ?thesis using am_switch_refines [OF demo_ok, of 0 ?c] by auto
qed

text \<open>C23: Mapping a page that the address space does not map yet adds exactly this page to the space, with the protection
  translated, changes no other space and keeps the cells, the hash tables and the system's mappings consistent; if the space
  is current, the system maps the page at once.\<close>

theorem map_page_adds:
  assumes "nvm_ok E H L s" and "as_ptr A \<in> H"
    and "IN_RANGE va USER_SPACE" and "va mod pgsize E = 0" and "pa mod pgsize E = 0" and "va \<notin> dom (space E s (L (as_ptr A)))"
    and "pgalloc E (pages s) = (pp, a)" and "pp \<noteq> 0" and "\<And>g. g \<in> H \<Longrightarrow> pp \<notin> set (L g)"
    and "\<And>v. enter_ok E v" and "\<And>v. mmap_ok E v"
  shows "\<exists>s'. map_page E A va pa prot s = Some (Inr s') \<and> nvm_ok E H (L(as_ptr A := pp # L (as_ptr A))) s' \<and> cpu_head s' = cpu_head s \<and>
    space E s' (pp # L (as_ptr A)) = (space E s (L (as_ptr A)))(va \<mapsto> (pa - pmem E, mmap_prot prot)) \<and>
    (\<forall>g \<in> H - {as_ptr A}. space E s' (L g) = space E s (L g))"
  using assms by (rule map_page_new)

lemma map_page_adds_witness:
  "\<exists>s'. map_page demo_os demo_space 0x40001000 0x1005000 (MMAP_READ OR MMAP_WRITE) (demo_nvm 0x1001000) = Some (Inr s') \<and>
    space demo_os s' [0x1002000] = [0x40001000 \<mapsto> (0x5000, 7)]"
proof -
  have 1: "nvm_ok demo_os {0x1001000} (\<lambda>_. []) (demo_nvm 0x1001000)" by (rule demo_ok) simp
  have p: "mmap_prot (MMAP_READ OR MMAP_WRITE) = 7"
    by (simp add: mmap_prot_def MMAP_READ_def MMAP_WRITE_def PROT_READ_def PROT_WRITE_def PROT_EXEC_def)
  have "\<exists>s'. map_page demo_os demo_space 0x40001000 0x1005000 (MMAP_READ OR MMAP_WRITE) (demo_nvm 0x1001000) = Some (Inr s') \<and>
    nvm_ok demo_os {0x1001000} ((\<lambda>_. [])(as_ptr demo_space := [0x1002000])) s' \<and> cpu_head s' = cpu_head (demo_nvm 0x1001000) \<and>
    space demo_os s' [0x1002000] = (space demo_os (demo_nvm 0x1001000) [])(0x40001000 \<mapsto> (0x1005000 - pmem demo_os, mmap_prot (MMAP_READ OR MMAP_WRITE))) \<and>
    (\<forall>g \<in> {0x1001000} - {as_ptr demo_space}. space demo_os s' [] = space demo_os (demo_nvm 0x1001000) [])"
    by (rule map_page_adds [OF 1]) (simp_all add: demo_space_def demo_os_def demo_nvm_def USER_SPACE_def IN_RANGE_def RANGE_def space_def)
  then show ?thesis unfolding p by (auto simp: space_def demo_os_def)
qed

text \<open>C24: Mapping a page a second time, for instance to change its protection, links its cell to itself or to a cell before it: the list of
  pages becomes a cycle, and the next switch to another address space never ends.\<close>

theorem remap_hangs_switch:
  assumes "nvm_ok E H L s" and "as_ptr A \<in> H" and "cpu_head s = as_ptr A" and "vme_enable s"
    and "va mod pgsize E = 0" and "pa mod pgsize E = 0" and "va \<in> dom (space E s (L (as_ptr A)))"
    and "\<And>v. mmap_ok E v" and "\<And>v. munmap_ok E v"
  shows "\<exists>s'. map_page E A va pa prot s = Some (Inr s') \<and> (\<forall>c. vm_head c \<noteq> as_ptr A \<longrightarrow> am_switch E c s' = None)"
  using assms by (rule map_page_again)

lemma remap_hangs_switch_witness:
  "\<exists>s1 s2. map_page demo_os demo_space 0x40001000 0x1005000 MMAP_READ (demo_nvm 0x1001000) = Some (Inr s1) \<and>
    map_page demo_os demo_space 0x40001000 0x1005000 MMAP_WRITE s1 = Some (Inr s2) \<and>
    (\<forall>c. vm_head c \<noteq> 0x1001000 \<longrightarrow> am_switch demo_os c s2 = None)"
proof -
  let ?L = "(\<lambda>_. [])(as_ptr demo_space := [0x1002000 :: addr])"
  have 1: "nvm_ok demo_os {0x1001000} (\<lambda>_. []) (demo_nvm 0x1001000)" by (rule demo_ok) simp
  have "\<exists>s'. map_page demo_os demo_space 0x40001000 0x1005000 MMAP_READ (demo_nvm 0x1001000) = Some (Inr s') \<and>
    nvm_ok demo_os {0x1001000} ?L s' \<and> cpu_head s' = cpu_head (demo_nvm 0x1001000) \<and>
    space demo_os s' [0x1002000] = (space demo_os (demo_nvm 0x1001000) [])(0x40001000 \<mapsto> (0x1005000 - pmem demo_os, mmap_prot MMAP_READ)) \<and>
    (\<forall>g \<in> {0x1001000} - {as_ptr demo_space}. space demo_os s' [] = space demo_os (demo_nvm 0x1001000) [])"
    by (rule map_page_new [OF 1]) (simp_all add: demo_space_def demo_os_def demo_nvm_def USER_SPACE_def IN_RANGE_def RANGE_def space_def)
  then obtain s1 where s1: "map_page demo_os demo_space 0x40001000 0x1005000 MMAP_READ (demo_nvm 0x1001000) = Some (Inr s1)"
    "nvm_ok demo_os {0x1001000} ?L s1" "cpu_head s1 = 0x1001000" "0x40001000 \<in> dom (space demo_os s1 [0x1002000])"
    by (auto simp: demo_nvm_def)
  have en: "vme_enable s1"
    using s1(1) by (auto simp: map_page_def find_page_def pmem_map_def set_mapped_def demo_os_def demo_space_def demo_nvm_def
        USER_SPACE_def IN_RANGE_def RANGE_def Let_def)
  have "\<exists>s2. map_page demo_os demo_space 0x40001000 0x1005000 MMAP_WRITE s1 = Some (Inr s2) \<and>
    (\<forall>c. vm_head c \<noteq> as_ptr demo_space \<longrightarrow> am_switch demo_os c s2 = None)"
    by (rule remap_hangs_switch [OF s1(2)]) (use s1(3,4) en in \<open>simp_all add: demo_space_def demo_os_def\<close>)
  then show ?thesis using s1(1) by (auto simp: demo_space_def)
qed

end
