(* ===== verification/Native_CTE.thy ===== *)
theory Native_CTE
  imports Native_VME
begin

text \<open>
  The native platform's traps, \<open>abstract-machine/am/src/native/cte.c\<close>, with the interrupt mask of \<open>platform.c\<close>: a signal becomes an
  event, the interrupted registers are saved as a \<open>Context\<close> on a stack, and a fault at a magic address resumes a context. The
  user's handler and the addresses the linker and the C library choose are parameters.
\<close>

section \<open>State\<close>

record 'a ncte =
  vm :: "'a nvm"
  cpu_ksp :: u64
  cpu_ev :: Event
  ctxs :: "addr \<Rightarrow> Context"      \<comment> \<open>the contexts in memory\<close>
  sigmask :: "signal set"        \<comment> \<open>the mask of the process\<close>
  handled :: "signal set"        \<comment> \<open>the signals with \<open>sig_handler\<close> as their handler\<close>
  timer_on :: bool

record 'a nenv =
  sys :: "'a os"
  text_seg :: Area                \<comment> \<open>\<open>_start\<close> to \<open>_etext\<close>\<close>
  sigprocmask_addr :: addr
  irq_handle_addr :: addr
  kcontext_start :: addr
  user_handler :: "Event \<Rightarrow> addr \<Rightarrow> 'a ncte \<Rightarrow> addr \<times> 'a ncte"
  sigaction_ok :: "signal \<Rightarrow> bool"
  setitimer_ok :: bool

record siginfo =
  si_code :: u64
  si_addr :: addr

definition SYSCALL_INSTR_LEN :: u64 where "SYSCALL_INSTR_LEN = 7"
definition SEGV_MAPERR :: u64 where "SEGV_MAPERR = 1"
definition SEGV_ACCERR :: u64 where "SEGV_ACCERR = 2"

definition intr_sigmask :: "signal set" where
  \<comment> \<open>\<open>__am_intr_sigmask\<close> as \<open>init_platform\<close> sets it\<close>
  "intr_sigmask = {SIGVTALRM, SIGUSR1}"

section \<open>The interrupt mask\<close>

definition is_sigmask_sti :: "signal set \<Rightarrow> bool" where "is_sigmask_sti s \<longleftrightarrow> SIGVTALRM \<notin> s"

definition iset :: "bool \<Rightarrow> 'a ncte \<Rightarrow> 'a ncte" where
  "iset enable s = s\<lparr>sigmask := (if enable then sigmask s - intr_sigmask else sigmask s \<union> intr_sigmask)\<rparr>"

definition ienabled :: "'a ncte \<Rightarrow> bool" where "ienabled s \<longleftrightarrow> is_sigmask_sti (sigmask s)"

section \<open>From a signal to an event\<close>

definition signal_safe :: "'a nenv \<Rightarrow> addr \<Rightarrow> 'a ncte \<Rightarrow> bool" where
  "signal_safe E rip s \<longleftrightarrow> IN_RANGE rip (text_seg E) \<or> in_userspace rip (vm s) \<or> rip = sigprocmask_addr E + 13"

definition setup_stack :: "'a nenv \<Rightarrow> event \<Rightarrow> ucontext_t \<Rightarrow> 'a ncte \<Rightarrow> ucontext_t \<times> 'a ncte" where
  "setup_stack E ev u s =
     (let rip = gregs u REG_RIP; trap_from_user = in_userspace rip (vm s) in
      if (ev = EVENT_IRQ_IODEV \<or> ev = EVENT_IRQ_TIMER) \<and> \<not> signal_safe E rip s then (u, s)
      else
        let rip = (if ev = EVENT_SYSCALL then rip + SYSCALL_INSTR_LEN else rip);
            u = u\<lparr>gregs := (gregs u)(REG_RIP := rip)\<rparr>;
            rsp = (if trap_from_user then cpu_ksp s else gregs u REG_RSP) - sizeof_Context (sys E);
            c = (if (rsp + 8) mod 16 \<noteq> 0 then rsp - 8 else rsp);
            s = s\<lparr>ctxs := (ctxs s)(c := (ctxs s c)\<lparr>uc := u\<rparr>)\<rparr>
        in (u\<lparr>uc_sigmask := intr_sigmask,
              gregs := (gregs u)(REG_RDI := c, REG_RIP := irq_handle_addr E, REG_RSP := c)\<rparr>, s))"

definition iret :: "ucontext_t \<Rightarrow> 'a ncte \<Rightarrow> ucontext_t \<times> 'a ncte" where
  "iret u s = (let c = ctxs s (gregs u REG_RDI) in (uc c, s\<lparr>cpu_ksp := ksp c\<rparr>))"

definition signal_event :: "signal \<Rightarrow> siginfo \<Rightarrow> 'a ncte \<Rightarrow> c_error + Event" where
  \<comment> \<open>the event of a signal; \<open>EVENT_ERROR\<close> if there is none\<close>
  "signal_event sig si s =
     (let ev = \<lparr>event = EVENT_ERROR, cause = 0, ref = 0, msg = []\<rparr> in
      case sig of
        SIGUSR1 \<Rightarrow> Inr (ev\<lparr>event := EVENT_IRQ_IODEV\<rparr>)
      | SIGUSR2 \<Rightarrow> Inr (ev\<lparr>event := EVENT_YIELD\<rparr>)
      | SIGVTALRM \<Rightarrow> Inr (ev\<lparr>event := EVENT_IRQ_TIMER\<rparr>)
      | SIGSEGV \<Rightarrow>
          let ev = (if si_code si = SEGV_ACCERR \<and> si_addr si = 0x100000 then ev\<lparr>event := EVENT_SYSCALL\<rparr> else ev) in
          if in_userspace (si_addr si) (vm s) then
            if event ev \<noteq> EVENT_ERROR then Inl Assert_fail
            else let ev = ev\<lparr>event := EVENT_PAGEFAULT\<rparr> in
              if si_code si = SEGV_MAPERR then Inr (ev\<lparr>cause := MMAP_READ, ref := si_addr si\<rparr>)
              else if si_code si = SEGV_ACCERR then Inr (ev\<lparr>cause := MMAP_WRITE, ref := si_addr si\<rparr>)
              else Inl Assert_fail
          else Inr ev
      | Other_signal _ \<Rightarrow> Inr ev)"

definition sig_handler :: "'a nenv \<Rightarrow> signal \<Rightarrow> siginfo \<Rightarrow> ucontext_t \<Rightarrow> 'a ncte \<Rightarrow> c_error + ucontext_t \<times> 'a ncte" where
  \<comment> \<open>the text of \<open>strsignal\<close> is left out\<close>
  "sig_handler E sig si u s =
     (if sig = SIGSEGV \<and> si_code si = SEGV_ACCERR \<and> si_addr si = 0x100008
      then Inr (iret u (s\<lparr>cpu_ev := \<lparr>event = EVENT_ERROR, cause = 0, ref = 0, msg = []\<rparr>\<rparr>))
      else rbind (signal_event sig si s) (\<lambda>ev.
        let ev = (if event ev = EVENT_ERROR then ev\<lparr>ref := si_addr si, cause := si_code si\<rparr> else ev);
            s = s\<lparr>cpu_ev := ev\<rparr>
        in Inr (setup_stack E (event ev) u s)))"

definition irq_handle :: "'a nenv \<Rightarrow> addr \<Rightarrow> 'a ncte \<Rightarrow> (addr \<times> 'a ncte) outcome" where
  \<comment> \<open>up to the call of the magic address, whose argument is the context to resume\<close>
  "irq_handle E c s =
     (let s = s\<lparr>ctxs := (ctxs s)(c := (ctxs s c)\<lparr>vm_head := cpu_head (vm s), ksp := cpu_ksp s\<rparr>)\<rparr> in
      if event (cpu_ev s) = EVENT_ERROR then Some (Inl Assert_fail)
      else let (c, s) = user_handler E (cpu_ev s) c s in
        check (c \<noteq> 0)
          (xbind (am_switch (sys E) (ctxs s c) (vm s)) (\<lambda>v. Some (Inr (c, s\<lparr>vm := v\<rparr>)))))"

definition trap :: "'a nenv \<Rightarrow> signal \<Rightarrow> siginfo \<Rightarrow> ucontext_t \<Rightarrow> 'a ncte \<Rightarrow> (ucontext_t \<times> 'a ncte) outcome" where
  \<comment> \<open>a signal that is handled: the signal handler, \<open>irq_handle\<close> on the saved context, and the fault at the magic address\<close>
  "trap E sig si u s =
     (case sig_handler E sig si u s of Inl e \<Rightarrow> Some (Inl e) | Inr (u, s) \<Rightarrow>
        xbind (irq_handle E (gregs u REG_RDI) s) (\<lambda>(c, s).
          let u = u\<lparr>gregs := (gregs u)(REG_RDI := c)\<rparr> in
          (case sig_handler E SIGSEGV \<lparr>si_code = SEGV_ACCERR, si_addr = 0x100008\<rparr> u s of
             Inl e \<Rightarrow> Some (Inl e) | Inr r \<Rightarrow> Some (Inr r))))"

section \<open>Initialisation and contexts\<close>

definition install :: "'a nenv \<Rightarrow> signal \<Rightarrow> 'a ncte \<Rightarrow> c_error + 'a ncte" where
  \<comment> \<open>\<open>sigaction\<close> and the check of its result\<close>
  "install E sig s = rbind (guard (sigaction_ok E sig) Assert_fail) (\<lambda>_. Inr (s\<lparr>handled := insert sig (handled s)\<rparr>))"

definition install_signal_handler :: "'a nenv \<Rightarrow> 'a ncte \<Rightarrow> c_error + 'a ncte" where
  "install_signal_handler E s =
     rbind (install E SIGVTALRM s) (\<lambda>s. rbind (install E SIGUSR1 s) (\<lambda>s. rbind (install E SIGUSR2 s) (install E SIGSEGV)))"

definition init_timer_irq :: "'a nenv \<Rightarrow> 'a ncte \<Rightarrow> c_error + 'a ncte" where
  "init_timer_irq E s =
     (let s = iset False s in rbind (guard (setitimer_ok E) Assert_fail) (\<lambda>_. Inr (s\<lparr>timer_on := True\<rparr>)))"

definition cte_init :: "'a nenv \<Rightarrow> 'a ncte \<Rightarrow> c_error + bool \<times> 'a ncte" where
  "cte_init E s =
     rbind (install_signal_handler E s) (\<lambda>s. rbind (init_timer_irq E s) (\<lambda>s. Inr (True, s)))"

definition kcontext :: "'a nenv \<Rightarrow> Area \<Rightarrow> u64 \<Rightarrow> u64 \<Rightarrow> 'a ncte \<Rightarrow> addr \<times> 'a ncte" where
  "kcontext E kstack ent arg s =
     (let c = a_end kstack - sizeof_Context (sys E);
          u = uc_example (sys E);
          u = u\<lparr>gregs := (gregs u)(REG_RIP := kcontext_start E, REG_RSP := a_end kstack), uc_sigmask := {}\<rparr>;
          u = u\<lparr>gregs := (gregs u)(REG_RDI := arg, REG_RSI := ent)\<rparr>
      in (c, s\<lparr>ctxs := (ctxs s)(c := (ctxs s c)\<lparr>vm_head := 0, uc := u\<rparr>)\<rparr>))"

definition yield :: "'a nenv \<Rightarrow> ucontext_t \<Rightarrow> 'a ncte \<Rightarrow> (ucontext_t \<times> 'a ncte) outcome" where
  \<comment> \<open>\<open>raise(SIGUSR2)\<close>\<close>
  "yield E u s = trap E SIGUSR2 \<lparr>si_code = 0, si_addr = 0\<rparr> u s"


section \<open>A trap\<close>

definition missed :: "'a nenv \<Rightarrow> event \<Rightarrow> ucontext_t \<Rightarrow> 'a ncte \<Rightarrow> bool" where
  \<comment> \<open>an interrupt that arrives in the middle of library code\<close>
  "missed E ev u s \<longleftrightarrow> (ev = EVENT_IRQ_IODEV \<or> ev = EVENT_IRQ_TIMER) \<and> \<not> signal_safe E (gregs u REG_RIP) s"

definition resume_uc :: "event \<Rightarrow> ucontext_t \<Rightarrow> ucontext_t" where
  \<comment> \<open>the registers with which the interrupted code goes on\<close>
  "resume_uc ev u = (if ev = EVENT_SYSCALL then u\<lparr>gregs := (gregs u)(REG_RIP := gregs u REG_RIP + SYSCALL_INSTR_LEN)\<rparr> else u)"

definition frame :: "'a nenv \<Rightarrow> ucontext_t \<Rightarrow> 'a ncte \<Rightarrow> addr" where
  \<comment> \<open>where the context is saved\<close>
  "frame E u s =
     (let rsp = (if in_userspace (gregs u REG_RIP) (vm s) then cpu_ksp s else gregs u REG_RSP) - sizeof_Context (sys E)
      in if (rsp + 8) mod 16 \<noteq> 0 then rsp - 8 else rsp)"

lemma setup_stack_missed: "missed E ev u s \<Longrightarrow> setup_stack E ev u s = (u, s)"
  by (auto simp: setup_stack_def missed_def Let_def)

lemma setup_stack_saves:
  assumes "\<not> missed E ev u s"
  shows "setup_stack E ev u s =
    ((resume_uc ev u)\<lparr>uc_sigmask := intr_sigmask,
       gregs := (gregs (resume_uc ev u))(REG_RDI := frame E u s, REG_RIP := irq_handle_addr E, REG_RSP := frame E u s)\<rparr>,
     s\<lparr>ctxs := (ctxs s)(frame E u s := (ctxs s (frame E u s))\<lparr>uc := resume_uc ev u\<rparr>)\<rparr>)"
proof -
  have "u\<lparr>gregs := (gregs u)(REG_RIP := gregs u REG_RIP)\<rparr> = u" by simp
  then show ?thesis
    using assms by (cases "ev = EVENT_SYSCALL") (auto simp: setup_stack_def missed_def resume_uc_def frame_def Let_def)
qed

definition trapped :: "'a nenv \<Rightarrow> Event \<Rightarrow> ucontext_t \<Rightarrow> 'a ncte \<Rightarrow> 'a ncte" where
  \<comment> \<open>the state in which the user's handler is called\<close>
  "trapped E ev u s = s\<lparr>cpu_ev := ev,
     ctxs := (ctxs s)(frame E u s := \<lparr>ksp = cpu_ksp s, vm_head = cpu_head (vm s), uc = resume_uc (event ev) u\<rparr>)\<rparr>"

lemma Context_eta: "c\<lparr>uc := u, vm_head := h, ksp := k\<rparr> = \<lparr>ksp = k, vm_head = h, uc = u\<rparr>" for c :: Context
  by (cases c) simp

lemma trap_run:
  assumes sg: "\<not> (sig = SIGSEGV \<and> si_code si = SEGV_ACCERR \<and> si_addr si = 0x100008)"
    and ev: "signal_event sig si s = Inr ev" "event ev \<noteq> EVENT_ERROR" and acc: "\<not> missed E (event ev) u s"
    and h: "user_handler E ev (frame E u s) (trapped E ev u s) = (c, s2)" and c: "c \<noteq> 0"
    and sw: "am_switch (sys E) (ctxs s2 c) (vm s2) = Some (Inr v)"
  shows "trap E sig si u s = Some (Inr (uc (ctxs s2 c),
    s2\<lparr>vm := v, cpu_ev := \<lparr>event = EVENT_ERROR, cause = 0, ref = 0, msg = []\<rparr>, cpu_ksp := ksp (ctxs s2 c)\<rparr>))"
proof -
  let ?s = "s\<lparr>cpu_ev := ev\<rparr>"
  have fr: "frame E u ?s = frame E u s" by (simp add: frame_def)
  have "\<not> missed E (event ev) u ?s" using acc by (simp add: missed_def signal_safe_def)
  note st = setup_stack_saves [OF this, unfolded fr]
  have 1: "sig_handler E sig si u s = Inr (setup_stack E (event ev) u ?s)"
    unfolding sig_handler_def if_not_P [OF sg] ev(1) using ev(2) by (simp add: Let_def)
  have tr: "(let s = (?s\<lparr>ctxs := (ctxs ?s)(frame E u s := (ctxs ?s (frame E u s))\<lparr>uc := resume_uc (event ev) u\<rparr>)\<rparr>) in
      s\<lparr>ctxs := (ctxs s)(f := (ctxs s f)\<lparr>vm_head := cpu_head (vm s), ksp := cpu_ksp s\<rparr>)\<rparr>) = trapped E ev u s"
    if "f = frame E u s" for f using that by (simp add: trapped_def Let_def fun_upd_def Context_eta cong: if_cong)
  have 2: "irq_handle E (frame E u s) (snd (setup_stack E (event ev) u ?s)) = Some (Inr (c, s2\<lparr>vm := v\<rparr>))"
    using tr [OF refl] ev(2) h c sw unfolding irq_handle_def st by (simp add: Let_def trapped_def)
  have 3: "gregs (fst (setup_stack E (event ev) u ?s)) REG_RDI = frame E u s" unfolding st by simp
  obtain u1 s1 where u1: "setup_stack E (event ev) u ?s = (u1, s1)" by (cases "setup_stack E (event ev) u ?s")
  have "irq_handle E (gregs u1 REG_RDI) s1 = Some (Inr (c, s2\<lparr>vm := v\<rparr>))" using 2 3 by (simp add: u1)
  then show ?thesis unfolding trap_def 1 u1 by (simp add: sig_handler_def iret_def Let_def)
qed

lemma trap_error:
  assumes sg: "\<not> (sig = SIGSEGV \<and> si_code si = SEGV_ACCERR \<and> si_addr si = 0x100008)"
    and ev: "signal_event sig si s = Inr ev" "event ev = EVENT_ERROR"
  shows "trap E sig si u s = Some (Inl Assert_fail)"
proof -
  let ?s = "s\<lparr>cpu_ev := ev\<lparr>ref := si_addr si, cause := si_code si\<rparr>\<rparr>"
  obtain u1 s1 where u1: "setup_stack E EVENT_ERROR u ?s = (u1, s1)" by (cases "setup_stack E EVENT_ERROR u ?s")
  have "sig_handler E sig si u s = Inr (u1, s1)"
    unfolding sig_handler_def if_not_P [OF sg] ev(1) using ev(2) u1 by (simp add: Let_def)
  moreover have "event (cpu_ev s1) = EVENT_ERROR"
    using u1 ev(2) by (auto simp: setup_stack_def Let_def split: if_splits)
  ultimately show ?thesis unfolding trap_def by (simp add: irq_handle_def Let_def)
qed


section \<open>Properties\<close>

definition runs_handler :: "'a nenv \<Rightarrow> signal \<Rightarrow> siginfo \<Rightarrow> ucontext_t \<Rightarrow> 'a ncte \<Rightarrow> Event \<Rightarrow> bool" where
  \<comment> \<open>the signal becomes the event for the user's handler\<close>
  "runs_handler E sig si u s ev \<longleftrightarrow> \<not> (sig = SIGSEGV \<and> si_code si = SEGV_ACCERR \<and> si_addr si = 0x100008) \<and>
     signal_event sig si s = Inr ev \<and> event ev \<noteq> EVENT_ERROR \<and> \<not> missed E (event ev) u s"

lemma trap_switch:
  assumes "runs_handler E sig si u s ev"
    and h: "user_handler E ev (frame E u s) (trapped E ev u s) = (c, s2)" and "c \<noteq> 0"
    and ok: "nvm_ok (sys E) H L (vm s2)" and hd: "vm_head (ctxs s2 c) = 0 \<or> vm_head (ctxs s2 c) \<in> H"
    and en: "vme_enable (vm s2)" and sys: "\<And>va. munmap_ok (sys E) va" "\<And>va. mmap_ok (sys E) va"
  shows "\<exists>s'. trap E sig si u s = Some (Inr (uc (ctxs s2 c), s')) \<and> ctxs s' = ctxs s2 \<and> sigmask s' = sigmask s2 \<and>
    cpu_ksp s' = ksp (ctxs s2 c) \<and> cpu_head (vm s') = vm_head (ctxs s2 c) \<and> nvm_ok (sys E) H L (vm s') \<and>
    host (vm s') = (if vm_head (ctxs s2 c) = 0 then Map.empty else space (sys E) (vm s2) (L (vm_head (ctxs s2 c))))"
proof -
  obtain v where v: "am_switch (sys E) (ctxs s2 c) (vm s2) = Some (Inr v)" "nvm_ok (sys E) H L v" "cpu_head v = vm_head (ctxs s2 c)"
    "\<forall>g \<in> H. space (sys E) v (L g) = space (sys E) (vm s2) (L g)"
    using am_switch_run [OF ok en hd sys] by blast
  have "trap E sig si u s = Some (Inr (uc (ctxs s2 c),
    s2\<lparr>vm := v, cpu_ev := \<lparr>event = EVENT_ERROR, cause = 0, ref = 0, msg = []\<rparr>, cpu_ksp := ksp (ctxs s2 c)\<rparr>))"
    using assms(1) by (intro trap_run [OF _ _ _ _ h assms(3) v(1)]) (auto simp: runs_handler_def)
  then show ?thesis using v hd by (auto simp: nvm_ok_def)
qed

text \<open>C25: A signal that becomes an event of the native platform runs the user's handler on the saved context; whichever context the handler
  returns, the process goes on with the registers, the signal mask and the kernel stack of that context, and the system maps
  exactly the pages of its address space.\<close>

theorem trap_resumes_returned_context:
  assumes "runs_handler E sig si u s ev"
    and "user_handler E ev (frame E u s) (trapped E ev u s) = (c, s2)" and "c \<noteq> 0"
    and "nvm_ok (sys E) H L (vm s2)" and "vm_head (ctxs s2 c) = 0 \<or> vm_head (ctxs s2 c) \<in> H"
    and "vme_enable (vm s2)" and "\<And>va. munmap_ok (sys E) va" "\<And>va. mmap_ok (sys E) va"
  shows "\<exists>s'. trap E sig si u s = Some (Inr (uc (ctxs s2 c), s')) \<and> cpu_ksp s' = ksp (ctxs s2 c) \<and>
    cpu_head (vm s') = vm_head (ctxs s2 c) \<and> nvm_ok (sys E) H L (vm s') \<and>
    host (vm s') = (if vm_head (ctxs s2 c) = 0 then Map.empty else space (sys E) (vm s2) (L (vm_head (ctxs s2 c))))"
  using trap_switch [OF assms] by blast

definition new_thread :: "'a nenv \<Rightarrow> Event \<Rightarrow> addr \<Rightarrow> 'a ncte \<Rightarrow> addr \<times> 'a ncte" where
  \<comment> \<open>a handler that starts a kernel thread with the entry 0x401000 and the argument 42\<close>
  "new_thread E ev c s = kcontext E (RANGE 0x3000000 0x3001000) 0x401000 42 s"

definition demo_env :: "(nat nenv \<Rightarrow> Event \<Rightarrow> addr \<Rightarrow> nat ncte \<Rightarrow> addr \<times> nat ncte) \<Rightarrow> nat nenv" where
  "demo_env h = (let E = \<lparr>sys = demo_os, text_seg = RANGE 0x400000 0x500000, sigprocmask_addr = 0x7f0000000000, irq_handle_addr = 0x402000,
     kcontext_start = 0x403000, user_handler = (\<lambda>_ c s. (c, s)), sigaction_ok = (\<lambda>_. True), setitimer_ok = True\<rparr>
     in E\<lparr>user_handler := h E\<rparr>)"

definition demo_cte :: "nat ncte" where
  \<comment> \<open>a user process of the address space with the head \<open>0x1001000\<close>\<close>
  "demo_cte = \<lparr>vm = demo_nvm 0x1001000, cpu_ksp = 0x2000000, cpu_ev = \<lparr>event = EVENT_NULL, cause = 0, ref = 0, msg = []\<rparr>,
     ctxs = (\<lambda>_. \<lparr>ksp = 0, vm_head = 0, uc = \<lparr>gregs = (\<lambda>_. 0), uc_sigmask = {}\<rparr>\<rparr>), sigmask = {}, handled = {}, timer_on = False\<rparr>"

definition demo_uc :: ucontext_t where
  "demo_uc = \<lparr>gregs = (\<lambda>_. 0)(REG_RIP := 0x40000100, REG_RSP := 0xbffff000), uc_sigmask = {}\<rparr>"

lemma demo_runs_handler:
  "runs_handler (demo_env h) SIGVTALRM \<lparr>si_code = 0, si_addr = 0\<rparr> demo_uc demo_cte \<lparr>event = EVENT_IRQ_TIMER, cause = 0, ref = 0, msg = []\<rparr>"
  by (simp add: runs_handler_def signal_event_def missed_def signal_safe_def demo_uc_def demo_cte_def demo_nvm_def in_userspace_def
      USER_SPACE_def IN_RANGE_def RANGE_def)

lemma trap_resumes_returned_context_witness:
  "\<exists>u s'. trap (demo_env new_thread) SIGVTALRM \<lparr>si_code = 0, si_addr = 0\<rparr> demo_uc demo_cte = Some (Inr (u, s')) \<and>
    gregs u REG_RIP = 0x403000 \<and> gregs u REG_RSP = 0x3001000 \<and> gregs u REG_RSI = 0x401000 \<and> gregs u REG_RDI = 42 \<and>
    uc_sigmask u = {} \<and> cpu_head (vm s') = 0"
proof -
  let ?E = "demo_env new_thread" and ?ev = "\<lparr>event = EVENT_IRQ_TIMER, cause = 0, ref = 0, msg = []\<rparr>"
  obtain c s2 where h: "user_handler ?E ?ev (frame ?E demo_uc demo_cte) (trapped ?E ?ev demo_uc demo_cte) = (c, s2)"
    by (cases "user_handler ?E ?ev (frame ?E demo_uc demo_cte) (trapped ?E ?ev demo_uc demo_cte)")
  have sysE: "sys ?E = demo_os" by (simp add: demo_env_def Let_def)
  have r: "c = 0x3000bc0" "vm s2 = demo_nvm 0x1001000" "vm_head (ctxs s2 c) = 0" "gregs (uc (ctxs s2 c)) REG_RIP = 0x403000"
    "gregs (uc (ctxs s2 c)) REG_RSP = 0x3001000" "gregs (uc (ctxs s2 c)) REG_RSI = 0x401000" "gregs (uc (ctxs s2 c)) REG_RDI = 42"
    "uc_sigmask (uc (ctxs s2 c)) = {}"
    using h by (auto simp: demo_env_def new_thread_def kcontext_def demo_os_def trapped_def demo_cte_def RANGE_def Let_def)
  have "\<exists>s'. trap ?E SIGVTALRM \<lparr>si_code = 0, si_addr = 0\<rparr> demo_uc demo_cte = Some (Inr (uc (ctxs s2 c), s')) \<and> cpu_ksp s' = ksp (ctxs s2 c) \<and>
    cpu_head (vm s') = vm_head (ctxs s2 c) \<and> nvm_ok (sys ?E) {0x1001000} (\<lambda>_. []) (vm s') \<and>
    host (vm s') = (if vm_head (ctxs s2 c) = 0 then Map.empty else space (sys ?E) (vm s2) [])"
    by (rule trap_resumes_returned_context [OF demo_runs_handler h]) (use r demo_ok in \<open>simp_all add: sysE demo_os_def [symmetric]\<close>,
      simp_all add: demo_nvm_def demo_os_def)
  then show ?thesis using r by auto
qed


lemma trap_back:
  assumes r: "runs_handler E sig si u s ev" and fr: "frame E u s \<noteq> 0"
    and h: "user_handler E ev (frame E u s) (trapped E ev u s) = (frame E u s, s2)"
    and keep: "ctxs s2 (frame E u s) = ctxs (trapped E ev u s) (frame E u s)"
    and ok: "nvm_ok (sys E) H L (vm s2)" and hd: "cpu_head (vm s) = 0 \<or> cpu_head (vm s) \<in> H"
    and en: "vme_enable (vm s2)" and sys: "\<And>va. munmap_ok (sys E) va" "\<And>va. mmap_ok (sys E) va"
  shows "\<exists>s'. trap E sig si u s = Some (Inr (resume_uc (event ev) u, s')) \<and> cpu_ksp s' = cpu_ksp s \<and> cpu_head (vm s') = cpu_head (vm s)"
proof -
  have c: "ctxs s2 (frame E u s) = \<lparr>ksp = cpu_ksp s, vm_head = cpu_head (vm s), uc = resume_uc (event ev) u\<rparr>"
    unfolding keep by (simp add: trapped_def)
  have "vm_head (ctxs s2 (frame E u s)) = 0 \<or> vm_head (ctxs s2 (frame E u s)) \<in> H" using hd c by simp
  from trap_switch [OF r h fr ok this en sys] show ?thesis unfolding c by auto
qed

text \<open>C26: A trap of the native platform is transparent: when the handler returns the context it was given and leaves it alone, the
  interrupted code goes on with all its registers, its signal mask, its kernel stack and its address space, after the trapping
  instruction if it was a system call and at the interrupted instruction otherwise.\<close>

theorem trap_roundtrip:
  assumes "runs_handler E sig si u s ev" and "frame E u s \<noteq> 0"
    and "user_handler E ev (frame E u s) (trapped E ev u s) = (frame E u s, s2)"
    and "ctxs s2 (frame E u s) = ctxs (trapped E ev u s) (frame E u s)"
    and "nvm_ok (sys E) H L (vm s2)" and "cpu_head (vm s) = 0 \<or> cpu_head (vm s) \<in> H"
    and "vme_enable (vm s2)" and "\<And>va. munmap_ok (sys E) va" "\<And>va. mmap_ok (sys E) va"
  shows "\<exists>s'. trap E sig si u s = Some (Inr (
      if event ev = EVENT_SYSCALL then u\<lparr>gregs := (gregs u)(REG_RIP := gregs u REG_RIP + 7)\<rparr> else u, s')) \<and>
    cpu_ksp s' = cpu_ksp s \<and> cpu_head (vm s') = cpu_head (vm s)"
  using trap_back [OF assms] unfolding resume_uc_def SYSCALL_INSTR_LEN_def .

definition stay :: "'a nenv \<Rightarrow> Event \<Rightarrow> addr \<Rightarrow> 'a ncte \<Rightarrow> addr \<times> 'a ncte" where
  "stay _ _ c s = (c, s)"

lemma demo_env_simps [simp]:
  "sys (demo_env h) = demo_os" "sigaction_ok (demo_env h) = (\<lambda>_. True)" "setitimer_ok (demo_env h) = True"
  "user_handler (demo_env stay) ev c s = (c, s)" "text_seg (demo_env h) = RANGE 0x400000 0x500000"
  by (simp_all add: demo_env_def stay_def Let_def)

lemma trap_roundtrip_witness:
  "\<exists>s'. trap (demo_env stay) SIGSEGV \<lparr>si_code = SEGV_ACCERR, si_addr = 0x100000\<rparr> demo_uc demo_cte =
      Some (Inr (demo_uc\<lparr>gregs := (gregs demo_uc)(REG_RIP := 0x40000107)\<rparr>, s')) \<and> cpu_ksp s' = 0x2000000"
proof -
  let ?E = "demo_env stay" and ?ev = "\<lparr>event = EVENT_SYSCALL, cause = 0, ref = 0, msg = []\<rparr>" and ?si = "\<lparr>si_code = SEGV_ACCERR, si_addr = 0x100000\<rparr>"
  have 1: "runs_handler ?E SIGSEGV ?si demo_uc demo_cte ?ev"
    by (simp add: runs_handler_def signal_event_def missed_def in_userspace_def SEGV_ACCERR_def USER_SPACE_def IN_RANGE_def RANGE_def)
  have fr: "frame ?E demo_uc demo_cte = 0x1fffbb8"
    by (simp add: frame_def demo_uc_def demo_cte_def demo_nvm_def in_userspace_def USER_SPACE_def IN_RANGE_def RANGE_def demo_os_def Let_def)
  have vm: "vm (trapped ?E ?ev demo_uc demo_cte) = demo_nvm 0x1001000" by (simp add: trapped_def demo_cte_def)
  have "\<exists>s'. trap ?E SIGSEGV ?si demo_uc demo_cte = Some (Inr (if event ?ev = EVENT_SYSCALL
      then demo_uc\<lparr>gregs := (gregs demo_uc)(REG_RIP := gregs demo_uc REG_RIP + 7)\<rparr> else demo_uc, s')) \<and>
    cpu_ksp s' = cpu_ksp demo_cte \<and> cpu_head (vm s') = cpu_head (vm demo_cte)"
  proof (rule trap_roundtrip [OF 1 _ _ refl])
    show "frame ?E demo_uc demo_cte \<noteq> 0" by (simp add: fr)
    show "user_handler ?E ?ev (frame ?E demo_uc demo_cte) (trapped ?E ?ev demo_uc demo_cte) =
      (frame ?E demo_uc demo_cte, trapped ?E ?ev demo_uc demo_cte)" by simp
    show "nvm_ok (sys ?E) {0x1001000} (\<lambda>_. []) (vm (trapped ?E ?ev demo_uc demo_cte))" unfolding vm using demo_ok by simp
    show "vme_enable (vm (trapped ?E ?ev demo_uc demo_cte))" unfolding vm by (simp add: demo_nvm_def)
  qed (simp_all add: demo_cte_def demo_nvm_def demo_os_def)
  moreover have "gregs demo_uc REG_RIP + 7 = 0x40000107" "cpu_ksp demo_cte = 0x2000000" by (simp_all add: demo_uc_def demo_cte_def)
  ultimately show ?thesis by auto
qed

lemma cte_init_run:
  assumes "\<And>g. sigaction_ok E g" and "setitimer_ok E"
  shows "cte_init E s = Inr (True, s\<lparr>handled := {SIGVTALRM, SIGUSR1, SIGUSR2, SIGSEGV} \<union> handled s,
    sigmask := sigmask s \<union> {SIGVTALRM, SIGUSR1}, timer_on := True\<rparr>)"
  using assms by (simp add: cte_init_def install_signal_handler_def install_def guard_def init_timer_irq_def iset_def intr_sigmask_def insert_commute)

text \<open>C27: What the native platform does with the signals that are not events for the user's handler: a signal without an event and a
  fault at a kernel address other than the two magic ones stop the program, before the handler runs; an interrupt in the middle of library code is
  dropped, and the interrupted registers and the state but for the pending event do not change.\<close>

theorem trap_errors:
  "(sig = Other_signal n \<or> sig = SIGSEGV \<and> \<not> in_userspace (si_addr si) (vm s) \<and>
      (si_code si = SEGV_ACCERR \<longrightarrow> si_addr si \<noteq> 0x100000 \<and> si_addr si \<noteq> 0x100008) \<longrightarrow>
    trap E sig si u s = Some (Inl Assert_fail)) \<and>
   ((sig = SIGUSR1 \<or> sig = SIGVTALRM) \<and> \<not> signal_safe E (gregs u REG_RIP) s \<longrightarrow>
    (\<exists>ev. sig_handler E sig si u s = Inr (u, s\<lparr>cpu_ev := ev\<rparr>)))"
proof (intro conjI impI)
  assume a: "sig = Other_signal n \<or> sig = SIGSEGV \<and> \<not> in_userspace (si_addr si) (vm s) \<and>
     (si_code si = SEGV_ACCERR \<longrightarrow> si_addr si \<noteq> 0x100000 \<and> si_addr si \<noteq> 0x100008)"
  then show "trap E sig si u s = Some (Inl Assert_fail)"
    by (intro trap_error [where ev = "\<lparr>event = EVENT_ERROR, cause = 0, ref = 0, msg = []\<rparr>"]) (auto simp: signal_event_def)
next
  assume a: "(sig = SIGUSR1 \<or> sig = SIGVTALRM) \<and> \<not> signal_safe E (gregs u REG_RIP) s"
  then have "missed E ev u (s\<lparr>cpu_ev := e\<rparr>)" if "ev = EVENT_IRQ_IODEV \<or> ev = EVENT_IRQ_TIMER" for ev e
    using that by (auto simp: missed_def signal_safe_def)
  with a show "\<exists>ev. sig_handler E sig si u s = Inr (u, s\<lparr>cpu_ev := ev\<rparr>)"
    by (auto simp: sig_handler_def signal_event_def setup_stack_missed Let_def)
qed

lemma trap_errors_witness:
  "trap (demo_env stay) SIGSEGV \<lparr>si_code = SEGV_MAPERR, si_addr = 8\<rparr> demo_uc demo_cte = Some (Inl Assert_fail) \<and>
   (\<exists>ev. sig_handler (demo_env stay) SIGVTALRM \<lparr>si_code = 0, si_addr = 0\<rparr> (demo_uc\<lparr>gregs := (\<lambda>_. 0)(REG_RIP := 0x7f0000001000)\<rparr>) demo_cte =
     Inr (demo_uc\<lparr>gregs := (\<lambda>_. 0)(REG_RIP := 0x7f0000001000)\<rparr>, demo_cte\<lparr>cpu_ev := ev\<rparr>))"
proof -
  let ?u = "demo_uc\<lparr>gregs := (\<lambda>_. 0)(REG_RIP := 0x7f0000001000)\<rparr>"
  have 1: "\<not> in_userspace 8 (vm demo_cte)" by (simp add: in_userspace_def USER_SPACE_def IN_RANGE_def RANGE_def)
  have 2: "\<not> signal_safe (demo_env stay) (gregs ?u REG_RIP) demo_cte"
    by (simp add: signal_safe_def in_userspace_def USER_SPACE_def IN_RANGE_def RANGE_def demo_env_def Let_def)
  show ?thesis
    using trap_errors [of SIGSEGV 0 "\<lparr>si_code = SEGV_MAPERR, si_addr = 8\<rparr>" demo_cte "demo_env stay" demo_uc]
      trap_errors [of SIGVTALRM 0 "\<lparr>si_code = 0, si_addr = 0\<rparr>" demo_cte "demo_env stay" ?u] 1 2 by simp
qed

end
