(* ===== verification/Native_Platform.thy ===== *)
theory Native_Platform
  imports Native_CTE
begin

text \<open>
  Start-up of the native platform: \<open>abstract-machine/am/src/native/platform.c\<close>, which sets up memory, signals and the
  processor structure before the program's \<open>main\<close>, and \<open>native/trm.c\<close>. The operating system, the dynamic linker, the program
  headers and the environment are parameters (\<open>phost\<close>); every call that is checked has its verdict there.
\<close>

section \<open>The process\<close>

datatype mapping = Private | Shared | Physical | Trap_page   \<comment> \<open>what a byte of the address space is mapped to\<close>

record plat =
  p_mem :: mem
  p_maps :: "addr \<Rightarrow> mapping option"
  heap :: Area
  cpuid :: int
  vm_head :: addr
  p_sigmask :: "signal set"       \<comment> \<open>of the process\<close>
  am_intr_sigmask :: "signal set"
  example_uc :: ucontext_t
  altstack :: bool
  am_ncpu :: int
  am_pgsize :: int
  fpregs_null :: bool             \<comment> \<open>whether the example context has no floating-point state\<close>

datatype call = Memfd_create | Dlsym string | Ftruncate | Mmap_pmem | Mmap_cpu | Mmap_trap | Mmap_temp | Munmap_data | Mmap_data
  | Munmap_temp | Sigemptyset | Sigaddset | Sigaltstack | Sigaction | Sigprocmask

record phost =
  ok :: "call \<Rightarrow> bool"             \<comment> \<open>whether the call succeeds\<close>
  cpu_area :: addr               \<comment> \<open>where the system maps the processor structure\<close>
  temp_area :: "nat \<Rightarrow> addr"       \<comment> \<open>and the temporary memory of this size\<close>
  phdrs :: "(bool \<times> u64) list"   \<comment> \<open>whether a segment is loaded and writable, and its size in memory\<close>
  end_sym :: addr                \<comment> \<open>the address of the linker's symbol \<open>end\<close>\<close>
  sys_pgsz :: int
  sigstksz :: u64
  signal_uc :: ucontext_t        \<comment> \<open>what the signal handler is given\<close>
  env_smp :: "int option"        \<comment> \<open>the value of \<open>atoi\<close> on the variable, if it is set\<close>
  env_pgsize :: "int option"

definition MAX_CPU :: int where "MAX_CPU = 16"
definition TRAP_PAGE_START :: addr where "TRAP_PAGE_START = 0x100000"
definition PMEM_START :: addr where "PMEM_START = 0x1000000"
definition PMEM_SIZE :: nat where "PMEM_SIZE = 128 * 1024 * 1024"

definition must :: "phost \<Rightarrow> call \<Rightarrow> c_error + unit" where
  \<comment> \<open>a call and the check of its result\<close>
  "must H c = guard (ok H c) Assert_fail"

definition pages :: "nat \<Rightarrow> nat" where
  \<comment> \<open>the system maps and unmaps whole pages\<close>
  "pages n = (n + 4095) div 4096 * 4096"

definition map_pages :: "addr \<Rightarrow> nat \<Rightarrow> mapping \<Rightarrow> plat \<Rightarrow> plat" where
  \<comment> \<open>new pages are zero\<close>
  "map_pages a n k s =
     s\<lparr>p_maps := (\<lambda>x. if in_region a (pages n) x then Some k else p_maps s x),
       p_mem := (\<lambda>x. if in_region a (pages n) x then 0 else p_mem s x)\<rparr>"

definition unmap_pages :: "addr \<Rightarrow> nat \<Rightarrow> plat \<Rightarrow> plat" where
  "unmap_pages a n s = s\<lparr>p_maps := (\<lambda>x. if in_region a (pages n) x then None else p_maps s x)\<rparr>"

section \<open>Initialisation\<close>

definition copy_bytes :: "addr \<Rightarrow> addr \<Rightarrow> nat \<Rightarrow> plat \<Rightarrow> plat" where
  \<comment> \<open>\<open>memcpy\<close> of the C library\<close>
  "copy_bytes dst src n s = s\<lparr>p_mem := write_bytes (p_mem s) dst (read_bytes (p_mem s) src n)\<rparr>"

definition init_pmem :: "phost \<Rightarrow> plat \<Rightarrow> c_error + plat" where
  \<comment> \<open>the memory object\<close>
  "init_pmem H s =
     rbind (must H Memfd_create) (\<lambda>_. rbind (must H (Dlsym ''ftruncate'')) (\<lambda>_. rbind (must H Ftruncate) (\<lambda>_.
     rbind (must H Mmap_pmem) (\<lambda>_. Inr (map_pages PMEM_START PMEM_SIZE Physical s)))))"

definition init_cpu :: "phost \<Rightarrow> plat \<Rightarrow> c_error + plat" where
  \<comment> \<open>the processor structure of 32 KiB and some words, and the trap page\<close>
  "init_cpu H s =
     rbind (must H Mmap_cpu) (\<lambda>_.
     let s = (map_pages (cpu_area H) 32824 Private s)\<lparr>cpuid := 0, vm_head := 0\<rparr> in
     rbind (must H Mmap_trap) (\<lambda>_. Inr (map_pages TRAP_PAGE_START (nat (sys_pgsz H)) Trap_page s)))"

definition remap_segment :: "phost \<Rightarrow> u64 \<Rightarrow> plat \<Rightarrow> c_error + plat" where
  \<comment> \<open>one writable segment of this size in memory\<close>
  "remap_segment H memsz s =
     (let vaddr = end_sym H - memsz; pad = vaddr AND 0xfff; vaddr_align = vaddr - pad; size = unat (memsz + pad);
          temp_mem = temp_area H size in
      rbind (must H Mmap_temp) (\<lambda>_.
      let s = copy_bytes temp_mem vaddr_align size (map_pages temp_mem size Private s) in
      rbind (must H (Dlsym ''mmap'')) (\<lambda>_. rbind (must H Munmap_data) (\<lambda>_.
      let s = unmap_pages vaddr_align size s in
      rbind (must H Mmap_data) (\<lambda>_.
      let s = copy_bytes vaddr_align temp_mem size (map_pages vaddr_align size Shared s) in
      rbind (must H Munmap_temp) (\<lambda>_. Inr (unmap_pages temp_mem size s)))))))"

fun remap_data :: "phost \<Rightarrow> (bool \<times> u64) list \<Rightarrow> plat \<Rightarrow> c_error + plat" where
  "remap_data H [] s = Inr s"
| "remap_data H ((writable, memsz) # ps) s = rbind (if writable then remap_segment H memsz s else Inr s) (remap_data H ps)"

definition init_sigmask :: "phost \<Rightarrow> plat \<Rightarrow> c_error + plat" where
  "init_sigmask H s =
     rbind (must H Sigemptyset) (\<lambda>_. rbind (must H Sigaddset) (\<lambda>_. rbind (must H Sigaddset) (\<lambda>_.
       Inr (s\<lparr>am_intr_sigmask := {SIGVTALRM, SIGUSR1}\<rparr>))))"

definition setup_sigaltstack :: "phost \<Rightarrow> plat \<Rightarrow> c_error + plat" where
  "setup_sigaltstack H s =
     rbind (guard (sigstksz H \<le> 32768) Assert_fail) (\<lambda>_. rbind (must H Sigaltstack) (\<lambda>_. Inr (s\<lparr>altstack := True\<rparr>)))"

definition save_context_handler :: "ucontext_t \<Rightarrow> plat \<Rightarrow> plat" where
  "save_context_handler u s = s\<lparr>example_uc := u, fpregs_null := False\<rparr>"

definition save_example_context :: "phost \<Rightarrow> plat \<Rightarrow> c_error + plat" where
  \<comment> \<open>\<open>SIGUSR1\<close> is raised while it has \<open>save_context_handler\<close>\<close>
  "save_example_context H s =
     rbind (must H Sigaction) (\<lambda>_. let s = save_context_handler (signal_uc H) s in rbind (must H Sigaction) (\<lambda>_. Inr s))"

definition get_intr_sigmask :: "plat \<Rightarrow> signal set" where "get_intr_sigmask s = am_intr_sigmask s"
definition get_example_uc :: "plat \<Rightarrow> ucontext_t" where "get_example_uc s = example_uc s"

definition init_env :: "phost \<Rightarrow> plat \<Rightarrow> c_error + plat" where
  \<comment> \<open>the number of processors and the size of a page\<close>
  "init_env H s =
     (let n = (case env_smp H of Some n \<Rightarrow> n | None \<Rightarrow> 1) in
      rbind (guard (0 < n \<and> n \<le> MAX_CPU) Assert_fail) (\<lambda>_.
      let p = (case env_pgsize H of Some p \<Rightarrow> p | None \<Rightarrow> sys_pgsz H) in
      rbind (guard (0 < p \<and> p mod sys_pgsz H = 0) Assert_fail) (\<lambda>_. Inr (s\<lparr>am_ncpu := n, am_pgsize := p\<rparr>))))"

definition init_platform :: "phost \<Rightarrow> plat \<Rightarrow> c_error + plat" where
  \<comment> \<open>up to the call of \<open>main\<close>\<close>
  "init_platform H s =
     rbind (init_pmem H s) (\<lambda>s. rbind (init_cpu H s) (\<lambda>s.
     rbind (must H (Dlsym ''memcpy'')) (\<lambda>_. rbind (remap_data H (phdrs H) s) (\<lambda>s.
     let s = s\<lparr>heap := RANGE PMEM_START (PMEM_START + of_nat PMEM_SIZE)\<rparr> in
     rbind (init_sigmask H s) (\<lambda>s. rbind (setup_sigaltstack H s) (\<lambda>s. rbind (save_example_context H s) (\<lambda>s.
     let s = s\<lparr>fpregs_null := True, example_uc := (example_uc s)\<lparr>uc_sigmask := get_intr_sigmask s\<rparr>\<rparr> in
     rbind (must H Sigprocmask) (\<lambda>_.
     let s = s\<lparr>p_sigmask := p_sigmask s \<union> am_intr_sigmask s\<rparr> in
     init_env H s))))))))"

section \<open>trm.c\<close>

definition halt_format :: string where "halt_format = ''Exit code = 40h'' @ [CHR 0x0A]"
definition hex_digit :: "nat \<Rightarrow> char" where "hex_digit i = ''0123456789abcdef'' ! i"

definition halt_char :: "u32 \<Rightarrow> char \<Rightarrow> char" where
  \<comment> \<open>a digit of the format is the position of a digit of the code\<close>
  "halt_char code ch =
     (if ch = CHR ''0'' \<or> ch = CHR ''4''
      then hex_digit (unat (signed_drop_bit (of_char ch - of_char CHR ''0'') code AND 0xf))
      else ch)"

datatype exit = Exit_process u32 | Kill_group     \<comment> \<open>\<open>exit(code)\<close>; \<open>kill(0, SIGKILL)\<close>\<close>

definition exit_platform :: "bool \<Rightarrow> plat \<Rightarrow> u32 \<Rightarrow> exit" where
  \<comment> \<open>with \<open>__am_mpe_init\<close>\<close>
  "exit_platform mpe s code = (if mpe \<and> 1 < am_ncpu s then Kill_group else Exit_process code)"

definition halt :: "bool \<Rightarrow> plat \<Rightarrow> u32 \<Rightarrow> string \<times> exit" where
  \<comment> \<open>what is printed, and how the process ends\<close>
  "halt mpe s code = (map (halt_char code) halt_format, exit_platform mpe s code)"


section \<open>Regions\<close>

lemma unat_minus_if: "unat (x - a :: addr) = (if a \<le> x then unat x - unat a else 2 ^ 64 + unat x - unat a)"
proof (cases "a \<le> x")
  case False
  then have d: "unat x \<le> unat a" "0 < unat a - unat x" "unat a - unat x < 2 ^ 64"
    using unsigned_less [of a, where ?'a = nat] by (auto simp: word_le_nat_alt)
  have "x - a = - of_nat (unat a - unat x)" using d(1) by (simp add: of_nat_diff)
  moreover have "unat (- of_nat (unat a - unat x) :: addr) = 2 ^ 64 - (unat a - unat x)"
    by (rule unat_neg_of_nat) (use d in simp_all)
  ultimately show ?thesis using False d by (simp del: of_nat_diff)
qed (simp add: unat_sub word_le_nat_alt)

lemma in_region_nowrap:
  "unat a + n \<le> 2 ^ 64 \<Longrightarrow> in_region a n x \<longleftrightarrow> unat a \<le> unat x \<and> unat x < unat a + n"
  using unsigned_less [of x, where ?'a = nat] by (auto simp: in_region_def unat_minus_if word_le_nat_alt)

definition apart :: "addr \<Rightarrow> nat \<Rightarrow> addr \<Rightarrow> nat \<Rightarrow> bool" where
  \<comment> \<open>two areas without a common page\<close>
  "apart a n b k \<longleftrightarrow> (\<forall>x. \<not> (in_region a (pages n) x \<and> in_region b (pages k) x))"

lemma apart_nowrap:
  assumes "unat a + pages n \<le> unat b" and "unat b + pages k \<le> 2 ^ 64"
  shows "apart a n b k"
  using assms in_region_nowrap [of a "pages n"] in_region_nowrap [of b "pages k"] by (auto simp: apart_def)

lemma pages_ge: "n \<le> pages n"
proof -
  have "n + 4095 < (n + 4095) div 4096 * 4096 + 4096"
    using div_mult_mod_eq [of "n + 4095" 4096] mod_less_divisor [of 4096 "n + 4095"] by linarith
  then show ?thesis by (simp add: pages_def)
qed

lemma in_longer_region: "in_region a n x \<Longrightarrow> n \<le> k \<Longrightarrow> in_region a k x"
  by (simp add: in_region_def)

lemma copy_bytes_at:
  assumes "n \<le> 2 ^ 64"
  shows "p_mem (copy_bytes dst src n s) x = (if in_region dst n x then p_mem s (src + (x - dst)) else p_mem s x)"
  using assms by (simp add: copy_bytes_def write_bytes_apply in_region_def nth_read_bytes)

section \<open>Moving the data\<close>

lemma remap_segment_run:
  fixes memsz :: u64 and H :: phost
  defines "a \<equiv> end_sym H - memsz - ((end_sym H - memsz) AND 0xfff)"
    and "n \<equiv> unat (memsz + ((end_sym H - memsz) AND 0xfff))"
  assumes ok: "\<And>c. ok H c" and ap: "apart a n (temp_area H n) n"
  shows "\<exists>s'. remap_segment H memsz s = Inr s' \<and>
    (\<forall>x. in_region a n x \<longrightarrow> p_mem s' x = p_mem s x) \<and>
    (\<forall>x. in_region a (pages n) x \<longrightarrow> p_maps s' x = Some Shared) \<and>
    (\<forall>x. \<not> in_region a (pages n) x \<longrightarrow> \<not> in_region (temp_area H n) (pages n) x \<longrightarrow>
      p_mem s' x = p_mem s x \<and> p_maps s' x = p_maps s x) \<and>
    s' = s\<lparr>p_mem := p_mem s', p_maps := p_maps s'\<rparr>"
proof -
  let ?t = "temp_area H n"
  let ?s1 = "copy_bytes ?t a n (map_pages ?t n Private s)"
  let ?s2 = "copy_bytes a ?t n (map_pages a n Shared (unmap_pages a n ?s1))"
  let ?s = "unmap_pages ?t n ?s2"
  have run: "remap_segment H memsz s = Inr ?s"
    by (simp add: remap_segment_def Let_def must_def ok guard_def a_def n_def)
  have n: "n \<le> 2 ^ 64" using unsigned_less [of "memsz + ((end_sym H - memsz) AND 0xfff)", where ?'a = nat] by (simp add: n_def)
  have no: "\<not> in_region ?t (pages n) x" if "in_region a (pages n) x" for x using ap that by (auto simp: apart_def)
  have data: "p_mem ?s x = p_mem s x" if x: "in_region a n x" for x
  proof -
    have xt: "in_region ?t n (?t + (x - a))" using x by (simp add: in_region_def)
    then have "in_region ?t (pages n) (?t + (x - a))" by (rule in_longer_region) (rule pages_ge)
    then have nt: "\<not> in_region a (pages n) (?t + (x - a))" using no by blast
    have px: "in_region a (pages n) x" using x pages_ge by (rule in_longer_region)
    have "p_mem ?s x = p_mem (map_pages a n Shared (unmap_pages a n ?s1)) (?t + (x - a))"
      using x by (simp add: unmap_pages_def copy_bytes_at [OF n])
    also have "\<dots> = p_mem ?s1 (?t + (x - a))" using nt by (simp add: map_pages_def unmap_pages_def)
    also have "\<dots> = p_mem (map_pages ?t n Private s) (a + (x - a))" using xt by (simp add: copy_bytes_at [OF n])
    also have "\<dots> = p_mem s x" using no [OF px] by (simp add: map_pages_def)
    finally show ?thesis .
  qed
  have maps: "p_maps ?s x = Some Shared" if "in_region a (pages n) x" for x
    using that no [OF that] by (simp add: unmap_pages_def copy_bytes_def map_pages_def)
  have rest: "p_mem ?s x = p_mem s x \<and> p_maps ?s x = p_maps s x"
    if "\<not> in_region a (pages n) x" "\<not> in_region ?t (pages n) x" for x
  proof -
    have "\<not> in_region a n x" "\<not> in_region ?t n x"
      using that in_longer_region [OF _ pages_ge] by blast+
    then show ?thesis using that
      by (simp add: unmap_pages_def copy_bytes_at [OF n] map_pages_def) (simp add: copy_bytes_def)
  qed
  show ?thesis
    by (rule exI [of _ ?s], intro conjI allI impI run)
      (use data maps rest in \<open>simp_all add: copy_bytes_def map_pages_def unmap_pages_def\<close>)
qed


section \<open>The platform is ready\<close>

lemma remap_data_writable: "remap_data H ps s = remap_data H (filter fst ps) s"
proof (induction ps arbitrary: s)
  case (Cons p ps)
  then have "remap_data H ps = remap_data H (filter fst ps)" by (rule ext)
  then show ?case by (cases p; cases "fst p") simp_all
qed simp

definition data_start :: "phost \<Rightarrow> u64 \<Rightarrow> addr" where
  "data_start H memsz = end_sym H - memsz - ((end_sym H - memsz) AND 0xfff)"

definition data_size :: "phost \<Rightarrow> u64 \<Rightarrow> nat" where
  "data_size H memsz = unat (memsz + ((end_sym H - memsz) AND 0xfff))"

definition layout_ok :: "phost \<Rightarrow> u64 \<Rightarrow> bool" where
  \<comment> \<open>the areas of the process do not meet\<close>
  "layout_ok H memsz \<longleftrightarrow>
     (let a = data_start H memsz; n = data_size H memsz; t = temp_area H n; g = nat (sys_pgsz H) in
      apart a n t n \<and> apart PMEM_START PMEM_SIZE a n \<and> apart PMEM_START PMEM_SIZE t n \<and> apart PMEM_START PMEM_SIZE (cpu_area H) 32824 \<and>
      apart PMEM_START PMEM_SIZE TRAP_PAGE_START g \<and> apart a n (cpu_area H) 32824 \<and> apart a n TRAP_PAGE_START g \<and>
      apart t n TRAP_PAGE_START g)"

lemma init_platform_run:
  assumes ok: "\<And>c. ok H c" and seg: "filter fst (phdrs H) = [(True, memsz)]" and lay: "layout_ok H memsz" and stk: "sigstksz H \<le> 32768"
    and env: "env_smp H = None \<or> (\<exists>k. env_smp H = Some k \<and> 0 < k \<and> k \<le> 16)"
      "env_pgsize H = None \<or> (\<exists>p. env_pgsize H = Some p \<and> 0 < p \<and> p mod sys_pgsz H = 0)" and pg: "0 < sys_pgsz H"
  shows "\<exists>s'. init_platform H s = Inr s' \<and> heap s' = RANGE 0x1000000 0x9000000 \<and>
    (\<forall>x. in_region (data_start H memsz) (data_size H memsz) x \<longrightarrow> p_mem s' x = p_mem s x \<and> p_maps s' x = Some Shared) \<and>
    (\<forall>x. in_region PMEM_START (pages PMEM_SIZE) x \<longrightarrow> p_mem s' x = 0 \<and> p_maps s' x = Some Physical) \<and>
    (\<forall>x. in_region TRAP_PAGE_START (pages (nat (sys_pgsz H))) x \<longrightarrow> p_maps s' x = Some Trap_page) \<and>
    {SIGVTALRM, SIGUSR1} \<subseteq> p_sigmask s' \<and> vm_head s' = 0 \<and> 1 \<le> am_ncpu s' \<and> am_ncpu s' \<le> 16 \<and>
    0 < am_pgsize s' \<and> am_pgsize s' mod sys_pgsz H = 0"
proof -
  let ?a = "data_start H memsz" and ?n = "data_size H memsz"
  let ?t = "temp_area H ?n" and ?g = "nat (sys_pgsz H)"
  let ?s1 = "map_pages PMEM_START PMEM_SIZE Physical s"
  let ?s2 = "map_pages TRAP_PAGE_START ?g Trap_page ((map_pages (cpu_area H) 32824 Private ?s1)\<lparr>cpuid := 0, vm_head := 0\<rparr>)"
  have ap: "apart ?a ?n ?t ?n" "apart PMEM_START PMEM_SIZE ?a ?n" "apart PMEM_START PMEM_SIZE ?t ?n"
    "apart PMEM_START PMEM_SIZE (cpu_area H) 32824" "apart PMEM_START PMEM_SIZE TRAP_PAGE_START ?g"
    "apart ?a ?n (cpu_area H) 32824" "apart ?a ?n TRAP_PAGE_START ?g" "apart ?t ?n TRAP_PAGE_START ?g"
    using lay unfolding layout_ok_def Let_def by simp_all
  have ap1: "apart (end_sym H - memsz - ((end_sym H - memsz) AND 0xfff)) (unat (memsz + ((end_sym H - memsz) AND 0xfff)))
      (temp_area H (unat (memsz + ((end_sym H - memsz) AND 0xfff)))) (unat (memsz + ((end_sym H - memsz) AND 0xfff)))"
    using ap(1) by (simp only: data_start_def data_size_def)
  obtain s3 where s3: "remap_segment H memsz ?s2 = Inr s3"
    "\<And>x. in_region ?a ?n x \<Longrightarrow> p_mem s3 x = p_mem ?s2 x"
    "\<And>x. in_region ?a (pages ?n) x \<Longrightarrow> p_maps s3 x = Some Shared"
    "\<And>x. \<not> in_region ?a (pages ?n) x \<Longrightarrow> \<not> in_region ?t (pages ?n) x \<Longrightarrow> p_mem s3 x = p_mem ?s2 x \<and> p_maps s3 x = p_maps ?s2 x"
    "s3 = ?s2\<lparr>p_mem := p_mem s3, p_maps := p_maps s3\<rparr>"
    using remap_segment_run [where H = H, OF ok ap1, of ?s2, folded data_start_def data_size_def] by metis
  have rd: "remap_data H (phdrs H) ?s2 = Inr s3" using s3(1) by (simp add: remap_data_writable [of H "phdrs H"] seg)
  let ?smp = "case env_smp H of Some n \<Rightarrow> n | None \<Rightarrow> 1" and ?p = "case env_pgsize H of Some p \<Rightarrow> p | None \<Rightarrow> sys_pgsz H"
  have e: "0 < ?smp \<and> ?smp \<le> MAX_CPU" "0 < ?p \<and> ?p mod sys_pgsz H = 0" using env pg by (auto simp: MAX_CPU_def)
  obtain s' where s': "init_platform H s = Inr s'" "heap s' = RANGE PMEM_START (PMEM_START + of_nat PMEM_SIZE)" "p_mem s' = p_mem s3"
    "p_maps s' = p_maps s3" "{SIGVTALRM, SIGUSR1} \<subseteq> p_sigmask s'" "vm_head s' = vm_head s3" "am_ncpu s' = ?smp" "am_pgsize s' = ?p"
    using e stk by (simp add: init_platform_def init_pmem_def init_cpu_def must_def ok guard_def Let_def rd init_sigmask_def setup_sigaltstack_def
      save_example_context_def save_context_handler_def init_env_def)
  have "vm_head s3 = 0" by (subst s3(5)) (simp add: map_pages_def)
  have data: "p_mem s3 x = p_mem s x \<and> p_maps s3 x = Some Shared" if x: "in_region ?a ?n x" for x
  proof -
    have px: "in_region ?a (pages ?n) x" using x pages_ge by (rule in_longer_region)
    have "\<not> in_region PMEM_START (pages PMEM_SIZE) x" "\<not> in_region (cpu_area H) (pages 32824) x" "\<not> in_region TRAP_PAGE_START (pages ?g) x"
      using ap(2,6,7) px unfolding apart_def by blast+
    then show ?thesis using s3(2) [OF x] s3(3) [OF px] by (simp add: map_pages_def)
  qed
  have pmem: "p_mem s3 x = 0 \<and> p_maps s3 x = Some Physical" if x: "in_region PMEM_START (pages PMEM_SIZE) x" for x
  proof -
    have "\<not> in_region ?a (pages ?n) x" "\<not> in_region ?t (pages ?n) x" "\<not> in_region (cpu_area H) (pages 32824) x"
      "\<not> in_region TRAP_PAGE_START (pages ?g) x"
      using ap(2-5) x unfolding apart_def by blast+
    then show ?thesis using s3(4) [of x] x by (simp add: map_pages_def)
  qed
  have trap: "p_maps s3 x = Some Trap_page" if x: "in_region TRAP_PAGE_START (pages ?g) x" for x
  proof -
    have "\<not> in_region ?a (pages ?n) x" "\<not> in_region ?t (pages ?n) x" using ap(7,8) x unfolding apart_def by blast+
    then show ?thesis using s3(4) [of x] x by (simp add: map_pages_def)
  qed
  have h: "RANGE PMEM_START (PMEM_START + of_nat PMEM_SIZE) = RANGE 0x1000000 0x9000000" by (simp add: PMEM_START_def PMEM_SIZE_def)
  have "1 \<le> am_ncpu s' \<and> am_ncpu s' \<le> 16 \<and> 0 < am_pgsize s' \<and> am_pgsize s' mod sys_pgsz H = 0"
    using e s'(7,8) by (simp add: MAX_CPU_def)
  then show ?thesis
    using s'(1-6) \<open>vm_head s3 = 0\<close> data pmem trap unfolding h by (intro exI [of _ s'] conjI allI impI) simp_all
qed



definition demo_phost :: phost where
  "demo_phost = \<lparr>ok = (\<lambda>_. True), cpu_area = 0x7f0000000000, temp_area = (\<lambda>_. 0x7f0000100000),
     phdrs = [(False, 0x5000), (True, 0x2345)], end_sym = 0x406789, sys_pgsz = 4096, sigstksz = 8192,
     signal_uc = \<lparr>gregs = (\<lambda>_. 0), uc_sigmask = {}\<rparr>, env_smp = Some 4, env_pgsize = None\<rparr>"

definition demo_plat :: plat where
  "demo_plat = \<lparr>p_mem = ucast, p_maps = (\<lambda>_. None), heap = RANGE 0 0, cpuid = 0, vm_head = 0, p_sigmask = {}, am_intr_sigmask = {},
     example_uc = \<lparr>gregs = (\<lambda>_. 0), uc_sigmask = {}\<rparr>, altstack = False, am_ncpu = 0, am_pgsize = 0, fpregs_null = False\<rparr>"

lemma apart_commute: "apart a n b k = apart b k a n"
  by (auto simp: apart_def)

lemma demo_layout: "layout_ok demo_phost 0x2345"
proof -
  have a: "data_start demo_phost 0x2345 = 0x404000" "data_size demo_phost 0x2345 = 10121"
    by (simp_all add: data_start_def data_size_def demo_phost_def)
  have p: "pages 10121 = 12288" "pages 4096 = 4096" "pages 32824 = 36864" "pages PMEM_SIZE = 0x8000000"
    by (simp_all add: pages_def PMEM_SIZE_def)
  have "apart 0x404000 10121 0x7f0000100000 10121" "apart 0x404000 10121 PMEM_START PMEM_SIZE" "apart PMEM_START PMEM_SIZE 0x7f0000100000 10121"
    "apart PMEM_START PMEM_SIZE 0x7f0000000000 32824" "apart TRAP_PAGE_START 4096 PMEM_START PMEM_SIZE" "apart 0x404000 10121 0x7f0000000000 32824"
    "apart TRAP_PAGE_START 4096 0x404000 10121" "apart TRAP_PAGE_START 4096 0x7f0000100000 10121"
    by (rule apart_nowrap; simp add: p PMEM_START_def TRAP_PAGE_START_def)+
  then show ?thesis unfolding layout_ok_def Let_def a by (simp add: demo_phost_def apart_commute [of _ _ "0x404000"] apart_commute [of TRAP_PAGE_START])
qed


section \<open>Ending a program\<close>

lemma halt_prints:
  "fst (halt mpe s code) = ''Exit code = '' @ [hex_digit (unat code div 16 mod 16), hex_digit (unat code mod 16)] @ ''h'' @ [CHR 0x0A]"
proof -
  have "unat (w AND 0xf) = unat w mod 16" for w :: u32
  proof -
    have "w AND 0xf = take_bit 4 w" by (simp add: take_bit_eq_mask mask_numeral)
    then show ?thesis by (simp only: unsigned_take_bit_eq) (simp add: take_bit_eq_mod)
  qed
  moreover have "unat (signed_drop_bit 4 code) mod 16 = unat code div 16 mod 16"
  proof -
    have "take_bit 4 (signed_drop_bit 4 code) = take_bit 4 (drop_bit 4 code)"
      by (rule bit_word_eqI) (auto simp: bit_simps)
    then have "unat (take_bit 4 (signed_drop_bit 4 code)) = unat (take_bit 4 (drop_bit 4 code))" by simp
    then show ?thesis unfolding unsigned_take_bit_eq unat_drop_bit_eq by (simp add: take_bit_eq_mod drop_bit_eq_div)
  qed
  ultimately show ?thesis by (simp add: halt_def halt_format_def halt_char_def)
qed

end
