(* ===== verification/Native_MPE.thy ===== *)
theory Native_MPE
  imports Native_Platform
begin

text \<open>
  Starting the processors of the native platform, \<open>abstract-machine/am/src/native/mpe.c\<close>: every processor is a process. The
  parent forks the children, which wait for a byte in a pipe; it initialises the devices, writes one byte for each child and
  enters the program. The processes interleave, so \<open>mpe_init\<close> is a step relation. A child that enters the program does
  not come back; the calls that are asserted to succeed do; \<open>fork\<close>, whose failure is not checked, may fail.
\<close>

datatype parent_pc = Forking nat | Writing nat | Parent_entry   \<comment> \<open>in the two loops, with their index, and in \<open>entry\<close>\<close>
datatype child_pc = Unborn | Reading | Child_entry

record mpe =
  parent :: parent_pc
  child :: "nat \<Rightarrow> child_pc"
  pipe_bytes :: nat
  ioe_ready :: bool

definition mpe_start :: mpe where
  "mpe_start = \<lparr>parent = Forking 1, child = (\<lambda>_. Unborn), pipe_bytes = 0, ioe_ready = False\<rparr>"

inductive step :: "nat \<Rightarrow> bool \<Rightarrow> mpe \<Rightarrow> mpe \<Rightarrow> bool" for ncpu has_ioe where
  fork: "parent s = Forking i \<Longrightarrow> i < ncpu \<Longrightarrow> step ncpu has_ioe s (s\<lparr>parent := Forking (Suc i), child := (child s)(i := Reading)\<rparr>)"
| fork_fails: "parent s = Forking i \<Longrightarrow> i < ncpu \<Longrightarrow> step ncpu has_ioe s (s\<lparr>parent := Forking (Suc i)\<rparr>)"
| init_ioe: "parent s = Forking i \<Longrightarrow> \<not> i < ncpu \<Longrightarrow> step ncpu has_ioe s (s\<lparr>parent := Writing 1, ioe_ready := ioe_ready s \<or> has_ioe\<rparr>)"
| write_byte: "parent s = Writing i \<Longrightarrow> i < ncpu \<Longrightarrow> step ncpu has_ioe s (s\<lparr>parent := Writing (Suc i), pipe_bytes := Suc (pipe_bytes s)\<rparr>)"
| parent_enters: "parent s = Writing i \<Longrightarrow> \<not> i < ncpu \<Longrightarrow> step ncpu has_ioe s (s\<lparr>parent := Parent_entry\<rparr>)"
| child_enters: "child s i = Reading \<Longrightarrow> 0 < pipe_bytes s \<Longrightarrow>
    step ncpu has_ioe s (s\<lparr>pipe_bytes := pipe_bytes s - 1, child := (child s)(i := Child_entry)\<rparr>)"

inductive reachable :: "nat \<Rightarrow> bool \<Rightarrow> mpe \<Rightarrow> bool" for ncpu has_ioe where
  start: "reachable ncpu has_ioe mpe_start"
| step: "reachable ncpu has_ioe s \<Longrightarrow> step ncpu has_ioe s s' \<Longrightarrow> reachable ncpu has_ioe s'"

definition cpu_count :: "plat \<Rightarrow> int" where "cpu_count s = am_ncpu s"
definition cpu_current :: "plat \<Rightarrow> int" where "cpu_current s = cpuid s"

definition atomic_xchg :: "addr \<Rightarrow> u32 \<Rightarrow> (addr \<Rightarrow> u32) \<Rightarrow> u32 \<times> (addr \<Rightarrow> u32)" where
  "atomic_xchg a newval m = (m a, m(a := newval))"

inductive_cases stepE: "step ncpu has_ioe s s'"

section \<open>Invariants\<close>

definition entered :: "mpe \<Rightarrow> nat set" where "entered s = {i. child s i = Child_entry}"
definition reading :: "mpe \<Rightarrow> nat set" where "reading s = {i. child s i = Reading}"

definition forked :: "nat \<Rightarrow> mpe \<Rightarrow> nat" where
  \<comment> \<open>the index up to which processors have been forked\<close>
  "forked ncpu s = (case parent s of Forking i \<Rightarrow> i | _ \<Rightarrow> max 1 ncpu)"

definition written :: "nat \<Rightarrow> mpe \<Rightarrow> nat" where
  "written ncpu s = (case parent s of Forking i \<Rightarrow> 0 | Writing i \<Rightarrow> i - 1 | Parent_entry \<Rightarrow> max 1 ncpu - 1)"

definition mpe_ok :: "nat \<Rightarrow> bool \<Rightarrow> mpe \<Rightarrow> bool" where
  "mpe_ok ncpu has_ioe s \<longleftrightarrow> entered s \<union> reading s \<subseteq> {1..<forked ncpu s} \<and> pipe_bytes s + card (entered s) = written ncpu s \<and>
     1 \<le> forked ncpu s \<and> forked ncpu s \<le> max 1 ncpu \<and> (case parent s of Writing i \<Rightarrow> 1 \<le> i \<and> i \<le> max 1 ncpu | _ \<Rightarrow> True) \<and>
     (has_ioe \<longrightarrow> written ncpu s \<noteq> 0 \<or> parent s = Parent_entry \<longrightarrow> ioe_ready s) \<and> (has_ioe \<longrightarrow> (\<forall>i. parent s = Writing i \<longrightarrow> ioe_ready s))"

lemma mpe_ok_step:
  assumes "step ncpu has_ioe s s'" and "mpe_ok ncpu has_ioe s"
  shows "mpe_ok ncpu has_ioe s'"
  using assms(1)
proof cases
  case (fork i)
  have "entered s' = entered s" "reading s' = insert i (reading s)"
    using assms(2) fork(2,3) by (auto simp: fork(1) entered_def reading_def mpe_ok_def forked_def)
  then show ?thesis using assms(2) fork by (auto simp: mpe_ok_def forked_def written_def)
next
  case (fork_fails i)
  have "entered s' = entered s" "reading s' = reading s" by (simp_all add: fork_fails(1) entered_def reading_def)
  then show ?thesis using assms(2) fork_fails by (auto simp: mpe_ok_def forked_def written_def)
next
  case (init_ioe i)
  have "entered s' = entered s" "reading s' = reading s" by (simp_all add: init_ioe(1) entered_def reading_def)
  then show ?thesis using assms(2) init_ioe by (auto simp: mpe_ok_def forked_def written_def)
next
  case (write_byte i)
  have "entered s' = entered s" "reading s' = reading s" by (simp_all add: write_byte(1) entered_def reading_def)
  then show ?thesis using assms(2) write_byte by (auto simp: mpe_ok_def forked_def written_def)
next
  case (parent_enters i)
  have "entered s' = entered s" "reading s' = reading s" by (simp_all add: parent_enters(1) entered_def reading_def)
  then show ?thesis using assms(2) parent_enters by (auto simp: mpe_ok_def forked_def written_def)
next
  case (child_enters i)
  have e: "entered s' = insert i (entered s)" "reading s' = reading s - {i}" "i \<notin> entered s"
    using child_enters(2) by (auto simp: child_enters(1) entered_def reading_def)
  have "finite (entered s)" using assms(2) by (auto simp: mpe_ok_def intro: finite_subset)
  then have "card (entered s') = Suc (card (entered s))" using e by simp
  moreover have "i \<in> reading s" using child_enters(2) by (simp add: reading_def)
  moreover have "parent s' = parent s" "forked ncpu s' = forked ncpu s" "written ncpu s' = written ncpu s" "ioe_ready s' = ioe_ready s"
    "pipe_bytes s' = pipe_bytes s - 1"
    by (simp_all add: child_enters(1) forked_def written_def)
  ultimately have "entered s' \<union> reading s' = entered s \<union> reading s" "pipe_bytes s' + card (entered s') = pipe_bytes s + card (entered s)"
    "parent s' = parent s" "forked ncpu s' = forked ncpu s" "written ncpu s' = written ncpu s" "ioe_ready s' = ioe_ready s"
    using e child_enters(3) by auto
  then show ?thesis using assms(2) unfolding mpe_ok_def by simp
qed

lemma reachable_ok: "reachable ncpu has_ioe s \<Longrightarrow> mpe_ok ncpu has_ioe s"
proof (induction rule: reachable.induct)
  case start
  then show ?case by (auto simp: mpe_ok_def mpe_start_def forked_def written_def entered_def reading_def)
next
  case (step s s')
  from step.hyps(2) step.IH show ?case by (rule mpe_ok_step)
qed


lemma reading_entered: "reading s \<inter> entered s = {}"
  by (auto simp: reading_def entered_def)

lemma finite_children: "mpe_ok ncpu has_ioe s \<Longrightarrow> finite (entered s) \<and> finite (reading s)"
  by (auto simp: mpe_ok_def intro: finite_subset)

section \<open>Every run ends\<close>

definition steps_left :: "nat \<Rightarrow> mpe \<Rightarrow> nat" where
  \<comment> \<open>how many steps a state can make at most\<close>
  "steps_left ncpu s =
     (case parent s of Forking i \<Rightarrow> 2 * (ncpu - i) + ncpu + 2 | Writing i \<Rightarrow> ncpu - i + 1 | Parent_entry \<Rightarrow> 0) + card (reading s)"

lemma steps_left_decreases:
  assumes "step ncpu has_ioe s s'" and ok: "mpe_ok ncpu has_ioe s"
  shows "steps_left ncpu s' < steps_left ncpu s"
  using assms(1)
proof cases
  case (fork i)
  have "reading s' = insert i (reading s)" using fork by (auto simp: reading_def)
  then have "card (reading s') \<le> Suc (card (reading s))" using finite_children [OF ok] by (simp add: card_insert_if)
  then show ?thesis using fork by (simp add: steps_left_def)
next
  case (child_enters i)
  have "reading s' = reading s - {i}" "i \<in> reading s" using child_enters by (auto simp: reading_def)
  then have "card (reading s') < card (reading s)" using finite_children [OF ok] by (simp only: card_Diff1_less)
  then show ?thesis using child_enters by (simp add: steps_left_def)
qed (auto simp: steps_left_def reading_def)

lemma stuck_states:
  assumes stuck: "\<nexists>s'. step ncpu has_ioe s s'" and ok: "mpe_ok ncpu has_ioe s"
  shows "parent s = Parent_entry \<and> reading s = {}"
proof -
  have p: "parent s = Parent_entry"
  proof (cases "parent s")
    case (Forking i) with stuck show ?thesis by (meson step.fork_fails step.init_ioe)
  next
    case (Writing i) with stuck show ?thesis by (meson step.write_byte step.parent_enters)
  qed
  have "reading s = {}"
  proof (rule ccontr)
    assume r: "reading s \<noteq> {}"
    have fin: "finite (entered s)" "finite (reading s)" using finite_children [OF ok] by simp_all
    have "card (entered s) + card (reading s) = card (entered s \<union> reading s)"
      using fin reading_entered [of s] by (simp add: card_Un_disjoint Int_commute)
    also have "\<dots> \<le> card {1..<max 1 ncpu}" using ok p by (intro card_mono) (auto simp: mpe_ok_def forked_def)
    finally have "card (entered s) + card (reading s) \<le> max 1 ncpu - 1" by simp
    moreover have "0 < card (reading s)" using r fin by (simp add: card_gt_0_iff)
    moreover have "pipe_bytes s + card (entered s) = max 1 ncpu - 1" using ok p by (simp add: mpe_ok_def written_def)
    ultimately have "0 < pipe_bytes s" by linarith
    moreover obtain i where "child s i = Reading" using r by (auto simp: reading_def)
    ultimately show False using stuck by (meson step.child_enters)
  qed
  with p show ?thesis by simp
qed

text \<open>C29: Safety of the start of the processors: in every interleaving only the processors 1 to \<open>ncpu - 1\<close> are started as
children; the bytes in the pipe and the processors that have entered the program are never more than the children asked for; and no
processor, child or parent, is in the program before the devices are initialised when the program has devices.\<close>
theorem processors_enter_after_devices:
  assumes "reachable ncpu has_ioe s"
  shows "entered s \<union> reading s \<subseteq> {1..<ncpu} \<and> pipe_bytes s + card (entered s) \<le> ncpu - 1 \<and>
    (has_ioe \<longrightarrow> entered s \<noteq> {} \<or> parent s = Parent_entry \<longrightarrow> ioe_ready s)"
proof -
  have ok: "mpe_ok ncpu has_ioe s" using assms by (rule reachable_ok)
  have w: "written ncpu s \<le> ncpu - 1" using ok by (auto simp: mpe_ok_def written_def split: parent_pc.splits)
  have "written ncpu s \<noteq> 0" if "entered s \<noteq> {}"
  proof -
    have "0 < card (entered s)" using that finite_children [OF ok] by (simp add: card_gt_0_iff)
    then show ?thesis using ok by (simp add: mpe_ok_def)
  qed
  moreover have "entered s \<union> reading s \<subseteq> {1..<ncpu}" using ok by (fastforce simp: mpe_ok_def)
  moreover have "has_ioe \<longrightarrow> written ncpu s \<noteq> 0 \<or> parent s = Parent_entry \<longrightarrow> ioe_ready s"
    "pipe_bytes s + card (entered s) = written ncpu s"
    using ok unfolding mpe_ok_def by blast+
  ultimately show ?thesis using w by metis
qed

definition two_started :: mpe where
  "two_started = \<lparr>parent = Parent_entry, child = (\<lambda>_. Unborn)(1 := Child_entry), pipe_bytes = 0, ioe_ready = True\<rparr>"

lemma reachable_two_started: "reachable 2 True two_started"
proof -
  note go = reachable.step
  have "reachable 2 True mpe_start" by (rule reachable.start)
  from go [OF this step.fork [of _ 1]]
  have "reachable 2 True (mpe_start\<lparr>parent := Forking 2, child := (child mpe_start)(1 := Reading)\<rparr>)" (is "reachable _ _ ?a")
    by (simp add: mpe_start_def numeral_2_eq_2)
  from go [OF this step.init_ioe [of _ 2]]
  have "reachable 2 True (?a\<lparr>parent := Writing 1, ioe_ready := True\<rparr>)" (is "reachable _ _ ?b") by simp
  from go [OF this step.write_byte [of _ 1]]
  have "reachable 2 True (?b\<lparr>parent := Writing 2, pipe_bytes := 1\<rparr>)" (is "reachable _ _ ?c")
    by (simp add: mpe_start_def numeral_2_eq_2)
  from go [OF this step.child_enters [of _ 1]]
  have "reachable 2 True (?c\<lparr>pipe_bytes := 0, child := (child ?c)(1 := Child_entry)\<rparr>)" (is "reachable _ _ ?d") by simp
  from go [OF this step.parent_enters [of _ 2]]
  have "reachable 2 True (?d\<lparr>parent := Parent_entry\<rparr>)" by simp
  then show ?thesis by (simp add: two_started_def mpe_start_def)
qed

theorem processors_enter_after_devices_witness:
  "entered two_started = {1} \<and> entered two_started \<union> reading two_started \<subseteq> {1..<2} \<and> ioe_ready two_started"
proof -
  have "entered two_started = {1}" by (auto simp: two_started_def entered_def)
  with processors_enter_after_devices [OF reachable_two_started] show ?thesis by auto
qed

text \<open>C30: Liveness of the start of the processors: every step decreases a bound, so no interleaving runs forever; and a state in
which no process can go on is one where the parent and every child that was forked have entered the program - no child is left
waiting for its byte. The bytes that are left over in the pipe are those of the forks that failed.\<close>
theorem processors_start_up:
  assumes "reachable ncpu has_ioe s"
  shows "(\<forall>s'. step ncpu has_ioe s s' \<longrightarrow> steps_left ncpu s' < steps_left ncpu s) \<and>
    ((\<nexists>s'. step ncpu has_ioe s s') \<longrightarrow>
       parent s = Parent_entry \<and> reading s = {} \<and> card (entered s) = ncpu - 1 - pipe_bytes s)"
proof -
  have ok: "mpe_ok ncpu has_ioe s" using assms by (rule reachable_ok)
  have "card (entered s) = ncpu - 1 - pipe_bytes s" if "parent s = Parent_entry"
  proof -
    have "pipe_bytes s + card (entered s) = max 1 ncpu - 1" using ok that by (simp add: mpe_ok_def written_def)
    then show ?thesis by linarith
  qed
  then show ?thesis using stuck_states [OF _ ok] steps_left_decreases [OF _ ok] by blast
qed

lemma two_started_stuck: "\<not> step 2 True two_started s'"
  by (auto simp: two_started_def elim!: stepE split: if_splits)

theorem processors_start_up_witness:
  "parent two_started = Parent_entry \<and> reading two_started = {} \<and> card (entered two_started) = 1"
  using processors_start_up [OF reachable_two_started] two_started_stuck by (simp add: two_started_def)


end
