(* ===== verification/Nemu_IOE.thy ===== *)
theory Nemu_IOE
  imports AM_IOE
begin

text \<open>
  The platform that the NEMU emulator provides, \<open>abstract-machine/am/src/platform/nemu\<close>: start-up, processors and devices, with
  the memory-mapped accesses of \<open>riscv/riscv.h\<close>. The memory-mapped devices are a parameter; \<open>nemu_trap\<close> ends the program.
  The table of handlers is the one of \<open>native/ioe.c\<close> too.
\<close>

section \<open>Memory-mapped devices\<close>

record 'w mmio =
  mm_load :: "nat \<Rightarrow> addr \<Rightarrow> 'w \<Rightarrow> u64 \<times> 'w"    \<comment> \<open>a volatile load of this many bytes\<close>
  mm_store :: "nat \<Rightarrow> addr \<Rightarrow> u64 \<Rightarrow> 'w \<Rightarrow> 'w"

definition inb :: "'w mmio \<Rightarrow> addr \<Rightarrow> 'w \<Rightarrow> u8 \<times> 'w" where
  "inb M a w = (case mm_load M 1 a w of (v, w) \<Rightarrow> (ucast v, w))"
definition inw :: "'w mmio \<Rightarrow> addr \<Rightarrow> 'w \<Rightarrow> u16 \<times> 'w" where
  "inw M a w = (case mm_load M 2 a w of (v, w) \<Rightarrow> (ucast v, w))"
definition inl :: "'w mmio \<Rightarrow> addr \<Rightarrow> 'w \<Rightarrow> u32 \<times> 'w" where
  "inl M a w = (case mm_load M 4 a w of (v, w) \<Rightarrow> (ucast v, w))"
definition outb :: "'w mmio \<Rightarrow> addr \<Rightarrow> u8 \<Rightarrow> 'w \<Rightarrow> 'w" where "outb M a v w = mm_store M 1 a (ucast v) w"
definition outw :: "'w mmio \<Rightarrow> addr \<Rightarrow> u16 \<Rightarrow> 'w \<Rightarrow> 'w" where "outw M a v w = mm_store M 2 a (ucast v) w"
definition outl :: "'w mmio \<Rightarrow> addr \<Rightarrow> u32 \<Rightarrow> 'w \<Rightarrow> 'w" where "outl M a v w = mm_store M 4 a (ucast v) w"

definition DEVICE_BASE :: addr where
  \<comment> \<open>for the instruction sets other than x86\<close>
  "DEVICE_BASE = 0xa0000000"
definition MMIO_BASE :: addr where "MMIO_BASE = 0xa0000000"
definition SERIAL_PORT :: addr where "SERIAL_PORT = DEVICE_BASE + 0x3f8"
definition KBD_ADDR :: addr where "KBD_ADDR = DEVICE_BASE + 0x60"
definition RTC_ADDR :: addr where "RTC_ADDR = DEVICE_BASE + 0x48"
definition VGACTL_ADDR :: addr where "VGACTL_ADDR = DEVICE_BASE + 0x100"
definition AUDIO_ADDR :: addr where "AUDIO_ADDR = DEVICE_BASE + 0x200"
definition DISK_ADDR :: addr where "DISK_ADDR = DEVICE_BASE + 0x300"
definition FB_ADDR :: addr where "FB_ADDR = MMIO_BASE + 0x1000000"
definition AUDIO_SBUF_ADDR :: addr where "AUDIO_SBUF_ADDR = MMIO_BASE + 0x1200000"
definition SYNC_ADDR :: addr where "SYNC_ADDR = VGACTL_ADDR + 4"
definition PMEM_SIZE :: u64 where "PMEM_SIZE = 128 * 1024 * 1024"
definition PGSIZE :: u64 where "PGSIZE = 4096"

definition PMEM_END :: "addr \<Rightarrow> addr" where
  \<comment> \<open>with the address of the linker's symbol \<open>_pmem_start\<close>\<close>
  "PMEM_END pmem_start = pmem_start + PMEM_SIZE"

definition NEMU_PADDR_SPACE :: "addr \<Rightarrow> Area list" where
  "NEMU_PADDR_SPACE pmem_start =
     [RANGE pmem_start (PMEM_END pmem_start), RANGE FB_ADDR (FB_ADDR + 0x200000), RANGE MMIO_BASE (MMIO_BASE + 0x1000)]"

section \<open>Start-up\<close>

definition heap :: "addr \<Rightarrow> addr \<Rightarrow> Area" where
  "heap heap_start pmem_start = RANGE heap_start (PMEM_END pmem_start)"

definition putch :: "'w mmio \<Rightarrow> u8 \<Rightarrow> 'w \<Rightarrow> 'w" where "putch M ch w = outb M SERIAL_PORT ch w"

definition halt :: "int \<Rightarrow> c_error + 'a" where "halt code = Inl (Exit code)"

definition trm_init :: "(string \<Rightarrow> 'w \<Rightarrow> (c_error + int \<times> 'w) option) \<Rightarrow> string \<Rightarrow> 'w \<Rightarrow> (c_error + 'w) option" where
  \<comment> \<open>with the program's \<open>main\<close> and its arguments\<close>
  "trm_init main mainargs w =
     Option.bind (main mainargs w) (\<lambda>r. case r of Inl e \<Rightarrow> Some (Inl e) | Inr (ret, w) \<Rightarrow> Some (halt ret))"

section \<open>Processors\<close>

definition mpe_init :: "('s \<Rightarrow> c_error + 's) \<Rightarrow> 's \<Rightarrow> c_error + bool \<times> 's" where
  \<comment> \<open>with the function \<open>entry\<close>\<close>
  "mpe_init entry s = rbind (entry s) (\<lambda>_. Inl (Panic ''MPE entry returns''))"

definition cpu_count :: nat where "cpu_count = 1"
definition cpu_current :: nat where "cpu_current = 0"

definition atomic_xchg :: "addr \<Rightarrow> u32 \<Rightarrow> (addr \<Rightarrow> u32) \<Rightarrow> u32 \<times> (addr \<Rightarrow> u32)" where
  "atomic_xchg a newval m = (m a, m(a := newval))"

section \<open>Devices\<close>

datatype handler = H_timer_config | H_timer_rtc | H_timer_uptime | H_input_config | H_input_keybrd | H_gpu_config
  | H_gpu_fbdraw | H_gpu_status | H_uart_config | H_audio_config | H_audio_ctrl | H_audio_status | H_audio_play
  | H_disk_config | H_disk_status | H_disk_blkio | H_net_config | H_fail

definition lut :: "nat \<Rightarrow> handler option" where
  \<comment> \<open>of the files \<open>platform/nemu/ioe/ioe.c\<close> and \<open>native/ioe.c\<close>, which are the same\<close>
  "lut = [AM_TIMER_CONFIG \<mapsto> H_timer_config, AM_TIMER_RTC \<mapsto> H_timer_rtc, AM_TIMER_UPTIME \<mapsto> H_timer_uptime,
     AM_INPUT_CONFIG \<mapsto> H_input_config, AM_INPUT_KEYBRD \<mapsto> H_input_keybrd, AM_GPU_CONFIG \<mapsto> H_gpu_config,
     AM_GPU_FBDRAW \<mapsto> H_gpu_fbdraw, AM_GPU_STATUS \<mapsto> H_gpu_status, AM_UART_CONFIG \<mapsto> H_uart_config,
     AM_AUDIO_CONFIG \<mapsto> H_audio_config, AM_AUDIO_CTRL \<mapsto> H_audio_ctrl, AM_AUDIO_STATUS \<mapsto> H_audio_status,
     AM_AUDIO_PLAY \<mapsto> H_audio_play, AM_DISK_CONFIG \<mapsto> H_disk_config, AM_DISK_STATUS \<mapsto> H_disk_status,
     AM_DISK_BLKIO \<mapsto> H_disk_blkio, AM_NET_CONFIG \<mapsto> H_net_config]"

lemma lut_reg:
  assumes "lut reg = Some h"
  shows "reg_buf reg buf \<longleftrightarrow> (case h of
      H_timer_config \<Rightarrow> (\<exists>a b. buf = Timer_config a b) | H_timer_rtc \<Rightarrow> (\<exists>r. buf = Timer_rtc r)
    | H_timer_uptime \<Rightarrow> (\<exists>t. buf = Timer_uptime t) | H_input_config \<Rightarrow> (\<exists>b. buf = Input_config b)
    | H_input_keybrd \<Rightarrow> (\<exists>a b. buf = Input_keybrd a b) | H_gpu_config \<Rightarrow> (\<exists>a b c d e. buf = Gpu_config a b c d e)
    | H_gpu_fbdraw \<Rightarrow> (\<exists>d. buf = Gpu_fbdraw d) | H_gpu_status \<Rightarrow> (\<exists>b. buf = Gpu_status b) | H_uart_config \<Rightarrow> (\<exists>b. buf = Uart_config b)
    | H_audio_config \<Rightarrow> (\<exists>b n. buf = Audio_config b n) | H_audio_ctrl \<Rightarrow> (\<exists>a b c. buf = Audio_ctrl a b c)
    | H_audio_status \<Rightarrow> (\<exists>n. buf = Audio_status n) | H_audio_play \<Rightarrow> (\<exists>a. buf = Audio_play a)
    | H_disk_config \<Rightarrow> (\<exists>a b c. buf = Disk_config a b c) | H_disk_status \<Rightarrow> (\<exists>b. buf = Disk_status b)
    | H_disk_blkio \<Rightarrow> (\<exists>b. buf = Disk_blkio b) | H_net_config \<Rightarrow> (\<exists>b. buf = Net_config b) | H_fail \<Rightarrow> False)"
proof -
  have "(reg, h) \<in> {(1, H_uart_config), (4, H_timer_config), (5, H_timer_rtc), (6, H_timer_uptime), (7, H_input_config), (8, H_input_keybrd),
    (9, H_gpu_config), (10, H_gpu_status), (11, H_gpu_fbdraw), (14, H_audio_config), (15, H_audio_ctrl), (16, H_audio_status),
    (17, H_audio_play), (18, H_disk_config), (19, H_disk_status), (20, H_disk_blkio), (21, H_net_config)}"
    using assms unfolding lut_def AM_reg_defs by (auto split: if_splits)
  then show ?thesis by (cases buf) (auto simp: AM_reg_defs)
qed

definition timer_init :: "'w \<Rightarrow> 'w" where "timer_init w = w"
definition timer_uptime :: "'w mmio \<Rightarrow> 'w \<Rightarrow> u64 \<times> 'w" where "timer_uptime M w = mm_load M 8 RTC_ADDR w"

definition timer_rtc :: rtc where
  "timer_rtc = \<lparr>year = 1900, month = 0, day = 0, hour = 0, minute = 0, second = 0\<rparr>"

definition input_keybrd :: "bool \<times> nat" where "input_keybrd = (False, AM_KEY_NONE)"

definition gpu_init :: "'w \<Rightarrow> 'w" where "gpu_init w = w"

definition gpu_config :: io_buf where
  \<comment> \<open>the frame buffer has no pixels\<close>
  "gpu_config = Gpu_config True False 0 0 0"

definition gpu_fbdraw :: "'w mmio \<Rightarrow> fbdraw \<Rightarrow> 'w \<Rightarrow> 'w" where
  "gpu_fbdraw M ctl w = (if fd_sync ctl then outl M SYNC_ADDR 1 w else w)"

definition gpu_status :: bool where "gpu_status = True"

definition audio_init :: "'w \<Rightarrow> 'w" where "audio_init w = w"

definition audio_config :: "bool \<times> int \<Rightarrow> bool \<times> int" where
  \<comment> \<open>\<open>present\<close> and \<open>bufsize\<close>, which it leaves\<close>
  "audio_config cfg = (False, snd cfg)"

definition audio_ctrl :: "int \<times> int \<times> int \<Rightarrow> 'w \<Rightarrow> 'w" where "audio_ctrl ctrl w = w"
definition audio_status :: int where "audio_status = 0"
definition audio_play :: "Area \<Rightarrow> 'w \<Rightarrow> 'w" where "audio_play ctl w = w"

definition disk_config :: "bool \<times> int \<times> int \<Rightarrow> bool \<times> int \<times> int" where
  "disk_config cfg = (False, snd cfg)"

definition disk_status :: "bool \<Rightarrow> bool" where
  \<comment> \<open>leaves \<open>ready\<close>\<close>
  "disk_status stat = stat"

definition disk_blkio :: "blkio \<Rightarrow> 'w \<Rightarrow> 'w" where "disk_blkio io w = w"

definition run_handler :: "'w mmio \<Rightarrow> handler \<Rightarrow> io_buf \<Rightarrow> 'w \<Rightarrow> (c_error + io_buf \<times> 'w) option" where
  \<comment> \<open>the buffer before and after\<close>
  "run_handler M h buf w = (case h of
       H_timer_config \<Rightarrow> Some (Inr (Timer_config True True, w))
     | H_timer_rtc \<Rightarrow> Some (Inr (Timer_rtc timer_rtc, w))
     | H_timer_uptime \<Rightarrow> (case timer_uptime M w of (us, w) \<Rightarrow> Some (Inr (Timer_uptime us, w)))
     | H_input_config \<Rightarrow> Some (Inr (Input_config True, w))
     | H_input_keybrd \<Rightarrow> Some (Inr (Input_keybrd (fst input_keybrd) (snd input_keybrd), w))
     | H_gpu_config \<Rightarrow> Some (Inr (gpu_config, w))
     | H_gpu_fbdraw \<Rightarrow> (case buf of Gpu_fbdraw ctl \<Rightarrow> Some (Inr (buf, gpu_fbdraw M ctl w)) | _ \<Rightarrow> Some (Inl Bad_va_arg))
     | H_gpu_status \<Rightarrow> Some (Inr (Gpu_status gpu_status, w))
     | H_uart_config \<Rightarrow> Some (Inr (Uart_config False, w))
     | H_audio_config \<Rightarrow> (case buf of
           Audio_config b n \<Rightarrow> (case audio_config (b, n) of (b, n) \<Rightarrow> Some (Inr (Audio_config b n, w))) | _ \<Rightarrow> Some (Inl Bad_va_arg))
     | H_audio_ctrl \<Rightarrow> (case buf of Audio_ctrl f c n \<Rightarrow> Some (Inr (buf, audio_ctrl (f, c, n) w)) | _ \<Rightarrow> Some (Inl Bad_va_arg))
     | H_audio_status \<Rightarrow> Some (Inr (Audio_status audio_status, w))
     | H_audio_play \<Rightarrow> (case buf of Audio_play a \<Rightarrow> Some (Inr (buf, audio_play a w)) | _ \<Rightarrow> Some (Inl Bad_va_arg))
     | H_disk_config \<Rightarrow> (case buf of
           Disk_config b sz n \<Rightarrow> (case disk_config (b, sz, n) of (b, sz, n) \<Rightarrow> Some (Inr (Disk_config b sz n, w))) | _ \<Rightarrow> Some (Inl Bad_va_arg))
     | H_disk_status \<Rightarrow> (case buf of Disk_status b \<Rightarrow> Some (Inr (Disk_status (disk_status b), w)) | _ \<Rightarrow> Some (Inl Bad_va_arg))
     | H_disk_blkio \<Rightarrow> (case buf of Disk_blkio io \<Rightarrow> Some (Inr (buf, disk_blkio io w)) | _ \<Rightarrow> Some (Inl Bad_va_arg))
     | H_net_config \<Rightarrow> Some (Inr (Net_config False, w))
     | H_fail \<Rightarrow> Some (Inl (Panic ''access nonexist register'')))"

definition ioe_init :: "(nat \<Rightarrow> handler option) \<Rightarrow> 'w \<Rightarrow> bool \<times> (nat \<Rightarrow> handler option) \<times> 'w" where
  "ioe_init tab w = (True, fill_table tab H_fail, audio_init (timer_init (gpu_init w)))"

definition ioe_access :: "'w mmio \<Rightarrow> (nat \<Rightarrow> handler option) \<Rightarrow> nat \<Rightarrow> io_buf \<Rightarrow> 'w \<Rightarrow> (c_error + io_buf \<times> 'w) option" where
  \<comment> \<open>\<open>ioe_read\<close> and \<open>ioe_write\<close>\<close>
  "ioe_access M = table_access (run_handler M)"

interpretation nemu_devices: device_table lut H_fail "run_handler M" "{}" "\<lambda>reg. reg" for M
proof
  show "typed_access {} reg (run_handler M h buf s)" if "lut reg = Some h" "reg_buf reg buf" for reg h buf s
    using that unfolding lut_reg [OF that(1)]
    by (cases h) (auto simp: run_handler_def typed_access_def gpu_config_def lut_reg [OF that(1)] simp del: reg_buf_def split: prod.split)
  show "run_handler M H_fail buf s = Some (Inl (Panic ''access nonexist register''))" for buf s
    by (simp add: run_handler_def)
qed

end
