(* ===== verification/Fifo.thy ===== *)
theory Fifo
  imports Prelude
begin

text \<open>
  The contract of a bounded first-in first-out queue: \<open>put\<close> may fail, \<open>get\<close> returns what was put first or a default. The
  client lemma says that any interleaving of operations that never overfills the queue returns what an unbounded list returns.
\<close>

datatype 'a qop = Put 'a | Get

fun run_queue :: "('a \<Rightarrow> 's \<Rightarrow> c_error + 's) \<Rightarrow> ('s \<Rightarrow> 'b \<times> 's) \<Rightarrow> 'a qop list \<Rightarrow> 's \<Rightarrow> c_error + 'b list \<times> 's" where
  \<comment> \<open>the results of the \<open>Get\<close>s\<close>
  "run_queue put get [] s = Inr ([], s)"
| "run_queue put get (Put x # ops) s = rbind (put x s) (run_queue put get ops)"
| "run_queue put get (Get # ops) s = (case get s of (y, s) \<Rightarrow> rbind (run_queue put get ops s) (\<lambda>(ys, s). Inr (y # ys, s)))"

fun list_queue :: "('a \<Rightarrow> 'b) \<Rightarrow> 'b \<Rightarrow> 'a qop list \<Rightarrow> 'a list \<Rightarrow> 'b list \<times> 'a list" where
  \<comment> \<open>the reference\<close>
  "list_queue out none [] xs = ([], xs)"
| "list_queue out none (Put x # ops) xs = list_queue out none ops (xs @ [x])"
| "list_queue out none (Get # ops) [] = (case list_queue out none ops [] of (ys, zs) \<Rightarrow> (none # ys, zs))"
| "list_queue out none (Get # ops) (x # xs) = (case list_queue out none ops xs of (ys, zs) \<Rightarrow> (out x # ys, zs))"

fun fits :: "('a \<Rightarrow> bool) \<Rightarrow> nat \<Rightarrow> 'a qop list \<Rightarrow> nat \<Rightarrow> bool" where
  \<comment> \<open>with \<open>n\<close> elements waiting at the start, never more than \<open>room\<close> wait, and all are valid\<close>
  "fits valid room [] n = True"
| "fits valid room (Put x # ops) n = (valid x \<and> n < room \<and> fits valid room ops (Suc n))"
| "fits valid room (Get # ops) n = fits valid room ops (n - 1)"

locale fifo =
  fixes put :: "'a \<Rightarrow> 's \<Rightarrow> c_error + 's" and get :: "'s \<Rightarrow> 'b \<times> 's" and holds :: "'s \<Rightarrow> 'a list \<Rightarrow> bool"
    and valid :: "'a \<Rightarrow> bool" and room :: nat and out :: "'a \<Rightarrow> 'b" and none :: 'b
  assumes put_ok: "holds s xs \<Longrightarrow> valid x \<Longrightarrow> length xs < room \<Longrightarrow> \<exists>s'. put x s = Inr s' \<and> holds s' (xs @ [x])"
    and get_nil: "holds s [] \<Longrightarrow> get s = (none, s)"
    and get_cons: "holds s (x # xs) \<Longrightarrow> \<exists>s'. get s = (out x, s') \<and> holds s' xs"
begin

lemma run_refines:
  assumes "holds s xs" and "fits valid room ops (length xs)"
  shows "\<exists>s'. run_queue put get ops s = Inr (fst (list_queue out none ops xs), s') \<and> holds s' (snd (list_queue out none ops xs))"
  using assms
proof (induction ops arbitrary: s xs)
  case (Cons p ops)
  show ?case
  proof (cases p)
    case (Put x)
    then obtain s1 where "put x s = Inr s1" "holds s1 (xs @ [x])" using put_ok [OF Cons.prems(1)] Cons.prems(2) by auto
    then show ?thesis using Cons.IH [of s1 "xs @ [x]"] Cons.prems(2) by (simp add: Put)
  next
    case Get
    show ?thesis
    proof (cases xs)
      case Nil
      then show ?thesis using get_nil [of s] Cons.IH [of s "[]"] Cons.prems by (auto simp: Get split: prod.split)
    next
      case (Cons y ys)
      then obtain s1 where "get s = (out y, s1)" "holds s1 ys" using get_cons Cons.prems(1) by blast
      then show ?thesis using Cons.IH [of s1 ys] Cons.prems(2) by (auto simp: Get Cons split: prod.split)
    qed
  qed
qed simp

end

end
