(* ===== verification/Native_IOE.thy ===== *)
theory Native_IOE
  imports Nemu_IOE Fifo
begin

text \<open>
  The native platform's devices, \<open>abstract-machine/am/src/native/ioe.c\<close> and \<open>native/ioe/\<close>: the keyboard's ring buffer, audio over a
  pipe, the disk in a file, the serial line, timer and graphics. SDL, the pipe and the C library's files are parameters
  (\<open>nhost\<close>); the dispatch table is that of \<open>platform/nemu/ioe/ioe.c\<close>, a copy of \<open>native/ioe.c\<close>.
\<close>

section \<open>The keyboard\<close>

definition KEYDOWN_MASK :: u32 where "KEYDOWN_MASK = 0x8000"
definition KEY_QUEUE_LEN :: nat where "KEY_QUEUE_LEN = 1024"

record keyq =
  key_queue :: "u32 list"
  key_f :: nat
  key_r :: nat

definition empty_keyq :: keyq where
  "empty_keyq = \<lparr>key_queue = replicate KEY_QUEUE_LEN 0, key_f = 0, key_r = 0\<rparr>"

datatype sdl_event = SDL_QUIT | SDL_KEYDOWN nat | SDL_KEYUP nat | SDL_OTHER   \<comment> \<open>with the scan code\<close>

definition keymap :: "(string \<Rightarrow> nat) \<Rightarrow> nat \<Rightarrow> u32" where
  \<comment> \<open>with the numbers of \<open>SDL_SCANCODE_<key>\<close>\<close>
  "keymap scan i = (case filter (\<lambda>k. scan k = i) AM_KEYS of [] \<Rightarrow> 0 | k # ks \<Rightarrow> of_nat (AM_KEY (last (k # ks))))"

definition enqueue :: "u32 \<Rightarrow> keyq \<Rightarrow> keyq" where
  "enqueue am_code q = q\<lparr>key_queue := (key_queue q)[key_r q := am_code], key_r := (key_r q + 1) mod KEY_QUEUE_LEN\<rparr>"

definition key_event :: "(string \<Rightarrow> nat) \<Rightarrow> nat \<Rightarrow> bool \<Rightarrow> keyq \<Rightarrow> c_error + keyq \<times> bool" where
  \<comment> \<open>the queue, and whether the keyboard's interrupt is sent; \<open>keymap\<close> has 256 entries\<close>
  "key_event scan scancode keydown q =
     (if 256 \<le> scancode then Inl Out_of_bounds
      else if keymap scan scancode \<noteq> 0
      then let am_code = keymap scan scancode OR (if keydown then KEYDOWN_MASK else 0) in Inr (enqueue am_code q, True)
      else Inr (q, False))"

definition event_step :: "(string \<Rightarrow> nat) \<Rightarrow> sdl_event \<Rightarrow> keyq \<Rightarrow> c_error + keyq \<times> bool" where
  \<comment> \<open>one round of \<open>event_thread\<close>\<close>
  "event_step scan ev q = (case ev of
       SDL_QUIT \<Rightarrow> Inl (Exit 0)
     | SDL_KEYDOWN sc \<Rightarrow> key_event scan sc True q
     | SDL_KEYUP sc \<Rightarrow> key_event scan sc False q
     | SDL_OTHER \<Rightarrow> Inr (q, False))"

definition input_config :: bool where "input_config = True"

definition input_keybrd :: "keyq \<Rightarrow> (bool \<times> u32) \<times> keyq" where
  \<comment> \<open>keydown and keycode\<close>
  "input_keybrd q =
     (let (k, q) = (if key_f q \<noteq> key_r q
            then (key_queue q ! key_f q, q\<lparr>key_f := (key_f q + 1) mod KEY_QUEUE_LEN\<rparr>)
            else (of_nat AM_KEY_NONE, q))
      in ((k AND KEYDOWN_MASK \<noteq> 0, k AND NOT KEYDOWN_MASK), q))"

section \<open>State and host\<close>

record 'w nio =
  kbd :: keyq
  pipe_count :: int                  \<comment> \<open>\<open>count\<close> of \<open>audio.c\<close>\<close>
  nmem :: mem
  fp :: "u8 list option"             \<comment> \<open>the contents of the disk image\<close>
  fpos :: nat
  disk_size :: int
  nw :: 'w                           \<comment> \<open>the state of the host\<close>

record 'w nhost =
  scancode :: "string \<Rightarrow> nat"
  h_pipe2 :: "'w \<Rightarrow> bool \<times> 'w"        \<comment> \<open>whether \<open>pipe2\<close> succeeds\<close>
  h_read :: "nat \<Rightarrow> 'w \<Rightarrow> u8 list option \<times> 'w"   \<comment> \<open>\<open>read\<close> of the pipe; \<open>None\<close> is -1\<close>
  h_write :: "u8 list \<Rightarrow> 'w \<Rightarrow> int \<times> 'w"
  h_pipesz :: "'w \<Rightarrow> int"
  h_audio :: "int \<times> int \<times> int \<Rightarrow> 'w \<Rightarrow> bool \<times> 'w"  \<comment> \<open>\<open>SDL_InitSubSystem\<close>, and if it succeeds opening the device\<close>
  h_diskimg :: "u8 list option"      \<comment> \<open>the file that the environment names, if it opens\<close>
  h_fwrite :: "nat \<Rightarrow> nat \<Rightarrow> bool"      \<comment> \<open>whether this many bytes can be written at this offset\<close>
  h_blit :: "int \<times> int \<times> int \<times> int \<times> addr \<Rightarrow> mem \<Rightarrow> 'w \<Rightarrow> 'w"
  h_rtc :: "'w \<Rightarrow> u64 \<times> 'w"
  h_getfl :: "int"
  h_setfl :: "int \<Rightarrow> int"
  h_putchar :: "u8 \<Rightarrow> 'w \<Rightarrow> 'w"
  h_fgetc :: "'w \<Rightarrow> int \<times> 'w"

section \<open>Audio\<close>

definition audio_init :: "'w nhost \<Rightarrow> 'w nio \<Rightarrow> c_error + 'w nio" where
  "audio_init H s = (case h_pipe2 H (nw s) of (b, w) \<Rightarrow> rbind (guard b Assert_fail) (\<lambda>_. Inr (s\<lparr>nw := w\<rparr>)))"

partial_function (option) play_loop :: "'w nhost \<Rightarrow> addr \<Rightarrow> int \<Rightarrow> int \<Rightarrow> 'w nio \<Rightarrow> 'w nio option" where
  \<comment> \<open>with \<open>b\<close> bytes read; every round reads to the start of the stream\<close>
  "play_loop H stream nread b s =
     (if b < nread then
        case h_read H (nat nread) (nw s) of
          (None, w) \<Rightarrow> play_loop H stream nread b (s\<lparr>nw := w\<rparr>)
        | (Some bs, w) \<Rightarrow> play_loop H stream nread (b + int (length bs)) (s\<lparr>nw := w, nmem := write_bytes (nmem s) stream bs\<rparr>)
      else Some s)"

definition audio_play :: "'w nhost \<Rightarrow> addr \<Rightarrow> int \<Rightarrow> 'w nio \<Rightarrow> 'w nio option" where
  \<comment> \<open>the callback of the audio device\<close>
  "audio_play H stream len s =
     (let nread = (if pipe_count s < len then pipe_count s else len) in
      Option.bind (play_loop H stream nread 0 s) (\<lambda>s.
        let s = s\<lparr>pipe_count := pipe_count s - nread\<rparr> in
        Some (if nread < len then s\<lparr>nmem := write_bytes (nmem s) (stream + word_of_int nread) (replicate (nat (len - nread)) 0)\<rparr> else s)))"

partial_function (option) write_loop :: "'w nhost \<Rightarrow> addr \<Rightarrow> int \<Rightarrow> int \<Rightarrow> 'w nio \<Rightarrow> 'w nio option" where
  \<comment> \<open>with \<open>nwrite\<close> bytes written; every round writes the whole buffer\<close>
  "write_loop H buf len nwrite s =
     (if nwrite < len then
        case h_write H (read_bytes (nmem s) buf (nat len)) (nw s) of (n, w) \<Rightarrow>
          let n = (if n = - 1 then 0 else n) in
          write_loop H buf len (nwrite + n) (s\<lparr>nw := w, pipe_count := pipe_count s + n\<rparr>)
      else Some s)"

definition audio_write :: "'w nhost \<Rightarrow> addr \<Rightarrow> int \<Rightarrow> 'w nio \<Rightarrow> 'w nio option" where
  "audio_write H buf len s = write_loop H buf len 0 s"

definition audio_ctrl :: "'w nhost \<Rightarrow> int \<times> int \<times> int \<Rightarrow> 'w nio \<Rightarrow> 'w nio" where
  \<comment> \<open>frequency, channels and samples\<close>
  "audio_ctrl H ctrl s = s\<lparr>pipe_count := 0, nw := snd (h_audio H ctrl (nw s))\<rparr>"

definition audio_status :: "'w nio \<Rightarrow> int" where "audio_status s = pipe_count s"

definition am_audio_play :: "'w nhost \<Rightarrow> Area \<Rightarrow> 'w nio \<Rightarrow> 'w nio option" where
  "am_audio_play H buf s = audio_write H (a_start buf) (sint (ucast (a_end buf - a_start buf) :: u32)) s"

definition audio_config :: "'w nhost \<Rightarrow> 'w nio \<Rightarrow> bool \<times> int" where "audio_config H s = (True, h_pipesz H (nw s))"

section \<open>Disk\<close>

definition BLKSZ :: int where "BLKSZ = 512"

definition disk_init :: "'w nhost \<Rightarrow> 'w nio \<Rightarrow> 'w nio" where
  "disk_init H s = (case h_diskimg H of None \<Rightarrow> s
     | Some img \<Rightarrow> s\<lparr>fp := Some img, disk_size := (int (length img) + 511) div 512, fpos := 0\<rparr>)"

definition disk_config :: "'w nio \<Rightarrow> bool \<times> int \<times> int" where
  "disk_config s = (fp s \<noteq> None, BLKSZ, disk_size s)"

definition disk_status :: bool where "disk_status = True"

definition seek :: "int \<Rightarrow> 'w nio \<Rightarrow> 'w nio" where
  \<comment> \<open>\<open>fseek\<close> to an offset; a negative one fails and leaves the position\<close>
  "seek off s = (if off < 0 then s else s\<lparr>fpos := nat off\<rparr>)"

definition file_read :: "nat \<Rightarrow> addr \<Rightarrow> u8 list \<Rightarrow> 'w nio \<Rightarrow> nat \<times> 'w nio" where
  \<comment> \<open>\<open>fread\<close> of one object of \<open>n\<close> bytes\<close>
  "file_read n buf img s =
     (let bs = take n (drop (fpos s) img) in
      (if 0 < n \<and> length bs = n then 1 else 0, s\<lparr>nmem := write_bytes (nmem s) buf bs, fpos := fpos s + length bs\<rparr>))"

definition file_write :: "'w nhost \<Rightarrow> nat \<Rightarrow> addr \<Rightarrow> u8 list \<Rightarrow> 'w nio \<Rightarrow> nat \<times> 'w nio" where
  \<comment> \<open>\<open>fwrite\<close>, which extends the file with zeros up to the position\<close>
  "file_write H n buf img s =
     (if n = 0 \<or> \<not> h_fwrite H (fpos s) n then (0, s)
      else (1, s\<lparr>fp := Some (take (fpos s) (img @ replicate (fpos s - length img) 0) @ read_bytes (nmem s) buf n @ drop (fpos s + n) img),
                 fpos := fpos s + n\<rparr>))"

definition disk_blkio :: "'w nhost \<Rightarrow> blkio \<Rightarrow> 'w nio \<Rightarrow> c_error + 'w nio" where
  "disk_blkio H io s = (case fp s of None \<Rightarrow> Inr s
     | Some img \<Rightarrow>
        rbind (s32 (sint (bio_blkno io) * BLKSZ)) (\<lambda>off.
        let s = seek off s in
        rbind (s32 (sint (bio_blkcnt io) * BLKSZ)) (\<lambda>n.
        let n = unat (word_of_int n :: u64);
            (ret, s) = (if bio_write io then file_write H n (bio_buf io) img s else file_read n (bio_buf io) img s)
        in rbind (guard (ret = 1) Assert_fail) (\<lambda>_. Inr s))))"

section \<open>The other devices\<close>

definition uart_init :: "'w nhost \<Rightarrow> c_error + unit" where
  \<comment> \<open>\<open>O_NONBLOCK\<close> is 0x800\<close>
  "uart_init H = rbind (guard (h_getfl H \<noteq> - 1) Assert_fail) (\<lambda>_. guard (h_setfl H (or (h_getfl H) 0x800) \<noteq> - 1) Assert_fail)"

definition uart_config :: bool where "uart_config = True"
definition uart_tx :: "'w nhost \<Rightarrow> u8 \<Rightarrow> 'w nio \<Rightarrow> 'w nio" where "uart_tx H data s = s\<lparr>nw := h_putchar H data (nw s)\<rparr>"

definition uart_rx :: "'w nhost \<Rightarrow> 'w nio \<Rightarrow> u8 \<times> 'w nio" where
  \<comment> \<open>\<open>EOF\<close> is -1\<close>
  "uart_rx H s = (case h_fgetc H (nw s) of (ret, w) \<Rightarrow> (word_of_int (if ret = - 1 then - 1 else ret), s\<lparr>nw := w\<rparr>))"

definition timer_uptime :: "'w nhost \<Rightarrow> 'w nio \<Rightarrow> u64 \<times> 'w nio" where
  "timer_uptime H s = (case h_rtc H (nw s) of (t, w) \<Rightarrow> (t, s\<lparr>nw := w\<rparr>))"

definition timer_rtc :: rtc where
  "timer_rtc = \<lparr>year = 1900, month = 0, day = 0, hour = 0, minute = 0, second = 0\<rparr>"

definition gpu_config :: io_buf where
  \<comment> \<open>400 by 300 pixels\<close>
  "gpu_config = Gpu_config True False 400 300 0"

definition gpu_status :: bool where "gpu_status = True"

definition gpu_fbdraw :: "'w nhost \<Rightarrow> fbdraw \<Rightarrow> 'w nio \<Rightarrow> 'w nio" where
  "gpu_fbdraw H ctl s =
     (if fd_w ctl = 0 \<or> fd_h ctl = 0 then s
      else s\<lparr>nw := h_blit H (fd_x ctl, fd_y ctl, fd_w ctl, fd_h ctl, fd_pixels ctl) (nmem s) (nw s)\<rparr>)"

section \<open>Dispatch\<close>

definition run_handler :: "'w nhost \<Rightarrow> handler \<Rightarrow> io_buf \<Rightarrow> 'w nio \<Rightarrow> (c_error + io_buf \<times> 'w nio) option" where
  "run_handler H h buf s = (case h of
       H_timer_config \<Rightarrow> Some (Inr (Timer_config True True, s))
     | H_timer_rtc \<Rightarrow> Some (Inr (Timer_rtc timer_rtc, s))
     | H_timer_uptime \<Rightarrow> (case timer_uptime H s of (us, s) \<Rightarrow> Some (Inr (Timer_uptime us, s)))
     | H_input_config \<Rightarrow> Some (Inr (Input_config True, s))
     | H_input_keybrd \<Rightarrow> (case input_keybrd (kbd s) of ((d, k), q) \<Rightarrow> Some (Inr (Input_keybrd d (unat k), s\<lparr>kbd := q\<rparr>)))
     | H_gpu_config \<Rightarrow> Some (Inr (gpu_config, s))
     | H_gpu_fbdraw \<Rightarrow> (case buf of Gpu_fbdraw ctl \<Rightarrow> Some (Inr (buf, gpu_fbdraw H ctl s)) | _ \<Rightarrow> Some (Inl Bad_va_arg))
     | H_gpu_status \<Rightarrow> Some (Inr (Gpu_status gpu_status, s))
     | H_uart_config \<Rightarrow> Some (Inr (Uart_config False, s))
     | H_audio_config \<Rightarrow> (case audio_config H s of (b, n) \<Rightarrow> Some (Inr (Audio_config b n, s)))
     | H_audio_ctrl \<Rightarrow> (case buf of Audio_ctrl f c n \<Rightarrow> Some (Inr (buf, audio_ctrl H (f, c, n) s)) | _ \<Rightarrow> Some (Inl Bad_va_arg))
     | H_audio_status \<Rightarrow> Some (Inr (Audio_status (audio_status s), s))
     | H_audio_play \<Rightarrow> (case buf of Audio_play a \<Rightarrow> Option.bind (am_audio_play H a s) (\<lambda>s. Some (Inr (buf, s))) | _ \<Rightarrow> Some (Inl Bad_va_arg))
     | H_disk_config \<Rightarrow> (case disk_config s of (b, sz, n) \<Rightarrow> Some (Inr (Disk_config b sz n, s)))
     | H_disk_status \<Rightarrow> Some (Inr (Disk_status disk_status, s))
     | H_disk_blkio \<Rightarrow> (case buf of Disk_blkio io \<Rightarrow> Some (rbind (disk_blkio H io s) (\<lambda>s. Inr (buf, s))) | _ \<Rightarrow> Some (Inl Bad_va_arg))
     | H_net_config \<Rightarrow> Some (Inr (Net_config False, s))
     | H_fail \<Rightarrow> Some (Inl (Panic ''access nonexist register'')))"

definition ioe_init :: "'w nhost \<Rightarrow> ('w nio \<Rightarrow> 'w nio) \<Rightarrow> (nat \<Rightarrow> handler option) \<Rightarrow> 'w nio \<Rightarrow> c_error + bool \<times> (nat \<Rightarrow> handler option) \<times> 'w nio" where
  \<comment> \<open>with the initialisation of graphics; the one of the timer does nothing\<close>
  "ioe_init H window_init tab s = rbind (audio_init H (window_init s)) (\<lambda>s. Inr (True, fill_table tab H_fail, s))"

definition ioe_access :: "'w nhost \<Rightarrow> (nat \<Rightarrow> handler option) \<Rightarrow> nat \<Rightarrow> io_buf \<Rightarrow> 'w nio \<Rightarrow> (c_error + io_buf \<times> 'w nio) option" where
  "ioe_access H = table_access (run_handler H)"


section \<open>The devices have the types of their registers\<close>

lemma disk_blkio_errors: "disk_blkio H io s = Inl e \<Longrightarrow> e \<in> {Assert_fail, Int_overflow}"
  by (auto simp: disk_blkio_def rbind_def guard_def s32_def Let_def split: option.splits sum.splits if_splits prod.splits)

interpretation native_devices: device_table lut H_fail "run_handler H" "{Assert_fail, Int_overflow}" "\<lambda>reg. reg" for H
proof
  show "typed_access {Assert_fail, Int_overflow} reg (run_handler H h buf s)" if l: "lut reg = Some h" and b: "reg_buf reg buf" for reg h buf s
  proof (cases "h = H_disk_blkio")
    case True
    then obtain io where io: "buf = Disk_blkio io" using b unfolding lut_reg [OF l] by auto
    show ?thesis
    proof (cases "disk_blkio H io s")
      case (Inl e)
      then show ?thesis using disk_blkio_errors [OF Inl] by (auto simp: run_handler_def True io)
    qed (use b in \<open>simp add: run_handler_def True io\<close>)
  next
    case False
    then show ?thesis
      using b unfolding lut_reg [OF l]
      by (cases h) (auto simp: run_handler_def typed_access_def gpu_config_def lut_reg [OF l] simp del: reg_buf_def split: prod.split bind_splits)
  qed
  show "run_handler H H_fail buf s = Some (Inl (Panic ''access nonexist register''))" for buf s
    by (simp add: run_handler_def)
qed

section \<open>The keyboard is a queue\<close>

definition scan_codes :: "(string \<Rightarrow> nat) \<Rightarrow> bool" where
  \<comment> \<open>different keys have different scan codes below 256\<close>
  "scan_codes scan \<longleftrightarrow> inj_on scan (set AM_KEYS) \<and> (\<forall>k \<in> set AM_KEYS. scan k < 256)"

lemma keymap_scan: "scan_codes scan \<Longrightarrow> k \<in> set AM_KEYS \<Longrightarrow> keymap scan (scan k) = of_nat (AM_KEY k)"
proof -
  assume s: "scan_codes scan" and k: "k \<in> set AM_KEYS"
  then have "set (filter (\<lambda>l. scan l = scan k) AM_KEYS) = {k}" by (auto simp: scan_codes_def inj_on_def)
  then obtain l ls where f: "filter (\<lambda>l. scan l = scan k) AM_KEYS = l # ls" "last (l # ls) = k"
    by (metis empty_not_insert last_in_set list.set(1) neq_Nil_conv singletonD)
  then show ?thesis by (simp add: keymap_def)
qed

definition key_code :: "string \<times> bool \<Rightarrow> u32" where
  \<comment> \<open>a key and whether it is pressed, in the queue\<close>
  "key_code x = of_nat (AM_KEY (fst x)) OR (if snd x then KEYDOWN_MASK else 0)"

definition key_out :: "string \<times> bool \<Rightarrow> bool \<times> u32" where "key_out x = (snd x, of_nat (AM_KEY (fst x)))"

lemma bit_KEYDOWN_MASK: "bit KEYDOWN_MASK n \<longleftrightarrow> n = 15"
proof -
  have "KEYDOWN_MASK = 2 ^ 15" by (simp add: KEYDOWN_MASK_def)
  moreover have "bit (2 ^ 15 :: u32) n \<longleftrightarrow> n = 15" unfolding bit_exp_iff by auto
  ultimately show ?thesis by simp
qed

lemma key_code_fields:
  assumes "fst x \<in> set AM_KEYS"
  shows "key_code x AND KEYDOWN_MASK \<noteq> 0 \<longleftrightarrow> snd x" and "key_code x AND NOT KEYDOWN_MASK = of_nat (AM_KEY (fst x))"
proof -
  let ?c = "of_nat (AM_KEY (fst x)) :: u32"
  have "take_bit 8 (AM_KEY (fst x)) = AM_KEY (fst x)" using AM_KEY_le [OF assms] by (simp add: take_bit_nat_eq_self)
  then have b: "bit (AM_KEY (fst x)) n \<Longrightarrow> n < 8" for n by (metis bit_take_bit_iff)
  show "key_code x AND NOT KEYDOWN_MASK = ?c"
    unfolding key_code_def by (rule bit_word_eqI) (auto simp: bit_simps bit_KEYDOWN_MASK dest: b)
  have "bit (key_code x AND KEYDOWN_MASK) 15 \<longleftrightarrow> snd x"
    by (auto simp: key_code_def bit_simps bit_KEYDOWN_MASK dest: b)
  moreover have "key_code x AND KEYDOWN_MASK = 0" if "\<not> snd x"
    using that by (intro bit_word_eqI) (auto simp: key_code_def bit_simps bit_KEYDOWN_MASK dest: b)
  ultimately show "key_code x AND KEYDOWN_MASK \<noteq> 0 \<longleftrightarrow> snd x" by auto
qed

definition holds :: "keyq \<Rightarrow> (string \<times> bool) list \<Rightarrow> bool" where
  \<comment> \<open>the events that wait in the ring\<close>
  "holds q xs \<longleftrightarrow> length (key_queue q) = KEY_QUEUE_LEN \<and> key_f q < KEY_QUEUE_LEN \<and> length xs < KEY_QUEUE_LEN \<and>
     key_r q = (key_f q + length xs) mod KEY_QUEUE_LEN \<and>
     (\<forall>i < length xs. fst (xs ! i) \<in> set AM_KEYS \<and> key_queue q ! ((key_f q + i) mod KEY_QUEUE_LEN) = key_code (xs ! i))"

lemma ring_diff:
  assumes "f < n" and "i < n" and "j < n" and "(f + i) mod n = (f + j) mod (n :: nat)"
  shows "i = j"
proof -
  have "(f + k) mod n = (if f + k < n then f + k else f + k - n)" if "k < n" for k
    using that assms(1) by (simp add: mod_if)
  then show ?thesis using assms by (auto split: if_splits)
qed


definition press :: "(string \<Rightarrow> nat) \<Rightarrow> string \<times> bool \<Rightarrow> keyq \<Rightarrow> c_error + keyq" where
  \<comment> \<open>the event thread on the event of a key\<close>
  "press scan x q = rbind (event_step scan (if snd x then SDL_KEYDOWN (scan (fst x)) else SDL_KEYUP (scan (fst x))) q) (\<lambda>(q, _). Inr q)"

lemma press_run:
  assumes "scan_codes scan" and "fst x \<in> set AM_KEYS"
  shows "press scan x q = Inr (enqueue (key_code x) q)"
proof -
  have "scan (fst x) < 256" using assms by (simp add: scan_codes_def)
  moreover have "(of_nat (AM_KEY (fst x)) :: u32) \<noteq> 0"
  proof -
    have "unat (of_nat (AM_KEY (fst x)) :: u32) = AM_KEY (fst x)"
      using AM_KEY_le [OF assms(2)] by (simp add: unsigned_of_nat take_bit_nat_eq_self)
    then show ?thesis by (auto simp: AM_KEY_def)
  qed
  ultimately show ?thesis
    using assms by (simp add: press_def event_step_def key_event_def keymap_scan key_code_def Let_def)
qed

lemma holds_enqueue:
  assumes "holds q xs" and "fst x \<in> set AM_KEYS" and "length xs < KEY_QUEUE_LEN - 1"
  shows "holds (enqueue (key_code x) q) (xs @ [x])"
proof -
  note h = assms(1) [unfolded holds_def]
  have r: "(key_f q + i) mod KEY_QUEUE_LEN \<noteq> (key_f q + length xs) mod KEY_QUEUE_LEN" if "i < length xs" for i
    using ring_diff [of "key_f q" KEY_QUEUE_LEN i "length xs"] that h by auto
  have "(key_f q + length xs) mod KEY_QUEUE_LEN < length (key_queue q)" using h by (simp add: KEY_QUEUE_LEN_def)
  then have "key_queue (enqueue (key_code x) q) ! ((key_f q + i) mod KEY_QUEUE_LEN) = key_code ((xs @ [x]) ! i)" if "i < length (xs @ [x])" for i
    using that h r [of i] by (cases "i = length xs") (auto simp: enqueue_def nth_append nth_list_update)
  moreover have "fst ((xs @ [x]) ! i) \<in> set AM_KEYS" if "i < length (xs @ [x])" for i
    using that h assms(2) by (cases "i = length xs") (auto simp: nth_append)
  ultimately show ?thesis
    using h assms(3) unfolding holds_def by (simp add: enqueue_def mod_Suc_eq)
qed

lemma input_keybrd_nil: "holds q [] \<Longrightarrow> input_keybrd q = ((False, 0), q)"
  by (auto simp: holds_def input_keybrd_def AM_KEY_NONE_def)

lemma input_keybrd_cons:
  assumes "holds q (x # xs)"
  shows "\<exists>q'. input_keybrd q = (key_out x, q') \<and> holds q' xs"
proof -
  note h = assms [unfolded holds_def]
  have ne: "key_f q \<noteq> key_r q"
    using ring_diff [of "key_f q" KEY_QUEUE_LEN 0 "length (x # xs)"] h by auto
  have k: "key_queue q ! key_f q = key_code x" "fst x \<in> set AM_KEYS"
    using h by (auto dest!: spec [of _ 0])
  let ?q = "q\<lparr>key_f := (key_f q + 1) mod KEY_QUEUE_LEN\<rparr>"
  have "holds ?q xs"
    unfolding holds_def
  proof (intro conjI allI impI)
    show "key_f ?q < KEY_QUEUE_LEN" by (simp add: KEY_QUEUE_LEN_def)
    show "key_r ?q = (key_f ?q + length xs) mod KEY_QUEUE_LEN" using h by (simp add: mod_add_left_eq)
    fix i assume "i < length xs"
    then have "Suc i < length (x # xs)" by simp
    then have "fst ((x # xs) ! Suc i) \<in> set AM_KEYS \<and> key_queue q ! ((key_f q + Suc i) mod KEY_QUEUE_LEN) = key_code ((x # xs) ! Suc i)"
      using h by blast
    then show "fst (xs ! i) \<in> set AM_KEYS" "key_queue ?q ! ((key_f ?q + i) mod KEY_QUEUE_LEN) = key_code (xs ! i)"
      by (simp_all add: mod_add_left_eq)
  qed (use h in auto)
  moreover have "input_keybrd q = (key_out x, ?q)"
    using ne k key_code_fields [OF k(2)] by (simp add: input_keybrd_def key_out_def)
  ultimately show ?thesis by blast
qed

interpretation keyboard: fifo "press scan" input_keybrd holds "\<lambda>x. scan_codes scan \<and> fst x \<in> set AM_KEYS" "KEY_QUEUE_LEN - 1" key_out "(False, 0)" for scan
  by unfold_locales (use press_run holds_enqueue input_keybrd_nil input_keybrd_cons in auto)

lemma holds_empty: "holds empty_keyq []"
  by (simp add: holds_def empty_keyq_def KEY_QUEUE_LEN_def)

text \<open>C28: The native keyboard is a queue: for any interleaving of key events and reads with at most 1023 events waiting at any time, the
  reads return the events in order, each once, with the key's code and whether it was pressed, and no key when none waits.\<close>

theorem keyboard_fifo:
  assumes "fits (\<lambda>x. scan_codes scan \<and> fst x \<in> set AM_KEYS) 1023 ops 0"
  shows "\<exists>q. run_queue (press scan) input_keybrd ops empty_keyq =
    Inr (fst (list_queue (\<lambda>(k, down). (down, of_nat (AM_KEY k))) (False, of_nat AM_KEY_NONE) ops []), q)"
proof -
  have "fits (\<lambda>x. scan_codes scan \<and> fst x \<in> set AM_KEYS) (KEY_QUEUE_LEN - 1) ops (length ([] :: (string \<times> bool) list))"
    using assms by (simp add: KEY_QUEUE_LEN_def)
  from keyboard.run_refines [OF holds_empty this] have "\<exists>q. run_queue (press scan) input_keybrd ops empty_keyq =
      Inr (fst (list_queue key_out (False, 0) ops []), q)" by blast
  moreover have "key_out = (\<lambda>(k, down). (down, of_nat (AM_KEY k)))" by (auto simp: key_out_def)
  ultimately show ?thesis by (simp add: AM_KEY_NONE_def)
qed

definition demo_scan :: "string \<Rightarrow> nat" where "demo_scan k = position k AM_KEYS"

lemma demo_scan_codes: "scan_codes demo_scan"
proof -
  have "inj_on demo_scan (set AM_KEYS)" by (rule inj_onI) (metis demo_scan_def position_nth)
  moreover have "demo_scan k < 256" if "k \<in> set AM_KEYS" for k
    using position_nth [OF that] by (simp add: demo_scan_def AM_KEYS_def)
  ultimately show ?thesis by (simp add: scan_codes_def)
qed

lemma keyboard_fifo_witness:
  "\<exists>q. run_queue (press demo_scan) input_keybrd [Put (''A'', True), Get, Put (''A'', False), Put (''B'', True), Get, Get, Get] empty_keyq =
    Inr ([(True, 43), (False, 43), (True, 60), (False, 0)], q)"
proof -
  have k: "AM_KEY ''A'' = 43" "AM_KEY ''B'' = 60" by (simp_all add: AM_KEY_def AM_KEYS_def)
  have "fits (\<lambda>x. scan_codes demo_scan \<and> fst x \<in> set AM_KEYS) 1023
      [Put (''A'', True), Get, Put (''A'', False), Put (''B'', True), Get, Get, Get] 0"
    by (simp add: demo_scan_codes AM_KEYS_def)
  from keyboard_fifo [OF this] show ?thesis by (simp add: k AM_KEY_NONE_def)
qed

lemma keyboard_overflow:
  assumes "scan_codes scan" and "holds q xs" and "length xs = 1023" and "fst x \<in> set AM_KEYS"
  shows "\<exists>q'. press scan x q = Inr q' \<and> input_keybrd q' = ((False, 0), q')"
proof -
  note h = assms(2) [unfolded holds_def]
  have "key_r (enqueue (key_code x) q) = key_f q"
  proof -
    have "key_r (enqueue (key_code x) q) = (key_f q + (length xs + 1)) mod KEY_QUEUE_LEN"
      using h by (simp add: enqueue_def mod_Suc_eq)
    then show ?thesis using h assms(3) by (simp add: KEY_QUEUE_LEN_def)
  qed
  then show ?thesis
    by (simp add: press_run [OF assms(1,4)] input_keybrd_def AM_KEY_NONE_def) (simp add: enqueue_def)
qed


section \<open>Audio\<close>

definition pipe_host :: "'w nhost \<Rightarrow> nat \<Rightarrow> ('w \<Rightarrow> u8 list) \<Rightarrow> bool" where
  \<comment> \<open>a pipe of this capacity: a write that fits is complete, a read takes what there is up to its size\<close>
  "pipe_host H cap content \<longleftrightarrow>
     (\<forall>bs w. length (content w) + length bs \<le> cap \<longrightarrow> (\<exists>w'. h_write H bs w = (int (length bs), w') \<and> content w' = content w @ bs)) \<and>
     (\<forall>n w. 0 < n \<longrightarrow> content w \<noteq> [] \<longrightarrow>
       (\<exists>w'. h_read H n w = (Some (take n (content w)), w') \<and> content w' = drop n (content w)))"

lemma audio_write_run:
  assumes "pipe_host H cap content" and "length (content (nw s)) + n \<le> cap"
  shows "\<exists>w'. audio_write H buf (int n) s = Some (s\<lparr>nw := w', pipe_count := pipe_count s + int n\<rparr>) \<and>
    content w' = content (nw s) @ read_bytes (nmem s) buf n"
proof (cases "n = 0")
  case True
  have "s\<lparr>nw := nw s, pipe_count := pipe_count s + int 0\<rparr> = s" by simp
  then show ?thesis unfolding audio_write_def by (subst write_loop.simps) (auto simp: True intro!: exI [of _ "nw s"])
next
  case False
  obtain w' where w: "h_write H (read_bytes (nmem s) buf n) (nw s) = (int n, w')" "content w' = content (nw s) @ read_bytes (nmem s) buf n"
    using assms unfolding pipe_host_def by (metis length_read_bytes)
  have "audio_write H buf (int n) s = write_loop H buf (int n) (int n) (s\<lparr>nw := w', pipe_count := pipe_count s + int n\<rparr>)"
    unfolding audio_write_def by (subst write_loop.simps) (simp add: False w(1) Let_def)
  then show ?thesis using w(2) by (subst (asm) write_loop.simps) auto
qed

lemma audio_play_run:
  assumes "pipe_host H cap content" and "pipe_count s = int (length (content (nw s)))" and "len < 2 ^ 31"
  shows "\<exists>s'. audio_play H stream (int len) s = Some s' \<and>
    nmem s' = write_bytes (nmem s) stream (take len (content (nw s)) @ replicate (len - length (content (nw s))) 0) \<and>
    content (nw s') = drop len (content (nw s)) \<and> pipe_count s' = int (length (content (nw s')))"
proof -
  let ?c = "content (nw s)"
  define k where "k = min len (length ?c)"
  have nr: "(if pipe_count s < int len then pipe_count s else int len) = int k" using assms(2) by (simp add: k_def min_def)
  obtain w' where w: "play_loop H stream (int k) 0 s = Some (s\<lparr>nw := w', nmem := write_bytes (nmem s) stream (take k ?c)\<rparr>)"
    "content w' = drop k ?c"
  proof (cases "k = 0")
    case True
    have "play_loop H stream (int k) 0 s = Some s" by (subst play_loop.simps) (simp add: True)
    then show ?thesis using that [of "nw s"] by (simp add: True)
  next
    case False
    then have "0 < k" "?c \<noteq> []" by (auto simp: k_def)
    then obtain w' where w: "h_read H k (nw s) = (Some (take k ?c), w')" "content w' = drop k ?c"
      using assms(1) unfolding pipe_host_def by blast
    have l: "length (take k ?c) = k" by (simp add: k_def)
    have "play_loop H stream (int k) 0 s = play_loop H stream (int k) (int k) (s\<lparr>nw := w', nmem := write_bytes (nmem s) stream (take k ?c)\<rparr>)"
      using l by (subst play_loop.simps) (simp add: False w(1) del: length_take)
    also have "\<dots> = Some (s\<lparr>nw := w', nmem := write_bytes (nmem s) stream (take k ?c)\<rparr>)" by (subst play_loop.simps) simp
    finally show ?thesis using that w(2) by blast
  qed
  have d: "drop k ?c = drop len ?c" "take k ?c = take len ?c" by (auto simp: k_def min_def)
  have z: "write_bytes (write_bytes m stream (take len ?c)) (stream + word_of_int (int k)) (replicate (len - k) 0) =
    write_bytes m stream (take len ?c @ replicate (len - length ?c) 0)" if "k < len" for m
  proof -
    have kk: "k = length (take len ?c)" "len - k = len - length ?c" using that by (auto simp: k_def)
    have "length (take len ?c) + (len - length ?c) < 2 ^ 64" using assms(3) that by (simp add: k_def)
    then show ?thesis using write_bytes_append [of "take len ?c" "replicate (len - length ?c) 0" m stream] kk by simp
  qed
  show ?thesis
  proof (cases "k < len")
    case True
    then show ?thesis
      using w assms(2) z [OF True, of "nmem s"] unfolding audio_play_def nr Let_def d
      by (simp add: nat_diff_distrib d) (auto simp: k_def)
  next
    case False
    then have "len \<le> length ?c" by (simp add: k_def min_def split: if_splits)
    then show ?thesis using w assms(2) False unfolding audio_play_def nr Let_def d by (simp add: d) (simp add: k_def)
  qed
qed

text \<open>C34: Native audio: with a pipe that takes the samples at once, what is played is queued behind the samples that wait, and the device's
  callback gets the waiting samples in order, then silence; the count of waiting bytes is right after both.\<close>

theorem audio_roundtrip:
  assumes "pipe_host H cap content" and "pipe_count s = int (length (content (nw s)))" and "length (content (nw s)) + n \<le> cap" and "len < 2 ^ 31"
  shows "\<exists>s1 s2. audio_write H buf (int n) s = Some s1 \<and> audio_play H stream (int len) s1 = Some s2 \<and>
    (let q = content (nw s) @ read_bytes (nmem s) buf n in
     nmem s2 = write_bytes (nmem s) stream (take len q @ replicate (len - length q) 0) \<and>
     content (nw s2) = drop len q \<and> pipe_count s2 = int (length (drop len q)))"
proof -
  obtain w where w: "audio_write H buf (int n) s = Some (s\<lparr>nw := w, pipe_count := pipe_count s + int n\<rparr>)"
    "content w = content (nw s) @ read_bytes (nmem s) buf n"
    using audio_write_run [OF assms(1,3)] by blast
  let ?s = "s\<lparr>nw := w, pipe_count := pipe_count s + int n\<rparr>"
  have "pipe_count ?s = int (length (content (nw ?s)))" using assms(2) w(2) by simp
  from audio_play_run [OF assms(1) this assms(4), of stream] w show ?thesis by (auto simp: Let_def)
qed

lemma audio_write_split:
  assumes "h_write H (read_bytes (nmem s) buf n) (nw s) = (int k, w1)" and "h_write H (read_bytes (nmem s) buf n) w1 = (int n, w2)"
    and "k < n"
  shows "audio_write H buf (int n) s = Some (s\<lparr>nw := w2, pipe_count := pipe_count s + int k + int n\<rparr>)"
  unfolding audio_write_def
  using assms by (subst write_loop.simps, simp add: Let_def, subst write_loop.simps, simp add: Let_def, subst write_loop.simps, simp)


definition demo_nhost :: "u8 list \<Rightarrow> u8 list nhost" where
  \<comment> \<open>the state is the contents of the pipe, which takes 65536 bytes\<close>
  "demo_nhost img = \<lparr>scancode = demo_scan, h_pipe2 = (\<lambda>w. (True, w)),
     h_read = (\<lambda>n w. (if w = [] then None else Some (take n w), drop n w)),
     h_write = (\<lambda>bs w. if length w + length bs \<le> 65536 then (int (length bs), w @ bs) else (- 1, w)), h_pipesz = (\<lambda>_. 65536),
     h_audio = (\<lambda>_ w. (True, w)), h_diskimg = Some img, h_fwrite = (\<lambda>_ _. True), h_blit = (\<lambda>_ _ w. w), h_rtc = (\<lambda>w. (0, w)),
     h_getfl = 0, h_setfl = (\<lambda>_. 0), h_putchar = (\<lambda>_ w. w), h_fgetc = (\<lambda>w. (- 1, w))\<rparr>"

definition demo_nio :: "mem \<Rightarrow> u8 list nio" where
  "demo_nio m = \<lparr>kbd = empty_keyq, pipe_count = 0, nmem = m, fp = None, fpos = 0, disk_size = 0, nw = []\<rparr>"

lemma demo_pipe: "pipe_host (demo_nhost img) 65536 id"
  by (auto simp: pipe_host_def demo_nhost_def)

lemma audio_roundtrip_witness:
  "\<exists>s1 s2. audio_write (demo_nhost []) 0x1000 (int 4) (demo_nio ucast) = Some s1 \<and> audio_play (demo_nhost []) 0x2000 (int 6) s1 = Some s2 \<and>
    nmem s2 = write_bytes ucast 0x2000 [0, 1, 2, 3, 0, 0]"
proof -
  have r: "read_bytes ucast 0x1000 4 = [0, 1, 2, 3 :: u8]" by (simp add: c_simps)
  have "\<exists>s1 s2. audio_write (demo_nhost []) 0x1000 (int 4) (demo_nio ucast) = Some s1 \<and> audio_play (demo_nhost []) 0x2000 (int 6) s1 = Some s2 \<and>
    (let q = id (nw (demo_nio ucast)) @ read_bytes (nmem (demo_nio ucast)) 0x1000 4 in
     nmem s2 = write_bytes (nmem (demo_nio ucast)) 0x2000 (take 6 q @ replicate (6 - length q) 0) \<and>
     id (nw s2) = drop 6 q \<and> pipe_count s2 = int (length (drop 6 q)))"
    by (rule audio_roundtrip [OF demo_pipe]) (simp_all add: demo_nio_def)
  then show ?thesis by (simp add: demo_nio_def r numeral_2_eq_2) blast
qed

section \<open>Disk\<close>

lemma block_offset:
  assumes "n * 512 < 2 ^ 31"
  shows "s32 (sint (of_nat n :: u32) * BLKSZ) = Inr (int (n * 512))"
proof -
  have "sint (of_nat n :: u32) = int n"
    using assms by (simp add: signed_of_nat signed_take_bit_int_eq_self)
  then show ?thesis using assms by (simp add: BLKSZ_def s32_def in_s32_iff)
qed

lemma last_block:
  fixes k len :: nat
  assumes "int k \<le> (int len + 511) div 512"
  shows "k * 512 \<le> len \<longleftrightarrow> len mod 512 = 0 \<or> int k < (int len + 511) div 512"
proof -
  define q r where "q = len div 512" and "r = len mod 512"
  have len: "len = q * 512 + r" "r < 512" by (simp_all add: q_def r_def)
  have "(int len + 511) div 512 = int q + (int r + 511) div 512" unfolding len by simp
  also have "(int r + 511) div 512 = (if r = 0 then 0 else 1)"
  proof (cases "r = 0")
    case False
    then have "(int r + 511) div 512 = 1" using len(2) by (intro int_div_pos_eq [where r = "int r - 1"]) simp_all
    then show ?thesis using False by simp
  qed simp
  finally have d: "(int len + 511) div 512 = int q + (if r = 0 then 0 else 1)" .
  show ?thesis
  proof (cases "r = 0")
    case False
    then have "k \<le> q + 1" using assms unfolding d by simp
    moreover have "k * 512 \<le> len \<longleftrightarrow> k \<le> q"
    proof
      assume "k * 512 \<le> len"
      then have "k * 512 < (q + 1) * 512" using len by simp
      then show "k \<le> q" by simp
    qed (use len in simp)
    ultimately show ?thesis using False unfolding d r_def by auto
  next
    case True
    then have "k \<le> q" "len = q * 512" using assms len(1) unfolding d by simp_all
    then show ?thesis using True by (simp add: r_def)
  qed
qed

lemma unat_of_size: "n < 2 ^ 31 \<Longrightarrow> unat (word_of_int (int n) :: u64) = n"
  by (simp add: unsigned_of_nat take_bit_nat_eq_self)

lemma disk_read_run:
  assumes "fp s = Some img" and "0 < c" and "(b + c) * 512 < 2 ^ 31"
    and "io = \<lparr>bio_write = False, bio_buf = buf, bio_blkno = of_nat b, bio_blkcnt = of_nat c\<rparr>"
  shows "disk_blkio H io s = (if (b + c) * 512 \<le> length img
    then Inr (s\<lparr>nmem := write_bytes (nmem s) buf (take (c * 512) (drop (b * 512) img)), fpos := (b + c) * 512\<rparr>)
    else Inl Assert_fail)"
proof -
  have b: "b * 512 < 2 ^ 31" and c: "c * 512 < 2 ^ 31" using assms(3) by simp_all
  have u: "unat (word_of_int (int (c * 512)) :: u64) = c * 512" by (rule unat_of_size [OF c])
  have nb: "nat (int b * 512) = b * 512" by simp
  have l: "length (take (c * 512) (drop (b * 512) img)) = c * 512 \<longleftrightarrow> (b + c) * 512 \<le> length img"
    using assms(2) by auto
  show ?thesis
    using l assms(1,2) unfolding disk_blkio_def assms(4)
    by (simp only: block_offset [OF b] block_offset [OF c] blkio.select_convs option.case rbind_simps Let_def u if_False seek_def file_read_def)
      (use nb in \<open>auto simp: guard_def algebra_simps\<close>)
qed

lemma disk_write_run:
  assumes "fp s = Some img" and "0 < c" and "(b + c) * 512 < 2 ^ 31" and "h_fwrite H (b * 512) (c * 512)" and "b * 512 \<le> length img"
    and "io = \<lparr>bio_write = True, bio_buf = buf, bio_blkno = of_nat b, bio_blkcnt = of_nat c\<rparr>"
  shows "disk_blkio H io s = Inr (s\<lparr>fp := Some (take (b * 512) img @ read_bytes (nmem s) buf (c * 512) @ drop ((b + c) * 512) img),
    fpos := (b + c) * 512\<rparr>)"
proof -
  have b: "b * 512 < 2 ^ 31" and c: "c * 512 < 2 ^ 31" using assms(3) by simp_all
  have u: "unat (word_of_int (int (c * 512)) :: u64) = c * 512" by (rule unat_of_size [OF c])
  have nb: "nat (int b * 512) = b * 512" by simp
  show ?thesis
    using assms(1,2,4,5) unfolding disk_blkio_def assms(6)
    by (simp only: block_offset [OF b] block_offset [OF c] blkio.select_convs option.case rbind_simps Let_def u if_True seek_def file_write_def)
      (use nb in \<open>auto simp: guard_def algebra_simps\<close>)
qed

text \<open>C35: The native disk: within the size that \<open>disk_config\<close> reports, a read of blocks transfers exactly those bytes of the image, except that the
  last block of an image whose length is not a multiple of 512 is reported but stops the program when it is read; a read
  after a write of the same blocks returns what was written.\<close>

theorem native_disk:
  assumes "disk_init H s0 = s" and "h_diskimg H = Some img" and "0 < c" and "(b + c) * 512 < 2 ^ 31"
    and "int (b + c) \<le> snd (snd (disk_config s))"
  shows "disk_blkio H \<lparr>bio_write = False, bio_buf = buf, bio_blkno = of_nat b, bio_blkcnt = of_nat c\<rparr> s =
      (if length img mod 512 = 0 \<or> int (b + c) < snd (snd (disk_config s))
       then Inr (s\<lparr>nmem := write_bytes (nmem s) buf (take (c * 512) (drop (b * 512) img)), fpos := (b + c) * 512\<rparr>)
       else Inl Assert_fail) \<and>
    (h_fwrite H (b * 512) (c * 512) \<longrightarrow> (\<exists>s1 s2.
      disk_blkio H \<lparr>bio_write = True, bio_buf = buf, bio_blkno = of_nat b, bio_blkcnt = of_nat c\<rparr> s = Inr s1 \<and>
      disk_blkio H \<lparr>bio_write = False, bio_buf = buf2, bio_blkno = of_nat b, bio_blkcnt = of_nat c\<rparr> s1 = Inr s2 \<and>
      nmem s2 = write_bytes (nmem s) buf2 (read_bytes (nmem s) buf (c * 512))))"
proof (intro conjI impI)
  have s: "fp s = Some img" and sz: "snd (snd (disk_config s)) = (int (length img) + 511) div 512"
    using assms(1,2) by (auto simp: disk_init_def disk_config_def)
  have "(b + c) * 512 \<le> length img \<longleftrightarrow> length img mod 512 = 0 \<or> int (b + c) < (int (length img) + 511) div 512"
    using last_block [of "b + c" "length img"] assms(5) unfolding sz by simp
  then show "disk_blkio H \<lparr>bio_write = False, bio_buf = buf, bio_blkno = of_nat b, bio_blkcnt = of_nat c\<rparr> s =
      (if length img mod 512 = 0 \<or> int (b + c) < snd (snd (disk_config s))
       then Inr (s\<lparr>nmem := write_bytes (nmem s) buf (take (c * 512) (drop (b * 512) img)), fpos := (b + c) * 512\<rparr>)
       else Inl Assert_fail)"
    unfolding sz disk_read_run [OF s assms(3,4) refl] by simp
  assume w: "h_fwrite H (b * 512) (c * 512)"
  have bl: "b * 512 \<le> length img" using assms(3,5) unfolding sz by linarith
  let ?d = "read_bytes (nmem s) buf (c * 512)"
  let ?img = "take (b * 512) img @ ?d @ drop ((b + c) * 512) img"
  let ?s = "s\<lparr>fp := Some ?img, fpos := (b + c) * 512\<rparr>"
  have 1: "disk_blkio H \<lparr>bio_write = True, bio_buf = buf, bio_blkno = of_nat b, bio_blkcnt = of_nat c\<rparr> s = Inr ?s"
    by (rule disk_write_run [OF s assms(3,4) w bl refl])
  have "fp ?s = Some ?img" by simp
  note r = disk_read_run [OF this assms(3,4) refl, of H buf2]
  have "(b + c) * 512 \<le> length ?img" using bl by simp
  moreover have "take (c * 512) (drop (b * 512) ?img) = ?d" using bl by simp
  ultimately show "\<exists>s1 s2.
      disk_blkio H \<lparr>bio_write = True, bio_buf = buf, bio_blkno = of_nat b, bio_blkcnt = of_nat c\<rparr> s = Inr s1 \<and>
      disk_blkio H \<lparr>bio_write = False, bio_buf = buf2, bio_blkno = of_nat b, bio_blkcnt = of_nat c\<rparr> s1 = Inr s2 \<and>
      nmem s2 = write_bytes (nmem s) buf2 ?d"
    using 1 r by auto
qed


lemma native_disk_witness:
  "disk_blkio (demo_nhost (replicate 1000 7)) \<lparr>bio_write = False, bio_buf = 0x2000, bio_blkno = of_nat 1, bio_blkcnt = of_nat 1\<rparr>
    (disk_init (demo_nhost (replicate 1000 7)) (demo_nio (\<lambda>_. 0))) = Inl Assert_fail"
proof -
  let ?H = "demo_nhost (replicate 1000 7)"
  have c: "snd (snd (disk_config (disk_init ?H (demo_nio (\<lambda>_. 0))))) = 2"
    by (simp add: disk_init_def disk_config_def demo_nhost_def)
  have "h_diskimg ?H = Some (replicate 1000 7)" by (simp add: demo_nhost_def)
  from native_disk [OF refl this, of 1 1 "demo_nio (\<lambda>_. 0)" "0x2000"] show ?thesis unfolding c by simp
qed

end
