(* ===== verification/Nemu_CTE.thy ===== *)
theory Nemu_CTE
  imports X86_Trap
begin

text \<open>
  Traps of the small processors under \<open>abstract-machine/am/src\<close>: \<open>riscv/nemu/cte.c\<close> and \<open>riscv/npc/cte.c\<close> with their
  \<open>trap.S\<close>, \<open>x86/nemu/cte.c\<close>, \<open>mips/nemu/cte.c\<close>, and what compiles of \<open>loongarch/nemu/cte.c\<close>. A context is
  an address; the memory behind it and the operating system are the state \<open>'s\<close> that the user's handler may change.
\<close>

section \<open>The handler in C\<close>

type_synonym 's handler = "Event \<Rightarrow> addr \<Rightarrow> 's \<Rightarrow> addr \<times> 's"

definition error_event :: Event where
  \<comment> \<open>\<open>Event ev = {0}\<close> after a \<open>switch\<close> that has a default only\<close>
  "error_event = \<lparr>event = EVENT_ERROR, cause = 0, ref = 0, msg = []\<rparr>"

definition call_user :: "'s handler option \<Rightarrow> Event \<Rightarrow> addr \<Rightarrow> 's \<Rightarrow> c_error + addr \<times> 's" where
  \<comment> \<open>the assertion that the handler returns a context\<close>
  "call_user uh ev c s =
     (case uh of
        None \<Rightarrow> Inr (c, s)
      | Some h \<Rightarrow> (case h ev c s of (c, s) \<Rightarrow> rbind (guard (c \<noteq> 0) Assert_fail) (\<lambda>_. Inr (c, s))))"

definition riscv_irq_handle :: "'s handler option \<Rightarrow> u64 \<Rightarrow> addr \<Rightarrow> 's \<Rightarrow> c_error + addr \<times> 's" where
  \<comment> \<open>with \<open>c->mcause\<close>\<close>
  "riscv_irq_handle uh mcause c s = call_user uh (case mcause of _ \<Rightarrow> error_event) c s"

definition x86_irq_handle :: "'s handler option \<Rightarrow> u32 \<Rightarrow> addr \<Rightarrow> 's \<Rightarrow> c_error + addr \<times> 's" where
  \<comment> \<open>with \<open>c->irq\<close>\<close>
  "x86_irq_handle uh irq c s = call_user uh (case irq of _ \<Rightarrow> error_event) c s"

definition mips_irq_handle :: "'s handler option \<Rightarrow> addr \<Rightarrow> 's \<Rightarrow> c_error + addr \<times> 's" where
  "mips_irq_handle uh c s =
     (let ex_code = 0 :: u32 in call_user uh (case ex_code of _ \<Rightarrow> error_event) c s)"

definition kcontext :: "Area \<Rightarrow> addr \<Rightarrow> addr \<Rightarrow> addr" where "kcontext kstack entry arg = 0"
definition ienabled :: bool where "ienabled = False"
definition iset :: "bool \<Rightarrow> 's \<Rightarrow> 's" where "iset enable s = s"

section \<open>RISC-V\<close>

record 's hart =
  x :: "nat \<Rightarrow> u64"        \<comment> \<open>the registers; the build has 64-bit words\<close>
  pc :: u64
  mepc :: u64
  mcause :: u64
  mstatus :: u64
  mtvec :: u64
  dmem :: "addr \<Rightarrow> u64"    \<comment> \<open>memory as words at their addresses\<close>
  sys :: 's

record 's board =
  scratch :: "(nat \<Rightarrow> u64) \<Rightarrow> nat \<Rightarrow> u64"   \<comment> \<open>the registers after a C function, up to \<open>sp\<close> and its result\<close>
  trap_status :: "u64 \<Rightarrow> u64"              \<comment> \<open>what the processor does to \<open>mstatus\<close> on a trap and on \<open>mret\<close>\<close>
  mret_status :: "u64 \<Rightarrow> u64"
  frame_extra :: nat                       \<comment> \<open>words of the frame beyond the 35 that are used: 0 for nemu, 1 for npc\<close>
  sets_mprv :: bool                        \<comment> \<open>whether \<open>trap.S\<close> sets \<open>mstatus.MPRV\<close>: nemu does\<close>
  asm_trap_addr :: addr

definition NR_REGS :: nat where "NR_REGS = 32"
definition XLEN :: u64 where "XLEN = 8"
definition REGS :: "nat list" where "REGS = [1, 3, 4, 5, 6, 7, 8, 9, 10, 11, 12, 13, 14, 15] @ [16..<32]"
definition CONTEXT_SIZE :: "'s board \<Rightarrow> u64" where "CONTEXT_SIZE B = of_nat (NR_REGS + 3 + frame_extra B) * XLEN"
definition OFFSET_CAUSE :: u64 where "OFFSET_CAUSE = of_nat (NR_REGS + 0) * XLEN"
definition OFFSET_STATUS :: u64 where "OFFSET_STATUS = of_nat (NR_REGS + 1) * XLEN"
definition OFFSET_EPC :: u64 where "OFFSET_EPC = of_nat (NR_REGS + 2) * XLEN"

text \<open>The fields of \<open>Context\<close> in \<open>include/arch/riscv.h\<close>, by the order of its members.\<close>

definition ctx_mepc :: u64 where "ctx_mepc = 0"
definition ctx_mcause :: u64 where "ctx_mcause = XLEN"
definition ctx_gpr :: "nat \<Rightarrow> u64" where "ctx_gpr i = of_nat (2 + i) * XLEN"
definition ctx_mstatus :: u64 where "ctx_mstatus = of_nat (2 + NR_REGS) * XLEN"
definition ctx_pdir :: u64 where "ctx_pdir = of_nat (3 + NR_REGS) * XLEN"

definition set_x :: "nat \<Rightarrow> u64 \<Rightarrow> 's hart \<Rightarrow> 's hart" where "set_x n v s = s\<lparr>x := (x s)(n := v)\<rparr>"

definition STORE :: "nat \<Rightarrow> u64 \<Rightarrow> 's hart \<Rightarrow> 's hart" where
  \<comment> \<open>to the stack\<close>
  "STORE n off s = s\<lparr>dmem := (dmem s)(x s 2 + off := x s n)\<rparr>"

definition LOAD :: "nat \<Rightarrow> u64 \<Rightarrow> 's hart \<Rightarrow> 's hart" where "LOAD n off s = set_x n (dmem s (x s 2 + off)) s"

definition PUSH :: "nat \<Rightarrow> 's hart \<Rightarrow> 's hart" where "PUSH n = STORE n (of_nat n * XLEN)"
definition POP :: "nat \<Rightarrow> 's hart \<Rightarrow> 's hart" where "POP n = LOAD n (of_nat n * XLEN)"

definition trap_entry :: "'s board \<Rightarrow> 's hart \<Rightarrow> 's hart" where
  \<comment> \<open>\<open>__am_asm_trap\<close> up to the call\<close>
  "trap_entry B s =
     (let s = set_x 2 (x s 2 - CONTEXT_SIZE B) s;
          s = fold PUSH REGS s;
          s = set_x 7 (mepc s) (set_x 6 (mstatus s) (set_x 5 (mcause s) s));
          s = STORE 7 OFFSET_EPC (STORE 6 OFFSET_STATUS (STORE 5 OFFSET_CAUSE s));
          s = (if sets_mprv B
               then let s = set_x 10 (push_bit 17 1) s; s = set_x 6 (x s 6 OR x s 10) s in s\<lparr>mstatus := x s 6\<rparr>
               else s)
      in set_x 10 (x s 2) s)"

definition trap_exit :: "'s board \<Rightarrow> 's hart \<Rightarrow> 's hart" where
  \<comment> \<open>\<open>__am_asm_trap\<close> from the return of the call to \<open>mret\<close>\<close>
  "trap_exit B s =
     (let s = LOAD 7 OFFSET_EPC (LOAD 6 OFFSET_STATUS s);
          s = s\<lparr>mstatus := x s 6, mepc := x s 7\<rparr>;
          s = fold POP REGS s
      in set_x 2 (x s 2 + CONTEXT_SIZE B) s)"

definition call_irq_handle :: "'s board \<Rightarrow> ((addr \<Rightarrow> u64) \<times> 's) handler option \<Rightarrow> 's hart \<Rightarrow> c_error + 's hart" where
  \<comment> \<open>\<open>jal __am_irq_handle\<close>; the result is in \<open>a0\<close>\<close>
  "call_irq_handle B h s =
     rbind (riscv_irq_handle h (dmem s (x s 10 + ctx_mcause)) (x s 10) (dmem s, sys s)) (\<lambda>(c, m, w).
       Inr (s\<lparr>x := (scratch B (x s))(2 := x s 2, 10 := c), dmem := m, sys := w\<rparr>))"

definition asm_trap :: "'s board \<Rightarrow> ((addr \<Rightarrow> u64) \<times> 's) handler option \<Rightarrow> 's hart \<Rightarrow> c_error + 's hart" where
  "asm_trap B h s = rbind (call_irq_handle B h (trap_entry B s)) (\<lambda>s. Inr (trap_exit B s))"

definition cte_init ::
  "'s board \<Rightarrow> ((addr \<Rightarrow> u64) \<times> 's) handler option \<Rightarrow> 's hart \<Rightarrow> bool \<times> ((addr \<Rightarrow> u64) \<times> 's) handler option \<times> 's hart" where
  "cte_init B handler s = (True, handler, s\<lparr>mtvec := asm_trap_addr B\<rparr>)"

definition ecall :: "'s board \<Rightarrow> ((addr \<Rightarrow> u64) \<times> 's) handler option \<Rightarrow> 's hart \<Rightarrow> c_error + 's hart" where
  \<comment> \<open>the instruction in machine mode: the processor enters the trap with cause 11; \<open>mret\<close> resumes at \<open>mepc\<close>\<close>
  "ecall B h s =
     rbind (guard (mtvec s = asm_trap_addr B) Out_of_bounds) (\<lambda>_.
     rbind (asm_trap B h (s\<lparr>mepc := pc s, mcause := 11, mstatus := trap_status B (mstatus s), pc := mtvec s\<rparr>)) (\<lambda>s.
       Inr (s\<lparr>pc := mepc s, mstatus := mret_status B (mstatus s)\<rparr>)))"

partial_function (option) at_ecall :: "'s board \<Rightarrow> ((addr \<Rightarrow> u64) \<times> 's) handler option \<Rightarrow> addr \<Rightarrow> 's hart \<Rightarrow> (c_error + 's hart) option" where
  \<comment> \<open>running from an \<open>ecall\<close> at this address, until execution leaves it\<close>
  "at_ecall B h a s =
     (if pc s = a then
        case ecall B h s of Inl e \<Rightarrow> Some (Inl e) | Inr s \<Rightarrow> at_ecall B h a s
      else Some (Inr s))"

definition yield :: "'s board \<Rightarrow> ((addr \<Rightarrow> u64) \<times> 's) handler option \<Rightarrow> addr \<Rightarrow> 's hart \<Rightarrow> (c_error + 's hart) option" where
  \<comment> \<open>\<open>li a7, -1; ecall\<close>, the \<open>ecall\<close> at this address\<close>
  "yield B h a s = at_ecall B h a ((set_x 17 (- 1) s)\<lparr>pc := a\<rparr>)"

text \<open>\<open>riscv/npc/cte.c\<close> has the text of \<open>riscv/nemu/cte.c\<close>.\<close>

definition npc_irq_handle :: "'s handler option \<Rightarrow> u64 \<Rightarrow> addr \<Rightarrow> 's \<Rightarrow> c_error + addr \<times> 's" where
  "npc_irq_handle uh mc c s = call_user uh (case mc of _ \<Rightarrow> error_event) c s"

definition npc_cte_init ::
  "'s board \<Rightarrow> ((addr \<Rightarrow> u64) \<times> 's) handler option \<Rightarrow> 's hart \<Rightarrow> bool \<times> ((addr \<Rightarrow> u64) \<times> 's) handler option \<times> 's hart" where
  "npc_cte_init B handler s = (True, handler, s\<lparr>mtvec := asm_trap_addr B\<rparr>)"

definition npc_kcontext :: "Area \<Rightarrow> addr \<Rightarrow> addr \<Rightarrow> addr" where "npc_kcontext kstack entry arg = 0"
definition npc_ienabled :: bool where "npc_ienabled = False"
definition npc_iset :: "bool \<Rightarrow> 's \<Rightarrow> 's" where "npc_iset enable s = s"

lemma npc_is_riscv: "npc_irq_handle = riscv_irq_handle" "npc_cte_init = cte_init"
  by (simp_all add: fun_eq_iff npc_irq_handle_def riscv_irq_handle_def npc_cte_init_def cte_init_def)

section \<open>x86\<close>

record GateDesc32 =
  g_off_15_0 :: u16
  g_cs :: u16
  g_args :: "5 word"
  g_rsv1 :: "3 word"
  g_type :: "4 word"
  g_s :: "1 word"
  g_dpl :: "2 word"
  g_p :: "1 word"
  g_off_31_16 :: u16

definition STS_IG :: "4 word" where "STS_IG = 0xe"

definition GATE32 :: "4 word \<Rightarrow> u64 \<Rightarrow> u32 \<Rightarrow> u64 \<Rightarrow> GateDesc32" where
  "GATE32 ty sel entry dpl =
     \<lparr>g_off_15_0 = ucast (entry AND 0xffff), g_cs = ucast sel, g_args = 0, g_rsv1 = 0, g_type = ty, g_s = 0, g_dpl = ucast dpl,
      g_p = 1, g_off_31_16 = ucast (drop_bit 16 entry)\<rparr>"

definition gate_target32 :: "GateDesc32 \<Rightarrow> u32" where
  \<comment> \<open>the address that the processor assembles\<close>
  "gate_target32 g = ucast (g_off_15_0 g) OR push_bit 16 (ucast (g_off_31_16 g))"

record vectors =
  am_irq0 :: u32
  am_vecsys :: u32
  am_vectrap :: u32
  am_vecnull :: u32

definition X86_NR_IRQ :: nat where "X86_NR_IRQ = 256"
definition SEG_KCODE :: u64 where "SEG_KCODE = 1"

definition x86_cte_init :: "vectors \<Rightarrow> 's handler option \<Rightarrow> GateDesc32 list \<Rightarrow> bool \<times> 's handler option \<times> GateDesc32 list" where
  \<comment> \<open>with the table that \<open>lidt\<close> is given\<close>
  "x86_cte_init V handler table =
     (let table = fold (\<lambda>i t. t[i := GATE32 STS_TG (KSEL SEG_KCODE) (am_vecnull V) DPL_KERN]) [0..<X86_NR_IRQ] table;
          table = table[32 := GATE32 STS_IG (KSEL SEG_KCODE) (am_irq0 V) DPL_KERN];
          table = table[0x80 := GATE32 STS_TG (KSEL SEG_KCODE) (am_vecsys V) DPL_USER];
          table = table[0x81 := GATE32 STS_TG (KSEL SEG_KCODE) (am_vectrap V) DPL_KERN]
      in (True, handler, table))"

section \<open>MIPS\<close>

definition EX_ENTRY :: addr where "EX_ENTRY = 0x80000180"

definition j_instr :: "u32 \<Rightarrow> u32" where
  "j_instr vec = 0x08000000 OR (drop_bit 2 vec AND 0x3ffffff)"

definition mips_cte_init :: "u32 \<Rightarrow> 's handler option \<Rightarrow> (addr \<Rightarrow> u32) \<Rightarrow> bool \<times> 's handler option \<times> (addr \<Rightarrow> u32)" where
  \<comment> \<open>with the address of \<open>__am_asm_trap\<close>; the jump and its delay slot, for exceptions and for the refill of the TLB\<close>
  "mips_cte_init vec handler m =
     (let instr = j_instr vec
      in (True, handler, m(EX_ENTRY := instr, EX_ENTRY + 4 := 0, 0x80000000 := instr, 0x80000000 + 4 := 0)))"

section \<open>LoongArch\<close>

definition loongarch_cte_init :: "u32 \<Rightarrow> 's handler option \<Rightarrow> bool \<times> 's handler option \<times> u32" where
  \<comment> \<open>with the new value of the register \<open>eentry\<close>\<close>
  "loongarch_cte_init vec handler = (True, handler, vec)"


section \<open>The frame that \<open>trap.S\<close> makes\<close>

definition slot :: "nat \<Rightarrow> u64" where
  \<comment> \<open>the offset of a word of the frame\<close>
  "slot k = of_nat k * XLEN"

lemma slot_names:
  "OFFSET_CAUSE = slot 32" "OFFSET_STATUS = slot 33" "OFFSET_EPC = slot 34"
  "ctx_mepc = slot 0" "ctx_mcause = slot 1" "ctx_gpr i = slot (2 + i)" "ctx_mstatus = slot 34" "ctx_pdir = slot 35"
  by (simp_all add: OFFSET_CAUSE_def OFFSET_STATUS_def OFFSET_EPC_def ctx_mepc_def ctx_mcause_def ctx_gpr_def ctx_mstatus_def
      ctx_pdir_def slot_def NR_REGS_def)

lemma slot_eq: "j < 64 \<Longrightarrow> k < 64 \<Longrightarrow> slot j = slot k \<longleftrightarrow> j = k"
proof
  assume jk: "j < 64" "k < 64" and e: "slot j = slot k"
  have "unat (slot i) = i * 8" if "i < 64" for i
  proof -
    have "slot i = of_nat (i * 8)" by (simp add: slot_def XLEN_def)
    then show ?thesis using that by (simp only:) (rule unat_of_nat_lt, simp)
  qed
  then show "j = k" using jk e by (metis mult_cancel2 zero_neq_numeral)
qed simp

lemma set_REGS: "set REGS = {1..<32} - {2}"
proof -
  have eq: "REGS = [1] @ [3..<16] @ [16..<32]" by (simp add: REGS_def upt_rec)
  have "set REGS = {1} \<union> ({3..<16} \<union> {16..<32})" by (simp only: eq set_append set_upt list.set)
  also have "\<dots> = {1..<32} - {2}" by auto
  finally show ?thesis .
qed

lemma distinct_REGS: "distinct REGS"
  by (simp add: REGS_def)

lemma PUSH_fields [simp]:
  "x (PUSH n s) = x s" "mepc (PUSH n s) = mepc s" "mcause (PUSH n s) = mcause s" "mstatus (PUSH n s) = mstatus s"
  "mtvec (PUSH n s) = mtvec s" "pc (PUSH n s) = pc s" "sys (PUSH n s) = sys s"
  "dmem (PUSH n s) = (dmem s)(x s 2 + slot n := x s n)"
  by (simp_all add: PUSH_def STORE_def slot_def)

lemma pushes_fields:
  "x (fold PUSH ns s) = x s \<and> mepc (fold PUSH ns s) = mepc s \<and> mcause (fold PUSH ns s) = mcause s \<and>
   mstatus (fold PUSH ns s) = mstatus s \<and> mtvec (fold PUSH ns s) = mtvec s \<and> pc (fold PUSH ns s) = pc s \<and> sys (fold PUSH ns s) = sys s"
  by (induction ns arbitrary: s) simp_all

lemma pushes_other: "(\<And>n. n \<in> set ns \<Longrightarrow> a \<noteq> x s 2 + slot n) \<Longrightarrow> dmem (fold PUSH ns s) a = dmem s a"
  by (induction ns arbitrary: s) simp_all

lemma pushes_saved:
  "distinct ns \<Longrightarrow> (\<forall>n \<in> set ns. n < 64) \<Longrightarrow> n \<in> set ns \<Longrightarrow> dmem (fold PUSH ns s) (x s 2 + slot n) = x s n"
proof (induction ns arbitrary: s)
  case (Cons k ns)
  show ?case
  proof (cases "n = k")
    case True
    have "dmem (fold PUSH ns (PUSH k s)) (x s 2 + slot n) = dmem (PUSH k s) (x s 2 + slot n)"
      by (rule pushes_other) (use Cons.prems True slot_eq in auto)
    then show ?thesis using True by simp
  next
    case False
    with Cons.prems Cons.IH [of "PUSH k s"] show ?thesis by simp
  qed
qed simp

lemma pops_fields:
  "2 \<notin> set ns \<Longrightarrow> dmem (fold POP ns s) = dmem s \<and> x (fold POP ns s) 2 = x s 2 \<and> mepc (fold POP ns s) = mepc s \<and>
   mstatus (fold POP ns s) = mstatus s \<and> mtvec (fold POP ns s) = mtvec s \<and> sys (fold POP ns s) = sys s \<and>
   (\<forall>n. n \<notin> set ns \<longrightarrow> x (fold POP ns s) n = x s n)"
  by (induction ns arbitrary: s) (simp_all add: POP_def LOAD_def set_x_def)

lemma pops_loaded:
  "2 \<notin> set ns \<Longrightarrow> n \<in> set ns \<Longrightarrow> x (fold POP ns s) n = dmem s (x s 2 + slot n)"
proof (induction ns arbitrary: s)
  case (Cons k ns)
  have k: "x (POP k s) 2 = x s 2" "dmem (POP k s) = dmem s" "x (POP k s) k = dmem s (x s 2 + slot k)"
    using Cons.prems(1) by (auto simp: POP_def LOAD_def set_x_def slot_def)
  show ?case
  proof (cases "n \<in> set ns")
    case True
    then show ?thesis using Cons k by simp
  next
    case False
    then show ?thesis using Cons.prems k pops_fields [of ns "POP k s"] by simp
  qed
qed simp

definition frame_at :: "'s board \<Rightarrow> 's hart \<Rightarrow> addr" where "frame_at B s = x s 2 - CONTEXT_SIZE B"

lemma trap_entry_frame:
  fixes B :: "'s board" and s :: "'s hart"
  defines "t \<equiv> trap_entry B s" and "b \<equiv> frame_at B s"
  shows "x t 2 = b \<and> x t 10 = b \<and> mepc t = mepc s \<and> mtvec t = mtvec s \<and> sys t = sys s \<and>
    (\<forall>n \<in> set REGS. dmem t (b + slot n) = x s n) \<and> dmem t (b + slot 32) = mcause s \<and> dmem t (b + slot 33) = mstatus s \<and>
    dmem t (b + slot 34) = mepc s"
proof -
  let ?s = "fold PUSH REGS (set_x 2 b s)"
  have s: "x ?s = (x s)(2 := b)" "mepc ?s = mepc s" "mcause ?s = mcause s" "mstatus ?s = mstatus s" "mtvec ?s = mtvec s" "sys ?s = sys s"
    using pushes_fields [of REGS "set_x 2 b s"] by (simp_all add: set_x_def)
  have saved: "dmem ?s (b + slot n) = x s n" if "n \<in> set REGS" for n
    using pushes_saved [OF distinct_REGS, of n "set_x 2 b s"] that by (auto simp: set_REGS set_x_def)
  let ?m = "(dmem ?s)(b + slot 32 := mcause s, b + slot 33 := mstatus s, b + slot 34 := mepc s)"
  have m: "dmem t = ?m" "x t 2 = b" "x t 10 = b" "mepc t = mepc s" "mtvec t = mtvec s" "sys t = sys s"
    by (simp_all add: t_def trap_entry_def Let_def s STORE_def set_x_def slot_names flip: b_def [unfolded frame_at_def])
      (simp_all add: s [unfolded set_x_def])
  have "dmem t (b + slot n) = x s n" if "n \<in> set REGS" for n
    using that saved [OF that] by (auto simp: m set_REGS slot_eq)
  then show ?thesis by (simp add: m slot_eq)
qed

lemma trap_exit_frame:
  fixes B :: "'s board" and t :: "'s hart"
  defines "r \<equiv> trap_exit B t"
  shows "(\<forall>n \<in> set REGS. x r n = dmem t (x t 2 + slot n)) \<and> x r 2 = x t 2 + CONTEXT_SIZE B \<and> mstatus r = dmem t (x t 2 + slot 33) \<and>
    mepc r = dmem t (x t 2 + slot 34) \<and> dmem r = dmem t \<and> mtvec r = mtvec t \<and> sys r = sys t"
proof -
  let ?u = "LOAD 7 OFFSET_EPC (LOAD 6 OFFSET_STATUS t)"
  let ?v = "?u\<lparr>mstatus := x ?u 6, mepc := x ?u 7\<rparr>"
  have no2: "2 \<notin> set REGS" by (simp add: set_REGS)
  have v: "x ?u 2 = x t 2" "dmem ?u = dmem t" "x ?v 2 = x t 2" "dmem ?v = dmem t" "mstatus ?v = dmem t (x t 2 + slot 33)" "mepc ?v = dmem t (x t 2 + slot 34)"
    "mtvec ?v = mtvec t" "sys ?v = sys t"
    by (simp_all add: LOAD_def set_x_def slot_names)
  have r: "r = set_x 2 (x (fold POP REGS ?v) 2 + CONTEXT_SIZE B) (fold POP REGS ?v)"
    by (simp only: r_def trap_exit_def Let_def)
  have "x r n = dmem t (x t 2 + slot n)" if "n \<in> set REGS" for n
    using pops_loaded [OF no2 that, of ?v] that no2 by (auto simp: r set_x_def v)
  then show ?thesis using pops_fields [OF no2, of ?v] by (simp add: r v) (simp add: set_x_def)
qed


section \<open>What a trap does on RISC-V\<close>

lemma asm_trap_run:
  fixes B :: "'s board" and s :: "'s hart"
  defines "t \<equiv> trap_entry B s" and "b \<equiv> frame_at B s"
  assumes h: "h error_event b (dmem t, sys s) = (c, m, w)" and c: "c \<noteq> 0"
  shows "\<exists>s'. asm_trap B (Some h) s = Inr s' \<and> (\<forall>n \<in> set REGS. x s' n = m (b + slot n)) \<and> x s' 2 = x s 2 \<and>
    mstatus s' = m (b + slot 33) \<and> mepc s' = m (b + slot 34) \<and> dmem s' = m \<and> sys s' = w \<and> mtvec s' = mtvec s"
proof -
  have t: "x t 2 = b" "x t 10 = b" "mtvec t = mtvec s" "sys t = sys s"
    using trap_entry_frame [of B s] by (simp_all add: t_def b_def)
  let ?u = "t\<lparr>x := (scratch B (x t))(2 := x t 2, 10 := c), dmem := m, sys := w\<rparr>"
  have "asm_trap B (Some h) s = Inr (trap_exit B ?u)"
    using h c by (simp add: asm_trap_def call_irq_handle_def riscv_irq_handle_def call_user_def t flip: t_def)
  moreover have "x ?u 2 = b" by (simp add: t)
  ultimately show ?thesis
    using trap_exit_frame [of B ?u] t by (simp add: b_def frame_at_def)
qed

text \<open>C36: The trap code of RISC-V (\<open>trap.S\<close> around \<open>__am_irq_handle\<close>, nemu and npc): what is resumed is the frame that
\<open>trap.S\<close> pushed, as the handler leaves it, whatever context the handler returns; so a handler that leaves the frame alone is
transparent for all registers, \<open>mepc\<close> and \<open>mstatus\<close>. The handler sees the event \<open>EVENT_ERROR\<close> for every
cause. And the structure \<open>Context\<close> does not describe the frame: what C reads as \<open>mcause\<close> is the register \<open>ra\<close>, the
cause is in \<open>gpr[30]\<close>, the status in \<open>gpr[31]\<close>, and the address to resume at is in the field \<open>mstatus\<close>.\<close>
theorem riscv_trap_resumes_frame:
  fixes s :: "'s hart"
  assumes h: "h error_event (frame_at B s) (dmem (trap_entry B s), sys s) = (c, m, w)" and c: "c \<noteq> 0"
  shows "\<exists>s'. asm_trap B (Some h) s = Inr s' \<and> dmem s' = m \<and> sys s' = w \<and> x s' 2 = x s 2 \<and>
    mstatus s' = m (frame_at B s + ctx_gpr 31) \<and> mepc s' = m (frame_at B s + ctx_mstatus) \<and>
    dmem (trap_entry B s) (frame_at B s + ctx_mcause) = x s 1 \<and>
    dmem (trap_entry B s) (frame_at B s + ctx_gpr 30) = mcause s \<and>
    ((\<forall>k \<in> {1..34}. m (frame_at B s + slot k) = dmem (trap_entry B s) (frame_at B s + slot k)) \<longrightarrow>
      (\<forall>n \<in> {1..<32}. x s' n = x s n) \<and> mepc s' = mepc s \<and> mstatus s' = mstatus s)"
proof -
  obtain s' where s': "asm_trap B (Some h) s = Inr s'" "\<forall>n \<in> set REGS. x s' n = m (frame_at B s + slot n)" "x s' 2 = x s 2"
    "mstatus s' = m (frame_at B s + slot 33)" "mepc s' = m (frame_at B s + slot 34)" "dmem s' = m" "sys s' = w"
    using asm_trap_run [of h B s c m w, OF h c] by blast
  have f: "\<forall>n \<in> set REGS. dmem (trap_entry B s) (frame_at B s + slot n) = x s n"
    "dmem (trap_entry B s) (frame_at B s + slot 32) = mcause s" "dmem (trap_entry B s) (frame_at B s + slot 33) = mstatus s"
    "dmem (trap_entry B s) (frame_at B s + slot 34) = mepc s"
    using trap_entry_frame [of B s] by simp_all
  have "x s' n = x s n"
    if "\<forall>k \<in> {1..34}. m (frame_at B s + slot k) = dmem (trap_entry B s) (frame_at B s + slot k)" "n \<in> {1..<32}" for n
    using that s'(2,3) f(1) by (cases "n = 2") (auto simp: set_REGS)
  then show ?thesis using s' f by (intro exI [of _ s']) (auto simp: slot_names set_REGS)
qed

definition demo_board :: "unit board" where
  "demo_board = \<lparr>scratch = (\<lambda>r n. 0), trap_status = (\<lambda>v. v), mret_status = (\<lambda>v. v), frame_extra = 0, sets_mprv = True, asm_trap_addr = 0x80000100\<rparr>"

definition demo_hart :: "unit hart" where
  "demo_hart = \<lparr>x = (\<lambda>n. of_nat n), pc = 0x80000200, mepc = 0x80000200, mcause = 11, mstatus = 0x1800, mtvec = 0x80000100,
     dmem = (\<lambda>_. 0), sys = ()\<rparr>"

definition advance_mepc :: "((addr \<Rightarrow> u64) \<times> 's) handler" where
  \<comment> \<open>a handler that skips the instruction that trapped: \<open>c->mepc += 4; return c\<close>\<close>
  "advance_mepc ev c mw = (1 :: addr, (fst mw)(c + ctx_mepc := fst mw (c + ctx_mepc) + 4), snd mw)"

lemma advance_mepc_keeps:
  "k \<in> {1..34} \<Longrightarrow> fst (snd (advance_mepc ev c mw)) (c + slot k) = fst mw (c + slot k)"
  by (auto simp: advance_mepc_def slot_names slot_eq)

theorem riscv_trap_resumes_frame_witness:
  "\<exists>s'. asm_trap demo_board (Some advance_mepc) demo_hart = Inr s' \<and> x s' 31 = 31 \<and> mepc s' = 0x80000200"
proof -
  let ?m = "fst (snd (advance_mepc error_event (frame_at demo_board demo_hart) (dmem (trap_entry demo_board demo_hart), sys demo_hart)))"
  have h: "advance_mepc error_event (frame_at demo_board demo_hart) (dmem (trap_entry demo_board demo_hart), sys demo_hart) = (1, ?m, ())"
    by (simp add: advance_mepc_def)
  have "\<forall>k \<in> {1..34}. ?m (frame_at demo_board demo_hart + slot k) =
      dmem (trap_entry demo_board demo_hart) (frame_at demo_board demo_hart + slot k)"
    using advance_mepc_keeps [of _ error_event "frame_at demo_board demo_hart" "(dmem (trap_entry demo_board demo_hart), sys demo_hart)"]
    by simp
  then show ?thesis
    using riscv_trap_resumes_frame [of advance_mepc demo_board demo_hart 1 ?m "()", OF h] by (auto simp: demo_hart_def)
qed

definition keeps_frame :: "((addr \<Rightarrow> u64) \<times> 's) handler \<Rightarrow> bool" where
  \<comment> \<open>the handler returns a context and leaves the words that \<open>trap.S\<close> pushed\<close>
  "keeps_frame h \<longleftrightarrow> (\<forall>b mw. fst (h error_event b mw) \<noteq> 0 \<and>
     (\<forall>k \<in> {1..34}. fst (snd (h error_event b mw)) (b + slot k) = fst mw (b + slot k)))"

lemma keeps_frame_advance_mepc: "keeps_frame (advance_mepc :: ((addr \<Rightarrow> u64) \<times> 's) handler)"
proof -
  have "fst (advance_mepc error_event b mw) \<noteq> 0" for b and mw :: "(addr \<Rightarrow> u64) \<times> 's" by (simp add: advance_mepc_def)
  then show ?thesis unfolding keeps_frame_def using advance_mepc_keeps by blast
qed

lemma ecall_stays:
  assumes h: "keeps_frame h"
    and v: "mtvec s = asm_trap_addr B"
  shows "\<exists>s'. ecall B (Some h) s = Inr s' \<and> pc s' = pc s \<and> mtvec s' = mtvec s"
proof -
  let ?s = "s\<lparr>mepc := pc s, mcause := 11, mstatus := trap_status B (mstatus s), pc := mtvec s\<rparr>"
  let ?r = "h error_event (frame_at B ?s) (dmem (trap_entry B ?s), sys ?s)"
  obtain s' where s': "asm_trap B (Some h) ?s = Inr s'" "mepc s' = fst (snd ?r) (frame_at B ?s + slot 34)" "mtvec s' = mtvec ?s"
    using asm_trap_run [of h B ?s "fst ?r" "fst (snd ?r)" "snd (snd ?r)"] h by (auto simp: keeps_frame_def)
  moreover have "fst (snd ?r) (frame_at B ?s + slot 34) = dmem (trap_entry B ?s) (frame_at B ?s + slot 34)" using h by (simp add: keeps_frame_def)
  moreover have "dmem (trap_entry B ?s) (frame_at B ?s + slot 34) = pc s" using trap_entry_frame [of B ?s] by simp
  ultimately show ?thesis using v by (simp add: ecall_def)
qed

lemma at_ecall_diverges:
  assumes run: "at_ecall B (Some h) a s = Some r" and v: "mtvec s = asm_trap_addr B" and p: "pc s = a"
    and h: "keeps_frame h"
  shows False
proof -
  have "H = Some h \<longrightarrow> mtvec s = asm_trap_addr B \<longrightarrow> pc s = a \<longrightarrow> False"
    if run: "at_ecall B H a s = Some r" for H
  proof (rule at_ecall.raw_induct [where P = "\<lambda>B H a s r. H = Some h \<longrightarrow> mtvec s = asm_trap_addr B \<longrightarrow> pc s = a \<longrightarrow> False", OF _ run])
    fix rec B H a s r
    assume IH: "\<And>B H a s r. rec B H a s = Some r \<Longrightarrow> H = Some h \<longrightarrow> mtvec s = asm_trap_addr B \<longrightarrow> pc s = a \<longrightarrow> False"
      and step: "(if pc s = a then case ecall B H s of Inl e \<Rightarrow> Some (Inl e) | Inr s \<Rightarrow> rec B H a s else Some (Inr s)) = Some r"
    show "H = Some h \<longrightarrow> mtvec s = asm_trap_addr B \<longrightarrow> pc s = a \<longrightarrow> False"
    proof (intro impI)
      assume H: "H = Some h" and v: "mtvec s = asm_trap_addr B" and p: "pc s = a"
      obtain s' where s': "ecall B (Some h) s = Inr s'" "pc s' = pc s" "mtvec s' = mtvec s" using ecall_stays [OF h v] by blast
      then have "rec B H a s' = Some r" using step H p by simp
      from IH [OF this] show False using H v p s' by simp
    qed
  qed
  from this [OF run] v p show False by simp
qed



section \<open>The vectors of x86 and MIPS\<close>

lemma gate_target32_GATE32 [simp]: "gate_target32 (GATE32 ty sel entry dpl) = entry"
proof -
  have m: "(0xffff :: u32) = mask 16" by (simp add: mask_eq_exp_minus_1)
  show ?thesis
  proof (rule bit_word_eqI)
    fix n assume "n < LENGTH(32)"
    then show "bit (gate_target32 (GATE32 ty sel entry dpl)) n = bit entry n"
      by (cases "n < 16") (auto simp: gate_target32_def GATE32_def m bit_simps)
  qed
qed

lemma x86_gates:
  assumes "length table = X86_NR_IRQ" and "i < X86_NR_IRQ"
  shows "(let g = snd (snd (x86_cte_init V handler table)) ! i in (gate_target32 g, g_type g)) =
    (if i = 32 then (am_irq0 V, STS_IG) else if i = 0x80 then (am_vecsys V, STS_TG)
     else if i = 0x81 then (am_vectrap V, STS_TG) else (am_vecnull V, STS_TG))"
proof -
  let ?g = "GATE32 STS_TG (KSEL SEG_KCODE) (am_vecnull V) DPL_KERN"
  have "length (fold (\<lambda>i t. t[i := ?g]) [0..<n] table) = length table \<and>
      (\<forall>i < n. i < length table \<longrightarrow> fold (\<lambda>i t. t[i := ?g]) [0..<n] table ! i = ?g)" for n
    by (induction n) (auto simp: nth_list_update less_Suc_eq)
  then show ?thesis using assms by (auto simp: x86_cte_init_def Let_def nth_list_update X86_NR_IRQ_def) (simp_all add: GATE32_def)
qed

definition j_target :: "u32 \<Rightarrow> u32 \<Rightarrow> u32" where
  \<comment> \<open>where the processor goes for a jump instruction at this address\<close>
  "j_target a instr = ((a + 4) AND 0xf0000000) OR push_bit 2 (instr AND 0x3ffffff)"

lemma mips_vectors:
  assumes al: "vec AND 3 = 0" and seg: "vec AND 0xf0000000 = 0x80000000"
  shows "drop_bit 26 (j_instr vec) = 2 \<and> j_target 0x80000180 (j_instr vec) = vec \<and> j_target 0x80000000 (j_instr vec) = vec"
proof -
  have m: "(0x3ffffff :: u32) = mask 26" "(3 :: u32) = mask 2" "(0xf0000000 :: u32) = push_bit 28 (mask 4)"
    by (simp_all add: mask_eq_exp_minus_1 push_bit_eq_mult)
  have lo: "\<not> bit vec n" if "n < 2" for n
    using arg_cong [OF al, of "\<lambda>w. bit w n"] that by (simp add: m bit_simps)
  have op: "drop_bit 26 (j_instr vec) = 2"
  proof (rule bit_word_eqI)
    fix n assume "n < LENGTH(32)"
    show "bit (drop_bit 26 (j_instr vec)) n = bit (2 :: u32) n"
    proof -
      have "(0x08000000 :: u32) = push_bit 26 2" by (simp add: push_bit_eq_mult)
      then show ?thesis using \<open>n < LENGTH(32)\<close> by (auto simp: j_instr_def m bit_simps)
    qed
  qed
  have "j_instr vec AND 0x3ffffff = drop_bit 2 vec AND 0x3ffffff"
  proof -
    have "(0x08000000 :: u32) = push_bit 26 2" by (simp add: push_bit_eq_mult)
    then show ?thesis unfolding j_instr_def m by (intro bit_word_eqI) (auto simp only: bit_simps)
  qed
  moreover have "push_bit 2 (drop_bit 2 vec AND 0x3ffffff) OR 2 ^ 31 = vec"
  proof (rule bit_word_eqI)
    fix n assume n: "n < LENGTH(32)"
    have hi: "bit (vec AND 0xf0000000) n = bit (2 ^ 31 :: u32) n" by (simp add: seg)
    note e = bit_exp_iff [where 'a = "32 word", of 31]
    have "n = (n - 2) + 2 \<and> n - 2 < 26" if "\<not> n < 2" "\<not> 28 \<le> n" using that by linarith
    then consider "n < 2" | k where "n = k + 2" "k < 26" | "28 \<le> n" by blast
    then show "bit (push_bit 2 (drop_bit 2 vec AND 0x3ffffff) OR 2 ^ 31) n = bit vec n"
    proof cases
      case 1
      then show ?thesis using lo unfolding m by (simp del: power_numeral add: bit_simps e)
    next
      case (2 k)
      then show ?thesis unfolding m by (simp del: power_numeral add: bit_simps e)
    next
      case 3
      then show ?thesis using hi n unfolding m by (auto simp del: power_numeral simp: bit_simps e)
    qed
  qed
  ultimately show ?thesis using op by (simp add: j_target_def or.commute)
qed

end
