(* ===== verification/Nemu_VME.thy ===== *)
theory Nemu_VME
  imports Nemu_IOE
begin

text \<open>
  Address spaces of the small processors: \<open>vme.c\<close> of \<open>riscv/nemu\<close>, \<open>x86/nemu\<close>, \<open>mips/nemu\<close> and
  \<open>loongarch/nemu\<close> under \<open>abstract-machine/am/src\<close>. The page allocator of \<open>vme_init\<close> is a parameter. \<open>map\<close> has no body
  and \<open>ucontext\<close> returns NULL in all of them. The register that holds the root table has the contract \<open>root_register\<close>.
\<close>

section \<open>What the processors share\<close>

record 'a vme =
  vmem :: mem
  pages :: 'a           \<comment> \<open>the state of the allocator\<close>
  kas_ptr :: addr       \<comment> \<open>\<open>kas.ptr\<close>\<close>
  vme_enable :: bool
  root :: u64           \<comment> \<open>\<open>satp\<close>, \<open>cr3\<close> or the variable \<open>cur_pdir\<close>\<close>
  cr0 :: u64

record AddrSpace =
  pgsize :: u64
  area :: Area
  ptr :: addr

type_synonym 'a pgalloc = "u64 \<Rightarrow> mem \<times> 'a \<Rightarrow> addr \<times> mem \<times> 'a"

definition pgalloc_usr :: "'a pgalloc \<Rightarrow> 'a vme \<Rightarrow> addr \<times> 'a vme" where
  "pgalloc_usr A s = (case A PGSIZE (vmem s, pages s) of (p, m, a) \<Rightarrow> (p, s\<lparr>vmem := m, pages := a\<rparr>))"

definition map_nothing :: "addr \<Rightarrow> addr \<Rightarrow> addr \<Rightarrow> u64 \<Rightarrow> 'a vme \<Rightarrow> 'a vme" where
  \<comment> \<open>\<open>map\<close>\<close>
  "map_nothing as va pa prot s = s"

partial_function (option) map_segment :: "addr \<Rightarrow> addr \<Rightarrow> 'a vme \<Rightarrow> 'a vme option" where
  \<comment> \<open>the loop over the pages of a segment, with \<open>va\<close> and the end of the segment\<close>
  "map_segment va ed s = (if va < ed then map_segment (va + PGSIZE) ed (map_nothing (kas_ptr s) va va 0 s) else Some s)"

fun map_segments :: "Area list \<Rightarrow> 'a vme \<Rightarrow> 'a vme option" where
  "map_segments [] s = Some s"
| "map_segments (a # as) s = Option.bind (map_segment (a_start a) (a_end a) s) (map_segments as)"

definition copy_page :: "addr \<Rightarrow> addr \<Rightarrow> 'a vme \<Rightarrow> 'a vme" where
  \<comment> \<open>\<open>memcpy(updir, kas.ptr, PGSIZE)\<close>\<close>
  "copy_page dst src s = s\<lparr>vmem := write_bytes (vmem s) dst (read_bytes (vmem s) src 4096)\<rparr>"

definition cur_as :: "('s \<Rightarrow> bool) \<Rightarrow> ('s \<Rightarrow> addr) \<Rightarrow> 's \<Rightarrow> addr" where
  "cur_as enabled get s = (if enabled s then get s else 0)"

definition switch_to :: "('s \<Rightarrow> bool) \<Rightarrow> (addr \<Rightarrow> 's \<Rightarrow> 's) \<Rightarrow> addr \<Rightarrow> 's \<Rightarrow> 's" where
  "switch_to enabled put p s = (if enabled s \<and> p \<noteq> 0 then put p s else s)"

definition ucontext :: "AddrSpace \<Rightarrow> Area \<Rightarrow> addr \<Rightarrow> addr" where "ucontext as kstack entry = 0"
definition unprotect :: "AddrSpace \<Rightarrow> 'a vme \<Rightarrow> 'a vme" where "unprotect as s = s"

section \<open>RISC-V\<close>

definition RISCV_USER_SPACE :: Area where "RISCV_USER_SPACE = RANGE 0x40000000 0x80000000"

definition set_satp :: "addr \<Rightarrow> 'a vme \<Rightarrow> 'a vme" where
  \<comment> \<open>for a word of 64 bits\<close>
  "set_satp pdir s = (let mode = push_bit (64 - 1) 1 in s\<lparr>root := mode OR drop_bit 12 pdir\<rparr>)"

definition get_satp :: "'a vme \<Rightarrow> addr" where "get_satp s = push_bit 12 (root s)"

definition riscv_vme_init :: "'a pgalloc \<Rightarrow> addr \<Rightarrow> 'a vme \<Rightarrow> (bool \<times> 'a vme) option" where
  \<comment> \<open>with the address of \<open>_pmem_start\<close>\<close>
  "riscv_vme_init A pmem_start s =
     (case pgalloc_usr A s of (p, s) \<Rightarrow>
       Option.bind (map_segments (NEMU_PADDR_SPACE pmem_start) (s\<lparr>kas_ptr := p\<rparr>)) (\<lambda>s.
         Some (True, (set_satp (kas_ptr s) s)\<lparr>vme_enable := True\<rparr>)))"

definition riscv_protect :: "'a pgalloc \<Rightarrow> 'a vme \<Rightarrow> AddrSpace \<times> 'a vme" where
  "riscv_protect A s =
     (case pgalloc_usr A s of (updir, s) \<Rightarrow>
       (\<lparr>pgsize = PGSIZE, area = RISCV_USER_SPACE, ptr = updir\<rparr>, copy_page updir (kas_ptr s) s))"

definition riscv_get_cur_as :: "'a vme \<Rightarrow> addr" where
  \<comment> \<open>the value of \<open>c->pdir\<close>\<close>
  "riscv_get_cur_as = cur_as vme_enable get_satp"

definition riscv_switch :: "addr \<Rightarrow> 'a vme \<Rightarrow> 'a vme" where
  \<comment> \<open>\<open>__am_switch\<close> with \<open>c->pdir\<close>\<close>
  "riscv_switch = switch_to vme_enable set_satp"

section \<open>x86\<close>

definition X86_USER_SPACE :: Area where "X86_USER_SPACE = RANGE 0x40000000 0xc0000000"
definition CR0_PG :: u64 where "CR0_PG = 0x80000000"

definition set_cr0 :: "u64 \<Rightarrow> 'a vme \<Rightarrow> 'a vme" where "set_cr0 v s = s\<lparr>cr0 := v\<rparr>"
definition set_cr3 :: "addr \<Rightarrow> 'a vme \<Rightarrow> 'a vme" where "set_cr3 pdir s = s\<lparr>root := pdir\<rparr>"
definition get_cr3 :: "'a vme \<Rightarrow> addr" where "get_cr3 s = root s"

definition x86_vme_init :: "'a pgalloc \<Rightarrow> addr \<Rightarrow> 'a vme \<Rightarrow> (bool \<times> 'a vme) option" where
  "x86_vme_init A pmem_start s =
     (case pgalloc_usr A s of (p, s) \<Rightarrow>
       Option.bind (map_segments (NEMU_PADDR_SPACE pmem_start) (s\<lparr>kas_ptr := p\<rparr>)) (\<lambda>s.
         let s = set_cr3 (kas_ptr s) s; s = set_cr0 (cr0 s OR CR0_PG) s
         in Some (True, s\<lparr>vme_enable := True\<rparr>)))"

definition x86_protect :: "'a pgalloc \<Rightarrow> 'a vme \<Rightarrow> AddrSpace \<times> 'a vme" where
  "x86_protect A s =
     (case pgalloc_usr A s of (updir, s) \<Rightarrow>
       (\<lparr>pgsize = PGSIZE, area = X86_USER_SPACE, ptr = updir\<rparr>, copy_page updir (kas_ptr s) s))"

definition x86_get_cur_as :: "'a vme \<Rightarrow> addr" where "x86_get_cur_as = cur_as vme_enable get_cr3"
definition x86_switch :: "addr \<Rightarrow> 'a vme \<Rightarrow> 'a vme" where "x86_switch = switch_to vme_enable set_cr3"

section \<open>MIPS and LoongArch\<close>

text \<open>The two files are the same; the current table is the variable \<open>cur_pdir\<close>.\<close>

definition set_cur_pdir :: "addr \<Rightarrow> 'a vme \<Rightarrow> 'a vme" where "set_cur_pdir pdir s = s\<lparr>root := pdir\<rparr>"

definition mips_vme_init :: "'a vme \<Rightarrow> bool \<times> 'a vme" where "mips_vme_init s = (True, s\<lparr>vme_enable := True\<rparr>)"

definition mips_protect :: "'a pgalloc \<Rightarrow> 'a vme \<Rightarrow> AddrSpace \<times> 'a vme" where
  "mips_protect A s =
     (case pgalloc_usr A s of (p, s) \<Rightarrow> (\<lparr>pgsize = PGSIZE, area = RISCV_USER_SPACE, ptr = p\<rparr>, s))"

definition mips_get_cur_as :: "'a vme \<Rightarrow> addr" where "mips_get_cur_as = cur_as vme_enable root"
definition mips_switch :: "addr \<Rightarrow> 'a vme \<Rightarrow> 'a vme" where "mips_switch = switch_to vme_enable set_cur_pdir"

definition loongarch_vme_init :: "'a vme \<Rightarrow> bool \<times> 'a vme" where "loongarch_vme_init s = (True, s\<lparr>vme_enable := True\<rparr>)"

definition loongarch_protect :: "'a pgalloc \<Rightarrow> 'a vme \<Rightarrow> AddrSpace \<times> 'a vme" where
  "loongarch_protect A s =
     (case pgalloc_usr A s of (p, s) \<Rightarrow> (\<lparr>pgsize = PGSIZE, area = RISCV_USER_SPACE, ptr = p\<rparr>, s))"

definition loongarch_get_cur_as :: "'a vme \<Rightarrow> addr" where "loongarch_get_cur_as = cur_as vme_enable root"
definition loongarch_switch :: "addr \<Rightarrow> 'a vme \<Rightarrow> 'a vme" where "loongarch_switch = switch_to vme_enable set_cur_pdir"

section \<open>The contract of the root register\<close>

fun latest_space :: "addr \<Rightarrow> addr list \<Rightarrow> addr" where
  \<comment> \<open>the last address space of these, NULL being none, and the first argument if there is none\<close>
  "latest_space p [] = p"
| "latest_space p (q # qs) = latest_space (if q = 0 then p else q) qs"

locale root_register =
  fixes enabled :: "'s \<Rightarrow> bool" and put :: "addr \<Rightarrow> 's \<Rightarrow> 's" and got :: "'s \<Rightarrow> addr" and valid :: "addr \<Rightarrow> bool"
  assumes got_put: "valid p \<Longrightarrow> got (put p s) = p"
    and enabled_put: "enabled (put p s) = enabled s"
begin

lemma cur_as_switch:
  "enabled s \<Longrightarrow> valid p \<Longrightarrow> cur_as enabled got (switch_to enabled put p s) = (if p = 0 then cur_as enabled got s else p)"
  by (simp add: cur_as_def switch_to_def got_put enabled_put)

lemma enabled_switch: "enabled (switch_to enabled put p s) = enabled s"
  by (simp add: switch_to_def enabled_put)

lemma switches:
  "enabled s \<Longrightarrow> list_all valid ps \<Longrightarrow>
    cur_as enabled got (fold (switch_to enabled put) ps s) = latest_space (cur_as enabled got s) ps"
  by (induction ps arbitrary: s) (simp_all add: cur_as_switch enabled_switch)

lemma disabled: "\<not> enabled s \<Longrightarrow> fold (switch_to enabled put) ps s = s \<and> cur_as enabled got s = 0"
  by (induction ps) (simp_all add: switch_to_def cur_as_def)

end

definition page_aligned :: "addr \<Rightarrow> bool" where "page_aligned p \<longleftrightarrow> take_bit 12 p = 0"

lemma get_set_satp: "get_satp (set_satp p s) = p - take_bit 12 p"
proof -
  have "p - take_bit 12 p = push_bit 12 (drop_bit 12 p)"
    by (metis add_diff_cancel_right' bits_ident)
  moreover have "push_bit 12 (push_bit 63 (1 :: u64)) = 0"
    by (simp only: push_bit_push_bit) (rule push_bit_word_beyond, simp)
  then have "push_bit 12 (push_bit 63 1 OR drop_bit 12 p) = push_bit 12 (drop_bit 12 p)"
    by (simp only: push_bit_or or.left_neutral)
  ultimately show ?thesis by (simp add: get_satp_def set_satp_def)
qed

interpretation satp: root_register vme_enable set_satp get_satp page_aligned
  by unfold_locales (simp add: get_set_satp page_aligned_def, simp add: set_satp_def)

interpretation cr3: root_register vme_enable set_cr3 get_cr3 "\<lambda>_. True"
  by unfold_locales (simp_all add: set_cr3_def get_cr3_def)

interpretation pdir: root_register vme_enable set_cur_pdir root "\<lambda>_. True"
  by unfold_locales (simp_all add: set_cur_pdir_def)


text \<open>C38: Resuming contexts on the small processors: once address spaces are enabled, after any sequence of contexts the current
address space is the one of the last context that has one, and before that no context has one and nothing is switched. On RISC-V,
where the register \<open>satp\<close> holds a page number, this needs root tables that are aligned to a page, as \<open>pgalloc\<close> returns them.\<close>
theorem switch_follows_contexts:
  fixes s :: "'a vme"
  shows "(vme_enable s \<longrightarrow> list_all page_aligned ps \<longrightarrow>
      riscv_get_cur_as (fold riscv_switch ps s) = latest_space (riscv_get_cur_as s) ps) \<and>
    (vme_enable s \<longrightarrow> x86_get_cur_as (fold x86_switch ps s) = latest_space (x86_get_cur_as s) ps) \<and>
    (vme_enable s \<longrightarrow> mips_get_cur_as (fold mips_switch ps s) = latest_space (mips_get_cur_as s) ps) \<and>
    (vme_enable s \<longrightarrow> loongarch_get_cur_as (fold loongarch_switch ps s) = latest_space (loongarch_get_cur_as s) ps) \<and>
    (\<not> vme_enable s \<longrightarrow> fold riscv_switch ps s = s \<and> riscv_get_cur_as s = 0 \<and> fold x86_switch ps s = s \<and> x86_get_cur_as s = 0 \<and>
      fold mips_switch ps s = s \<and> mips_get_cur_as s = 0)"
  unfolding riscv_get_cur_as_def riscv_switch_def x86_get_cur_as_def x86_switch_def mips_get_cur_as_def mips_switch_def
    loongarch_get_cur_as_def loongarch_switch_def
  using satp.switches [of s ps] cr3.switches [of s ps] pdir.switches [of s ps] satp.disabled [of s ps] cr3.disabled [of s ps]
    pdir.disabled [of s ps]
  by (simp add: list_all_iff)

definition demo_vme :: "unit vme" where
  "demo_vme = \<lparr>vmem = (\<lambda>_. 0), pages = (), kas_ptr = 0x80001000, vme_enable = True, root = 0x80001000, cr0 = 0\<rparr>"

theorem switch_follows_contexts_witness:
  "riscv_get_cur_as (fold riscv_switch [0x80002000, 0, 0x80003000, 0] demo_vme) = 0x80003000"
proof -
  have "list_all page_aligned [0x80002000, 0, 0x80003000, 0]" by (simp add: page_aligned_def)
  moreover have "vme_enable demo_vme" by (simp add: demo_vme_def)
  ultimately show ?thesis
    using switch_follows_contexts [of demo_vme "[0x80002000, 0, 0x80003000, 0]"] by simp
qed

section \<open>Initialisation and protection\<close>

lemma map_segment_ends:
  assumes "unat ed \<le> 2 ^ 64 - 4096"
  shows "map_segment va ed s = Some s"
proof (induction "unat ed - unat va" arbitrary: va rule: less_induct)
  case less
  show ?case
  proof (cases "va < ed")
    case True
    then have lt: "unat va < unat ed" by (simp add: word_less_nat_alt)
    then have n: "unat (va + PGSIZE) = unat va + 4096"
      using assms unat_add_no_wrap [of va PGSIZE] by (simp add: PGSIZE_def)
    have "map_segment (va + PGSIZE) ed s = Some s" by (rule less) (use n lt in simp)
    then show ?thesis using True by (subst map_segment.simps) (simp add: map_nothing_def)
  qed (subst map_segment.simps, simp)
qed

lemma segments_end:
  assumes "unat pmem_start + 128 * 1024 * 1024 \<le> 2 ^ 64 - 4096"
  shows "map_segments (NEMU_PADDR_SPACE pmem_start) s = Some s"
proof -
  have "unat (PMEM_END pmem_start) \<le> 2 ^ 64 - 4096"
    using assms unat_add_no_wrap [of pmem_start PMEM_SIZE] by (simp add: PMEM_END_def PMEM_SIZE_def)
  then show ?thesis
    by (simp add: NEMU_PADDR_SPACE_def RANGE_def map_segment_ends FB_ADDR_def MMIO_BASE_def)
qed


definition bump_alloc :: "u64 pgalloc" where
  \<comment> \<open>pages one after the other\<close>
  "bump_alloc n ma = (snd ma, fst ma, snd ma + n)"


end
