(* ===== verification/Npc_IOE.thy ===== *)
theory Npc_IOE
  imports AM_IOE
begin

text \<open>
  The platform of the simulated core, \<open>abstract-machine/am/src/riscv/npc\<close> (\<open>ioe.c\<close>, \<open>timer.c\<close>, \<open>input.c\<close>, \<open>mpe.c\<close>, \<open>trm.c\<close>,
  \<open>vme.c\<close>), and the dummy platform \<open>platform/dummy\<close>, most of whose operations do nothing. \<open>ebreak\<close> ends the program.
\<close>

section \<open>The core: start-up and processors\<close>

definition PMEM_SIZE :: u64 where "PMEM_SIZE = 128 * 1024 * 1024"
definition PMEM_END :: "addr \<Rightarrow> addr" where "PMEM_END pmem_start = pmem_start + PMEM_SIZE"

definition heap :: "addr \<Rightarrow> addr \<Rightarrow> Area" where
  "heap heap_start pmem_start = RANGE heap_start (PMEM_END pmem_start)"

definition putch :: "u8 \<Rightarrow> 'w \<Rightarrow> 'w" where "putch ch w = w"

definition halt :: "int \<Rightarrow> c_error + 'a" where
  \<comment> \<open>the code is in \<open>a0\<close> at the \<open>ebreak\<close>\<close>
  "halt code = Inl (Exit code)"

definition trm_init :: "(string \<Rightarrow> 'w \<Rightarrow> (c_error + int \<times> 'w) option) \<Rightarrow> string \<Rightarrow> 'w \<Rightarrow> (c_error + 'w) option" where
  "trm_init main mainargs w =
     Option.bind (main mainargs w) (\<lambda>r. case r of Inl e \<Rightarrow> Some (Inl e) | Inr (ret, w) \<Rightarrow> Some (halt ret))"

definition mpe_init :: "('s \<Rightarrow> c_error + 's) \<Rightarrow> 's \<Rightarrow> bool \<times> 's" where "mpe_init entry s = (False, s)"
definition cpu_count :: nat where "cpu_count = 1"
definition cpu_current :: nat where "cpu_current = 0"

definition atomic_xchg :: "addr \<Rightarrow> u32 \<Rightarrow> (addr \<Rightarrow> u32) \<Rightarrow> u32 \<times> (addr \<Rightarrow> u32)" where
  "atomic_xchg a newval m = (0, m)"

definition vme_init :: "('s \<Rightarrow> addr \<times> 's) \<Rightarrow> 's \<Rightarrow> bool \<times> 's" where "vme_init pgalloc s = (False, s)"
definition protect :: "addr \<Rightarrow> 's \<Rightarrow> 's" where "protect as s = s"
definition unprotect :: "addr \<Rightarrow> 's \<Rightarrow> 's" where "unprotect as s = s"
definition map_page :: "addr \<Rightarrow> addr \<Rightarrow> addr \<Rightarrow> u64 \<Rightarrow> 's \<Rightarrow> 's" where "map_page as va pa prot s = s"
definition ucontext :: "addr \<Rightarrow> Area \<Rightarrow> addr \<Rightarrow> 's \<Rightarrow> addr \<times> 's" where "ucontext as kstack entry s = (0, s)"

section \<open>The core: devices\<close>

datatype handler = H_timer_config | H_timer_rtc | H_timer_uptime | H_input_config | H_input_keybrd | H_uart_config | H_fail

definition lut :: "nat \<Rightarrow> handler option" where
  "lut = [AM_TIMER_CONFIG \<mapsto> H_timer_config, AM_TIMER_RTC \<mapsto> H_timer_rtc, AM_TIMER_UPTIME \<mapsto> H_timer_uptime,
     AM_INPUT_CONFIG \<mapsto> H_input_config, AM_INPUT_KEYBRD \<mapsto> H_input_keybrd, AM_UART_CONFIG \<mapsto> H_uart_config]"

definition timer_uptime :: u64 where "timer_uptime = 0"

definition timer_rtc :: rtc where
  "timer_rtc = \<lparr>year = 1900, month = 0, day = 0, hour = 0, minute = 0, second = 0\<rparr>"

definition input_keybrd :: "bool \<times> nat" where "input_keybrd = (False, AM_KEY_NONE)"

definition handler_reg :: "nat \<Rightarrow> nat" where
  \<comment> \<open>\<open>__am_uart_config\<close> takes an \<open>AM_INPUT_CONFIG_T\<close>, which has the same member\<close>
  "handler_reg reg = (if reg = AM_UART_CONFIG then AM_INPUT_CONFIG else reg)"

definition run_handler :: "handler \<Rightarrow> io_buf \<Rightarrow> 's \<Rightarrow> (c_error + io_buf \<times> 's) option" where
  "run_handler h buf s = (case h of
       H_timer_config \<Rightarrow> Some (Inr (Timer_config True True, s))
     | H_timer_rtc \<Rightarrow> Some (Inr (Timer_rtc timer_rtc, s))
     | H_timer_uptime \<Rightarrow> Some (Inr (Timer_uptime timer_uptime, s))
     | H_input_config \<Rightarrow> Some (Inr (Input_config True, s))
     | H_input_keybrd \<Rightarrow> Some (Inr (Input_keybrd (fst input_keybrd) (snd input_keybrd), s))
     | H_uart_config \<Rightarrow> Some (Inr (Input_config False, s))
     | H_fail \<Rightarrow> Some (Inl (Panic ''access nonexist register'')))"

definition ioe_init :: "(nat \<Rightarrow> handler option) \<Rightarrow> 's \<Rightarrow> bool \<times> (nat \<Rightarrow> handler option) \<times> 's" where
  "ioe_init tab s = (True, fill_table tab H_fail, s)"

definition ioe_access :: "(nat \<Rightarrow> handler option) \<Rightarrow> nat \<Rightarrow> io_buf \<Rightarrow> 's \<Rightarrow> (c_error + io_buf \<times> 's) option" where
  "ioe_access = table_access run_handler"

lemma npc_handlers_typed:
  assumes "lut reg = Some h" and "reg_buf reg buf"
  shows "typed_access {} (handler_reg reg) (run_handler h buf s)"
proof -
  have "(reg, h) \<in> {(4, H_timer_config), (5, H_timer_rtc), (6, H_timer_uptime), (7, H_input_config), (8, H_input_keybrd), (1, H_uart_config)}"
    using assms(1) unfolding lut_def AM_reg_defs by (auto split: if_splits)
  then show ?thesis by (auto simp: run_handler_def handler_reg_def AM_reg_defs)
qed

interpretation npc_devices: device_table lut H_fail run_handler "{}" handler_reg
  by unfold_locales (rule npc_handlers_typed, simp_all add: run_handler_def)

section \<open>The dummy platform\<close>

definition dummy_heap :: Area where "dummy_heap = RANGE 0 0"
definition dummy_putch :: "u8 \<Rightarrow> 'w \<Rightarrow> 'w" where "dummy_putch ch w = w"

partial_function (option) dummy_halt :: "int \<Rightarrow> 'w \<Rightarrow> (c_error + 'w) option" where
  "dummy_halt code w = dummy_halt code w"

definition dummy_ioe_init :: "'w \<Rightarrow> bool \<times> 'w" where "dummy_ioe_init w = (False, w)"

definition dummy_ioe_access :: "nat \<Rightarrow> io_buf \<Rightarrow> 'w \<Rightarrow> (c_error + io_buf \<times> 'w) option" where
  "dummy_ioe_access reg buf w = Some (Inl (Panic ''access nonexist register''))"

definition dummy_cte_init :: "('w \<Rightarrow> 'w) \<Rightarrow> 'w \<Rightarrow> bool \<times> 'w" where "dummy_cte_init handler w = (False, w)"
definition dummy_kcontext :: "Area \<Rightarrow> addr \<Rightarrow> u64 \<Rightarrow> 'w \<Rightarrow> addr \<times> 'w" where "dummy_kcontext kstack entry arg w = (0, w)"
definition dummy_yield :: "'w \<Rightarrow> 'w" where "dummy_yield w = w"
definition dummy_ienabled :: "'w \<Rightarrow> bool \<times> 'w" where "dummy_ienabled w = (False, w)"
definition dummy_iset :: "bool \<Rightarrow> 'w \<Rightarrow> 'w" where "dummy_iset enable w = w"

definition dummy_mpe_init :: "('s \<Rightarrow> c_error + 's) \<Rightarrow> 's \<Rightarrow> bool \<times> 's" where "dummy_mpe_init entry s = (False, s)"
definition dummy_cpu_count :: nat where "dummy_cpu_count = 1"
definition dummy_cpu_current :: nat where "dummy_cpu_current = 0"

definition dummy_atomic_xchg :: "addr \<Rightarrow> u32 \<Rightarrow> (addr \<Rightarrow> u32) \<Rightarrow> u32 \<times> (addr \<Rightarrow> u32)" where
  "dummy_atomic_xchg a newval m = (0, m)"

definition dummy_vme_init :: "('s \<Rightarrow> addr \<times> 's) \<Rightarrow> 's \<Rightarrow> bool \<times> 's" where "dummy_vme_init pgalloc s = (False, s)"
definition dummy_protect :: "addr \<Rightarrow> 's \<Rightarrow> 's" where "dummy_protect as s = s"
definition dummy_unprotect :: "addr \<Rightarrow> 's \<Rightarrow> 's" where "dummy_unprotect as s = s"
definition dummy_map :: "addr \<Rightarrow> addr \<Rightarrow> addr \<Rightarrow> u64 \<Rightarrow> 's \<Rightarrow> 's" where "dummy_map as va pa prot s = s"
definition dummy_ucontext :: "addr \<Rightarrow> Area \<Rightarrow> addr \<Rightarrow> 's \<Rightarrow> addr \<times> 's" where "dummy_ucontext as kstack entry s = (0, s)"

section \<open>Mutual exclusion\<close>

definition try_lock :: "(addr \<Rightarrow> u32 \<Rightarrow> (addr \<Rightarrow> u32) \<Rightarrow> u32 \<times> (addr \<Rightarrow> u32)) \<Rightarrow> addr \<Rightarrow> (addr \<Rightarrow> u32) \<Rightarrow> bool \<times> (addr \<Rightarrow> u32)" where
  \<comment> \<open>the use that \<open>atomic_xchg\<close> is for: whether the lock was free, and the lock taken\<close>
  "try_lock xchg a m = (case xchg a 1 m of (old, m) \<Rightarrow> (old = 0, m))"

lemma npc_xchg_does_not_lock:
  "fst (try_lock atomic_xchg a m)" "snd (try_lock atomic_xchg a m) = m"
  by (simp_all add: try_lock_def atomic_xchg_def)

end
