(* ===== verification/Spike.thy ===== *)
theory Spike
  imports AM_IOE Linked
begin

text \<open>
  The Spike platform, \<open>abstract-machine/am/src/riscv/spike\<close>: the host-target interface (\<open>htif.c\<close>, \<open>htif.h\<close>), its spin lock
  (\<open>atomic.h\<close>), the timer, the device table and start-up, as built for RV64 with atomic instructions. The host runs between two
  volatile loads of \<open>tohost\<close> or \<open>fromhost\<close>; what it does then is a parameter.
\<close>

section \<open>The interface registers\<close>

record 'w htif =
  tohost :: u64
  fromhost :: u64
  console_buf :: int
  lock :: u32
  hostw :: 'w            \<comment> \<open>the host's own state\<close>

type_synonym 'w host = "u64 \<times> u64 \<times> 'w \<Rightarrow> u64 \<times> u64 \<times> 'w"

definition host_runs :: "'w host \<Rightarrow> 'w htif \<Rightarrow> 'w htif" where
  "host_runs H s = (case H (tohost s, fromhost s, hostw s) of (t, f, w) \<Rightarrow> s\<lparr>tohost := t, fromhost := f, hostw := w\<rparr>)"

definition TOHOST_CMD :: "u64 \<Rightarrow> u64 \<Rightarrow> u64 \<Rightarrow> u64" where
  "TOHOST_CMD dev cmd payload = push_bit 56 dev OR push_bit 48 cmd OR payload"

definition FROMHOST_DEV :: "u64 \<Rightarrow> u64" where "FROMHOST_DEV v = drop_bit 56 v"
definition FROMHOST_CMD :: "u64 \<Rightarrow> u64" where "FROMHOST_CMD v = drop_bit 56 (push_bit 8 v)"
definition FROMHOST_DATA :: "u64 \<Rightarrow> u64" where "FROMHOST_DATA v = drop_bit 16 (push_bit 16 v)"

section \<open>The spin lock\<close>

definition atomic_swap :: "u32 \<Rightarrow> 'w htif \<Rightarrow> u32 \<times> 'w htif" where "atomic_swap v s = (lock s, s\<lparr>lock := v\<rparr>)"

definition spinlock_trylock :: "'w htif \<Rightarrow> u32 \<times> 'w htif" where "spinlock_trylock s = atomic_swap (- 1) s"

partial_function (option) spin :: "'w htif \<Rightarrow> 'w htif option" where
  "spin s = (if lock s \<noteq> 0 then spin s else Some s)"

partial_function (option) spinlock_lock :: "'w htif \<Rightarrow> 'w htif option" where
  \<comment> \<open>only this core changes the lock\<close>
  "spinlock_lock s = Option.bind (spin s) (\<lambda>s. case spinlock_trylock s of (r, s) \<Rightarrow> if r \<noteq> 0 then spinlock_lock s else Some s)"

definition spinlock_unlock :: "'w htif \<Rightarrow> 'w htif" where "spinlock_unlock s = s\<lparr>lock := 0\<rparr>"

definition spinlock_lock_irqsave :: "'w htif \<Rightarrow> (int \<times> 'w htif) option" where
  "spinlock_lock_irqsave s = Option.bind (spinlock_lock s) (\<lambda>s. Some (0, s))"

definition spinlock_unlock_irqrestore :: "int \<Rightarrow> 'w htif \<Rightarrow> 'w htif" where "spinlock_unlock_irqrestore flags s = spinlock_unlock s"

definition locked :: "('w htif \<Rightarrow> ('a \<times> 'w htif) outcome) \<Rightarrow> 'w htif \<Rightarrow> ('a \<times> 'w htif) outcome" where
  \<comment> \<open>a critical section of \<open>htif_lock\<close>\<close>
  "locked body s = Option.bind (spinlock_lock s) (\<lambda>s. xbind (body s) (\<lambda>(x, s). Some (Inr (x, spinlock_unlock s))))"

section \<open>htif.c\<close>

definition check_fromhost :: "'w host \<Rightarrow> 'w htif \<Rightarrow> c_error + 'w htif" where
  "check_fromhost H s =
     (let s = host_runs H s; fh = fromhost s in
      if fh = 0 then Inr s
      else let s = s\<lparr>fromhost := 0\<rparr> in
        rbind (guard (FROMHOST_DEV fh = 1) Assert_fail) (\<lambda>_.
          if FROMHOST_CMD fh = 0 then Inr (s\<lparr>console_buf := 1 + uint (ucast (FROMHOST_DATA fh) :: u8)\<rparr>)
          else if FROMHOST_CMD fh = 1 then Inr s
          else Inl Assert_fail))"

partial_function (option) set_tohost :: "'w host \<Rightarrow> u64 \<Rightarrow> u64 \<Rightarrow> u64 \<Rightarrow> 'w htif \<Rightarrow> 'w htif outcome" where
  "set_tohost H dev cmd data s =
     (let s = host_runs H s in
      if tohost s \<noteq> 0 then xbind (Some (check_fromhost H s)) (set_tohost H dev cmd data)
      else Some (Inr (s\<lparr>tohost := TOHOST_CMD dev cmd data\<rparr>)))"

definition htif_console_getchar :: "'w host \<Rightarrow> 'w htif \<Rightarrow> (int \<times> 'w htif) outcome" where
  "htif_console_getchar H =
     locked (\<lambda>s. xbind (Some (check_fromhost H s)) (\<lambda>s.
       let ch = console_buf s in
       xbind (if 0 \<le> ch then set_tohost H 1 0 0 (s\<lparr>console_buf := - 1\<rparr>) else Some (Inr s)) (\<lambda>s.
         Some (Inr (ch - 1, s)))))"

partial_function (option) wait_reply :: "'w host \<Rightarrow> u64 \<Rightarrow> u64 \<Rightarrow> 'w htif \<Rightarrow> 'w htif outcome" where
  \<comment> \<open>the loop of \<open>do_tohost_fromhost\<close>\<close>
  "wait_reply H dev cmd s =
     (let s = host_runs H s; fh = fromhost s in
      if fh \<noteq> 0 then
        if FROMHOST_DEV fh = dev \<and> FROMHOST_CMD fh = cmd then Some (Inr (s\<lparr>fromhost := 0\<rparr>))
        else xbind (Some (check_fromhost H s)) (wait_reply H dev cmd)
      else wait_reply H dev cmd s)"

definition do_tohost_fromhost :: "'w host \<Rightarrow> u64 \<Rightarrow> u64 \<Rightarrow> u64 \<Rightarrow> 'w htif \<Rightarrow> (unit \<times> 'w htif) outcome" where
  "do_tohost_fromhost H dev cmd data =
     locked (\<lambda>s. xbind (set_tohost H dev cmd data s) (\<lambda>s. xbind (wait_reply H dev cmd s) (\<lambda>s. Some (Inr ((), s)))))"

definition htif_syscall :: "'w host \<Rightarrow> u64 \<Rightarrow> 'w htif \<Rightarrow> (unit \<times> 'w htif) outcome" where
  "htif_syscall H arg = do_tohost_fromhost H 0 0 arg"

definition htif_console_putchar :: "'w host \<Rightarrow> u8 \<Rightarrow> 'w htif \<Rightarrow> (unit \<times> 'w htif) outcome" where
  "htif_console_putchar H ch = locked (\<lambda>s. xbind (set_tohost H 1 1 (ucast ch) s) (\<lambda>s. Some (Inr ((), s))))"

definition htif_poweroff :: "'w host \<Rightarrow> nat \<Rightarrow> 'w htif \<Rightarrow> 'w htif" where
  \<comment> \<open>this many rounds of the loop, which ends only because the host ends the program\<close>
  "htif_poweroff H n s = ((\<lambda>s. host_runs H (s\<lparr>fromhost := 0, tohost := 1\<rparr>)) ^^ n) s"

section \<open>Timer, devices and start-up\<close>

definition CLINT_MMIO :: addr where "CLINT_MMIO = 0x2000000"
definition TIME_BASE :: addr where "TIME_BASE = 0xbff8"

definition read_time :: "(addr \<Rightarrow> 'w \<Rightarrow> u32 \<times> 'w) \<Rightarrow> 'w \<Rightarrow> u64 \<times> 'w" where
  \<comment> \<open>with the volatile loads of 32 bits\<close>
  "read_time ld w =
     (case ld (CLINT_MMIO + TIME_BASE) w of (lo, w) \<Rightarrow> case ld (CLINT_MMIO + TIME_BASE + 4) w of (hi, w) \<Rightarrow>
        ((push_bit 32 (ucast hi) OR ucast lo) div 10, w))"

definition timer_init :: "(addr \<Rightarrow> 'w \<Rightarrow> u32 \<times> 'w) \<Rightarrow> 'w \<Rightarrow> u64 \<times> 'w" where
  \<comment> \<open>the new \<open>boot_time\<close>\<close>
  "timer_init ld w = read_time ld w"

definition timer_uptime :: "(addr \<Rightarrow> 'w \<Rightarrow> u32 \<times> 'w) \<Rightarrow> u64 \<Rightarrow> 'w \<Rightarrow> u64 \<times> 'w" where
  "timer_uptime ld boot_time w = (case read_time ld w of (t, w) \<Rightarrow> (t - boot_time, w))"

definition timer_rtc :: rtc where
  "timer_rtc = \<lparr>year = 1900, month = 0, day = 0, hour = 0, minute = 0, second = 0\<rparr>"

datatype handler = H_timer_config | H_timer_rtc | H_timer_uptime | H_fail

definition lut :: "nat \<Rightarrow> handler option" where
  "lut = [AM_TIMER_CONFIG \<mapsto> H_timer_config, AM_TIMER_RTC \<mapsto> H_timer_rtc, AM_TIMER_UPTIME \<mapsto> H_timer_uptime]"

record 'w spike =
  boot_time :: u64
  spike_hw :: 'w

definition run_handler :: "(addr \<Rightarrow> 'w \<Rightarrow> u32 \<times> 'w) \<Rightarrow> handler \<Rightarrow> io_buf \<Rightarrow> 'w spike \<Rightarrow> (c_error + io_buf \<times> 'w spike) option" where
  "run_handler ld h buf s = (case h of
       H_timer_config \<Rightarrow> Some (Inr (Timer_config True True, s))
     | H_timer_rtc \<Rightarrow> Some (Inr (Timer_rtc timer_rtc, s))
     | H_timer_uptime \<Rightarrow> (case timer_uptime ld (boot_time s) (spike_hw s) of (t, w) \<Rightarrow> Some (Inr (Timer_uptime t, s\<lparr>spike_hw := w\<rparr>)))
     | H_fail \<Rightarrow> Some (Inl (Panic ''access nonexist register'')))"

definition ioe_init ::
  "(addr \<Rightarrow> 'w \<Rightarrow> u32 \<times> 'w) \<Rightarrow> (nat \<Rightarrow> handler option) \<Rightarrow> 'w spike \<Rightarrow> bool \<times> (nat \<Rightarrow> handler option) \<times> 'w spike" where
  "ioe_init ld tab s = (case timer_init ld (spike_hw s) of (t, w) \<Rightarrow> (True, fill_table tab H_fail, \<lparr>boot_time = t, spike_hw = w\<rparr>))"

definition ioe_access ::
  "(addr \<Rightarrow> 'w \<Rightarrow> u32 \<times> 'w) \<Rightarrow> (nat \<Rightarrow> handler option) \<Rightarrow> nat \<Rightarrow> io_buf \<Rightarrow> 'w spike \<Rightarrow> (c_error + io_buf \<times> 'w spike) option" where
  "ioe_access ld = table_access (run_handler ld)"

definition PMEM_END :: addr where "PMEM_END = 0x80000000 + 128 * 1024 * 1024"

definition heap :: "addr \<Rightarrow> Area" where "heap heap_start = RANGE heap_start PMEM_END"

definition putch :: "'w host \<Rightarrow> u8 \<Rightarrow> 'w htif \<Rightarrow> (unit \<times> 'w htif) outcome" where "putch H ch = htif_console_putchar H ch"

fun put_text :: "'w host \<Rightarrow> u8 list \<Rightarrow> 'w htif \<Rightarrow> 'w htif outcome" where
  \<comment> \<open>what \<open>printf\<close> and \<open>putstr\<close> do with a text\<close>
  "put_text H [] s = Some (Inr s)"
| "put_text H (c # cs) s = xbind (putch H c s) (\<lambda>(_, s). put_text H cs s)"

lemma spike_handlers_typed:
  assumes "lut reg = Some h" and "reg_buf reg buf"
  shows "typed_access {} reg (run_handler ld h buf s)"
proof -
  have "(reg, h) \<in> {(4, H_timer_config), (5, H_timer_rtc), (6, H_timer_uptime)}"
    using assms(1) unfolding lut_def AM_reg_defs by (auto split: if_splits)
  then show ?thesis by (auto simp: run_handler_def AM_reg_defs split: prod.split)
qed

interpretation spike_devices: device_table lut H_fail "run_handler ld" "{}" "\<lambda>reg. reg" for ld
  by unfold_locales (rule spike_handlers_typed, simp_all add: run_handler_def)


section \<open>Output through the interface\<close>

lemma tohost_fields:
  fixes d c :: u8 and p :: u64
  shows "FROMHOST_DEV (TOHOST_CMD (ucast d) (ucast c) (take_bit 48 p)) = ucast d"
    and "FROMHOST_CMD (TOHOST_CMD (ucast d) (ucast c) (take_bit 48 p)) = ucast c"
    and "FROMHOST_DATA (TOHOST_CMD (ucast d) (ucast c) (take_bit 48 p)) = take_bit 48 p"
  by (rule bit_word_eqI; auto simp: TOHOST_CMD_def FROMHOST_DEV_def FROMHOST_CMD_def FROMHOST_DATA_def bit_simps dest: bit_imp_le_length)+

lemma putchar_fields:
  "FROMHOST_DEV (TOHOST_CMD 1 1 (ucast (ch :: u8))) = 1"
  "FROMHOST_CMD (TOHOST_CMD 1 1 (ucast ch)) = 1"
  "ucast (FROMHOST_DATA (TOHOST_CMD 1 1 (ucast ch))) = ch"
  "TOHOST_CMD 1 1 (ucast ch) \<noteq> 0"
proof -
  have p: "take_bit 48 (ucast ch :: u64) = ucast ch" by (rule bit_word_eqI) (auto simp: bit_simps dest: bit_imp_le_length)
  note f = tohost_fields [of 1 1 "ucast ch", unfolded p, simplified]
  show 1: "FROMHOST_DEV (TOHOST_CMD 1 1 (ucast (ch :: u8))) = 1" "FROMHOST_CMD (TOHOST_CMD 1 1 (ucast ch)) = 1"
    using f by simp_all
  show "ucast (FROMHOST_DATA (TOHOST_CMD 1 1 (ucast ch))) = ch"
    unfolding f(3) by (rule bit_word_eqI) (auto simp: bit_simps)
  show "TOHOST_CMD 1 1 (ucast ch) \<noteq> 0" using 1(1) by (auto simp: FROMHOST_DEV_def)
qed

definition shown :: "u64 \<Rightarrow> u8 list" where
  \<comment> \<open>what a command in \<open>tohost\<close> prints\<close>
  "shown t = (if FROMHOST_DEV t = 1 \<and> FROMHOST_CMD t = 1 then [ucast (FROMHOST_DATA t)] else [])"

lemma shown_simps [simp]: "shown 0 = []" "shown (TOHOST_CMD 1 1 (ucast ch)) = [ch]"
  by (simp add: shown_def FROMHOST_DEV_def, simp add: shown_def putchar_fields)

definition from_console :: "u64 \<Rightarrow> bool" where
  "from_console f \<longleftrightarrow> f = 0 \<or> FROMHOST_DEV f = 1 \<and> (FROMHOST_CMD f = 0 \<or> FROMHOST_CMD f = 1)"

definition console_host :: "'w host \<Rightarrow> ('w \<Rightarrow> u8 list) \<Rightarrow> ('w \<Rightarrow> nat) \<Rightarrow> bool" where
  \<comment> \<open>a host that takes every command after finitely many steps, prints the characters it is sent and answers only for its console\<close>
  "console_host H out busy \<longleftrightarrow> (\<forall>t f w t' f' w'. H (t, f, w) = (t', f', w') \<longrightarrow>
     (t = 0 \<longrightarrow> t' = 0 \<and> out w' = out w) \<and>
     (t \<noteq> 0 \<longrightarrow> t' = 0 \<and> out w' = out w @ shown t \<or> t' = t \<and> out w' = out w \<and> busy w' < busy w) \<and>
     (f' = f \<or> f = 0 \<and> from_console f'))"

definition sent :: "('w \<Rightarrow> u8 list) \<Rightarrow> 'w htif \<Rightarrow> u8 list" where
  "sent out s = out (hostw s) @ shown (tohost s)"

lemma host_runs_sent:
  assumes "console_host H out busy" and "from_console (fromhost s)"
  shows "sent out (host_runs H s) = sent out s \<and> from_console (fromhost (host_runs H s)) \<and> lock (host_runs H s) = lock s \<and>
    (tohost (host_runs H s) = 0 \<or> tohost s \<noteq> 0 \<and> tohost (host_runs H s) = tohost s \<and> busy (hostw (host_runs H s)) < busy (hostw s))"
proof -
  obtain t f w where r: "H (tohost s, fromhost s, hostw s) = (t, f, w)" by (cases "H (tohost s, fromhost s, hostw s)")
  then have "(tohost s = 0 \<longrightarrow> t = 0 \<and> out w = out (hostw s)) \<and>
     (tohost s \<noteq> 0 \<longrightarrow> t = 0 \<and> out w = out (hostw s) @ shown (tohost s) \<or> t = tohost s \<and> out w = out (hostw s) \<and> busy w < busy (hostw s)) \<and>
     (f = fromhost s \<or> fromhost s = 0 \<and> from_console f)"
    using assms(1) unfolding console_host_def by blast
  then show ?thesis using assms(2) by (auto simp: host_runs_def r sent_def)
qed

lemma check_fromhost_run:
  assumes "console_host H out busy" and "from_console (fromhost s)"
  shows "\<exists>s'. check_fromhost H s = Inr s' \<and> sent out s' = sent out s \<and> from_console (fromhost s') \<and> lock s' = lock s \<and>
    (tohost s' = 0 \<or> tohost s \<noteq> 0 \<and> busy (hostw s') < busy (hostw s))"
proof -
  note h = host_runs_sent [OF assms]
  then show ?thesis
    by (cases "fromhost (host_runs H s) = 0")
      (auto simp: check_fromhost_def Let_def guard_def from_console_def sent_def)
qed

lemma set_tohost_run:
  assumes "console_host H out busy" and "from_console (fromhost s)"
  shows "\<exists>s'. set_tohost H 1 1 (ucast ch) s = Some (Inr s') \<and> sent out s' = sent out s @ [ch] \<and> from_console (fromhost s') \<and> lock s' = lock s"
  using assms(2)
proof (induction "if tohost s = 0 then 0 else Suc (busy (hostw s))" arbitrary: s rule: less_induct)
  case less
  let ?s = "host_runs H s"
  note h = host_runs_sent [OF assms(1) less.prems]
  show ?case
  proof (cases "tohost ?s = 0")
    case True
    then show ?thesis using h by (subst set_tohost.simps) (auto simp: Let_def sent_def)
  next
    case False
    obtain s1 where s1: "check_fromhost H ?s = Inr s1" "sent out s1 = sent out ?s" "from_console (fromhost s1)" "lock s1 = lock ?s"
      "tohost s1 = 0 \<or> tohost ?s \<noteq> 0 \<and> busy (hostw s1) < busy (hostw ?s)"
      using check_fromhost_run [OF assms(1), of ?s] h by blast
    have "(if tohost s1 = 0 then 0 else Suc (busy (hostw s1))) < (if tohost s = 0 then 0 else Suc (busy (hostw s)))"
      using False h s1(5) by auto
    from less.hyps [OF this s1(3)] show ?thesis
      using False s1 h by (subst set_tohost.simps) (simp add: Let_def)
  qed
qed

lemma spinlock_lock_free: "lock s = 0 \<Longrightarrow> spinlock_lock s = Some (s\<lparr>lock := - 1\<rparr>)"
  by (subst spinlock_lock.simps, subst spin.simps) (simp add: spinlock_trylock_def atomic_swap_def)

lemma spinlock_lock_taken: "lock s \<noteq> 0 \<Longrightarrow> spinlock_lock s = None"
proof (rule ccontr)
  assume l: "lock s \<noteq> 0" and "spinlock_lock s \<noteq> None"
  then obtain r where "spin s = Some r" by (subst (asm) spinlock_lock.simps) (auto simp: Option.bind_eq_Some_conv)
  then have "lock s = 0"
    by (rule spin.raw_induct [where P = "\<lambda>s r. lock s = 0", rotated]) (auto split: if_splits)
  with l show False by simp
qed

lemma putchar_run:
  assumes "console_host H out busy" and "from_console (fromhost s)" and "lock s = 0"
  shows "\<exists>s'. htif_console_putchar H ch s = Some (Inr ((), s')) \<and> sent out s' = sent out s @ [ch] \<and> from_console (fromhost s') \<and> lock s' = 0"
proof -
  have "from_console (fromhost (s\<lparr>lock := - 1\<rparr>))" using assms(2) by simp
  from set_tohost_run [OF assms(1) this, of ch] obtain s' where
    "set_tohost H 1 1 (ucast ch) (s\<lparr>lock := - 1\<rparr>) = Some (Inr s')" "sent out s' = sent out s @ [ch]" "from_console (fromhost s')"
    by (auto simp: sent_def)
  then show ?thesis
    by (simp add: htif_console_putchar_def locked_def spinlock_lock_free [OF assms(3)] spinlock_unlock_def sent_def)
qed

lemma put_text_run:
  assumes "console_host H out busy" and "from_console (fromhost s)" and "lock s = 0"
  shows "\<exists>s'. put_text H cs s = Some (Inr s') \<and> sent out s' = sent out s @ cs \<and> from_console (fromhost s') \<and> lock s' = 0"
  using assms(2,3)
proof (induction cs arbitrary: s)
  case (Cons c cs)
  obtain s1 where s1: "htif_console_putchar H c s = Some (Inr ((), s1))" "sent out s1 = sent out s @ [c]" "from_console (fromhost s1)" "lock s1 = 0"
    using putchar_run [OF assms(1) Cons.prems] by blast
  from Cons.IH [OF s1(3,4)] s1(1,2) show ?case by (simp add: putch_def)
qed simp

text \<open>C33: Printing on Spike: against every host that takes commands after finitely many polls, prints the characters it is sent and
  answers only for its console, \<open>putch\<close> of any text ends without an error, frees the lock, and the characters
  reach the host in order, none lost and none twice (the last one possibly still in \<open>tohost\<close>); with the lock held it hangs.\<close>

theorem put_text_delivers:
  assumes "console_host H out busy" and "from_console (fromhost s)"
  shows "(lock s = 0 \<longrightarrow> (\<exists>s'. put_text H cs s = Some (Inr s') \<and> out (hostw s') @ shown (tohost s') = out (hostw s) @ shown (tohost s) @ cs \<and> lock s' = 0)) \<and>
    (lock s \<noteq> 0 \<longrightarrow> cs \<noteq> [] \<longrightarrow> put_text H cs s = None)"
proof (intro conjI impI)
  assume "lock s = 0"
  from put_text_run [OF assms this, of cs]
  show "\<exists>s'. put_text H cs s = Some (Inr s') \<and> out (hostw s') @ shown (tohost s') = out (hostw s) @ shown (tohost s) @ cs \<and> lock s' = 0"
    by (auto simp: sent_def)
next
  assume "lock s \<noteq> 0" "cs \<noteq> []"
  then show "put_text H cs s = None"
    by (cases cs) (simp_all add: putch_def htif_console_putchar_def locked_def spinlock_lock_taken)
qed


definition demo_host :: "u8 list host" where
  \<comment> \<open>takes a command at once, prints, and acknowledges it when \<open>fromhost\<close> is free\<close>
  "demo_host = (\<lambda>(t, f, w). (0, (if f = 0 \<and> shown t \<noteq> [] then 0x0101000000000000 else f), w @ shown t))"

lemma demo_console: "console_host demo_host id (\<lambda>_. 0)"
  by (auto simp: console_host_def demo_host_def from_console_def FROMHOST_DEV_def FROMHOST_CMD_def)

lemma put_text_delivers_witness:
  "\<exists>s'. put_text demo_host [72, 105] \<lparr>tohost = 0, fromhost = 0, console_buf = 0, lock = 0, hostw = []\<rparr> = Some (Inr s') \<and>
    hostw s' @ shown (tohost s') = [72, 105]"
  using put_text_delivers [OF demo_console, of "\<lparr>tohost = 0, fromhost = 0, console_buf = 0, lock = 0, hostw = []\<rparr>" "[72, 105]"]
  by (auto simp: from_console_def)

section \<open>The clock\<close>

definition clint :: "(addr \<Rightarrow> 'w \<Rightarrow> u32 \<times> 'w) \<Rightarrow> 'w \<Rightarrow> u64 \<Rightarrow> u64 \<Rightarrow> bool" where
  \<comment> \<open>the counter has this value at the load of its low half and this value at the load of its high half\<close>
  "clint ld w t1 t2 \<longleftrightarrow> (case ld (CLINT_MMIO + TIME_BASE) w of (lo, w1) \<Rightarrow> lo = ucast t1 \<and>
     fst (ld (CLINT_MMIO + TIME_BASE + 4) w1) = ucast (drop_bit 32 t2))"

lemma halves: "push_bit 32 (ucast (ucast (drop_bit 32 t2) :: u32)) OR ucast (ucast t1 :: u32) =
    push_bit 32 (drop_bit 32 t2) OR take_bit 32 (t1 :: u64)" for t2 :: u64
  by (rule bit_word_eqI) (auto simp: bit_simps dest: bit_imp_le_length)

text \<open>The clock of Spike is read in two halves, the low one first and without a retry: the time is right if the high half does not change
  in between, and 2^32 ticks too late if the counter carries between the two loads.\<close>

theorem read_time_torn:
  assumes "clint ld w t1 t2" and "drop_bit 32 t2 = drop_bit 32 t1 + n"
  shows "fst (read_time ld w) = (t1 + push_bit 32 n) div 10"
proof -
  have "push_bit 32 (drop_bit 32 t1 + n) OR take_bit 32 t1 = push_bit 32 (drop_bit 32 t1 + n) + take_bit 32 t1"
    by (rule disjunctive_add_eq_or [symmetric], rule bit_word_eqI) (auto simp: bit_simps)
  also have "\<dots> = push_bit 32 (drop_bit 32 t1) + take_bit 32 t1 + push_bit 32 n" by (simp add: push_bit_add)
  also have "push_bit 32 (drop_bit 32 t1) + take_bit 32 t1 = t1" by (rule bits_ident)
  finally have "push_bit 32 (drop_bit 32 t2) OR take_bit 32 t1 = t1 + push_bit 32 n" using assms(2) by simp
  then show ?thesis using assms(1) unfolding clint_def read_time_def by (auto simp: halves split: prod.splits)
qed

lemma read_time_torn_witness:
  "fst (read_time (\<lambda>a n. (if a = CLINT_MMIO + TIME_BASE then 0xffffffff else 1, n)) ()) = (0xffffffff + push_bit 32 1) div 10"
  by (rule read_time_torn [where ?t1.0 = "0xffffffff" and ?t2.0 = "0x100000000"]) (simp_all add: clint_def)

end
