(* ===== verification/Libgcc.thy ===== *)
theory Libgcc
  imports Prelude
begin

text \<open>
  The compiler support routines of the simulated core, \<open>abstract-machine/am/src/riscv/npc/libgcc\<close>, as built for RV32, where a word
  has 32 bits and a double word 64: multiplication (\<open>multi3.c\<close>, and \<open>__muluw3\<close> of \<open>muldi3.S\<close>) and the left shift
  (\<open>ashldi3.c\<close>).
\<close>

section \<open>Double words\<close>

record DWstruct =
  dw_low :: u32
  dw_high :: u32

definition W_TYPE_SIZE :: int where "W_TYPE_SIZE = 4 * 8"

definition dw_struct :: "u64 \<Rightarrow> DWstruct" where
  \<comment> \<open>\<open>{.ll = u}\<close>\<close>
  "dw_struct u = \<lparr>dw_low = ucast u, dw_high = ucast (drop_bit 32 u)\<rparr>"

definition dw_ll :: "DWstruct \<Rightarrow> u64" where
  "dw_ll w = push_bit 32 (ucast (dw_high w)) OR ucast (dw_low w)"

section \<open>Multiplication\<close>

lemma drop_bit_1_less: "drop_bit 1 v \<noteq> 0 \<Longrightarrow> unat (drop_bit 1 v) < unat (v :: u32)"
  using drop_bit_eq_div [of 1 v] unat_div_distrib [of v 2] by (simp flip: unat_gt_0)

function muluw3_loop :: "u32 \<Rightarrow> u32 \<Rightarrow> u32 \<Rightarrow> u32" where
  \<comment> \<open>the registers \<open>a0\<close>, \<open>a1\<close> and \<open>a2\<close> at \<open>.L1\<close>\<close>
  "muluw3_loop a0 a1 a2 =
     (let a3 = a1 AND 1; a0 = (if a3 = 0 then a0 else a0 + a2); a1 = drop_bit 1 a1; a2 = push_bit 1 a2
      in if a1 \<noteq> 0 then muluw3_loop a0 a1 a2 else a0)"
  by pat_completeness auto
termination
  by (relation "measure (\<lambda>(_, a1, _). unat a1)") (simp_all del: drop_bit_Suc add: drop_bit_1_less [unfolded One_nat_def])

definition muluw3 :: "u32 \<Rightarrow> u32 \<Rightarrow> u32" where
  "muluw3 a0 a1 = muluw3_loop 0 a1 a0"

function multi3_loop :: "u32 \<Rightarrow> u32 \<Rightarrow> u32 \<Rightarrow> u32 \<Rightarrow> u32 \<Rightarrow> u32 \<times> u32" where
  \<comment> \<open>the low and the high word of the product of two words\<close>
  "multi3_loop u_low v_low w_low w_high w_high_tmp =
     (let new_w_low = w_low + u_low;
          w_high_tmp2x = push_bit 1 w_high_tmp;
          w_high_tmp = w_high_tmp + w_high;
          carry = (if new_w_low < w_low then 1 else 0);
          w_high = (if v_low AND 1 \<noteq> 0 then carry + w_high_tmp else w_high);
          w_low = (if v_low AND 1 \<noteq> 0 then new_w_low else w_low);
          u_low_msb = drop_bit (4 * 8 - 1) u_low;
          v_low = drop_bit 1 v_low;
          u_low = push_bit 1 u_low;
          w_high_tmp = u_low_msb OR w_high_tmp2x
      in if v_low \<noteq> 0 then multi3_loop u_low v_low w_low w_high w_high_tmp else (w_low, w_high))"
  by pat_completeness auto
termination
  by (relation "measure (\<lambda>(_, v, _). unat v)") (simp_all del: drop_bit_Suc add: drop_bit_1_less [unfolded One_nat_def])

definition multi3 :: "u64 \<Rightarrow> u64 \<Rightarrow> u64" where
  "multi3 u v =
     (let uu = dw_struct u; vv = dw_struct v;
          (w_low, w_high) = multi3_loop (dw_low uu) (dw_low vv) 0 0 0;
          w_high = (if dw_high uu \<noteq> 0 then w_high + muluw3 (dw_low vv) (dw_high uu) else w_high);
          w_high = (if dw_high vv \<noteq> 0 then w_high + muluw3 (dw_low uu) (dw_high vv) else w_high)
      in dw_ll \<lparr>dw_low = w_low, dw_high = w_high\<rparr>)"

section \<open>Shifting\<close>

definition shl :: "u32 \<Rightarrow> int \<Rightarrow> c_error + u32" where
  \<comment> \<open>a shift of a word; undefined outside of its width\<close>
  "shl x n = rbind (guard (0 \<le> n \<and> n < W_TYPE_SIZE) Out_of_bounds) (\<lambda>_. Inr (push_bit (nat n) x))"

definition shr :: "u32 \<Rightarrow> int \<Rightarrow> c_error + u32" where
  "shr x n = rbind (guard (0 \<le> n \<and> n < W_TYPE_SIZE) Out_of_bounds) (\<lambda>_. Inr (drop_bit (nat n) x))"

definition ashldi3 :: "u64 \<Rightarrow> int \<Rightarrow> c_error + u64" where
  "ashldi3 u b =
     (if b = 0 then Inr u
      else let uu = dw_struct u; bm = W_TYPE_SIZE - b in
        if bm \<le> 0 then rbind (shl (dw_low uu) (- bm)) (\<lambda>high. Inr (dw_ll \<lparr>dw_low = 0, dw_high = high\<rparr>))
        else rbind (shr (dw_low uu) bm) (\<lambda>carries. rbind (shl (dw_low uu) b) (\<lambda>low. rbind (shl (dw_high uu) b) (\<lambda>high.
          Inr (dw_ll \<lparr>dw_low = low, dw_high = high OR carries\<rparr>)))))"


section \<open>The product of double words\<close>

definition dw :: "u32 \<Rightarrow> u32 \<Rightarrow> u64" where
  \<comment> \<open>the value of a high and a low word\<close>
  "dw h l = push_bit 32 (ucast h) + ucast l"

lemma dw_ll_dw: "dw_ll \<lparr>dw_low = l, dw_high = h\<rparr> = dw h l"
  unfolding dw_ll_def dw_def
  by (simp, rule disjunctive_add_eq_or [symmetric], rule bit_word_eqI) (auto simp: bit_simps dest: bit_imp_le_length)

lemma dw_struct_dw: "dw (dw_high (dw_struct u)) (dw_low (dw_struct u)) = u"
proof -
  have "dw_ll (dw_struct u) = u"
    by (rule bit_word_eqI) (auto simp: dw_ll_def dw_struct_def bit_simps dest: bit_imp_le_length)
  then show ?thesis unfolding dw_struct_def dw_ll_dw by simp
qed

lemma unat_u32: "unat (x :: u32) < 4294967296"
  using unsigned_less [of x, where ?'a = nat] by simp

lemma ucast_add: "(ucast (a + b :: u32) :: u64) = take_bit 32 (ucast a + ucast b)"
  using unat_u32 [of a] unat_u32 [of b]
  by (simp add: word_unat_eq_iff unat_word_ariths take_bit_eq_mod unsigned_take_bit_eq unsigned_ucast_eq)

lemma push_take: "push_bit 32 (take_bit 32 x) = (push_bit 32 x :: u64)"
  by (rule bit_word_eqI) (auto simp: bit_simps)

lemma dw_high_add: "dw (a + b) l = push_bit 32 (ucast a) + dw b l"
  by (simp add: dw_def ucast_add push_take push_bit_add)

lemma dw_add: "dw (carry + (h1 + h2)) (l1 + l2) = dw h1 l1 + dw h2 l2" if "carry = (if l1 + l2 < l1 then 1 else 0)"
proof -
  have "unat (ucast l1 + ucast l2 :: u64) = unat l1 + unat l2"
    using unat_u32 [of l1] unat_u32 [of l2] by (simp add: unat_word_ariths unsigned_ucast_eq take_bit_nat_eq_self)
  moreover have "unat (ucast (l1 + l2) :: u64) = unat (l1 + l2)"
    using unat_u32 [of "l1 + l2"] by (simp add: unsigned_ucast_eq take_bit_nat_eq_self)
  moreover have "unat l1 + unat l2 = (if l1 + l2 < l1 then 2 ^ 32 else 0) + unat (l1 + l2)"
    using unat_u32 [of l1] unat_u32 [of l2] by (auto simp: word_less_nat_alt unat_word_ariths mod_if)
  ultimately have l: "push_bit 32 (ucast carry) + ucast (l1 + l2) = (ucast l1 + ucast l2 :: u64)"
  proof (cases "l1 + l2 < l1")
    case True
    have "unat (4294967296 + ucast (l1 + l2) :: u64) = 4294967296 + unat (l1 + l2)"
      using unat_u32 [of "l1 + l2"] by (simp add: unat_word_ariths unsigned_ucast_eq take_bit_nat_eq_self)
    then have "unat (4294967296 + ucast (l1 + l2) :: u64) = unat (ucast l1 + ucast l2 :: u64)"
      using True \<open>unat (ucast l1 + ucast l2 :: u64) = unat l1 + unat l2\<close>
        \<open>unat l1 + unat l2 = (if l1 + l2 < l1 then 2 ^ 32 else 0) + unat (l1 + l2)\<close> by simp
    then have "4294967296 + ucast (l1 + l2) = (ucast l1 + ucast l2 :: u64)" by (rule unsigned_word_eqI)
    then show ?thesis using that True by simp
  next
    case False
    have "unat (ucast (l1 + l2) :: u64) = unat (ucast l1 + ucast l2 :: u64)"
      using False \<open>unat (ucast l1 + ucast l2 :: u64) = unat l1 + unat l2\<close> \<open>unat (ucast (l1 + l2) :: u64) = unat (l1 + l2)\<close>
        \<open>unat l1 + unat l2 = (if l1 + l2 < l1 then 2 ^ 32 else 0) + unat (l1 + l2)\<close> by simp
    then have "ucast (l1 + l2) = (ucast l1 + ucast l2 :: u64)" by (rule unsigned_word_eqI)
    then show ?thesis using that False by simp
  qed
  have "dw (carry + (h1 + h2)) (l1 + l2) = push_bit 32 (ucast h1) + push_bit 32 (ucast h2) + (push_bit 32 (ucast carry) + ucast (l1 + l2))"
    by (simp only: dw_high_add) (simp add: dw_def ucast_add push_take push_bit_add)
  then show ?thesis unfolding l by (simp add: dw_def)
qed

lemma dw_double: "dw (drop_bit 31 l OR push_bit 1 h) (push_bit 1 l) = 2 * dw h l"
proof -
  have 1: "dw h l = dw_ll \<lparr>dw_low = l, dw_high = h\<rparr>" for h l by (simp add: dw_ll_dw)
  have "dw_ll \<lparr>dw_low = push_bit 1 l, dw_high = drop_bit 31 l OR push_bit 1 h\<rparr> = push_bit 1 (dw_ll \<lparr>dw_low = l, dw_high = h\<rparr>)"
  proof (rule bit_word_eqI)
    fix n assume "n < LENGTH(64)"
    then show "bit (dw_ll \<lparr>dw_low = push_bit 1 l, dw_high = drop_bit 31 l OR push_bit 1 h\<rparr>) n =
      bit (push_bit 1 (dw_ll \<lparr>dw_low = l, dw_high = h\<rparr>)) n"
      by (cases "n = 32") (auto simp: dw_ll_def bit_simps simp del: push_bit_Suc drop_bit_Suc dest: bit_imp_le_length)
  qed
  then show ?thesis unfolding 1 by simp
qed

lemma word_halve: "v = 2 * drop_bit 1 v + (v AND 1)" for v :: "'a::len word"
  by (metis and_one_eq div_mult_mod_eq drop_bit_eq_div mult.commute power_one_right)


declare muluw3_loop.simps [simp del] multi3_loop.simps [simp del]

lemma and_1_cases: "v AND 1 = 0 \<or> v AND 1 = 1" for v :: "'a::len word"
  by (simp add: and_one_eq mod_2_eq_odd)

lemma muluw3_loop_mult: "muluw3_loop a0 a1 a2 = a0 + a1 * a2"
proof (induction a0 a1 a2 rule: muluw3_loop.induct)
  case (1 a0 a1 a2)
  let ?h = "drop_bit 1 a1"
  have a1: "a1 * a2 = ?h * push_bit 1 a2 + (a1 AND 1) * a2"
  proof -
    have "a1 * a2 = (2 * ?h + (a1 AND 1)) * a2" using word_halve [of a1] by (rule arg_cong)
    then show ?thesis by (simp add: algebra_simps)
  qed
  let ?a0 = "if a1 AND 1 = 0 then a0 else a0 + a2"
  have a0: "?a0 = a0 + (a1 AND 1) * a2" using and_1_cases [of a1] by auto
  show ?case
  proof (cases "?h = 0")
    case True
    then have "muluw3_loop a0 a1 a2 = ?a0" by (subst muluw3_loop.simps) (simp only: Let_def simp_thms if_False)
    then show ?thesis using a0 a1 True by (simp only: mult_zero_left add_0)
  next
    case False
    then have "muluw3_loop a0 a1 a2 = muluw3_loop ?a0 ?h (push_bit 1 a2)"
      by (subst muluw3_loop.simps) (simp only: Let_def not_False_eq_True if_True)
    also have "\<dots> = ?a0 + ?h * push_bit 1 a2" by (rule "1.IH" [OF refl refl refl refl False])
    finally show ?thesis using a0 a1 by (simp only: ac_simps)
  qed
qed

lemma multi3_loop_mult:
  "(case multi3_loop u v w h t of (lo, hi) \<Rightarrow> dw hi lo) = dw h w + dw t u * ucast v"
proof (induction u v w h t rule: multi3_loop.induct)
  case (1 u v w h t)
  let ?v = "drop_bit 1 v" and ?u = "push_bit 1 u" and ?t = "drop_bit (4 * 8 - 1) u OR push_bit 1 t"
  let ?h = "if v AND 1 \<noteq> 0 then (if w + u < w then 1 else 0) + (t + h) else h"
  let ?w = "if v AND 1 \<noteq> 0 then w + u else w"
  have d: "dw ?t ?u = 2 * dw t u" using dw_double by simp
  have s: "dw ?h ?w = dw h w + dw t u * ucast (v AND 1)"
    using dw_add [OF refl, of w u h t] and_1_cases [of v] by (auto simp: add.commute [of t h])
  have "(ucast v :: u64) = 2 * ucast ?v + ucast (v AND 1)"
  proof -
    have "(ucast v :: u64) = 2 * drop_bit 1 (ucast v) + (ucast v AND 1)" by (rule word_halve)
    moreover have "drop_bit 1 (ucast v :: u64) = ucast (drop_bit 1 v)" by (rule bit_word_eqI) (auto simp: bit_simps dest: bit_imp_le_length)
    moreover have "(ucast v :: u64) AND 1 = ucast (v AND 1)" by (rule bit_word_eqI) (auto simp: bit_simps dest: bit_imp_le_length)
    ultimately show ?thesis by (simp only:)
  qed
  then have e: "dw h w + dw t u * ucast v = dw ?h ?w + dw ?t ?u * ucast ?v"
    unfolding s d by (simp only: algebra_simps)
  show ?case
  proof (cases "?v = 0")
    case True
    then have "multi3_loop u v w h t = (?w, ?h)" by (subst multi3_loop.simps) (simp only: Let_def simp_thms if_False)
    then show ?thesis using e True by simp
  next
    case False
    then have "multi3_loop u v w h t = multi3_loop ?u ?v ?w ?h ?t"
      by (subst multi3_loop.simps) (simp only: Let_def not_False_eq_True if_True)
    then show ?thesis unfolding e
      using "1.IH" [OF refl refl refl refl refl refl refl refl refl refl False] by (simp only:)
  qed
qed



lemma ashldi3_run: "ashldi3 u b = (if 0 \<le> b \<and> b < 64 then Inr (push_bit (nat b) u) else Inl Out_of_bounds)"
proof -
  let ?l = "dw_low (dw_struct u)" and ?h = "dw_high (dw_struct u)"
  have hi: "dw_ll \<lparr>dw_low = 0, dw_high = push_bit (n - 32) ?l\<rparr> = push_bit n u" if "32 \<le> n" "n < 64" for n
    using that by (intro bit_word_eqI) (auto simp: dw_ll_def dw_struct_def bit_simps)
  have lo: "dw_ll \<lparr>dw_low = push_bit n ?l, dw_high = push_bit n ?h OR drop_bit (32 - n) ?l\<rparr> = push_bit n u" if "0 < n" "n < 32" for n
  proof (rule bit_word_eqI)
    fix k assume "k < LENGTH(64)"
    then show "bit (dw_ll \<lparr>dw_low = push_bit n ?l, dw_high = push_bit n ?h OR drop_bit (32 - n) ?l\<rparr>) k = bit (push_bit n u) k"
      using that by (cases "k < 32"; cases "k - 32 < n") (auto simp: dw_ll_def dw_struct_def bit_simps dest: bit_imp_le_length)
  qed
  consider "b = 0" | "32 \<le> b" | "0 < b" "b < 32" | "b < 0" by linarith
  then show ?thesis
  proof cases
    case 2
    then have "nat (b - 32) = nat b - 32" by simp
    then show ?thesis using 2 hi [of "nat b"] by (auto simp: ashldi3_def W_TYPE_SIZE_def shl_def guard_def)
  next
    case 3
    then have "nat (32 - b) = 32 - nat b" by simp
    then show ?thesis using 3 lo [of "nat b"] by (auto simp: ashldi3_def W_TYPE_SIZE_def shl_def shr_def guard_def)
  next
    case 4
    then show ?thesis by (auto simp: ashldi3_def W_TYPE_SIZE_def shl_def shr_def guard_def)
  qed (simp add: ashldi3_def)
qed


section \<open>The generic macros of \<open>longlong.h\<close>\<close>

definition ll_B :: u32 where "ll_B = push_bit (nat (W_TYPE_SIZE div 2)) 1"
definition ll_lowpart :: "u32 \<Rightarrow> u32" where "ll_lowpart t = t AND (ll_B - 1)"
definition ll_highpart :: "u32 \<Rightarrow> u32" where "ll_highpart t = drop_bit (nat (W_TYPE_SIZE div 2)) t"

definition add_ssaaaa :: "u32 \<Rightarrow> u32 \<Rightarrow> u32 \<Rightarrow> u32 \<Rightarrow> u32 \<times> u32" where
  \<comment> \<open>the high and the low word of the sum\<close>
  "add_ssaaaa ah al bh bl = (let x = al + bl in (ah + bh + (if x < al then 1 else 0), x))"

definition sub_ddmmss :: "u32 \<Rightarrow> u32 \<Rightarrow> u32 \<Rightarrow> u32 \<Rightarrow> u32 \<times> u32" where
  "sub_ddmmss ah al bh bl = (let x = al - bl in (ah - bh - (if al < x then 1 else 0), x))"

definition umul_ppmm :: "u32 \<Rightarrow> u32 \<Rightarrow> u32 \<times> u32" where
  \<comment> \<open>the RISC-V version, with \<open>__muluw3\<close>\<close>
  "umul_ppmm u v =
     (let ul = ll_lowpart u; uh = ll_highpart u; vl = ll_lowpart v; vh = ll_highpart v;
          x0 = muluw3 ul vl; x1 = muluw3 ul vh; x2 = muluw3 uh vl; x3 = muluw3 uh vh;
          x1 = x1 + ll_highpart x0;
          x1 = x1 + x2;
          x3 = (if x1 < x2 then x3 + ll_B else x3)
      in (x3 + ll_highpart x1, ll_lowpart x1 * ll_B + ll_lowpart x0))"

definition umulsidi3 :: "u32 \<Rightarrow> u32 \<Rightarrow> u64" where
  "umulsidi3 u v = (case umul_ppmm u v of (h, l) \<Rightarrow> dw_ll \<lparr>dw_low = l, dw_high = h\<rparr>)"

definition udiv_digit :: "u32 \<Rightarrow> u32 \<Rightarrow> u32 \<Rightarrow> u32 \<times> u32" where
  \<comment> \<open>one half of \<open>__udiv_qrnnd_c\<close>: a quotient digit and the remainder, with the next digit \<open>b\<close> of the dividend\<close>
  "udiv_digit d n b =
     (let d1 = ll_highpart d; d0 = ll_lowpart d; r = n mod d1; q = n div d1; m = q * d0; r = r * ll_B OR b;
          (q, r) = (if r < m then
              let q = q - 1; r = r + d in
              if d \<le> r then if r < m then (q - 1, r + d) else (q, r) else (q, r)
            else (q, r))
      in (q, r - m))"

definition udiv_qrnnd_c :: "u32 \<Rightarrow> u32 \<Rightarrow> u32 \<Rightarrow> c_error + u32 \<times> u32" where
  \<comment> \<open>quotient and remainder of the double word \<open>n1\<close>, \<open>n0\<close>\<close>
  "udiv_qrnnd_c n1 n0 d =
     (if ll_highpart d = 0 then Inl Div_by_zero
      else let (q1, r1) = udiv_digit d n1 (ll_highpart n0); (q0, r0) = udiv_digit d r1 (ll_lowpart n0)
        in Inr (q1 * ll_B OR q0, r0))"

definition count_leading_zeros :: "(nat \<Rightarrow> nat) \<Rightarrow> u32 \<Rightarrow> nat" where
  \<comment> \<open>with the table \<open>__clz_tab\<close>; \<open>__BITS4\<close> is a quarter of the width\<close>
  "count_leading_zeros clz_tab x =
     (let a = (if x < push_bit (2 * 8) 1 then (if x < push_bit 8 1 then 0 else 8)
               else if x < push_bit (3 * 8) 1 then 2 * 8 else 3 * 8)
      in 32 - (clz_tab (unat (drop_bit a x)) + a))"

definition count_trailing_zeros :: "(nat \<Rightarrow> nat) \<Rightarrow> u32 \<Rightarrow> nat" where
  "count_trailing_zeros clz_tab x = 32 - 1 - count_leading_zeros clz_tab (x AND - x)"


section \<open>Division with a normalised divisor\<close>

lemma unat_parts:
  "unat (ll_highpart d) = unat d div 65536" "unat (ll_lowpart d) = unat d mod 65536"
proof -
  show "unat (ll_highpart d) = unat d div 65536"
    by (simp add: ll_highpart_def W_TYPE_SIZE_def unat_drop_bit_eq drop_bit_eq_div unat_div_distrib)
  have "d AND (ll_B - 1) = take_bit 16 d"
    by (simp add: ll_B_def W_TYPE_SIZE_def take_bit_eq_mask mask_numeral)
  then show "unat (ll_lowpart d) = unat d mod 65536"
    unfolding ll_lowpart_def by (simp only: unsigned_take_bit_eq) (simp add: take_bit_eq_mod)
qed

lemma ll_B_or:
  assumes "unat x < 65536" and "unat b < 65536"
  shows "unat (x * ll_B OR b) = unat x * 65536 + unat b"
proof -
  have "take_bit 16 b = b"
    by (rule unsigned_word_eqI [where 'a = nat]) (use assms(2) in \<open>simp add: unsigned_take_bit_eq take_bit_nat_eq_self\<close>)
  then have b: "bit b n \<Longrightarrow> n < 16" for n by (metis bit_take_bit_iff)
  have "x * ll_B = push_bit 16 x" by (simp add: ll_B_def W_TYPE_SIZE_def push_bit_eq_mult)
  then have "x * ll_B OR b = x * ll_B + b"
    by (simp, intro disjunctive_add_eq_or [symmetric] bit_word_eqI) (auto simp: bit_simps dest: b)
  moreover have "unat (x * ll_B) = unat x * 65536"
    using assms by (simp add: ll_B_def W_TYPE_SIZE_def unat_word_ariths)
  ultimately show ?thesis using assms by (simp add: unat_word_ariths)
qed

lemma digit_nat:
  fixes n d d0 d1 b :: nat
  assumes "n < d" and "d = d1 * 65536 + d0" and "d0 < 65536" and "b < 65536" and "32768 \<le> d1"
  defines "q \<equiv> n div d1" and "m \<equiv> n div d1 * d0" and "r \<equiv> n mod d1 * 65536 + b"
  shows "n * 65536 + b + m = q * d + r" and "r < d" and "q < 65538" and "m < 2 * d" and "m < 4294967296"
    and "r < m \<Longrightarrow> 1 \<le> q" and "r + d < m \<Longrightarrow> 2 \<le> q"
proof -
  have n: "n = q * d1 + n mod d1" by (simp add: q_def)
  then have "n * 65536 + b + m = (q * d1 + n mod d1) * 65536 + b + q * d0" by (simp add: m_def q_def)
  also have "\<dots> = q * d + r" unfolding assms(2) r_def by (simp add: algebra_simps)
  finally show "n * 65536 + b + m = q * d + r" .
  have "n mod d1 + 1 \<le> d1" using assms(5) by (simp add: Suc_leI)
  then have "(n mod d1 + 1) * 65536 \<le> d1 * 65536" by (rule mult_le_mono1)
  then show "r < d" using assms(2,4) by (simp add: r_def)
  have "q * d1 < d1 * 65538" using n assms(1,2,3,5) by linarith
  then show q: "q < 65538" by (simp add: mult.commute [of q])
  then have "m \<le> 65537 * 65535" unfolding m_def q_def [symmetric] by (intro mult_le_mono) (use assms(3) in simp_all)
  then show "m < 4294967296" "m < 2 * d" using assms(2,5) by simp_all
  show "1 \<le> q" if "r < m" using that by (cases q) (simp_all add: m_def q_def [symmetric])
  show "2 \<le> q" if "r + d < m"
  proof (rule ccontr)
    assume "\<not> 2 \<le> q"
    then have "m \<le> 1 * d0" unfolding m_def q_def [symmetric] by (intro mult_le_mono1) simp
    with that assms(2,5) show False by simp
  qed
qed

lemma udiv_digit_run:
  assumes "n < d" and "2147483648 \<le> unat d" and b: "unat b < 65536"
  shows "case udiv_digit d n b of (q, r) \<Rightarrow> unat q * unat d + unat r = unat n * 65536 + unat b \<and> r < d \<and> unat q < 65536"
proof -
  let ?d1 = "unat d div 65536" and ?d0 = "unat d mod 65536"
  have nd: "unat n < unat d" using assms(1) by (simp add: word_less_nat_alt)
  note dn = digit_nat [OF nd div_mult_mod_eq [symmetric, of "unat d" 65536] _ b]
  define q where "q = unat n div ?d1"
  define m where "m = unat n div ?d1 * ?d0"
  define r where "r = unat n mod ?d1 * 65536 + unat b"
  have d1: "32768 \<le> ?d1" using assms(2) by (simp add: div_le_mono [of 2147483648 _ 65536, simplified])
  note f = dn [OF _ d1, folded q_def m_def r_def, simplified]
  have w: "unat d < 4294967296" by (rule unat_u32)
  have qw: "unat (n div ll_highpart d) = q" by (simp add: q_def unat_div_distrib unat_parts)
  have mw: "unat (n div ll_highpart d * ll_lowpart d) = m"
  proof -
    have "unat (n div ll_highpart d * ll_lowpart d) = q * ?d0 mod 4294967296"
      using qw by (simp only: unat_word_ariths(2) unat_parts) simp
    also have "q * ?d0 = m" by (simp add: q_def m_def)
    finally show ?thesis using f(5) by simp
  qed
  have "?d1 < 65536" using w by (simp add: div_less_iff_less_mult)
  moreover have "unat n mod ?d1 < ?d1" using d1 by simp
  ultimately have "unat (n mod ll_highpart d) < 65536" by (simp only: unat_mod_distrib unat_parts)
  then have rw: "unat (n mod ll_highpart d * ll_B OR b) = r"
    using b by (simp add: ll_B_or unat_mod_distrib unat_parts r_def)
  define Q where "Q = n div ll_highpart d"
  define M where "M = n div ll_highpart d * ll_lowpart d"
  define R where "R = n mod ll_highpart d * ll_B OR b"
  have u: "unat Q = q" "unat M = m" "unat R = r" using qw mw rw by (simp_all add: Q_def M_def R_def)
  have dig: "udiv_digit d n b = (if R < M
      then if d \<le> R + d then if R + d < M then (Q - 1 - 1, R + d + d - M) else (Q - 1, R + d - M) else (Q - 1, R + d - M)
      else (Q, R - M))"
    by (simp add: udiv_digit_def Let_def Q_def M_def R_def)
  have rd: "unat (R + d) = (if r + unat d < 4294967296 then r + unat d else r + unat d - 4294967296)"
    using f(2) w by (auto simp: unat_word_ariths u mod_if)
  have carry: "d \<le> R + d \<longleftrightarrow> r + unat d < 4294967296"
    using f(2) w by (auto simp: word_le_nat_alt rd)
  have fin: "X = of_nat k \<Longrightarrow> k < unat d \<Longrightarrow> unat X = k" for X :: u32 and k
    using w by (simp add: unsigned_of_nat take_bit_nat_eq_self)
  have of: "of_nat r = R" "of_nat m = M" "of_nat (unat d) = d" unfolding u [symmetric] by simp_all
  obtain Q' X k where res: "udiv_digit d n b = (Q', X)" "unat X = k" "k < unat d" "unat Q' * unat d + k = unat n * 65536 + unat b"
  proof (cases "r < m")
    case False
    show ?thesis
    proof (rule that [of Q "R - M" "r - m"])
      show "udiv_digit d n b = (Q, R - M)" using False u by (simp add: dig word_less_nat_alt)
      show "unat (R - M) = r - m" using False f(2) by (intro fin) (simp_all add: of_nat_diff of)
      show "r - m < unat d" using f(2) by simp
      show "unat Q * unat d + (r - m) = unat n * 65536 + unat b" using f(1) False by (simp add: u)
    qed
  next
    case rm: True
    show ?thesis
    proof (cases "r + unat d < m")
      case True
      then have "udiv_digit d n b = (Q - 1 - 1, R + d + d - M)"
        using rm f(5) carry rd u by (simp add: dig word_less_nat_alt)
      moreover have "unat (R + d + d - M) = r + unat d + unat d - m"
        using True f(4) by (intro fin) (simp_all add: of_nat_diff of)
      moreover have "unat (Q - 1 - 1) = q - 2"
        using f(7) [OF True] u(1) by (simp add: unat_sub word_le_nat_alt)
      moreover have "(q - 2) * unat d + 2 * unat d = q * unat d" using le_add_diff_inverse2 [OF f(7) [OF True]] add_mult_distrib [of "q - 2" 2 "unat d"] by simp
      ultimately show ?thesis using that [of "Q - 1 - 1" "R + d + d - M" "r + unat d + unat d - m"] True f(1,4) by simp
    next
      case False
      then have "udiv_digit d n b = (Q - 1, R + d - M)"
        using rm f(5) carry rd u by (auto simp: dig word_less_nat_alt)
      moreover have "unat (R + d - M) = r + unat d - m"
        using False rm by (intro fin) (simp_all add: of_nat_diff of)
      moreover have "unat (Q - 1) = q - 1"
        using f(6) [OF rm] u(1) by (simp add: unat_sub word_le_nat_alt)
      moreover have "(q - 1) * unat d + unat d = q * unat d" using f(6) [OF rm] by (simp flip: add_mult_distrib2 add: mult.commute mult_eq_if)
      ultimately show ?thesis using that [of "Q - 1" "R + d - M" "r + unat d - m"] False rm f(1) by simp
    qed
  qed
  have "unat Q' * unat d < 65536 * unat d"
  proof -
    have "unat Q' * unat d \<le> unat n * 65536 + unat b" using res(4) by simp
    also have "\<dots> < (unat n + 1) * 65536" using b by simp
    also have "\<dots> \<le> unat d * 65536" using nd by (intro mult_le_mono1) simp
    finally show ?thesis by (simp add: mult.commute)
  qed
  then show ?thesis using res by (simp add: word_less_nat_alt)
qed

text \<open>The generic double-word division of \<open>longlong.h\<close>: for a divisor with its top bit set and a smaller high word, \<open>__udiv_qrnnd_c\<close> gives the
  quotient and the remainder of the double word, however its corrections of the two quotient digits overflow.\<close>

theorem udiv_qrnnd_c_correct:
  assumes "n1 < d" and "2147483648 \<le> unat d"
  shows "\<exists>q r. udiv_qrnnd_c n1 n0 d = Inr (q, r) \<and> unat q = (unat n1 * 2 ^ 32 + unat n0) div unat d \<and>
    unat r = (unat n1 * 2 ^ 32 + unat n0) mod unat d"
proof -
  have hi: "unat (ll_highpart n0) < 65536" and lo: "unat (ll_lowpart n0) < 65536"
    using unat_u32 [of n0] by (simp_all add: unat_parts div_less_iff_less_mult)
  obtain q1 r1 where 1: "udiv_digit d n1 (ll_highpart n0) = (q1, r1)" "unat q1 * unat d + unat r1 = unat n1 * 65536 + unat (ll_highpart n0)"
    "r1 < d" "unat q1 < 65536"
    using udiv_digit_run [OF assms hi] by (cases "udiv_digit d n1 (ll_highpart n0)") auto
  obtain q0 r0 where 0: "udiv_digit d r1 (ll_lowpart n0) = (q0, r0)" "unat q0 * unat d + unat r0 = unat r1 * 65536 + unat (ll_lowpart n0)"
    "r0 < d" "unat q0 < 65536"
    using udiv_digit_run [OF 1(3) assms(2) lo] by (cases "udiv_digit d r1 (ll_lowpart n0)") auto
  have d: "ll_highpart d \<noteq> 0"
  proof
    assume "ll_highpart d = 0"
    then have "unat d div 65536 = 0" using unat_parts(1) [of d] by simp
    then show False using assms(2) by simp
  qed
  have q: "unat (q1 * ll_B OR q0) = unat q1 * 65536 + unat q0" by (rule ll_B_or [OF 1(4) 0(4)])
  have "(unat q1 * 65536 + unat q0) * unat d + unat r0 = (unat q1 * unat d + unat r1) * 65536 + unat (ll_lowpart n0)"
    using 0(2) by (simp add: algebra_simps)
  also have "\<dots> = unat n1 * 2 ^ 32 + (unat n0 div 65536 * 65536 + unat n0 mod 65536)"
    unfolding 1(2) unat_parts by (simp add: algebra_simps)
  finally have e: "unat (q1 * ll_B OR q0) * unat d + unat r0 = unat n1 * 2 ^ 32 + unat n0" unfolding q by simp
  have "unat r0 < unat d" using 0(3) by (simp add: word_less_nat_alt)
  then have "(unat n1 * 2 ^ 32 + unat n0) div unat d = unat (q1 * ll_B OR q0) \<and> (unat n1 * 2 ^ 32 + unat n0) mod unat d = unat r0"
    unfolding e [symmetric] by simp
  then show ?thesis using d by (simp add: udiv_qrnnd_c_def 1(1) 0(1))
qed

lemma udiv_qrnnd_c_correct_witness:
  "\<exists>q r. udiv_qrnnd_c 0x80000000 0xffffffff 0x80000001 = Inr (q, r) \<and> unat q = 4294967295 \<and> unat r = 2147483648"
  using udiv_qrnnd_c_correct [of "0x80000000" "0x80000001" "0xffffffff"] by simp

section \<open>The other macros\<close>

lemma add_ssaaaa_correct: "case add_ssaaaa ah al bh bl of (h, l) \<Rightarrow> dw h l = dw ah al + dw bh bl"
  using dw_add [OF refl, of al bl ah bh] by (simp add: add_ssaaaa_def Let_def add.commute)

lemma sub_ddmmss_correct: "case sub_ddmmss ah al bh bl of (h, l) \<Rightarrow> dw h l = dw ah al - dw bh bl"
proof -
  define c :: u32 where "c = (if al < al - bl then 1 else 0)"
  have "dw (c + ((ah - bh - c) + bh)) (al - bl + bl) = dw (ah - bh - c) (al - bl) + dw bh bl"
    by (rule dw_add) (simp add: c_def)
  then have "dw (ah - bh - c) (al - bl) = dw ah al - dw bh bl" by simp
  then show ?thesis by (simp add: sub_ddmmss_def Let_def c_def)
qed

lemma mult_parts:
  fixes ul uh vl vh :: nat
  assumes "ul < 65536" and "uh < 65536" and "vl < 65536" and "vh < 65536"
  defines "x1 \<equiv> ul * vh + ul * vl div 65536 + uh * vl"
  shows "ul * vl < 4294967296" and "ul * vh + ul * vl div 65536 < 4294967296" and "uh * vl < 4294967296"
    and "(uh * 65536 + ul) * (vh * 65536 + vl) = uh * vh * 4294967296 + x1 * 65536 + ul * vl mod 65536"
proof -
  have m: "a * b \<le> 65535 * 65535" if "a < 65536" "b < 65536" for a b :: nat
    using that by (intro mult_le_mono) simp_all
  show "ul * vl < 4294967296" "uh * vl < 4294967296" using m [of ul vl] m [of uh vl] assms by simp_all
  have "ul * vl div 65536 \<le> 65534" using m [OF assms(1,3)] by linarith
  then show "ul * vh + ul * vl div 65536 < 4294967296" using m [of ul vh] assms(1,4) by linarith
  have "ul * vl = ul * vl div 65536 * 65536 + ul * vl mod 65536" by simp
  then show "(uh * 65536 + ul) * (vh * 65536 + vl) = uh * vh * 4294967296 + x1 * 65536 + ul * vl mod 65536"
    unfolding x1_def by (simp add: algebra_simps)
qed

lemma umul_ppmm_correct: "case umul_ppmm u v of (h, l) \<Rightarrow> unat h * 2 ^ 32 + unat l = unat u * unat v"
proof -
  define ul uh vl vh where "ul = unat u mod 65536" and "uh = unat u div 65536" and "vl = unat v mod 65536" and "vh = unat v div 65536"
  have s: "ul < 65536" "uh < 65536" "vl < 65536" "vh < 65536"
    using unat_u32 [of u] unat_u32 [of v] by (simp_all add: ul_def uh_def vl_def vh_def div_less_iff_less_mult)
  note n = mult_parts [OF s]
  have mul: "unat (muluw3 a b) = unat a * unat b mod 4294967296" for a b
    by (simp add: muluw3_def muluw3_loop_mult unat_word_ariths mult.commute)
  have B: "unat ll_B = 65536" by (simp add: ll_B_def W_TYPE_SIZE_def)
  define x0 where "x0 = muluw3 (ll_lowpart u) (ll_lowpart v)"
  define y1 where "y1 = muluw3 (ll_lowpart u) (ll_highpart v) + ll_highpart x0"
  define x2 where "x2 = muluw3 (ll_highpart u) (ll_lowpart v)"
  define x1 where "x1 = y1 + x2"
  define x3 where "x3 = muluw3 (ll_highpart u) (ll_highpart v)"
  have x0: "unat x0 = ul * vl" using n(1) by (simp add: x0_def mul unat_parts ul_def vl_def)
  have y1: "unat y1 = ul * vh + ul * vl div 65536"
  proof -
    have "ul * vh < 4294967296" using n(2) by simp
    then have "unat (muluw3 (ll_lowpart u) (ll_highpart v)) = ul * vh" by (simp add: mul unat_parts ul_def vh_def)
    then show ?thesis using n(2) by (simp add: y1_def unat_word_ariths(1) unat_parts x0)
  qed
  have x2: "unat x2 = uh * vl" using n(3) by (simp add: x2_def mul unat_parts uh_def vl_def)
  have x3: "unat x3 = uh * vh"
  proof -
    have "uh * vh \<le> 65535 * 65535" using s by (intro mult_le_mono) simp_all
    then show ?thesis by (simp add: x3_def mul unat_parts uh_def vh_def)
  qed
  let ?X = "ul * vh + ul * vl div 65536 + uh * vl"
  have x1: "unat x1 = (if x1 < x2 then ?X - 4294967296 else ?X)" "x1 < x2 \<longleftrightarrow> 4294967296 \<le> ?X"
    using n(2,3) by (auto simp: x1_def unat_word_ariths(1) y1 x2 word_less_nat_alt mod_if)
  have um: "umul_ppmm u v = ((if x1 < x2 then x3 + ll_B else x3) + ll_highpart x1, ll_lowpart x1 * ll_B + ll_lowpart x0)"
    by (simp add: umul_ppmm_def Let_def x0_def x1_def x2_def x3_def y1_def)
  have "(unat u div 65536 * 65536 + unat u mod 65536) * (unat v div 65536 * 65536 + unat v mod 65536) < 4294967296 * 4294967296"
    using mult_strict_mono [OF unat_u32 [of u] unat_u32 [of v]] by simp
  then have total: "uh * vh * 4294967296 + ?X * 65536 + ul * vl mod 65536 < 4294967296 * 4294967296"
    using n(4) by (simp add: ul_def uh_def vl_def vh_def)
  define C where "C = (if x1 < x2 then 65536 else 0 :: nat)"
  have X: "?X = C * 65536 + unat x1" using x1 by (auto simp: C_def)
  have X1: "unat x1 = unat x1 div 65536 * 65536 + unat x1 mod 65536" by simp
  have h: "uh * vh + C + unat x1 div 65536 < 4294967296"
    using total unfolding X by (subst (asm) X1) (simp add: algebra_simps)
  have l: "unat (ll_lowpart x1 * ll_B + ll_lowpart x0) = unat x1 mod 65536 * 65536 + ul * vl mod 65536"
  proof -
    have "unat x1 mod 65536 * 65536 + ul * vl mod 65536 < 4294967296"
      using mod_less_divisor [of 65536 "unat x1"] mod_less_divisor [of 65536 "ul * vl"] by linarith
    then show ?thesis by (simp add: unat_word_ariths(1,2) unat_parts B x0)
  qed
  have "unat ((if x1 < x2 then x3 + ll_B else x3) + ll_highpart x1) = uh * vh + C + unat x1 div 65536"
    using h by (auto simp: unat_word_ariths(1) unat_parts B x3 C_def)
  moreover have "unat u * unat v = uh * vh * 4294967296 + ?X * 65536 + ul * vl mod 65536"
    using n(4) by (simp add: ul_def uh_def vl_def vh_def)
  moreover have "unat x1 * 65536 = unat x1 div 65536 * 4294967296 + unat x1 mod 65536 * 65536"
  proof -
    define a b where "a = unat x1 div 65536" and "b = unat x1 mod 65536"
    have "unat x1 = a * 65536 + b" by (simp add: a_def b_def)
    then have "unat x1 * 65536 = a * 4294967296 + b * 65536" by simp
    then show ?thesis by (simp only: a_def b_def)
  qed
  ultimately show ?thesis unfolding um prod.case l X by (simp add: algebra_simps)
qed


lemma count_leading_zeros_correct:
  assumes tab: "\<And>i. 0 < i \<Longrightarrow> i < 256 \<Longrightarrow> 0 < clz_tab i \<and> 2 ^ (clz_tab i - 1) \<le> i \<and> i < 2 ^ clz_tab i \<and> clz_tab i \<le> 8" and "x \<noteq> 0"
  shows "count_leading_zeros clz_tab x < 32 \<and> 2 ^ (31 - count_leading_zeros clz_tab x) \<le> unat x \<and>
    unat x < 2 ^ (32 - count_leading_zeros clz_tab x)"
proof -
  have key: "2 ^ (31 - c) \<le> unat x \<and> unat x < 2 ^ (32 - c) \<and> c < 32"
    if c: "c = 32 - (clz_tab (unat x div 2 ^ a) + a)" and a: "a \<le> 24" "2 ^ a \<le> unat x" "unat x < 2 ^ (a + 8)" for a c
  proof -
    let ?i = "unat x div 2 ^ a"
    have i: "0 < ?i" "?i < 256" using a(2,3) by (simp_all add: div_greater_zero_iff power_add less_mult_imp_div_less mult.commute)
    note t = tab [OF i]
    have "unat x < (?i + 1) * 2 ^ a" using dividend_less_div_times [of "2 ^ a" "unat x"] by (simp add: add.commute)
    also have "\<dots> \<le> 2 ^ clz_tab ?i * 2 ^ a" using t by (intro mult_le_mono1) simp
    finally have 1: "unat x < 2 ^ (clz_tab ?i + a)" by (simp add: power_add)
    have "2 ^ (clz_tab ?i - 1) * 2 ^ a \<le> ?i * 2 ^ a" using t by (intro mult_le_mono1) simp
    also have "\<dots> \<le> unat x" by simp
    finally have "2 ^ (clz_tab ?i - 1 + a) \<le> unat x" by (simp add: power_add)
    then show ?thesis using 1 t a(1) by (auto simp: c)
  qed
  have d: "unat (drop_bit a x) = unat x div 2 ^ a" for a by (simp only: unat_drop_bit_eq) (simp only: drop_bit_eq_div)
  have "0 < unat x" using assms(2) by (simp add: unat_gt_0)
  then consider (1) "unat x < 256" | (2) "256 \<le> unat x" "unat x < 65536" | (3) "65536 \<le> unat x" "unat x < 16777216" | (4) "16777216 \<le> unat x"
    by linarith
  then show ?thesis
  proof cases
    case 1
    then show ?thesis using key [of _ 0, OF refl] \<open>0 < unat x\<close> by (simp add: count_leading_zeros_def d word_less_nat_alt)
  next
    case 2
    then show ?thesis using key [of _ 8, OF refl] by (simp add: count_leading_zeros_def d word_less_nat_alt)
  next
    case 3
    then show ?thesis using key [of _ 16, OF refl] by (simp add: count_leading_zeros_def d word_less_nat_alt)
  next
    case 4
    then show ?thesis using key [of _ 24, OF refl] unat_u32 [of x] by (simp add: count_leading_zeros_def d word_less_nat_alt)
  qed
qed

end
