(* ===== verification/Libgcc_Div.thy ===== *)
theory Libgcc_Div
  imports Int64
begin

text \<open>
  The division routines of the simulated core, \<open>abstract-machine/am/src/riscv/npc/libgcc/div.S\<close> as built for RV64, on the
  argument registers \<open>a0\<close> to \<open>a3\<close>. The quotient is returned in \<open>a0\<close>, and \<open>__udivdi3\<close> leaves the remainder in \<open>a1\<close>.
  They are an unsigned shift-and-subtract loop and sign handling around it; with a divisor of zero they return what the
  instructions of the M extension do. The integers of C's division are the ones of \<open>Int64\<close>.
\<close>

section \<open>Unsigned division\<close>

lemma sint_pos_iff: "0 < sint a \<longleftrightarrow> a \<noteq> 0 \<and> unat a < 2 ^ 63" for a :: u64
proof -
  have u: "uint a = int (unat a)" by (rule uint_nat)
  have z: "a \<noteq> 0 \<longleftrightarrow> 0 < unat a" by (simp add: unat_gt_0)
  have "unat a < 2 ^ 64" using unat_lt_2p [of a] by simp
  show ?thesis
  proof (cases "unat a < 2 ^ 63")
    case True
    then have "int (unat a) < int (2 ^ 63)" by (simp only: of_nat_less_iff)
    then have "sint a = int (unat a)" by (simp only: sint_u64 u) simp
    then show ?thesis using True z by (simp only: of_nat_0_less_iff simp_thms)
  next
    case False
    then have "int (2 ^ 63) \<le> int (unat a)" by (simp only: of_nat_le_iff not_less)
    moreover have "int (unat a) < int (2 ^ 64)" using \<open>unat a < 2 ^ 64\<close> by (simp only: of_nat_less_iff)
    ultimately have "sint a < 0" by (simp only: sint_u64 u) simp
    then show ?thesis using False by simp
  qed
qed

lemma unat_double:
  assumes "unat a < 2 ^ 63"
  shows "unat (push_bit 1 a) = 2 * unat (a :: u64)"
proof -
  have "push_bit 1 a = a + a" by (simp only: push_bit_eq_mult power_one_right mult_2_right)
  moreover have "unat (a + a) = unat a + unat a" using assms by (intro unat_add_no_wrap) simp
  ultimately show ?thesis by (simp only: mult_2)
qed

function shift_up :: "u64 \<Rightarrow> u64 \<Rightarrow> u64 \<Rightarrow> u64 \<times> u64" where
  \<comment> \<open>\<open>.L1\<close> with \<open>a1\<close>, \<open>a2\<close> and \<open>a3\<close>; the last two at \<open>.L2\<close>\<close>
  "shift_up a1 a2 a3 =
     (if sint a2 \<le> 0 then (a2, a3)
      else let a2 = push_bit 1 a2; a3 = push_bit 1 a3
        in if a2 < a1 then shift_up a1 a2 a3 else (a2, a3))"
  by pat_completeness auto
termination
proof (relation "measure (\<lambda>(a1, a2, a3). 2 ^ 64 - unat a2)")
  fix a1 a2 a3 z za :: u64
  assume "\<not> sint a2 \<le> 0" "z = push_bit 1 a2"
  then have "0 < unat a2" "unat a2 < 2 ^ 63" "unat z = 2 * unat a2"
    using sint_pos_iff [of a2] unat_double [of a2] by (auto simp: unat_gt_0)
  then show "((a1, z, za), (a1, a2, a3)) \<in> measure (\<lambda>(a1, a2, a3). 2 ^ 64 - unat a2)" by simp
qed simp

lemma drop_bit_less: "a \<noteq> 0 \<Longrightarrow> unat (drop_bit 1 a) < unat (a :: u64)"
  using drop_bit_eq_div [of 1 a] unat_div_distrib [of a 2] by (simp flip: unat_gt_0)

function subtract_down :: "u64 \<Rightarrow> u64 \<Rightarrow> u64 \<Rightarrow> u64 \<Rightarrow> u64 \<times> u64" where
  \<comment> \<open>\<open>.L3\<close>: \<open>a0\<close> and \<open>a1\<close> at the end\<close>
  "subtract_down a0 a1 a2 a3 =
     (let (a0, a1) = (if a1 < a2 then (a0, a1) else (a0 OR a3, a1 - a2));
          a3' = drop_bit 1 a3; a2 = drop_bit 1 a2
      in if a3' \<noteq> 0 then subtract_down a0 a1 a2 a3' else (a0, a1))"
  by pat_completeness auto
termination
proof (relation "measure (\<lambda>(a0, a1, a2, a3). unat a3)")
  fix a0 a1 a2 a3 x xa y z za :: u64
  assume "z = drop_bit 1 a3" "z \<noteq> 0"
  then have "a3 \<noteq> 0" by auto
  then show "((xa, y, za, z), (a0, a1, a2, a3)) \<in> measure (\<lambda>(a0, a1, a2, a3). unat a3)"
    using \<open>z = drop_bit 1 a3\<close> drop_bit_less by simp
qed simp

definition udivdi3_regs :: "u64 \<Rightarrow> u64 \<Rightarrow> u64 \<times> u64" where
  \<comment> \<open>\<open>__udivdi3\<close>: the quotient and the remainder\<close>
  "udivdi3_regs a0 a1 =
     (let a2 = a1; a1 = a0; a0 = - 1 in
      if a2 = 0 then (a0, a1)
      else let a3 = 1; (a2, a3) = (if a1 \<le> a2 then (a2, a3) else shift_up a1 a2 a3)
        in subtract_down 0 a1 a2 a3)"

section \<open>The other routines\<close>

definition asm_umoddi3 :: "u64 \<Rightarrow> u64 \<Rightarrow> u64" where "asm_umoddi3 a0 a1 = snd (udivdi3_regs a0 a1)"

definition asm_divdi3 :: "u64 \<Rightarrow> u64 \<Rightarrow> u64" where
  \<comment> \<open>\<open>.L10\<close>, \<open>.L11\<close> and \<open>.L12\<close>\<close>
  "asm_divdi3 a0 a1 =
     (if sint a0 < 0 then
        let a0 = - a0 in
        if 0 < sint a1 then - fst (udivdi3_regs a0 a1) else fst (udivdi3_regs a0 (- a1))
      else if sint a1 < 0 then - fst (udivdi3_regs a0 (- a1))
      else fst (udivdi3_regs a0 a1))"

definition asm_moddi3 :: "u64 \<Rightarrow> u64 \<Rightarrow> u64" where
  \<comment> \<open>\<open>.L30\<close>, \<open>.L31\<close> and \<open>.L32\<close>\<close>
  "asm_moddi3 a0 a1 =
     (if sint a1 < 0 then
        let a1 = - a1 in
        if 0 \<le> sint a0 then snd (udivdi3_regs a0 a1) else - snd (udivdi3_regs (- a0) a1)
      else if sint a0 < 0 then - snd (udivdi3_regs (- a0) a1)
      else snd (udivdi3_regs a0 a1))"

definition sext_w :: "u64 \<Rightarrow> u64" where "sext_w a = signed_take_bit 31 a"

definition asm_udivsi3 :: "u64 \<Rightarrow> u64 \<Rightarrow> u64" where
  "asm_udivsi3 a0 a1 = sext_w (fst (udivdi3_regs (push_bit 32 a0) (push_bit 32 a1)))"

definition asm_umodsi3 :: "u64 \<Rightarrow> u64 \<Rightarrow> u64" where
  "asm_umodsi3 a0 a1 =
     sext_w (snd (udivdi3_regs (drop_bit 32 (push_bit 32 a0)) (drop_bit 32 (push_bit 32 a1))))"

definition asm_divsi3 :: "u64 \<Rightarrow> u64 \<Rightarrow> u64" where
  \<comment> \<open>the smallest number divided by -1 is itself\<close>
  "asm_divsi3 a0 a1 = (if a1 = - 1 \<and> a0 = push_bit 31 (- 1) then a0 else asm_divdi3 a0 a1)"

definition asm_modsi3 :: "u64 \<Rightarrow> u64 \<Rightarrow> u64" where "asm_modsi3 = asm_moddi3"

declare shift_up.simps [simp del] subtract_down.simps [simp del]

section \<open>The loops\<close>

lemma shift_up_result:
  "a2 \<noteq> 0 \<Longrightarrow> unat a2 = d * 2 ^ k \<Longrightarrow> a3 = push_bit k 1 \<Longrightarrow> k < 64 \<Longrightarrow>
    \<exists>j. k \<le> j \<and> j < 64 \<and> snd (shift_up a1 a2 a3) = push_bit j 1 \<and> unat (fst (shift_up a1 a2 a3)) = d * 2 ^ j \<and>
      (unat a1 < 2 * unat (fst (shift_up a1 a2 a3)))"
proof (induction a1 a2 a3 arbitrary: k rule: shift_up.induct)
  case (1 a1 a2 a3)
  show ?case
  proof (cases "sint a2 \<le> 0")
    case True
    then have "2 ^ 63 \<le> unat a2" using sint_pos_iff [of a2] 1(2) by auto
    then have "unat a1 < 2 * unat a2" using unat_lt_2p [of a1] by simp
    then show ?thesis using True 1(3-5) by (subst (1 2 3) shift_up.simps) (auto intro: exI [of _ k])
  next
    case False
    define b where "b = push_bit 1 a2"
    have a2: "unat a2 < 2 ^ 63" using False sint_pos_iff [of a2] by auto
    then have b: "unat b = d * 2 ^ Suc k" using 1(3) by (simp only: b_def unat_double power_Suc mult.left_commute)
    then have "b \<noteq> 0" using 1(2,3) by (auto simp: unat_gt_0 [symmetric])
    have "0 < d" using 1(2,3) by (auto simp: unat_gt_0 [symmetric])
    then have "2 ^ Suc k \<le> unat b" using b by simp
    then have k: "Suc k < 64" using unat_lt_2p [of b] power_less_imp_less_exp [of "2 :: nat" "Suc k" 64] by simp
    have c: "push_bit 1 a3 = push_bit (Suc k) 1" using 1(4) by (simp add: push_bit_push_bit)
    have su: "shift_up a1 a2 a3 = (if b < a1 then shift_up a1 b (push_bit (Suc k) 1) else (b, push_bit (Suc k) 1))"
      using False by (subst shift_up.simps) (simp only: Let_def if_False c b_def)
    show ?thesis
    proof (cases "b < a1")
      case True
      then obtain j where "Suc k \<le> j" "j < 64" "snd (shift_up a1 b (push_bit (Suc k) 1)) = push_bit j 1"
        "unat (fst (shift_up a1 b (push_bit (Suc k) 1))) = d * 2 ^ j" "unat a1 < 2 * unat (fst (shift_up a1 b (push_bit (Suc k) 1)))"
        using 1(1) [OF False b_def refl, of "Suc k"] b \<open>b \<noteq> 0\<close> k c by auto
      then show ?thesis using True by (intro exI [of _ j]) (simp add: su)
    next
      case no: False
      then have "unat a1 < 2 * unat b" using \<open>b \<noteq> 0\<close> by (simp add: word_le_nat_alt not_less unat_gt_0 [symmetric])
      then show ?thesis using no b k by (intro exI [of _ "Suc k"]) (simp add: su)
    qed
  qed
qed


lemma or_new_bit:
  assumes "2 ^ Suc k dvd unat a" and "unat a + 2 ^ k < 2 ^ 64" and "k < 64"
  shows "unat (a OR push_bit k 1) = unat (a :: u64) + 2 ^ k"
proof -
  have "take_bit (Suc k) (unat a) = 0" using assms(1) by (simp add: take_bit_eq_mod)
  then have "\<not> bit (take_bit (Suc k) (unat a)) k" by simp
  then have "\<not> bit a k" using assms(3) by (simp add: bit_take_bit_iff bit_unsigned_iff)
  then have "a AND push_bit k 1 = 0" by (intro bit_word_eqI) (auto simp: bit_simps)
  then have "a OR push_bit k 1 = a + push_bit k 1" by (simp only: disjunctive_add_eq_or)
  moreover have "unat (push_bit k (1 :: u64)) = 2 ^ k"
  proof -
    have "push_bit k (1 :: u64) = of_nat (2 ^ k)" by (simp add: push_bit_eq_mult)
    moreover have "unat (of_nat (2 ^ k) :: u64) = 2 ^ k" by (rule unat_of_nat_lt) (use assms(3) power_strict_increasing [of k 64 "2 :: nat"] in simp)
    ultimately show ?thesis by (simp only:)
  qed
  ultimately show ?thesis using assms(2) by (simp only:) (rule trans [OF unat_add_no_wrap], simp_all)
qed

lemma subtract_step:
  assumes "k < 64" "unat a2 = d * 2 ^ k" "unat a1 < 2 * unat a2" "2 ^ Suc k dvd unat a0" "unat a0 * d + unat a1 = N" "N < 2 ^ 64"
    and "(b0, b1) = (if a1 < a2 then (a0, a1) else (a0 OR push_bit k 1 :: u64, a1 - (a2 :: u64)))"
  shows "unat b1 < unat a2 \<and> 2 ^ k dvd unat b0 \<and> unat b0 * d + unat b1 = N"
proof (cases "a1 < a2")
  case True
  have "2 ^ k dvd unat a0" using assms(4) by (rule dvd_trans [rotated]) simp
  then show ?thesis using assms True by (simp add: word_less_nat_alt)
next
  case False
  have dv: "2 ^ k dvd unat a0" using assms(4) by (rule dvd_trans [rotated]) simp
  have le: "unat a2 \<le> unat a1" using False by (simp add: word_le_nat_alt not_less)
  have d: "0 < d" using assms(2,3) by (cases d) simp_all
  have "(unat a0 + 2 ^ k) * d \<le> N" using le assms(2,5) by (simp add: algebra_simps)
  then have n: "unat a0 + 2 ^ k \<le> N" using d by (metis le_trans mult_le_mono2 nat_mult_1_right Suc_leI One_nat_def)
  have "unat (a0 OR push_bit k 1) = unat a0 + 2 ^ k" by (rule or_new_bit) (use assms(1,4,6) n in \<open>linarith+\<close>)
  moreover have "unat (a1 - a2) = unat a1 - unat a2" using False by (simp add: unat_sub not_less)
  moreover have "b0 = a0 OR push_bit k 1 \<and> b1 = a1 - a2" using assms(7) by (simp only: False if_False prod.inject)
  ultimately have "unat b0 = unat a0 + 2 ^ k" "unat b1 = unat a1 - unat a2" by blast+
  moreover have "2 ^ k dvd unat a0 + 2 ^ k" using dv by simp
  ultimately show ?thesis using assms(2,3,5) le by (simp add: algebra_simps)
qed

lemma subtract_down_result:
  "k < 64 \<Longrightarrow> unat a2 = d * 2 ^ k \<Longrightarrow> unat a1 < 2 * unat a2 \<Longrightarrow> 2 ^ Suc k dvd unat a0 \<Longrightarrow>
    unat a0 * d + unat a1 = N \<Longrightarrow> N < 2 ^ 64 \<Longrightarrow>
    \<exists>q r. subtract_down a0 a1 a2 (push_bit k 1) = (q, r) \<and> unat q * d + unat r = N \<and> unat r < d"
proof (induction k arbitrary: a0 a1 a2)
  case 0
  obtain b0 b1 where b: "(b0, b1) = (if a1 < a2 then (a0, a1) else (a0 OR push_bit 0 1, a1 - a2))" by (metis surj_pair)
  have "subtract_down a0 a1 a2 (push_bit 0 1) = (b0, b1)"
    by (subst subtract_down.simps) (simp only: Let_def b [symmetric] prod.case, simp)
  then show ?case using subtract_step [OF 0 b] 0(2) by simp
next
  case (Suc k)
  obtain b0 b1 where b: "(b0, b1) = (if a1 < a2 then (a0, a1) else (a0 OR push_bit (Suc k) 1, a1 - a2))" by (metis surj_pair)
  note s = subtract_step [OF Suc.prems b]
  have half: "unat (drop_bit 1 a2) = d * 2 ^ k"
    using Suc.prems(2) by (simp add: drop_bit_eq_div unat_div_distrib)
  have one: "drop_bit 1 (push_bit (Suc k) (1 :: u64)) = push_bit k 1" using Suc.prems(1)
    by (intro bit_word_eqI) (auto simp: bit_simps)
  have nz: "push_bit k (1 :: u64) \<noteq> 0" using Suc.prems(1) by (simp add: push_bit_eq_mult exp_eq_zero_iff)
  have "subtract_down a0 a1 a2 (push_bit (Suc k) 1) = subtract_down b0 b1 (drop_bit 1 a2) (push_bit k 1)"
    by (subst subtract_down.simps) (simp only: Let_def b [symmetric] prod.case one nz if_True simp_thms)
  moreover have "\<exists>q r. subtract_down b0 b1 (drop_bit 1 a2) (push_bit k 1) = (q, r) \<and> unat q * d + unat r = N \<and> unat r < d"
    by (rule Suc.IH) (use s half Suc.prems in simp_all)
  ultimately show ?case by simp
qed

lemma udivdi3_regs_nonzero:
  assumes "b \<noteq> 0"
  shows "udivdi3_regs a b = (a div b, a mod b)"
proof -
  obtain j a2 where j: "(a2, push_bit j 1) = (if a \<le> b then (b, 1) else shift_up a b 1)" "j < 64" "unat a2 = unat b * 2 ^ j"
    "unat a < 2 * unat a2"
  proof (cases "a \<le> b")
    case True
    then have "unat a < 2 * unat b" using assms by (simp add: word_le_nat_alt unat_gt_0 [symmetric])
    then show ?thesis using True by (intro that [of b 0]) simp_all
  next
    case False
    obtain j where "j < 64" "snd (shift_up a b 1) = push_bit j 1" "unat (fst (shift_up a b 1)) = unat b * 2 ^ j"
      "unat a < 2 * unat (fst (shift_up a b 1))"
      using shift_up_result [OF assms, of "unat b" 0 1 a] by auto
    then show ?thesis using False by (intro that [of "fst (shift_up a b 1)" j]) (simp_all add: prod_eq_iff)
  qed
  have run: "udivdi3_regs a b = subtract_down 0 a a2 (push_bit j 1)"
    using assms j(1) [symmetric] by (simp add: udivdi3_regs_def split: prod.split)
  obtain q r where qr: "subtract_down 0 a a2 (push_bit j 1) = (q, r)" "unat q * unat b + unat r = unat a" "unat r < unat b"
    using subtract_down_result [OF j(2,3,4), of 0 "unat a"] unat_lt_2p [of a] by auto
  have "unat a div unat b = unat q" "unat a mod unat b = unat r"
    using qr(2,3) by (metis div_mult_self3 div_less add_0 mod_mult_self3 mod_less less_nat_zero_code add.commute)+
  then have "q = a div b" "r = a mod b" by (simp_all add: word_unat_eq_iff unat_div unat_mod)
  then show ?thesis using run qr(1) by simp
qed

lemma udivdi3_regs_zero: "udivdi3_regs a 0 = (- 1, a)"
  by (simp add: udivdi3_regs_def)


section \<open>Signed division\<close>

lemma sint_neg_cases: "b \<noteq> 0 \<Longrightarrow> \<not> 0 < sint b \<longleftrightarrow> sint (b :: u64) < 0"
  by (metis linorder_neqE_linordered_idom order_less_asym signed_eq_0_iff)

lemma asm_divdi3_result:
  "asm_divdi3 a b = (if b = 0 then - 1 else word_of_int (c_div (sint a) (sint b)))"
proof (cases "b = 0")
  case True
  then show ?thesis by (simp add: asm_divdi3_def udivdi3_regs_zero)
next
  case False
  then have "- b \<noteq> 0" by simp
  have "asm_divdi3 a b = (if (sint a < 0) \<noteq> (sint b < 0) then - ((if sint a < 0 then - a else a) div (if sint b < 0 then - b else b))
      else (if sint a < 0 then - a else a) div (if sint b < 0 then - b else b))"
    using udivdi3_regs_nonzero [OF False] udivdi3_regs_nonzero [OF \<open>- b \<noteq> 0\<close>] sint_neg_cases [OF False]
    by (simp add: asm_divdi3_def Let_def)
  then show ?thesis using False unfolding abs_div sgn_cdiv by simp
qed

lemma asm_moddi3_result:
  "asm_moddi3 a b = (if b = 0 then a else word_of_int (c_mod (sint a) (sint b)))"
proof (cases "b = 0")
  case True
  then show ?thesis by (simp add: asm_moddi3_def udivdi3_regs_zero)
next
  case False
  then have "- b \<noteq> 0" by simp
  have "asm_moddi3 a b = (if sint a < 0 then - ((if sint a < 0 then - a else a) mod (if sint b < 0 then - b else b))
      else (if sint a < 0 then - a else a) mod (if sint b < 0 then - b else b))"
    using udivdi3_regs_nonzero [OF False] udivdi3_regs_nonzero [OF \<open>- b \<noteq> 0\<close>]
    by (simp add: asm_moddi3_def Let_def)
  then show ?thesis using False unfolding abs_mod sgn_cmod by simp
qed

section \<open>32-bit operands\<close>

lemma scast_word_of_int: "- (2 ^ 31) \<le> v \<Longrightarrow> v < 2 ^ 31 \<Longrightarrow> scast (word_of_int v :: u32) = (word_of_int v :: u64)"
proof -
  assume v: "- (2 ^ 31) \<le> v" "v < 2 ^ 31"
  have "sint (word_of_int v :: u32) = signed_take_bit 31 v" by (simp add: signed_of_int)
  also have "\<dots> = v" using v by (intro signed_take_bit_int_eq_self) simp_all
  finally show ?thesis by (simp only: scast_eq)
qed

lemma sint_scast: "sint (scast p :: u64) = sint (p :: u32)"
  by (rule sint_up_scast) (simp add: is_up)

lemma scast_eq_iff: "scast w = (v :: u64) \<longleftrightarrow> sint (w :: u32) = sint v"
proof
  assume "sint w = sint v"
  then have "sint (scast w :: u64) = sint v" by (simp only: sint_scast)
  then show "scast w = v" by (rule signed_word_eqI)
qed (use sint_scast [of w] in simp)

lemma sint_u32_bounds: "- (2 ^ 31) \<le> sint (p :: u32) \<and> sint p < 2 ^ 31"
  using sint_greater_eq [of p] sint_less [of p] by simp

lemma scast_u32_0: "scast (p :: u32) = (0 :: u64) \<longleftrightarrow> p = 0"
  by (metis sint_scast signed_eq_0_iff)

lemma unat_ucast_u32: "unat (ucast (p :: u32) :: u64) = unat p"
  by (simp add: unsigned_ucast_eq take_bit_nat_eq_self unat_lt_2p order_less_le_trans [OF unat_lt_2p])

lemma sext_w_ucast: "sext_w (ucast (p :: u32)) = scast p"
  unfolding sext_w_def by (rule bit_word_eqI) (auto simp: bit_simps min_def)

lemma unat_shl32: "unat (push_bit 32 (a :: u64)) = unat (ucast a :: u32) * 2 ^ 32"
proof -
  have "unat (push_bit 32 a) = take_bit 64 (push_bit 32 (unat a))" by (simp add: unsigned_push_bit_eq)
  also have "\<dots> = push_bit 32 (take_bit 32 (unat a))" by (simp add: take_bit_push_bit)
  also have "take_bit 32 (unat a) = unat (ucast a :: u32)" by (simp add: unsigned_ucast_eq)
  finally show ?thesis by (simp add: push_bit_eq_mult)
qed

lemma shl32_0: "push_bit 32 (a :: u64) = 0 \<longleftrightarrow> (ucast a :: u32) = 0"
proof -
  have "push_bit 32 a = 0 \<longleftrightarrow> unat (push_bit 32 a) = 0" by (simp only: unat_eq_0)
  also have "\<dots> \<longleftrightarrow> unat (ucast a :: u32) = 0" by (simp only: unat_shl32) simp
  also have "\<dots> \<longleftrightarrow> (ucast a :: u32) = 0" by (simp only: unat_eq_0)
  finally show ?thesis .
qed

lemma shr_shl32: "drop_bit 32 (push_bit 32 (a :: u64)) = ucast (ucast a :: u32)"
  by (rule bit_word_eqI) (auto simp: bit_simps)

lemma asm_udivsi3_result:
  "asm_udivsi3 a b = scast (if (ucast b :: u32) = 0 then - 1 else ucast a div ucast b :: u32)"
proof (cases "(ucast b :: u32) = 0")
  case True
  then have "push_bit 32 b = 0" by (simp only: shl32_0)
  moreover have "sext_w (- 1) = - 1" unfolding sext_w_def by (rule bit_word_eqI) (auto simp: bit_simps)
  ultimately show ?thesis using True by (simp only: asm_udivsi3_def udivdi3_regs_zero fst_conv simp_thms if_True scast_n1)
next
  case False
  then have nz: "push_bit 32 b \<noteq> 0" by (simp only: shl32_0 not_False_eq_True)
  have "push_bit 32 a div push_bit 32 b = ucast (ucast a div ucast b :: u32)"
    by (simp only: word_unat_eq_iff unat_div unat_shl32 unat_ucast_u32) simp
  then show ?thesis using False
    by (simp only: asm_udivsi3_def udivdi3_regs_nonzero [OF nz] fst_conv if_False sext_w_ucast)
qed

lemma asm_umodsi3_result:
  "asm_umodsi3 a b = scast (if (ucast b :: u32) = 0 then ucast a else ucast a mod ucast b :: u32)"
proof (cases "(ucast b :: u32) = 0")
  case True
  then show ?thesis by (simp only: asm_umodsi3_def shr_shl32 if_True) (simp add: udivdi3_regs_zero sext_w_ucast)
next
  case False
  then have "unat (ucast (ucast b :: u32) :: u64) \<noteq> 0" by (simp only: unat_ucast_u32 unat_eq_0 not_False_eq_True)
  then have nz: "(ucast (ucast b :: u32) :: u64) \<noteq> 0" by (simp only: unat_eq_0 not_False_eq_True)
  have "(ucast (ucast a :: u32) :: u64) mod ucast (ucast b :: u32) = ucast (ucast a mod ucast b :: u32)"
    by (simp only: word_unat_eq_iff unat_mod unat_ucast_u32)
  then show ?thesis using False
    by (simp only: asm_umodsi3_def shr_shl32 udivdi3_regs_nonzero [OF nz] snd_conv if_False sext_w_ucast)
qed

lemma quotient_small:
  assumes a: "- n \<le> a \<and> a < (n :: int)" and "b \<noteq> 0" and "\<not> (a = - n \<and> b = - 1)" and "0 < n"
  shows "- n \<le> c_div a b \<and> c_div a b < n"
proof -
  have an: "\<bar>a\<bar> \<le> n" using a assms(4) by linarith
  define q where "q = \<bar>a\<bar> div \<bar>b\<bar>"
  have q: "0 \<le> q" "q \<le> \<bar>a\<bar>"
    using zdiv_mono2 [of "\<bar>a\<bar>" 1 "\<bar>b\<bar>"] assms(2) by (simp_all add: q_def pos_imp_zdiv_nonneg_iff)
  have "c_div a b < n"
  proof (cases "\<bar>b\<bar> = 1")
    case True
    then show ?thesis using assms by (cases "b = 1") (auto simp: sgn_cdiv)
  next
    case False
    then have "2 \<le> \<bar>b\<bar>" using assms(2) by simp
    then have "q \<le> \<bar>a\<bar> div 2" unfolding q_def by (intro zdiv_mono2) simp_all
    then have "q < n" using an assms(4) by linarith
    then show ?thesis using q(1) assms(4) by (simp add: sgn_cdiv flip: q_def)
  qed
  moreover have "- n \<le> c_div a b" using q an by (simp add: sgn_cdiv flip: q_def)
  ultimately show ?thesis by simp
qed

lemma asm_divsi3_result:
  "asm_divsi3 (scast p) (scast (q :: u32)) = scast (if q = 0 then - 1 else word_of_int (c_div (sint (p :: u32)) (sint q)) :: u32)"
proof (cases "q = 0")
  case True
  then show ?thesis by (simp add: asm_divsi3_def asm_divdi3_result scast_0 scast_n1)
next
  case q: False
  have "(push_bit 31 (- 1) :: u64) = word_of_int (- (2 ^ 31))" by (simp only: push_bit_eq_mult) simp
  moreover have "sint (word_of_int (- (2 ^ 31)) :: u64) = - (2 ^ 31)"
    by (subst signed_of_int, subst signed_take_bit_int_eq_self) simp_all
  ultimately have m: "sint (- 1 :: u64) = - 1" "sint (push_bit 31 (- 1) :: u64) = - (2 ^ 31)" by (simp, simp only:)
  have eq: "scast q = (- 1 :: u64) \<longleftrightarrow> sint q = - 1" "scast p = (push_bit 31 (- 1) :: u64) \<longleftrightarrow> sint p = - (2 ^ 31)"
    by (simp_all only: scast_eq_iff m)
  show ?thesis
  proof (cases "sint q = - 1 \<and> sint p = - (2 ^ 31)")
    case True
    then have s: "scast q = (- 1 :: u64)" "scast p = (push_bit 31 (- 1) :: u64)" by (simp_all only: eq)
    have "p = word_of_int (sint p)" by simp
    then have "p = word_of_int (- (2 ^ 31))" using True by (simp only:)
    also have "(word_of_int (- (2 ^ 31)) :: u32) = word_of_int (2 ^ 31)" by simp
    also have "(2 ^ 31 :: int) = c_div (sint p) (sint q)" using True by (simp add: c_div_def)
    finally have r: "word_of_int (c_div (sint p) (sint q)) = p" by (rule sym)
    have "asm_divsi3 (scast p) (scast q) = scast p" by (simp only: asm_divsi3_def s simp_thms if_True)
    then show ?thesis using q by (simp only: r if_False)
  next
    case False
    have "sint q \<noteq> 0" using q by (metis signed_eq_0_iff)
    then have "- (2 ^ 31) \<le> c_div (sint p) (sint q) \<and> c_div (sint p) (sint q) < 2 ^ 31"
      using False sint_u32_bounds [of p] by (intro quotient_small) auto
    then show ?thesis using False q
      by (simp only: asm_divsi3_def eq asm_divdi3_result sint_scast scast_u32_0 if_False scast_word_of_int simp_thms)
  qed
qed

lemma asm_modsi3_result:
  "asm_modsi3 (scast p) (scast (q :: u32)) = scast (if q = 0 then p else word_of_int (c_mod (sint p) (sint q)) :: u32)"
proof (cases "q = 0")
  case True
  then show ?thesis by (simp add: asm_modsi3_def asm_moddi3_result scast_0)
next
  case False
  define r where "r = \<bar>sint p\<bar> mod \<bar>sint q\<bar>"
  have "0 \<le> r \<and> r \<le> \<bar>sint p\<bar> \<and> r < \<bar>sint q\<bar>"
  proof -
    have "sint q \<noteq> 0" using False by (metis signed_eq_0_iff)
    then have "0 < \<bar>sint q\<bar>" by simp
    then show ?thesis unfolding r_def
      by (intro conjI pos_mod_sign pos_mod_bound zmod_le_nonneg_dividend) simp_all
  qed
  then have "\<bar>c_mod (sint p) (sint q)\<bar> \<le> \<bar>sint p\<bar>" "\<bar>c_mod (sint p) (sint q)\<bar> < \<bar>sint q\<bar>"
    by (simp_all only: sgn_cmod flip: r_def) auto
  then have "- (2 ^ 31) \<le> c_mod (sint p) (sint q) \<and> c_mod (sint p) (sint q) < 2 ^ 31"
    using sint_u32_bounds [of p] sint_u32_bounds [of q] by linarith
  then show ?thesis using False
    by (simp only: asm_modsi3_def asm_moddi3_result sint_scast scast_u32_0 if_False scast_word_of_int simp_thms)
qed

text \<open>C40: The division of the simulated core (\<open>div.S\<close> on RV64) is division: \<open>__udivdi3\<close> returns the unsigned quotient and
leaves the remainder in \<open>a1\<close>; \<open>__divdi3\<close> and \<open>__moddi3\<close> truncate towards zero, modulo \<open>2^64\<close>; the 32-bit routines do
the same on the low words and return the sign-extended result. With a divisor of zero every quotient is -1 and every remainder is the
dividend, and the smallest number divided by -1 is itself: exactly the \<open>div\<close> and \<open>rem\<close> instructions of the M extension, which
the routines stand for.\<close>
theorem asm_division_correct:
  "udivdi3_regs a b = (if b = 0 then (- 1, a) else (a div b, a mod b)) \<and>
   asm_umoddi3 a b = (if b = 0 then a else a mod b) \<and>
   asm_divdi3 a b = (if b = 0 then - 1 else word_of_int (c_div (sint a) (sint b))) \<and>
   asm_moddi3 a b = (if b = 0 then a else word_of_int (c_mod (sint a) (sint b))) \<and>
   asm_udivsi3 a b = scast (if (ucast b :: u32) = 0 then - 1 else ucast a div ucast b :: u32) \<and>
   asm_umodsi3 a b = scast (if (ucast b :: u32) = 0 then ucast a else ucast a mod ucast b :: u32) \<and>
   asm_divsi3 (scast (p :: u32)) (scast (q :: u32)) = scast (if q = 0 then - 1 else word_of_int (c_div (sint p) (sint q)) :: u32) \<and>
   asm_modsi3 (scast p) (scast q) = scast (if q = 0 then p else word_of_int (c_mod (sint p) (sint q)) :: u32)"
proof (intro conjI)
  show u: "udivdi3_regs a b = (if b = 0 then (- 1, a) else (a div b, a mod b))"
    by (simp add: udivdi3_regs_zero udivdi3_regs_nonzero)
  show "asm_umoddi3 a b = (if b = 0 then a else a mod b)" by (simp add: asm_umoddi3_def u)
qed (rule asm_divdi3_result asm_moddi3_result asm_udivsi3_result asm_umodsi3_result asm_divsi3_result asm_modsi3_result)+

end
