(* ===== verification/Sim_Bench.thy ===== *)
theory Sim_Bench
  imports Sim_Memory
begin

text \<open>
  The stand-alone test bench \<open>simulator/sim/main.c\<close> on the memory of \<open>simulator/sim/memory.c\<close>: it loads ten words, resets the
  core for one cycle and clocks it fifty times, tracing every evaluation. The Verilated core is a parameter that may fetch
  through \<open>dpi_instr_mem_read\<close>. Also the field macros of \<open>simulator/include/utils/macro.h\<close>.
\<close>

section \<open>The bench\<close>

type_synonym 'd core = "(u64 \<Rightarrow> c_error + u32) \<Rightarrow> bool \<Rightarrow> bool \<Rightarrow> 'd \<Rightarrow> c_error + 'd"
  \<comment> \<open>\<open>eval\<close> with the access to instructions, \<open>clk\<close> and \<open>rst\<close>\<close>

record 'd bench =
  core_state :: 'd
  bench_rst :: bool
  bench_time :: u64
  m_trace :: "(u64 \<times> bool \<times> bool \<times> 'd) list"   \<comment> \<open>what was dumped: the time, the inputs and the core\<close>

definition max_sim_time :: nat where "max_sim_time = 50"

definition bench_eval :: "'d core \<Rightarrow> mem \<Rightarrow> bool \<Rightarrow> 'd bench \<Rightarrow> c_error + 'd bench" where
  \<comment> \<open>\<open>dut.clk = clk; dut.eval(); m_trace->dump(sim_time++);\<close>\<close>
  "bench_eval E pm clk s =
     rbind (E (tb_dpi_instr_mem_read pm) clk (bench_rst s) (core_state s)) (\<lambda>d.
       Inr (s\<lparr>core_state := d, bench_time := bench_time s + 1, m_trace := m_trace s @ [(bench_time s, clk, bench_rst s, d)]\<rparr>))"

definition bench_cycle :: "'d core \<Rightarrow> mem \<Rightarrow> 'd bench \<Rightarrow> c_error + 'd bench" where
  "bench_cycle E pm s = rbind (bench_eval E pm False s) (bench_eval E pm True)"

fun bench_cycles :: "'d core \<Rightarrow> mem \<Rightarrow> nat \<Rightarrow> 'd bench \<Rightarrow> c_error + 'd bench" where
  "bench_cycles E pm 0 s = Inr s"
| "bench_cycles E pm (Suc n) s = rbind (bench_cycle E pm s) (bench_cycles E pm n)"

definition bench_reset :: "'d core \<Rightarrow> mem \<Rightarrow> int \<Rightarrow> 'd bench \<Rightarrow> c_error + 'd bench" where
  "bench_reset E pm n s =
     rbind (bench_cycles E pm (nat n) (s\<lparr>bench_rst := True\<rparr>)) (\<lambda>s. Inr (s\<lparr>bench_rst := False\<rparr>))"

definition bench_open :: "'d bench \<Rightarrow> 'd bench" where "bench_open s = s\<lparr>m_trace := []\<rparr>"

definition bench_init :: "'d core \<Rightarrow> mem \<Rightarrow> 'd bench \<Rightarrow> c_error + 'd bench" where
  "bench_init E pm s = bench_reset E pm 1 (bench_open s)"

definition bench_img :: "u32 list" where
  "bench_img = [0x11111111, 0x22222222, 0x33333333, 0x44444444, 0x55555555, 0x66666666, 0x77777777, 0x88888888, 0x99999999, 0x00100073]"

definition bench_load :: "mem \<Rightarrow> mem" where
  \<comment> \<open>\<open>load_builded_img\<close>\<close>
  "bench_load pm = write_bytes pm (tb_guest_to_host RESET_VECTOR) (concat (map (bytes_of_word 4) bench_img))"

definition bench_main :: "'d core \<Rightarrow> (nat \<Rightarrow> nat) \<Rightarrow> 'd bench \<Rightarrow> c_error + 'd bench" where
  \<comment> \<open>with the random numbers that fill the memory\<close>
  "bench_main E rnd s =
     (let pm = bench_load (tb_init_mem rnd)
      in rbind (bench_init E pm s) (bench_cycles E pm max_sim_time))"

section \<open>What the core sees\<close>

lemma stored_words:
  "stored m a (concat (map (bytes_of_word 4) ws)) \<Longrightarrow> i < length ws \<Longrightarrow> stored m (a + of_nat (4 * i)) (bytes_of_word 4 (ws ! i :: u32))"
proof (induction ws arbitrary: a i)
  case (Cons w ws)
  then have s: "stored m a (bytes_of_word 4 w)" "stored m (a + 4) (concat (map (bytes_of_word 4) ws))"
    by (simp_all add: stored_append del: bytes_of_word.simps)
  show ?case
  proof (cases i)
    case (Suc j)
    have "stored m (a + 4 + of_nat (4 * j)) (bytes_of_word 4 (ws ! j))" by (rule Cons.IH) (use Cons.prems s Suc in simp_all)
    moreover have "a + 4 + of_nat (4 * j) = a + of_nat (4 * Suc j)" by simp
    ultimately show ?thesis using Suc by (simp only: nth_Cons_Suc)
  qed (use s in simp)
qed simp

lemma bytes_of_ucast: "bytes_of_word n (ucast w :: u64) = bytes_of_word n (w :: u32)"
proof (induction n arbitrary: w)
  case (Suc n)
  have "drop_bit 8 (ucast w :: u64) = ucast (drop_bit 8 w)" by (rule bit_word_eqI) (auto simp: bit_simps dest: bit_imp_le_length)
  moreover have "(ucast (ucast w :: u64) :: u8) = ucast w" by (rule bit_word_eqI) (auto simp: bit_simps)
  ultimately show ?case using Suc by simp
qed simp

lemma bench_fetch:
  assumes "i < 10"
  shows "tb_dpi_instr_mem_read (bench_load pm) (RESET_VECTOR + of_nat (4 * i)) = Inr (bench_img ! i)"
proof -
  have "stored (bench_load pm) (tb_guest_to_host RESET_VECTOR) (concat (map (bytes_of_word 4) bench_img))"
    unfolding bench_load_def by (rule stored_write) (simp add: bench_img_def)
  then have st: "stored (bench_load pm) (tb_guest_to_host RESET_VECTOR + of_nat (4 * i)) (bytes_of_word 4 (bench_img ! i))"
    by (rule stored_words) (use assms in \<open>simp add: bench_img_def\<close>)
  define off where "off = (of_nat (4 * i) :: u64)"
  have u: "unat off = 4 * i" unfolding off_def by (rule unat_of_nat_lt) (use assms in simp)
  then have lt: "off < 0x100" using assms by (simp add: word_less_nat_alt)
  have a: "tb_guest_to_host (RESET_VECTOR + off) = off" "tb_guest_to_host RESET_VECTOR + off = off"
    by (simp_all add: tb_guest_to_host_def RESET_VECTOR_def PMEM_LEFT_def CONFIG_PC_RESET_OFFSET_def CONFIG_MBASE_def)
  have "unat (0x80000000 + off) = 0x80000000 + unat off" using u assms unat_add_no_wrap [of "0x80000000" off] by simp
  then have rng: "CONFIG_MBASE \<le> RESET_VECTOR + off \<and> RESET_VECTOR + off < CONFIG_MBASE + CONFIG_MSIZE"
    using u assms by (simp add: word_le_nat_alt word_less_nat_alt RESET_VECTOR_def PMEM_LEFT_def CONFIG_PC_RESET_OFFSET_def
        CONFIG_MBASE_def CONFIG_MSIZE_def)
  have "load 4 (bench_load pm) off = (ucast (bench_img ! i) :: u64)"
  proof -
    have "stored (bench_load pm) off (bytes_of_word 4 (bench_img ! i))" using st a(2) by (simp only: off_def)
    then have "stored (bench_load pm) off (bytes_of_word 4 (ucast (bench_img ! i) :: u64))"
      by (simp only: bytes_of_ucast)
    moreover have "take_bit (8 * 4) (ucast (bench_img ! i) :: u64) = ucast (bench_img ! i)"
      by (rule bit_word_eqI) (auto simp: bit_simps dest: bit_imp_le_length)
    ultimately show ?thesis using load_stored [of "bench_load pm" off 4 "ucast (bench_img ! i) :: u64"] by metis
  qed
  moreover have "(ucast (ucast (bench_img ! i) :: u64) :: u32) = bench_img ! i" by (rule bit_word_eqI) (auto simp: bit_simps)
  ultimately have "tb_dpi_instr_mem_read (bench_load pm) (RESET_VECTOR + off) = Inr (bench_img ! i)"
    using rng u assms by (simp add: tb_dpi_instr_mem_read_def tb_pmem_read_def tb_host_read_def host_ok_def CONFIG_MSIZE_def a)
  then show ?thesis by (simp only: off_def)
qed

section \<open>How the core is clocked\<close>

definition clocked :: "u64 \<Rightarrow> bool \<Rightarrow> (u64 \<times> bool \<times> bool \<times> 'd) list \<Rightarrow> nat \<Rightarrow> bool" where
  \<comment> \<open>the trace of this many cycles with this reset input, from this time on: low, then high, at consecutive times\<close>
  "clocked t0 r ds n \<longleftrightarrow> map (\<lambda>(t, clk, rst, d). (t, clk, rst)) ds =
     map (\<lambda>k. (t0 + of_nat k, odd k, r)) [0..<2 * n]"

lemma bench_cycles_trace:
  "bench_cycles E pm n s = Inr s' \<Longrightarrow>
    \<exists>ds. m_trace s' = m_trace s @ ds \<and> clocked (bench_time s) (bench_rst s) ds n \<and> bench_rst s' = bench_rst s \<and>
      bench_time s' = bench_time s + of_nat (2 * n)"
proof (induction n arbitrary: s)
  case (Suc n)
  then obtain s1 d1 d2 where s1: "bench_cycles E pm n s1 = Inr s'"
    and c: "s1 = s\<lparr>core_state := d2, bench_time := bench_time s + 1 + 1,
        m_trace := m_trace s @ [(bench_time s, False, bench_rst s, d1), (bench_time s + 1, True, bench_rst s, d2)]\<rparr>"
    by (fastforce simp: bench_cycle_def bench_eval_def rbind_Inr_iff)
  from Suc.IH [OF s1] obtain ds where ds: "m_trace s' = m_trace s1 @ ds" "clocked (bench_time s1) (bench_rst s1) ds n"
    "bench_rst s' = bench_rst s1" "bench_time s' = bench_time s1 + of_nat (2 * n)" by blast
  have "[0..<2 * Suc n] = 0 # 1 # map (\<lambda>k. k + 2) [0..<2 * n]"
    by (simp only: map_add_upt) (simp add: upt_conv_Cons numeral_2_eq_2 del: upt_Suc)
  then have "clocked (bench_time s) (bench_rst s)
      ([(bench_time s, False, bench_rst s, d1), (bench_time s + 1, True, bench_rst s, d2)] @ ds) (Suc n)"
    using ds(2) by (simp add: clocked_def c comp_def algebra_simps del: upt_Suc)
  then show ?case using ds by (intro exI [of _ "[(bench_time s, False, bench_rst s, d1), (bench_time s + 1, True, bench_rst s, d2)] @ ds"])
    (simp add: c)
qed (simp add: clocked_def)

lemma bench_main_trace:
  assumes "bench_main E rnd s = Inr s'"
  shows "\<exists>ds1 ds2. m_trace s' = ds1 @ ds2 \<and> clocked (bench_time s) True ds1 1 \<and> clocked (bench_time s + 2) False ds2 50 \<and>
    \<not> bench_rst s'"
proof -
  define pm where "pm = bench_load (tb_init_mem rnd)"
  obtain s1 where s1: "bench_cycles E pm 1 (bench_open s\<lparr>bench_rst := True\<rparr>) = Inr s1"
    and s': "bench_cycles E pm 50 (s1\<lparr>bench_rst := False\<rparr>) = Inr s'"
    using assms by (auto simp: bench_main_def bench_init_def bench_reset_def max_sim_time_def rbind_Inr_iff
        simp del: bench_cycles.simps simp flip: pm_def)
  from bench_cycles_trace [OF s1] obtain ds1 where d1: "m_trace s1 = ds1" "clocked (bench_time s) True ds1 1"
    "bench_time s1 = bench_time s + 2"
    by (auto simp: bench_open_def)
  from bench_cycles_trace [OF s'] obtain ds2 where "m_trace s' = ds1 @ ds2" "clocked (bench_time s + 2) False ds2 50" "\<not> bench_rst s'"
    using d1 by auto
  with d1 show ?thesis by blast
qed

section \<open>Bit fields\<close>

definition BITMASK :: "nat \<Rightarrow> u64" where
  \<comment> \<open>for fewer than 64 bits; C leaves the shift by 64 undefined\<close>
  "BITMASK n = push_bit n 1 - 1"
definition BITS :: "u64 \<Rightarrow> nat \<Rightarrow> nat \<Rightarrow> u64" where "BITS v hi lo = drop_bit lo v AND BITMASK (hi - lo + 1)"

definition SEXT :: "u64 \<Rightarrow> nat \<Rightarrow> u64" where
  \<comment> \<open>through a signed bit-field of this width\<close>
  "SEXT v len = signed_take_bit (len - 1) v"

definition UEXT :: "u64 \<Rightarrow> nat \<Rightarrow> u64" where "UEXT v len = take_bit len v"

lemma BITMASK_mask: "BITMASK n = mask n"
  by (simp add: BITMASK_def mask_eq_exp_minus_1 push_bit_eq_mult)

lemma BITS_bits: "lo \<le> hi \<Longrightarrow> hi < 64 \<Longrightarrow> bit (BITS v hi lo) i \<longleftrightarrow> lo + i \<le> hi \<and> bit v (lo + i)"
  by (auto simp: BITS_def BITMASK_mask bit_simps)

lemma SEXT_value: "0 < len \<Longrightarrow> len \<le> 64 \<Longrightarrow> sint (SEXT v len) = signed_take_bit (len - 1) (uint v)"
  by (rule bit_eqI) (auto simp: SEXT_def bit_simps min_def dest: bit_imp_le_length)

end
