(* ===== verification/Spec2Isabelle.thy ===== *)
theory Spec2Isabelle
  imports Klib_Stdio Int64 Sim_Exec X86_IOE Core_Main Native_MPE
    Native_IOE Nemu_IOE Nemu_CTE Nemu_VME Npc_IOE Spike Libgcc Libgcc_Div Sim_Bench
begin

text \<open>
  A verification library for the software around a small CPU: the C library \<open>klib\<close> and the abstract machine
  (\<open>abstract-machine/\<close>), which give programs one interface on many processors; the simulator that runs the core
  against a reference (\<open>simulator/\<close>); and the benchmark CoreMark (\<open>software-test/benchmarks/coremark\<close>), which runs on both.

  \<^bold>\<open>How the program is modelled.\<close> Machine integers are words of their width, signed ones are read by \<open>sint\<close> or are
  integers with the range checked where C leaves overflow undefined. Memory is a map from 64-bit addresses to bytes, or a map
  from addresses to words or structures where the code never mixes the two. Failing (an assertion, a panic, a null or
  out-of-bounds access, a division by zero, an overflow, \<open>exit\<close>) is the left value \<open>c_error\<close> of a sum. A loop that need not
  end is a \<open>partial_function (option)\<close> whose value is then \<open>None\<close>, so that returning is something to prove; no definition
  has fuel. Hardware, operating systems, libraries outside the repository, the Verilated core and the user's callbacks are
  parameters, records of functions on a state of their own.

  \<^bold>\<open>The parts and their theories.\<close>
  \<^item> \<open>Prelude\<close>: types, errors, byte memory, and the collections of rewrite rules that all parts use. \<open>Linked\<close>: lists in
    memory. \<open>Fifo\<close>: the contract of a bounded queue.
  \<^item> \<open>klib/src\<close>: \<open>Klib_String\<close> (\<open>string.c\<close>), \<open>Klib_Stdlib\<close> (\<open>stdlib.c\<close>), \<open>Klib_Stdio\<close> (\<open>stdio.c\<close>), \<open>Int64\<close>
    (\<open>int64.c\<close>). Each routine is shown equal to its meaning on lists, strings or integers; the formatter against a grammar of
    format strings, the division against \<open>div\<close> and \<open>mod\<close> through the locale \<open>udivmod\<close>.
  \<^item> \<open>am/include\<close>: \<open>AM_Base\<close> (\<open>am.h\<close>, \<open>klib-macros.h\<close>), \<open>AM_Dev\<close> (\<open>amdev.h\<close>), \<open>AM_IOE\<close> (the device
    dispatch, with the locale \<open>device_table\<close> that every platform interprets).
  \<^item> \<open>am/src/x86/qemu\<close>: \<open>X86_VME\<close> (page tables refine a map from pages to pages), \<open>X86_APIC\<close> (interrupt controllers and
    processors), \<open>X86_Trap\<close> (descriptors, events, context switches), \<open>X86_Start\<close> (start-up, boot loader), \<open>X86_IOE\<close>
    (devices). The build is the one for x86_64.
  \<^item> \<open>am/src/native\<close>: \<open>Native_Platform\<close> (start-up), \<open>Native_VME\<close> (address spaces as lists of pages), \<open>Native_CTE\<close>
    (signals as traps), \<open>Native_IOE\<close> (devices; the key ring interprets the locale \<open>fifo\<close>), \<open>Native_MPE\<close> (processors are
    processes that interleave: a step relation with its reachable states).
  \<^item> \<open>am/src/platform/nemu\<close> and the small processors: \<open>Nemu_IOE\<close> (devices), \<open>Nemu_CTE\<close> (traps, with RISC-V's
    \<open>trap.S\<close>), \<open>Nemu_VME\<close> (address spaces; the locale \<open>root_register\<close> for \<open>satp\<close>, \<open>cr3\<close> and the variable of MIPS
    and LoongArch).
  \<^item> \<open>am/src/riscv/npc\<close> and \<open>am/src/platform/dummy\<close>: \<open>Npc_IOE\<close>, and \<open>Libgcc\<close>, \<open>Libgcc_Div\<close> for the compiler support routines;
    \<open>am/src/riscv/spike\<close>: \<open>Spike\<close> (the host interface, its lock, the clock).
  \<^item> \<open>simulator\<close>: \<open>Sim_Memory\<close> (the locale \<open>guest_memory\<close>), \<open>Sim_Exec\<close> (clocking, differential testing, run states),
    \<open>Sim_Bench\<close> (the stand-alone test bench).
  \<^item> CoreMark: \<open>Core_Util\<close> (the checksum), \<open>Core_State\<close> (the number classifier), \<open>Core_Matrix\<close>, \<open>Core_List\<close> with
    \<open>Core_Sort\<close> (the merge sort refines a stable sort of the list of cells) and \<open>Core_Bench\<close>, \<open>Core_Main\<close>.

  This theory holds what spans the platforms: programs reach devices through \<open>ioe_read\<close> and \<open>ioe_write\<close> on all of them, and
  the access keeps the type of the register on each.

  \<^bold>\<open>Bounds.\<close> Theorems about memory ask that objects do not wrap around the address space, and where the code keeps a size in
  an \<open>int\<close> that it fits; the theorems about the key ring, the matrices and the lists carry the capacity of the array. Where the
  code does something else beyond the bound there is a lemma that says what (for example \<open>memmove_large_copies_nothing\<close>,
  \<open>keyboard_overflow\<close>, \<open>remap_hangs_switch\<close>).

  \<^bold>\<open>Not modelled.\<close> The cores in Verilog, the LLVM disassembler and the logo of the simulator; assembly other than RISC-V's
  \<open>trap.S\<close>, \<open>__muldi3\<close> and \<open>div.S\<close>; the variants of \<open>longlong.h\<close> for other processors and the configuration macros of \<open>libgcc2.h\<close>,
  which are not part of a RISC-V build; the 32-bit build of x86-qemu; \<open>__am_irq_handle\<close> of LoongArch, which does not compile;
  logging, wave files and graphics windows, which only print; microbench, dhrystone and the test programs.
\<close>

section \<open>The devices of all platforms\<close>

text \<open>C2: Type safety of the device registers on all six platforms. Each of the 24 registers has a structure of its own
(\<open>reg_buf_exists\<close>). After \<open>ioe_init\<close>, whatever state the devices are in, an access to a register with its structure ends
with a structure of the same register, with a panic, or with one of the failures that the platform's handlers have (on x86-qemu a
division by zero in the clock when no second has passed and an overflow of coordinates in drawing; an assertion or an overflow in the
disk of native), and a register that the platform's table does not have ends with the panic of \<open>fail\<close>: no handler reads a
structure that was made for another register, which would be the failure \<open>Bad_va_arg\<close>, and no entry of the table is null. The one
exception is on npc: its handler of the serial line's configuration is declared with the structure of the keyboard's configuration, so
that the result is one of register 7. The dummy platform's \<open>ioe_init\<close> fails, and each access to it panics.\<close>
theorem device_dispatch_typed:
  assumes "reg_buf reg buf"
  shows "(\<forall>H cpu s0 tab s1 s. X86_IOE.ioe_init H cpu X86_IOE.lut s0 = Some (Inr (tab, s1)) \<longrightarrow>
      answers {Div_by_zero, Int_overflow} reg (X86_IOE.lut reg) (X86_IOE.ioe_access H tab reg buf s)) \<and>
    (\<forall>M w0 w. answers {} reg (Nemu_IOE.lut reg) (Nemu_IOE.ioe_access M (fst (snd (Nemu_IOE.ioe_init Nemu_IOE.lut w0))) reg buf w)) \<and>
    (\<forall>H win s0 tab s1 s. Native_IOE.ioe_init H win Nemu_IOE.lut s0 = Inr (True, tab, s1) \<longrightarrow>
      answers {Assert_fail, Int_overflow} reg (Nemu_IOE.lut reg) (Native_IOE.ioe_access H tab reg buf s)) \<and>
    (\<forall>s0 s. answers {} (if reg = AM_UART_CONFIG then AM_INPUT_CONFIG else reg) (Npc_IOE.lut reg)
      (Npc_IOE.ioe_access (fst (snd (Npc_IOE.ioe_init Npc_IOE.lut s0))) reg buf s)) \<and>
    (\<forall>ld s0 s. answers {} reg (Spike.lut reg) (Spike.ioe_access ld (fst (snd (Spike.ioe_init ld Spike.lut s0))) reg buf s)) \<and>
    (\<forall>s. dummy_ioe_init s = (False, s) \<and> dummy_ioe_access reg buf s = Some (Inl (Panic ''access nonexist register'')))"
proof (intro conjI allI impI)
  fix H cpu s0 tab s1 s assume "X86_IOE.ioe_init H cpu X86_IOE.lut s0 = Some (Inr (tab, s1))"
  then have "tab = fill_table X86_IOE.lut X86_IOE.H_fail" by (rule ioe_init_table)
  then show "answers {Div_by_zero, Int_overflow} reg (X86_IOE.lut reg) (X86_IOE.ioe_access H tab reg buf s)"
    using x86_devices.access_answers [OF assms] by (simp add: X86_IOE.ioe_access_def)
next
  fix M w0 w
  show "answers {} reg (Nemu_IOE.lut reg) (Nemu_IOE.ioe_access M (fst (snd (Nemu_IOE.ioe_init Nemu_IOE.lut w0))) reg buf w)"
    using nemu_devices.access_answers [OF assms] by (simp add: Nemu_IOE.ioe_access_def Nemu_IOE.ioe_init_def)
next
  fix H win s0 tab s1 s assume "Native_IOE.ioe_init H win Nemu_IOE.lut s0 = Inr (True, tab, s1)"
  then have "tab = fill_table Nemu_IOE.lut Nemu_IOE.H_fail" by (auto simp: Native_IOE.ioe_init_def rbind_Inr_iff)
  then show "answers {Assert_fail, Int_overflow} reg (Nemu_IOE.lut reg) (Native_IOE.ioe_access H tab reg buf s)"
    using native_devices.access_answers [OF assms] by (simp add: Native_IOE.ioe_access_def)
next
  fix s0 s
  show "answers {} (if reg = AM_UART_CONFIG then AM_INPUT_CONFIG else reg) (Npc_IOE.lut reg)
      (Npc_IOE.ioe_access (fst (snd (Npc_IOE.ioe_init Npc_IOE.lut s0))) reg buf s)"
    using npc_devices.access_answers [OF assms]
    by (simp only: Npc_IOE.ioe_access_def Npc_IOE.ioe_init_def fst_conv snd_conv handler_reg_def)
next
  fix ld s0 s
  show "answers {} reg (Spike.lut reg) (Spike.ioe_access ld (fst (snd (Spike.ioe_init ld Spike.lut s0))) reg buf s)"
    using spike_devices.access_answers [OF assms] by (simp add: Spike.ioe_access_def Spike.ioe_init_def split: prod.splits)
qed (simp_all add: dummy_ioe_init_def dummy_ioe_access_def)

theorem device_dispatch_typed_witness:
  "answers {} AM_TIMER_UPTIME (Spike.lut AM_TIMER_UPTIME)
     (Spike.ioe_access (\<lambda>a w. (7, w)) (fst (snd (Spike.ioe_init (\<lambda>a w. (7, w)) Spike.lut \<lparr>boot_time = 0, spike_hw = ()\<rparr>)))
       AM_TIMER_UPTIME (Timer_uptime 0) \<lparr>boot_time = 0, spike_hw = ()\<rparr>) \<and>
   Npc_IOE.ioe_access (fst (snd (Npc_IOE.ioe_init Npc_IOE.lut ()))) AM_TIMER_UPTIME (Timer_uptime 5) () = Some (Inr (Timer_uptime 0, ()))"
proof (rule conjI)
  have b: "reg_buf AM_TIMER_UPTIME (Timer_uptime 0)" by (simp add: AM_reg_defs)
  show "answers {} AM_TIMER_UPTIME (Spike.lut AM_TIMER_UPTIME)
     (Spike.ioe_access (\<lambda>a w. (7, w)) (fst (snd (Spike.ioe_init (\<lambda>a w. (7, w)) Spike.lut \<lparr>boot_time = 0, spike_hw = ()\<rparr>)))
       AM_TIMER_UPTIME (Timer_uptime 0) \<lparr>boot_time = 0, spike_hw = ()\<rparr>)"
    by (rule device_dispatch_typed [OF b, THEN conjunct2, THEN conjunct2, THEN conjunct2, THEN conjunct2, THEN conjunct1, rule_format])
qed (simp add: Npc_IOE.ioe_access_def Npc_IOE.ioe_init_def table_access_def fill_table_def Npc_IOE.lut_def Npc_IOE.run_handler_def
      Npc_IOE.timer_uptime_def AM_reg_defs)

end
